(* ===== verification/Prelude.thy ===== *)
theory Prelude
  imports Main "HOL-Library.Word"
begin

unbundle bit_operations_syntax

text \<open>
  Shared vocabulary of the development: the machine types of the C code (an LP64 target, so
  \<open>size_t\<close> is 64 bits wide), big- and little-endian readings of byte lists, and the facts on
  words, options and lists that several components use.

  A C function that returns 1 or 0 and updates objects through pointers is modelled by a
  function from the old state to a pair: the out-parameters as an \<open>option\<close> (None for a
  return value of 0) and the new state, which is given on failure as well.
\<close>

type_synonym u8 = "8 word"
type_synonym u16 = "16 word"
type_synonym u32 = "32 word"
type_synonym u64 = "64 word"
type_synonym size_t = "64 word"

named_theorems byte_simps \<comment> \<open>byte list readings\<close>
named_theorems stream_simps \<comment> \<open>one step of a stream or cursor operation\<close>

section \<open>Words\<close>

lemma word_and_mask_take_bit: "(w :: 'a::len word) AND mask n = take_bit n w"
  by (simp add: take_bit_eq_mask)

lemma and_7F_take_bit: "(w :: 'a::len word) AND 0x7F = take_bit 7 w"
proof -
  have "(0x7F :: 'a word) = mask 7" by (simp add: mask_eq_exp_minus_1)
  then show ?thesis by (simp only: word_and_mask_take_bit)
qed

lemma and_FF_take_bit: "(w :: 'a::len word) AND 0xFF = take_bit 8 w"
proof -
  have "(0xFF :: 'a word) = mask 8" by (simp add: mask_eq_exp_minus_1)
  then show ?thesis by (simp only: word_and_mask_take_bit)
qed

lemma unat_drop_bit_div: "unat (drop_bit n (w :: 'a::len word)) = unat w div 2 ^ n"
  unfolding unat_drop_bit_eq by (rule drop_bit_eq_div)

lemma unat_take_bit_mod: "unat (take_bit n (w :: 'a::len word)) = unat w mod 2 ^ n"
  unfolding unsigned_take_bit_eq by (rule take_bit_eq_mod)

lemma unat_ucast_mod: "unat (ucast (w :: 'a::len word) :: 'b::len word) = unat w mod 2 ^ LENGTH('b)"
  unfolding unsigned_ucast_eq by (rule take_bit_eq_mod)

lemma unat_push_bit_mod: "unat (push_bit n (w :: 'a::len word)) = unat w * 2 ^ n mod 2 ^ LENGTH('a)"
  by (simp only: unsigned_push_bit_eq) (simp only: take_bit_eq_mod push_bit_eq_mult)

lemma word_eq_unatI: "unat (a :: 'a::len word) = unat b \<Longrightarrow> a = b"
  by (simp add: word_unat_eq_iff)

lemma unat_less_two_power: "unat (w :: 'a::len word) < 2 ^ LENGTH('a)"
  by (rule unsigned_less)

lemma unat_drop_bit_less:
  fixes w :: "'a::len word"
  assumes "w \<noteq> 0" and "0 < n"
  shows "unat (drop_bit n w) < unat w"
proof -
  have "unat (drop_bit n w) = unat w div 2 ^ n" by (rule unat_drop_bit_div)
  moreover have "0 < unat w" using assms(1) by (simp add: unat_gt_0)
  moreover have "(1::nat) < 2 ^ n" using assms(2) by (rule one_less_power [rotated]) simp
  ultimately show ?thesis by simp
qed

lemma take_bit_or_push_bit:
  fixes v :: "'a::len word"
  shows "take_bit k v OR push_bit k (take_bit n (drop_bit k v)) = take_bit (k + n) v"
  by (rule bit_word_eqI) (auto simp: bit_simps)

lemma drop_bit_eq_0_iff_take_bit:
  fixes v :: "'a::len word"
  assumes "drop_bit k v = 0"
  shows "take_bit k v = v"
  using bits_ident [of k v] assms by simp

lemma unat_less_pow_drop_bit:
  fixes v :: "'a::len word"
  assumes "unat v < 2 ^ k"
  shows "drop_bit k v = 0"
proof -
  have "unat (drop_bit k v) = 0"
    using assms by (simp only: unat_drop_bit_div div_less)
  then show ?thesis by (simp add: unat_eq_zero)
qed

lemma xor_eq_0_word: "(a :: 'a::len word) XOR b = 0 \<longleftrightarrow> a = b"
proof
  assume "a XOR b = 0"
  then have "(a XOR b) XOR b = b" by simp
  then show "a = b" by (simp add: xor.assoc)
qed simp

lemma unat_add_no_wrap:
  assumes "\<not> a + b < (a :: 'a::len word)"
  shows "unat (a + b) = unat a + unat b"
  using assms no_olen_add_nat [of a b] unat_add_lem [of a b] by (simp add: not_less)

lemma ucast_ucast_byte:
  "(ucast (ucast ((w :: 'a::len word) AND 0xFF) :: u8) :: 'a word) = take_bit 8 w"
proof (rule word_eq_unatI)
  have "unat w mod 256 < 2 ^ LENGTH('a)"
    by (rule le_less_trans [OF mod_less_eq_dividend unat_less_two_power])
  then show "unat (ucast (ucast (w AND 0xFF) :: u8) :: 'a word) = unat (take_bit 8 w)"
    by (simp add: and_FF_take_bit unat_ucast_mod unat_take_bit_mod)
qed

section \<open>Big- and little-endian byte lists\<close>

fun be_val :: "u8 list \<Rightarrow> nat" where
  "be_val [] = 0"
| "be_val (b # bs) = unat b * 256 ^ length bs + be_val bs"

fun le_val :: "u8 list \<Rightarrow> nat" where
  "le_val [] = 0"
| "le_val (b # bs) = unat b + 256 * le_val bs"

lemma unat_u8_lt [simp]: "unat (b :: u8) < 256"
proof -
  have "unat b < 2 ^ LENGTH(8)" by (rule unsigned_less)
  then show ?thesis by simp
qed

lemma unat_ucast_u8_size: "unat (ucast (w :: u8) :: size_t) = unat w"
proof -
  have "unat w < 2 ^ LENGTH(64)" by (rule less_trans [OF unat_u8_lt]) simp
  then show ?thesis by (simp only: unat_ucast_mod mod_less)
qed

lemma unat_ucast_u8_u32: "unat (ucast (w :: u8) :: u32) = unat w"
proof -
  have "unat w < 2 ^ LENGTH(32)" by (rule less_trans [OF unat_u8_lt]) simp
  then show ?thesis by (simp only: unat_ucast_mod mod_less)
qed

lemma unat_push8_or:
  fixes v :: "'a::len word"
  assumes "unat v * 256 < 2 ^ LENGTH('a)" and "8 \<le> LENGTH('a)"
  shows "unat (push_bit 8 v OR ucast (b :: u8)) = unat v * 256 + unat b"
proof -
  have "push_bit 8 v OR ucast b = push_bit 8 v + ucast b"
    by (rule disjunctive_add_eq_or [symmetric], rule bit_word_eqI)
      (auto simp: bit_simps dest: bit_imp_le_length)
  moreover have pv: "unat (push_bit 8 v) = unat v * 256"
    using assms(1) by (simp only: unat_push_bit_mod) simp
  moreover have pb: "unat (ucast b :: 'a word) = unat b"
  proof -
    have "(2::nat) ^ 8 \<le> 2 ^ LENGTH('a)" using assms(2) by (intro power_increasing) simp_all
    then have "unat b < 2 ^ LENGTH('a)" by (intro less_le_trans [OF unat_u8_lt]) simp
    then show ?thesis by (simp add: unat_ucast_mod)
  qed
  moreover have "unat (push_bit 8 v + ucast b) = unat (push_bit 8 v) + unat (ucast b :: 'a word)"
  proof -
    obtain k where k: "LENGTH('a) = 8 + k" using assms(2) le_Suc_ex by blast
    then have "unat v < 2 ^ k" using assms(1) by (simp add: power_add)
    then have "unat v * 256 + 255 < 2 ^ LENGTH('a)" by (simp add: k power_add)
    then have "unat (push_bit 8 v) + unat (ucast b :: 'a word) < 2 ^ LENGTH('a)"
      using pv pb unat_u8_lt [of b] by linarith
    then show ?thesis by (rule unat_add_lem [THEN iffD1])
  qed
  ultimately show ?thesis by simp
qed

lemma and_80_bit: "(b :: u8) AND 0x80 = 0 \<longleftrightarrow> \<not> bit b 7"
proof -
  have "(0x80 :: u8) = push_bit 7 1" by simp
  then show ?thesis
    by (metis and_exp_eq_0_iff_not_bit push_bit_of_1)
qed

lemma bit7_clear: "\<not> bit (b :: u8) 7 \<Longrightarrow> unat b mod 128 = unat b"
proof -
  assume "\<not> bit b 7"
  then have "take_bit 7 b = b"
    by (intro bit_word_eqI) (auto simp: bit_simps less_Suc_eq numeral_eq_Suc)
  then have "unat (take_bit 7 b) = unat b" by simp
  then show ?thesis by (simp add: unat_take_bit_mod)
qed

lemma bit7_iff: "(b :: u8) AND 0x80 = 0 \<longleftrightarrow> unat b < 128"
proof
  assume "b AND 0x80 = 0"
  then have "unat b mod 128 = unat b" by (intro bit7_clear) (simp add: and_80_bit)
  then show "unat b < 128" by (metis mod_less_divisor zero_less_numeral)
next
  assume "unat b < 128"
  then have "drop_bit 7 b = 0" by (intro unat_less_pow_drop_bit) simp
  then have "\<not> bit (drop_bit 7 b) 0" by simp
  then show "b AND 0x80 = 0" by (simp only: and_80_bit bit_drop_bit_eq o_apply) simp
qed

lemma unat_and_7F: "unat ((b :: u8) AND 0x7F) = unat b mod 128"
  by (simp add: and_7F_take_bit unat_take_bit_mod)

lemma be_val_append [byte_simps]: "be_val (xs @ ys) = be_val xs * 256 ^ length ys + be_val ys"
  by (induction xs) (auto simp: algebra_simps power_add)

lemma le_val_rev [byte_simps]: "le_val (rev xs) = be_val xs"
proof -
  have app: "le_val (xs @ [b]) = le_val xs + unat b * 256 ^ length xs" for xs b
    by (induction xs) (auto simp: algebra_simps)
  show ?thesis by (induction xs) (auto simp: app)
qed

lemma le_val_append [byte_simps]: "le_val (xs @ ys) = le_val xs + 256 ^ length xs * le_val ys"
  by (induction xs) (auto simp: algebra_simps)

lemma be_val_less: "be_val bs < 256 ^ length bs"
proof (induction bs)
  case Nil
  then show ?case by simp
next
  case (Cons b bs)
  have "unat b * 256 ^ length bs + be_val bs < unat b * 256 ^ length bs + 256 ^ length bs"
    using Cons.IH by simp
  also have "\<dots> = (unat b + 1) * 256 ^ length bs" by (simp add: algebra_simps)
  also have "\<dots> \<le> 256 * 256 ^ length bs"
    using unat_u8_lt [of b] by (intro mult_right_mono) linarith+
  finally show ?case by simp
qed

lemma le_val_less: "le_val bs < 256 ^ length bs"
  using be_val_less [of "rev bs"] le_val_rev [of "rev bs"] by simp

lemma be_val_replicate_0 [byte_simps]: "be_val (replicate n 0) = 0"
  by (induction n) auto

text \<open>\<open>n\<close> bytes of a number, most significant first.\<close>

fun be_bytes :: "nat \<Rightarrow> nat \<Rightarrow> u8 list" where
  "be_bytes 0 v = []"
| "be_bytes (Suc n) v = be_bytes n (v div 256) @ [word_of_nat (v mod 256)]"

lemma length_be_bytes [simp]: "length (be_bytes n v) = n"
  by (induction n arbitrary: v) auto

lemma unat_of_nat_u8 [simp]: "unat (word_of_nat n :: u8) = n mod 256"
  by (simp add: unat_of_nat)

lemma be_val_be_bytes [byte_simps]: "be_val (be_bytes n v) = v mod 256 ^ n"
proof (induction n arbitrary: v)
  case 0
  then show ?case by simp
next
  case (Suc n)
  have "be_val (be_bytes (Suc n) v) = (v div 256) mod 256 ^ n * 256 + v mod 256"
    using Suc.IH by (simp add: be_val_append)
  also have "\<dots> = v mod (256 * 256 ^ n)"
    by (simp add: mod_mult2_eq)
  finally show ?case by simp
qed

lemma be_bytes_mod [simp]: "be_bytes n (v mod 256 ^ n) = be_bytes n v"
proof (induction n arbitrary: v)
  case (Suc n)
  have "v mod 256 ^ Suc n = 256 * (v div 256 mod 256 ^ n) + v mod 256"
    by (simp add: mod_mult2_eq)
  then have "(v mod 256 ^ Suc n) div 256 = v div 256 mod 256 ^ n"
    and "(v mod 256 ^ Suc n) mod 256 = v mod 256" by simp_all
  then show ?case using Suc.IH by simp
qed simp

lemma be_bytes_be_val: "be_bytes (length bs) (be_val bs) = bs"
proof (induction bs rule: rev_induct)
  case Nil
  then show ?case by simp
next
  case (snoc b bs)
  then show ?case by (simp add: be_val_append)
qed

section \<open>Lists\<close>

lemma butlast_last_append: "xs \<noteq> [] \<Longrightarrow> butlast xs @ last xs # ys = xs @ ys"
  by (induction xs) auto

lemma take_drop_window: "n \<le> k \<Longrightarrow> take (k - n) (drop n xs) = drop n (take k xs)"
  by (simp add: drop_take)

end
