(* ===== verification/Nanopb_Iter.thy ===== *)
theory Nanopb_Iter
  imports Prelude
begin

text \<open>
  Field descriptors and the field iterator of nanopb (nanopb/pb.h, nanopb/pb_common.c).

  A descriptor array ends with an entry whose tag is 0. The iterator's \<open>pos\<close> pointer is an index
  into the array, \<open>dest_struct\<close>, \<open>pData\<close> and \<open>pSize\<close> are 64-bit addresses, and the descriptor's
  offsets and sizes are 32-bit (the pod is built with \<open>PB_FIELD_32BIT\<close>). The \<open>ptr\<close> member, a
  submessage descriptor or a default value, is not read by the iterator and left as a parameter.
\<close>

section \<open>Field descriptors\<close>

record 'p pb_field =
  tag :: u32
  ftype :: u8
  data_offset :: u32
  size_offset :: u32
  data_size :: u32
  array_size :: u32
  ptr :: "'p option"

definition PB_LTYPE :: "u8 \<Rightarrow> u8" where "PB_LTYPE x = x AND 0x0F"
definition PB_HTYPE :: "u8 \<Rightarrow> u8" where "PB_HTYPE x = x AND 0x30"
definition PB_ATYPE :: "u8 \<Rightarrow> u8" where "PB_ATYPE x = x AND 0xC0"

abbreviation (input) "PB_LTYPE_EXTENSION \<equiv> (0x08 :: u8)"
abbreviation (input) "PB_HTYPE_REQUIRED \<equiv> (0x00 :: u8)"
abbreviation (input) "PB_HTYPE_REPEATED \<equiv> (0x20 :: u8)"
abbreviation (input) "PB_HTYPE_ONEOF \<equiv> (0x30 :: u8)"
abbreviation (input) "PB_ATYPE_STATIC \<equiv> (0x00 :: u8)"
abbreviation (input) "PB_ATYPE_POINTER \<equiv> (0x80 :: u8)"
abbreviation (input) "PB_SIZE_MAX \<equiv> (0xFFFFFFFF :: u32)"

section \<open>The iterator\<close>

record 'p pb_field_iter =
  start :: "'p pb_field list"
  pos :: nat
  required_field_index :: u32
  dest_struct :: u64
  pData :: u64
  pSize :: u64

definition cur :: "'p pb_field_iter \<Rightarrow> 'p pb_field" where
  "cur iter = start iter ! pos iter"

definition pb_field_iter_begin :: "'p pb_field list \<Rightarrow> u64 \<Rightarrow> bool \<times> 'p pb_field_iter" where
  "pb_field_iter_begin flds dest =
     (let pd = dest + ucast (data_offset (flds ! 0));
          ps = pd + scast (size_offset (flds ! 0))
      in (tag (flds ! 0) \<noteq> 0,
          \<lparr>start = flds, pos = 0, required_field_index = 0, dest_struct = dest,
           pData = pd, pSize = ps\<rparr>))"

definition pb_field_iter_next :: "'p pb_field_iter \<Rightarrow> bool \<times> 'p pb_field_iter" where
  "pb_field_iter_next iter =
     (let prev_field = cur iter in
      if tag prev_field = 0 then (False, iter)
      else
        let iter = iter\<lparr>pos := pos iter + 1\<rparr> in
        if tag (cur iter) = 0
        then (False, snd (pb_field_iter_begin (start iter) (dest_struct iter)))
        else if PB_HTYPE (ftype prev_field) = PB_HTYPE_ONEOF \<and>
                PB_HTYPE (ftype (cur iter)) = PB_HTYPE_ONEOF \<and>
                data_offset (cur iter) = PB_SIZE_MAX
        then (True, iter)
        else
          let prev_size = (ucast (data_size prev_field) :: size_t);
              prev_size =
                (if PB_ATYPE (ftype prev_field) = PB_ATYPE_STATIC \<and>
                    PB_HTYPE (ftype prev_field) = PB_HTYPE_REPEATED
                 then prev_size * ucast (array_size prev_field)
                 else if PB_ATYPE (ftype prev_field) = PB_ATYPE_POINTER then 8
                 else prev_size);
              req = (if PB_HTYPE (ftype prev_field) = PB_HTYPE_REQUIRED
                     then required_field_index iter + 1 else required_field_index iter);
              pd = pData iter + prev_size + ucast (data_offset (cur iter));
              ps = pd + scast (size_offset (cur iter))
          in (True, iter\<lparr>required_field_index := req, pData := pd, pSize := ps\<rparr>))"

text \<open>The do-while loop of \<open>pb_field_iter_find\<close>: None would be a loop that does not end.\<close>

partial_function (option) iter_find_loop ::
    "nat \<Rightarrow> u32 \<Rightarrow> 'p pb_field_iter \<Rightarrow> (bool \<times> 'p pb_field_iter) option" where
  "iter_find_loop start_pos t iter =
     (if tag (cur iter) = t \<and> PB_LTYPE (ftype (cur iter)) \<noteq> PB_LTYPE_EXTENSION
      then Some (True, iter)
      else if pos (snd (pb_field_iter_next iter)) \<noteq> start_pos
      then iter_find_loop start_pos t (snd (pb_field_iter_next iter))
      else Some (False, snd (pb_field_iter_next iter)))"

definition pb_field_iter_find :: "'p pb_field_iter \<Rightarrow> u32 \<Rightarrow> (bool \<times> 'p pb_field_iter) option" where
  "pb_field_iter_find iter t = iter_find_loop (pos iter) t iter"

section \<open>Positions determine the iterator\<close>

text \<open>
  \<open>descriptor flds n\<close>: \<open>n\<close> fields and the terminator. \<open>iter_at\<close>: the iterator after \<open>i\<close> steps
  from the beginning.
\<close>

definition descriptor :: "'p pb_field list \<Rightarrow> nat \<Rightarrow> bool" where
  "descriptor flds n \<longleftrightarrow> length flds = Suc n \<and> tag (flds ! n) = 0 \<and>
     (\<forall>i<n. tag (flds ! i) \<noteq> 0)"

fun iter_at :: "'p pb_field list \<Rightarrow> u64 \<Rightarrow> nat \<Rightarrow> 'p pb_field_iter" where
  "iter_at flds dest 0 = snd (pb_field_iter_begin flds dest)"
| "iter_at flds dest (Suc i) = snd (pb_field_iter_next (iter_at flds dest i))"

definition matches :: "u32 \<Rightarrow> 'p pb_field \<Rightarrow> bool" where
  "matches t f \<longleftrightarrow> tag f = t \<and> PB_LTYPE (ftype f) \<noteq> PB_LTYPE_EXTENSION"

lemma iter_next_fields:
  "start (snd (pb_field_iter_next iter)) = start iter"
  "dest_struct (snd (pb_field_iter_next iter)) = dest_struct iter"
  by (simp_all add: pb_field_iter_next_def pb_field_iter_begin_def Let_def)

lemma iter_at_fields [simp]:
  "start (iter_at flds dest i) = flds" "dest_struct (iter_at flds dest i) = dest"
  by (induction i) (simp_all add: iter_next_fields pb_field_iter_begin_def Let_def)

lemma pos_next:
  "tag (cur iter) \<noteq> 0 \<Longrightarrow> tag (start iter ! Suc (pos iter)) \<noteq> 0 \<Longrightarrow>
     pos (snd (pb_field_iter_next iter)) = Suc (pos iter)"
  by (simp add: pb_field_iter_next_def cur_def Let_def)

lemma pos_iter_at: "descriptor flds n \<Longrightarrow> i < n \<or> i = 0 \<Longrightarrow> pos (iter_at flds dest i) = i"
proof (induction i)
  case 0
  show ?case by (simp add: pb_field_iter_begin_def Let_def)
next
  case (Suc i)
  then show ?case by (auto simp: descriptor_def cur_def pos_next)
qed

lemma next_wraps:
  "descriptor flds n \<Longrightarrow> Suc i = n \<Longrightarrow>
     pb_field_iter_next (iter_at flds dest i) = (False, iter_at flds dest 0)"
  using pos_iter_at [of flds n i dest]
  by (auto simp: pb_field_iter_next_def cur_def Let_def descriptor_def)

lemma next_steps:
  "descriptor flds n \<Longrightarrow> Suc i < n \<Longrightarrow>
     pb_field_iter_next (iter_at flds dest i) = (True, iter_at flds dest (Suc i))"
  using pos_iter_at [of flds n i dest]
  by (auto simp: pb_field_iter_next_def cur_def Let_def descriptor_def)

lemma cur_iter_at: "descriptor flds n \<Longrightarrow> i < n \<Longrightarrow> cur (iter_at flds dest i) = flds ! i"
  by (simp add: cur_def pos_iter_at)

text \<open>One step of the cyclic walk, and a whole lap of it from position \<open>i\<close> by distance \<open>d\<close>.\<close>

lemma next_cyclic:
  "descriptor flds n \<Longrightarrow> i < n \<Longrightarrow>
     snd (pb_field_iter_next (iter_at flds dest i)) = iter_at flds dest (Suc i mod n)"
  using next_wraps [of flds n i dest] next_steps [of flds n i dest]
  by (cases "Suc i = n") (simp_all del: iter_at.simps)

lemma find_loop_found:
  "matches t (cur iter) \<Longrightarrow> iter_find_loop i t iter = Some (True, iter)"
  by (simp add: iter_find_loop.simps matches_def)

lemma find_loop_next:
  "\<not> matches t (cur iter) \<Longrightarrow> snd (pb_field_iter_next iter) = iter' \<Longrightarrow>
     iter_find_loop i t iter =
       (if pos iter' \<noteq> i then iter_find_loop i t iter' else Some (False, iter'))"
  by (subst iter_find_loop.simps) (auto simp: matches_def)

lemma find_loop_lap:
  assumes d: "descriptor flds n" and i: "i < n"
  shows "k < n \<Longrightarrow> \<forall>j<k. \<not> matches t (flds ! ((i + j) mod n)) \<Longrightarrow>
    iter_find_loop i t (iter_at flds dest i) = iter_find_loop i t (iter_at flds dest ((i + k) mod n))"
proof (induction k)
  case 0
  then show ?case using i by simp
next
  case (Suc k)
  let ?j = "(i + k) mod n"
  have j: "?j < n" using i by simp
  have "\<not> matches t (flds ! ?j)" using Suc.prems by simp
  moreover have next_j: "snd (pb_field_iter_next (iter_at flds dest ?j)) = iter_at flds dest ((i + Suc k) mod n)"
    using next_cyclic [OF d j] by (simp add: mod_Suc_eq)
  moreover have "(i + Suc k) mod n \<noteq> i"
  proof
    assume "(i + Suc k) mod n = i"
    then have "(i + Suc k) mod n = i mod n" using i by simp
    then have "n dvd Suc k" by (metis add_diff_cancel_left' le_add1 mod_eq_dvd_iff_nat)
    then show False using Suc.prems(1) by (auto dest: dvd_imp_le)
  qed
  moreover have "pos (iter_at flds dest ((i + Suc k) mod n)) = (i + Suc k) mod n"
    using pos_iter_at [OF d] i by simp
  ultimately have "iter_find_loop i t (iter_at flds dest ?j) =
      iter_find_loop i t (iter_at flds dest ((i + Suc k) mod n))"
    using cur_iter_at [OF d j, of dest] find_loop_next [of t "iter_at flds dest ?j" _ i]
    by (simp del: iter_at.simps)
  with Suc show ?case by simp
qed

lemma field_iter_find_eq:
  assumes d: "descriptor flds n" and i: "i < n"
  shows "pb_field_iter_find (iter_at flds dest i) t =
    (if \<exists>j<n. matches t (flds ! j)
     then Some (True, iter_at flds dest
            ((i + (LEAST k. matches t (flds ! ((i + k) mod n)))) mod n))
     else Some (False, iter_at flds dest i))"
proof -
  have pos: "pos (iter_at flds dest i) = i" using pos_iter_at [OF d] i by simp
  let ?m = "\<lambda>k. matches t (flds ! ((i + k) mod n))"
  show ?thesis
  proof (cases "\<exists>j<n. matches t (flds ! j)")
    case True
    then obtain j where j: "j < n" "matches t (flds ! j)" by blast
    have "?m ((j + n - i) mod n)" using i j by (simp add: mod_add_right_eq)
    then have l: "?m (LEAST k. ?m k)" and le: "(LEAST k. ?m k) \<le> (j + n - i) mod n"
      by (rule LeastI, rule Least_le)
    then have lt: "(LEAST k. ?m k) < n" using j(1) mod_less_divisor [of n "j + n - i"] by linarith
    have "\<forall>k<(LEAST k. ?m k). \<not> ?m k" using not_less_Least by blast
    note lap = find_loop_lap [OF d i lt this, of dest]
    have "cur (iter_at flds dest ((i + (LEAST k. ?m k)) mod n)) = flds ! ((i + (LEAST k. ?m k)) mod n)"
      using i by (intro cur_iter_at [OF d]) simp
    with l have "iter_find_loop i t (iter_at flds dest ((i + (LEAST k. ?m k)) mod n)) =
        Some (True, iter_at flds dest ((i + (LEAST k. ?m k)) mod n))"
      by (intro find_loop_found) simp
    with lap True show ?thesis by (simp only: pb_field_iter_find_def pos if_True)
  next
    case False
    let ?j = "(i + (n - 1)) mod n"
    have j: "?j < n" using i by simp
    have "snd (pb_field_iter_next (iter_at flds dest ?j)) = iter_at flds dest i"
      using next_cyclic [OF d j] i by (simp add: mod_Suc_eq)
    moreover have "\<not> matches t (flds ! ?j)" using False j by blast
    moreover have "n - 1 < n" "\<forall>k<n - 1. \<not> ?m k" using False i by auto
    note find_loop_lap [OF d i this, of dest]
    moreover have "cur (iter_at flds dest ?j) = flds ! ?j" by (rule cur_iter_at [OF d j])
    ultimately show ?thesis
      using False pos find_loop_next [of t "iter_at flds dest ?j" "iter_at flds dest i" i]
      by (simp add: pb_field_iter_find_def del: iter_at.simps)
  qed
qed

text \<open>C19: \<open>pb_field_iter_find\<close> from any position of a non-empty message always returns. It finds
  the first field with the tag (extension placeholders do not count) in the cyclic order from the
  current one, with \<open>pData\<close> and \<open>pSize\<close> as if the iterator had been stepped to that field from the
  beginning; if there is none it fails and leaves the iterator where it was.\<close>
theorem iter_find_correct:
  assumes d: "descriptor flds n" and i: "i < n"
  shows "pb_field_iter_find (iter_at flds dest i) t =
    (if \<exists>j<n. matches t (flds ! j)
     then Some (True, iter_at flds dest
            ((i + (LEAST k. matches t (flds ! ((i + k) mod n)))) mod n))
     else Some (False, iter_at flds dest i))"
  by (rule field_iter_find_eq [OF d i])

definition example_fields :: "nat pb_field list" where
  "example_fields =
     [\<lparr>tag = 1, ftype = 0x00, data_offset = 0, size_offset = 0, data_size = 4, array_size = 0, ptr = None\<rparr>,
      \<lparr>tag = 3, ftype = 0x26, data_offset = 8, size_offset = - 4, data_size = 16, array_size = 2, ptr = None\<rparr>,
      \<lparr>tag = 0, ftype = 0, data_offset = 0, size_offset = 0, data_size = 0, array_size = 0, ptr = None\<rparr>]"

theorem iter_find_correct_witness:
  "pb_field_iter_find (iter_at example_fields 1000 1) 1 = Some (True, iter_at example_fields 1000 0) \<and>
   pb_field_iter_find (iter_at example_fields 1000 1) 9 = Some (False, iter_at example_fields 1000 1) \<and>
   pData (iter_at example_fields 1000 1) = 1012 \<and> pSize (iter_at example_fields 1000 1) = 1008"
proof -
  have d: "descriptor example_fields 2"
    by (auto simp: descriptor_def example_fields_def less_2_cases_iff)
  have m: "matches 1 (example_fields ! 0)" "\<not> matches 1 (example_fields ! 1)"
    "\<not> matches 9 (example_fields ! 0)" "\<not> matches 9 (example_fields ! 1)"
    by (simp_all add: matches_def example_fields_def PB_LTYPE_def)
  have ex: "(\<exists>j<2. matches t (example_fields ! j)) \<longleftrightarrow>
      matches t (example_fields ! 0) \<or> matches t (example_fields ! 1)" for t
    by (auto simp: less_2_cases_iff)
  have least: "(LEAST k. matches 1 (example_fields ! ((1 + k) mod 2))) = 1"
  proof (rule Least_equality)
    show "matches 1 (example_fields ! ((1 + 1) mod 2))" using m by simp
    show "1 \<le> k" if "matches 1 (example_fields ! ((1 + k) mod 2))" for k
      using that m by (cases k) simp_all
  qed
  have "pData (iter_at example_fields 1000 1) = 1012 \<and> pSize (iter_at example_fields 1000 1) = 1008"
    by (simp add: example_fields_def pb_field_iter_begin_def pb_field_iter_next_def cur_def Let_def
      PB_HTYPE_def PB_ATYPE_def)
  moreover have "pb_field_iter_find (iter_at example_fields 1000 1) 1 =
      Some (True, iter_at example_fields 1000 0)"
    using iter_find_correct [OF d, of 1 1000 1] m least by (simp only: ex) simp
  moreover have "pb_field_iter_find (iter_at example_fields 1000 1) 9 =
      Some (False, iter_at example_fields 1000 1)"
    using iter_find_correct [OF d, of 1 1000 9] m by (simp only: ex) simp
  ultimately show ?thesis by simp
qed

end
