(* ===== verification/Nanopb_Stream.thy ===== *)
theory Nanopb_Stream
  imports Prelude
begin

text \<open>
  The input and output streams of nanopb (nanopb/pb_encode.c and nanopb/pb_decode.c).

  A stream of the C code is a struct with a callback, an opaque state pointer and counters. The
  callback field is kept as a function; the state is a type parameter, instantiated to the bytes
  behind the pointer for the buffer streams the library provides (\<open>buf_read\<close>, \<open>buf_write\<close>).
  \<open>in_is_buf_read\<close> is the comparison \<open>stream->callback == buf_read\<close> of \<open>pb_read\<close>: function
  values have no identity in HOL. Counts on the reading side only shrink under a guard, so they are
  natural numbers; on the writing side \<open>bytes_written + count\<close> may wrap, so they are
  \<open>size_t\<close> words.

  The locale \<open>byte_source\<close> is the contract pb_decode.h puts on a reading callback: asked for no
  more bytes than there are, it delivers the next ones in order. The facts about the decoder are
  proved once for every such callback and interpreted for \<open>buf_read\<close>.
\<close>

section \<open>Input streams\<close>

record 's pb_istream =
  in_callback :: "'s \<Rightarrow> nat \<Rightarrow> u8 list option \<times> 's"
  in_is_buf_read :: bool
  in_state :: 's
  bytes_left :: nat
  in_errmsg :: "string option"

text \<open>\<open>PB_RETURN_ERROR\<close>: the first message set stays.\<close>

definition in_error :: "string \<Rightarrow> 's pb_istream \<Rightarrow> 's pb_istream" where
  "in_error msg s = s\<lparr>in_errmsg := (case in_errmsg s of None \<Rightarrow> Some msg | Some m \<Rightarrow> Some m)\<rparr>"

text \<open>The list has exactly the bytes of the buffer from the pointer on. A larger count reads outside the
  buffer, which is undefined in C; what \<open>buf_read\<close> returns then is one outcome of many, and
  \<open>Nanopb_Decode_Bound\<close> shows that decoding does not depend on it.\<close>

definition buf_read :: "u8 list \<Rightarrow> nat \<Rightarrow> u8 list option \<times> u8 list" where
  "buf_read source count = (Some (take count source), drop count source)"

text \<open>\<open>pb_read\<close> with a destination buffer, and below with a null buffer (skipping).\<close>

definition pb_read :: "'s pb_istream \<Rightarrow> nat \<Rightarrow> u8 list option \<times> 's pb_istream" where
  "pb_read s count =
     (if bytes_left s < count then (None, in_error ''end-of-stream'' s)
      else (case in_callback s (in_state s) count of
              (None, st) \<Rightarrow> (None, in_error ''io error'' (s\<lparr>in_state := st\<rparr>))
            | (Some bs, st) \<Rightarrow>
                (Some bs, s\<lparr>in_state := st, bytes_left := bytes_left s - count\<rparr>)))"

function pb_read_tmp16 :: "'s pb_istream \<Rightarrow> nat \<Rightarrow> bool \<times> 's pb_istream" where
  "pb_read_tmp16 s count =
     (if 16 < count
      then (case pb_read s 16 of
              (None, s') \<Rightarrow> (False, s')
            | (Some _, s') \<Rightarrow> pb_read_tmp16 s' (count - 16))
      else (case pb_read s count of
              (None, s') \<Rightarrow> (False, s')
            | (Some _, s') \<Rightarrow> (True, s')))"
  by pat_completeness auto
termination
  by (relation "measure snd") auto

declare pb_read_tmp16.simps [simp del]

definition pb_read_null :: "'s pb_istream \<Rightarrow> nat \<Rightarrow> bool \<times> 's pb_istream" where
  "pb_read_null s count =
     (if \<not> in_is_buf_read s then pb_read_tmp16 s count
      else (case pb_read s count of (r, s') \<Rightarrow> (r \<noteq> None, s')))"

definition pb_readbyte :: "'s pb_istream \<Rightarrow> u8 option \<times> 's pb_istream" where
  "pb_readbyte s =
     (if bytes_left s = 0 then (None, in_error ''end-of-stream'' s)
      else (case in_callback s (in_state s) 1 of
              (None, st) \<Rightarrow> (None, in_error ''io error'' (s\<lparr>in_state := st\<rparr>))
            | (Some bs, st) \<Rightarrow>
                (Some (hd bs), s\<lparr>in_state := st, bytes_left := bytes_left s - 1\<rparr>)))"

definition pb_istream_from_buffer :: "u8 list \<Rightarrow> nat \<Rightarrow> u8 list pb_istream" where
  "pb_istream_from_buffer buf bufsize =
     \<lparr>in_callback = buf_read, in_is_buf_read = True, in_state = buf,
      bytes_left = bufsize, in_errmsg = None\<rparr>"

subsection \<open>The contract of a reading callback\<close>

text \<open>
  \<open>visible content s\<close>: the bytes the stream may still read. \<open>advanced content n s s'\<close>:
  \<open>s'\<close> is \<open>s\<close> with its first \<open>n\<close> visible bytes consumed and nothing else changed.
\<close>

definition visible :: "('s \<Rightarrow> u8 list) \<Rightarrow> 's pb_istream \<Rightarrow> u8 list" where
  "visible content s = take (bytes_left s) (content (in_state s))"

definition source_ok ::
  "('s \<Rightarrow> nat \<Rightarrow> u8 list option \<times> 's) \<Rightarrow> ('s \<Rightarrow> u8 list) \<Rightarrow> 's pb_istream \<Rightarrow> bool" where
  "source_ok rd content s \<longleftrightarrow>
     in_callback s = rd \<and> bytes_left s \<le> length (content (in_state s))"

definition advanced :: "('s \<Rightarrow> u8 list) \<Rightarrow> nat \<Rightarrow> 's pb_istream \<Rightarrow> 's pb_istream \<Rightarrow> bool" where
  "advanced content n s s' \<longleftrightarrow> n \<le> bytes_left s \<and>
     bytes_left s' = bytes_left s - n \<and> content (in_state s') = drop n (content (in_state s)) \<and>
     in_callback s' = in_callback s \<and> in_is_buf_read s' = in_is_buf_read s \<and>
     in_errmsg s' = in_errmsg s"

lemma advanced_refl [simp]: "advanced content 0 s s"
  by (simp add: advanced_def)

lemma advanced_trans:
  "advanced content n s t \<Longrightarrow> advanced content m t u \<Longrightarrow> advanced content (n + m) s u"
  by (auto simp: advanced_def add.commute)

lemma advanced_visible: "advanced content n s s' \<Longrightarrow> visible content s' = drop n (visible content s)"
  by (simp add: advanced_def visible_def drop_take)

lemma advanced_ok: "advanced content n s s' \<Longrightarrow> source_ok rd content s \<Longrightarrow> source_ok rd content s'"
  by (auto simp: advanced_def source_ok_def)

lemma advanced_bytes_left: "advanced content n s s' \<Longrightarrow> bytes_left s' = bytes_left s - n"
  by (simp add: advanced_def)

lemma length_visible [simp]: "source_ok rd content s \<Longrightarrow> length (visible content s) = bytes_left s"
  by (simp add: visible_def source_ok_def)

locale byte_source =
  fixes rd :: "'s \<Rightarrow> nat \<Rightarrow> u8 list option \<times> 's"
    and content :: "'s \<Rightarrow> u8 list"
  assumes rd_next: "n \<le> length (content st) \<Longrightarrow>
    \<exists>st'. rd st n = (Some (take n (content st)), st') \<and> content st' = drop n (content st)"
begin

lemma read_ok:
  assumes ok: "source_ok rd content s" and n: "n \<le> bytes_left s"
  shows "\<exists>s'. pb_read s n = (Some (take n (visible content s)), s') \<and> advanced content n s s'"
proof -
  from ok n have "n \<le> length (content (in_state s))" by (simp add: source_ok_def)
  then obtain st' where "rd (in_state s) n = (Some (take n (content (in_state s))), st')"
    and "content st' = drop n (content (in_state s))" using rd_next by blast
  with ok n show ?thesis
    by (cases s) (auto simp: pb_read_def source_ok_def advanced_def visible_def min_absorb1)
qed

lemma read_short: "bytes_left s < n \<Longrightarrow> pb_read s n = (None, in_error ''end-of-stream'' s)"
  by (simp add: pb_read_def)

lemma readbyte_ok:
  assumes ok: "source_ok rd content s" and v: "visible content s = b # bs"
  shows "\<exists>s'. pb_readbyte s = (Some b, s') \<and> advanced content 1 s s'"
proof -
  from v have pos: "0 < bytes_left s" by (cases "bytes_left s") (auto simp: visible_def)
  with ok have "1 \<le> length (content (in_state s))" by (simp add: source_ok_def)
  then obtain st' where rd: "rd (in_state s) 1 = (Some (take 1 (content (in_state s))), st')"
    and "content st' = drop 1 (content (in_state s))" using rd_next by blast
  moreover have "hd (take 1 (content (in_state s))) = b"
    using v pos by (cases "content (in_state s)") (auto simp: visible_def take_Cons')
  ultimately show ?thesis using ok pos
    by (cases s) (auto simp: pb_readbyte_def source_ok_def advanced_def)
qed

lemma read_tmp16_ok:
  assumes "source_ok rd content s" and "n \<le> bytes_left s"
  shows "\<exists>s'. pb_read_tmp16 s n = (True, s') \<and> advanced content n s s'"
  using assms
proof (induction s n rule: pb_read_tmp16.induct)
  case (1 s n)
  show ?case
  proof (cases "16 < n")
    case True
    with "1.prems" obtain s1 where s1: "pb_read s 16 = (Some (take 16 (visible content s)), s1)"
      and adv: "advanced content 16 s s1" using read_ok [of s 16] by auto
    from adv "1.prems" have "source_ok rd content s1" by (blast intro: advanced_ok)
    moreover from adv "1.prems" True have "n - 16 \<le> bytes_left s1"
      by (simp add: advanced_bytes_left)
    ultimately obtain s2 where "pb_read_tmp16 s1 (n - 16) = (True, s2)"
      and "advanced content (n - 16) s1 s2" using "1.IH" [OF True s1 [symmetric]] by auto
    with adv s1 True show ?thesis
      using advanced_trans [OF adv] by (fastforce simp: pb_read_tmp16.simps [of s n])
  next
    case False
    with "1.prems" show ?thesis
      using read_ok [of s n] by (auto simp: pb_read_tmp16.simps [of s n])
  qed
qed

lemma read_null_ok:
  assumes "source_ok rd content s" and "n \<le> bytes_left s"
  shows "\<exists>s'. pb_read_null s n = (True, s') \<and> advanced content n s s'"
  using read_tmp16_ok [OF assms] read_ok [OF assms] by (auto simp: pb_read_null_def)

end

interpretation buf: byte_source buf_read "\<lambda>bs. bs"
  by unfold_locales (simp add: buf_read_def)

lemma istream_from_buffer_simps [simp]:
  "bytes_left (pb_istream_from_buffer bs n) = n"
  "in_state (pb_istream_from_buffer bs n) = bs"
  "pb_istream_from_buffer bs n\<lparr>bytes_left := k\<rparr> = pb_istream_from_buffer bs k"
  by (simp_all add: pb_istream_from_buffer_def)

lemma source_ok_buffer: "n \<le> length bs \<Longrightarrow> source_ok buf_read (\<lambda>bs. bs) (pb_istream_from_buffer bs n)"
  by (simp add: source_ok_def pb_istream_from_buffer_def)

lemma visible_buffer: "visible (\<lambda>bs. bs) (pb_istream_from_buffer bs n) = take n bs"
  by (simp add: visible_def pb_istream_from_buffer_def)

lemma advanced_buffer:
  "advanced (\<lambda>bs. bs) k (pb_istream_from_buffer bs n) s' \<longleftrightarrow>
     k \<le> n \<and> s' = pb_istream_from_buffer (drop k bs) (n - k)"
  by (cases s') (auto simp: advanced_def pb_istream_from_buffer_def)

section \<open>Output streams\<close>

record 's pb_ostream =
  out_callback :: "('s \<Rightarrow> u8 list \<Rightarrow> size_t \<Rightarrow> bool \<times> 's) option"
  out_state :: 's
  max_size :: size_t
  bytes_written :: size_t
  out_errmsg :: "string option"

definition out_error :: "string \<Rightarrow> 's pb_ostream \<Rightarrow> 's pb_ostream" where
  "out_error msg s = s\<lparr>out_errmsg := (case out_errmsg s of None \<Rightarrow> Some msg | Some m \<Rightarrow> Some m)\<rparr>"

text \<open>The state of a buffer stream: the bytes between the start of the buffer and the pointer.\<close>

definition buf_write :: "u8 list \<Rightarrow> u8 list \<Rightarrow> size_t \<Rightarrow> bool \<times> u8 list" where
  "buf_write dest buf count = (True, dest @ take (unat count) buf)"

definition pb_ostream_from_buffer :: "size_t \<Rightarrow> u8 list pb_ostream" where
  "pb_ostream_from_buffer bufsize =
     \<lparr>out_callback = Some buf_write, out_state = [], max_size = bufsize,
      bytes_written = 0, out_errmsg = None\<rparr>"

text \<open>\<open>PB_OSTREAM_SIZING\<close>: no callback, only the length is counted.\<close>

definition pb_ostream_sizing :: "'s \<Rightarrow> 's pb_ostream" where
  "pb_ostream_sizing st =
     \<lparr>out_callback = None, out_state = st, max_size = 0, bytes_written = 0, out_errmsg = None\<rparr>"

definition pb_write :: "'s pb_ostream \<Rightarrow> u8 list \<Rightarrow> size_t \<Rightarrow> bool \<times> 's pb_ostream" where
  "pb_write s buf count =
     (case out_callback s of
        None \<Rightarrow> (True, s\<lparr>bytes_written := bytes_written s + count\<rparr>)
      | Some cb \<Rightarrow>
          if max_size s < bytes_written s + count then (False, out_error ''stream full'' s)
          else (case cb (out_state s) buf count of
                  (False, st) \<Rightarrow> (False, out_error ''io error'' (s\<lparr>out_state := st\<rparr>))
                | (True, st) \<Rightarrow>
                    (True, s\<lparr>out_state := st, bytes_written := bytes_written s + count\<rparr>)))"

text \<open>
  \<open>sink_ok\<close>: a buffer stream has stored exactly the bytes it has counted, within its capacity.
\<close>

definition sink_ok :: "u8 list pb_ostream \<Rightarrow> bool" where
  "sink_ok s \<longleftrightarrow> out_callback s = Some buf_write \<and>
     length (out_state s) = unat (bytes_written s) \<and> bytes_written s \<le> max_size s"

text \<open>The whole of \<open>buf\<close> is written: \<open>count\<close> is its length and the sum does not wrap.\<close>

definition fits :: "'s pb_ostream \<Rightarrow> u8 list \<Rightarrow> bool" where
  "fits s buf \<longleftrightarrow> unat (bytes_written s) + length buf < 2 ^ 64"

lemma sink_ok_from_buffer: "sink_ok (pb_ostream_from_buffer n)"
  by (simp add: sink_ok_def pb_ostream_from_buffer_def)

lemma unat_bytes_written_add:
  assumes "fits s buf"
  shows "unat (bytes_written s + word_of_nat (length buf)) = unat (bytes_written s) + length buf"
  using assms unfolding fits_def
  by (simp add: unat_word_ariths unat_of_nat)

lemma pb_write_sink:
  assumes "sink_ok s" and "fits s buf"
  shows "pb_write s buf (word_of_nat (length buf)) =
    (if unat (bytes_written s) + length buf \<le> unat (max_size s)
     then (True, s\<lparr>out_state := out_state s @ buf,
                   bytes_written := bytes_written s + word_of_nat (length buf)\<rparr>)
     else (False, out_error ''stream full'' s))"
proof -
  have "length buf < 2 ^ 64" using assms(2) by (simp add: fits_def)
  then have "unat (word_of_nat (length buf) :: size_t) = length buf"
    by (simp add: unat_of_nat)
  then show ?thesis
    using assms unat_bytes_written_add [OF assms(2)]
    by (simp add: pb_write_def sink_ok_def buf_write_def word_less_nat_alt not_less)
qed

end
