(* ===== verification/Nanopb_Wire.thy ===== *)
theory Nanopb_Wire
  imports Nanopb_Stream
begin

text \<open>
  The wire format of nanopb: varints, zigzag integers, fixed-width integers, tags, strings and
  substreams (the "Helper functions" of nanopb/pb_encode.c and nanopb/pb_decode.c).

  \<open>varint_val\<close> and \<open>is_varint\<close> say what a varint is, independently of the code: groups of
  seven bits, least significant first, the top bit set on every byte but the last.
\<close>

section \<open>Wire types\<close>

type_synonym pb_wire_type_t = u32

definition PB_WT_VARINT :: pb_wire_type_t where "PB_WT_VARINT = 0"
definition PB_WT_64BIT :: pb_wire_type_t where "PB_WT_64BIT = 1"
definition PB_WT_STRING :: pb_wire_type_t where "PB_WT_STRING = 2"
definition PB_WT_32BIT :: pb_wire_type_t where "PB_WT_32BIT = 5"

lemmas wire_type_defs = PB_WT_VARINT_def PB_WT_64BIT_def PB_WT_STRING_def PB_WT_32BIT_def

section \<open>Encoding\<close>

text \<open>The loop of \<open>pb_encode_varint\<close> that fills \<open>buffer\<close>.\<close>

function varint_buffer :: "u64 \<Rightarrow> u8 list" where
  "varint_buffer value =
     (if value = 0 then []
      else (ucast (value AND 0x7F) OR 0x80) # varint_buffer (drop_bit 7 value))"
  by pat_completeness auto
termination
  by (relation "measure unat") (auto intro: unat_drop_bit_less)

declare varint_buffer.simps [simp del]

text \<open>\<open>buffer[i-1] &= 0x7F\<close>, and the one-byte case of the function.\<close>

definition varint_bytes :: "u64 \<Rightarrow> u8 list" where
  "varint_bytes value =
     (if value \<le> 0x7F then [ucast value]
      else (let buffer = varint_buffer value
            in butlast buffer @ [last buffer AND 0x7F]))"

definition pb_encode_varint :: "'s pb_ostream \<Rightarrow> u64 \<Rightarrow> bool \<times> 's pb_ostream" where
  "pb_encode_varint s value =
     pb_write s (varint_bytes value) (word_of_nat (length (varint_bytes value)))"

definition zigzag :: "u64 \<Rightarrow> u64" where
  "zigzag value = (if value <s 0 then NOT (push_bit 1 value) else push_bit 1 value)"

definition pb_encode_svarint :: "'s pb_ostream \<Rightarrow> u64 \<Rightarrow> bool \<times> 's pb_ostream" where
  "pb_encode_svarint s value = pb_encode_varint s (zigzag value)"

definition pb_encode_fixed32 :: "'s pb_ostream \<Rightarrow> u32 \<Rightarrow> bool \<times> 's pb_ostream" where
  "pb_encode_fixed32 s val =
     pb_write s
       [ucast (val AND 0xFF), ucast (drop_bit 8 val AND 0xFF),
        ucast (drop_bit 16 val AND 0xFF), ucast (drop_bit 24 val AND 0xFF)] 4"

definition pb_encode_fixed64 :: "'s pb_ostream \<Rightarrow> u64 \<Rightarrow> bool \<times> 's pb_ostream" where
  "pb_encode_fixed64 s val =
     pb_write s
       [ucast (val AND 0xFF), ucast (drop_bit 8 val AND 0xFF),
        ucast (drop_bit 16 val AND 0xFF), ucast (drop_bit 24 val AND 0xFF),
        ucast (drop_bit 32 val AND 0xFF), ucast (drop_bit 40 val AND 0xFF),
        ucast (drop_bit 48 val AND 0xFF), ucast (drop_bit 56 val AND 0xFF)] 8"

definition pb_encode_tag :: "'s pb_ostream \<Rightarrow> pb_wire_type_t \<Rightarrow> u32 \<Rightarrow> bool \<times> 's pb_ostream" where
  "pb_encode_tag s wiretype field_number =
     pb_encode_varint s (push_bit 3 (ucast field_number) OR ucast wiretype)"

definition pb_encode_string :: "'s pb_ostream \<Rightarrow> u8 list \<Rightarrow> size_t \<Rightarrow> bool \<times> 's pb_ostream" where
  "pb_encode_string s buffer sz =
     (case pb_encode_varint s sz of
        (False, s') \<Rightarrow> (False, s')
      | (True, s') \<Rightarrow> pb_write s' buffer sz)"

section \<open>Decoding\<close>

text \<open>
  The do-while loop of \<open>pb_decode_varint\<close>; that of \<open>pb_decode_varint32\<close>, entered after the first
  byte, is the same text at 32 bits. The accumulator's type gives the width.
\<close>

function varint_loop :: "nat \<Rightarrow> 'a::len word \<Rightarrow> 's pb_istream \<Rightarrow> 'a word option \<times> 's pb_istream" where
  "varint_loop bitpos result s =
     (if LENGTH('a) \<le> bitpos then (None, in_error ''varint overflow'' s)
      else (case pb_readbyte s of
              (None, s') \<Rightarrow> (None, s')
            | (Some byte, s') \<Rightarrow>
                (let result' = result OR push_bit bitpos (ucast (byte AND 0x7F))
                 in if byte AND 0x80 \<noteq> 0 then varint_loop (bitpos + 7) result' s'
                    else (Some result', s'))))"
  by pat_completeness auto
termination
  by (relation "measure (\<lambda>(bitpos, _ :: 'a word, _). LENGTH('a) - bitpos)") auto

declare varint_loop.simps [simp del]

definition pb_decode_varint32 :: "'s pb_istream \<Rightarrow> u32 option \<times> 's pb_istream" where
  "pb_decode_varint32 s =
     (case pb_readbyte s of
        (None, s') \<Rightarrow> (None, s')
      | (Some byte, s') \<Rightarrow>
          if byte AND 0x80 = 0 then (Some (ucast byte), s')
          else varint_loop 7 (ucast (byte AND 0x7F)) s')"

definition pb_decode_varint :: "'s pb_istream \<Rightarrow> u64 option \<times> 's pb_istream" where
  "pb_decode_varint s = varint_loop 0 0 s"

lemma pb_read_shrinks: "pb_read s n = (Some bs, s') \<Longrightarrow> bytes_left s' + n = bytes_left s"
  by (auto simp: pb_read_def split: if_splits prod.splits option.splits)

function pb_skip_varint :: "'s pb_istream \<Rightarrow> bool \<times> 's pb_istream" where
  "pb_skip_varint s =
     (case pb_read s 1 of
        (None, s') \<Rightarrow> (False, s')
      | (Some bs, s') \<Rightarrow> if hd bs AND 0x80 \<noteq> 0 then pb_skip_varint s' else (True, s'))"
  by pat_completeness auto
termination
  by (relation "measure bytes_left") (auto dest: pb_read_shrinks [OF sym])

declare pb_skip_varint.simps [simp del]

definition pb_skip_string :: "'s pb_istream \<Rightarrow> bool \<times> 's pb_istream" where
  "pb_skip_string s =
     (case pb_decode_varint32 s of
        (None, s') \<Rightarrow> (False, s')
      | (Some len, s') \<Rightarrow> pb_read_null s' (unat len))"

text \<open>The four results of \<open>pb_decode_tag\<close>: return value, wire type, tag, end of message.\<close>

definition pb_decode_tag ::
    "'s pb_istream \<Rightarrow> (bool \<times> pb_wire_type_t \<times> u32 \<times> bool) \<times> 's pb_istream" where
  "pb_decode_tag s =
     (case pb_decode_varint32 s of
        (None, s') \<Rightarrow> ((False, 0, 0, bytes_left s' = 0), s')
      | (Some temp, s') \<Rightarrow>
          if temp = 0 then ((False, 0, 0, True), s')
          else ((True, temp AND 7, drop_bit 3 temp, False), s'))"

definition pb_skip_field :: "'s pb_istream \<Rightarrow> pb_wire_type_t \<Rightarrow> bool \<times> 's pb_istream" where
  "pb_skip_field s wire_type =
     (if wire_type = PB_WT_VARINT then pb_skip_varint s
      else if wire_type = PB_WT_64BIT then pb_read_null s 8
      else if wire_type = PB_WT_STRING then pb_skip_string s
      else if wire_type = PB_WT_32BIT then pb_read_null s 4
      else (False, in_error ''invalid wire_type'' s))"

text \<open>
  \<open>read_raw_value\<close>: the bytes read so far are returned in both cases, with \<open>*size\<close>.
\<close>

function raw_varint_loop ::
    "nat \<Rightarrow> nat \<Rightarrow> u8 list \<Rightarrow> 's pb_istream \<Rightarrow> (bool \<times> u8 list \<times> nat) \<times> 's pb_istream" where
  "raw_varint_loop max_sz sz buf s =
     (if max_sz < sz + 1 then ((False, buf, sz + 1), s)
      else (case pb_read s 1 of
              (None, s') \<Rightarrow> ((False, buf, sz + 1), s')
            | (Some bs, s') \<Rightarrow>
                if hd bs AND 0x80 \<noteq> 0 then raw_varint_loop max_sz (sz + 1) (buf @ [hd bs]) s'
                else ((True, buf @ [hd bs], sz + 1), s')))"
  by pat_completeness auto
termination
  by (relation "measure (\<lambda>(max_sz, sz, _, _). max_sz - sz)") auto

declare raw_varint_loop.simps [simp del]

definition read_raw_value ::
    "'s pb_istream \<Rightarrow> pb_wire_type_t \<Rightarrow> nat \<Rightarrow> (bool \<times> u8 list \<times> nat) \<times> 's pb_istream" where
  "read_raw_value s wire_type max_sz =
     (if wire_type = PB_WT_VARINT then raw_varint_loop max_sz 0 [] s
      else if wire_type = PB_WT_64BIT then
        (case pb_read s 8 of (None, s') \<Rightarrow> ((False, [], 8), s')
                           | (Some bs, s') \<Rightarrow> ((True, bs, 8), s'))
      else if wire_type = PB_WT_32BIT then
        (case pb_read s 4 of (None, s') \<Rightarrow> ((False, [], 4), s')
                           | (Some bs, s') \<Rightarrow> ((True, bs, 4), s'))
      else ((False, [], max_sz), in_error ''invalid wire_type'' s))"

definition pb_make_string_substream ::
    "'s pb_istream \<Rightarrow> 's pb_istream option \<times> 's pb_istream" where
  "pb_make_string_substream s =
     (case pb_decode_varint32 s of
        (None, s') \<Rightarrow> (None, s')
      | (Some sz, s') \<Rightarrow>
          if bytes_left s' < unat sz then (None, in_error ''parent stream too short'' s')
          else (Some (s'\<lparr>bytes_left := unat sz\<rparr>),
                s'\<lparr>bytes_left := bytes_left s' - unat sz\<rparr>))"

definition pb_close_string_substream ::
    "'s pb_istream \<Rightarrow> 's pb_istream \<Rightarrow> bool \<times> 's pb_istream" where
  "pb_close_string_substream s substream =
     (case (if bytes_left substream \<noteq> 0 then pb_read_null substream (bytes_left substream)
            else (True, substream)) of
        (False, sub') \<Rightarrow> (False, s)
      | (True, sub') \<Rightarrow> (True, s\<lparr>in_state := in_state sub', in_errmsg := in_errmsg sub'\<rparr>))"

definition unzigzag :: "u64 \<Rightarrow> u64" where
  "unzigzag value = (if value AND 1 \<noteq> 0 then NOT (drop_bit 1 value) else drop_bit 1 value)"

definition pb_decode_svarint :: "'s pb_istream \<Rightarrow> u64 option \<times> 's pb_istream" where
  "pb_decode_svarint s =
     (case pb_decode_varint s of
        (None, s') \<Rightarrow> (None, s')
      | (Some value, s') \<Rightarrow> (Some (unzigzag value), s'))"

definition pb_decode_fixed32 :: "'s pb_istream \<Rightarrow> u32 option \<times> 's pb_istream" where
  "pb_decode_fixed32 s =
     (case pb_read s 4 of
        (None, s') \<Rightarrow> (None, s')
      | (Some bytes, s') \<Rightarrow>
          (Some (push_bit 0 (ucast (bytes ! 0)) OR push_bit 8 (ucast (bytes ! 1)) OR
                 push_bit 16 (ucast (bytes ! 2)) OR push_bit 24 (ucast (bytes ! 3))), s'))"

definition pb_decode_fixed64 :: "'s pb_istream \<Rightarrow> u64 option \<times> 's pb_istream" where
  "pb_decode_fixed64 s =
     (case pb_read s 8 of
        (None, s') \<Rightarrow> (None, s')
      | (Some bytes, s') \<Rightarrow>
          (Some (push_bit 0 (ucast (bytes ! 0)) OR push_bit 8 (ucast (bytes ! 1)) OR
                 push_bit 16 (ucast (bytes ! 2)) OR push_bit 24 (ucast (bytes ! 3)) OR
                 push_bit 32 (ucast (bytes ! 4)) OR push_bit 40 (ucast (bytes ! 5)) OR
                 push_bit 48 (ucast (bytes ! 6)) OR push_bit 56 (ucast (bytes ! 7))), s'))"

section \<open>What a varint is\<close>

fun is_varint :: "u8 list \<Rightarrow> bool" where
  "is_varint [] = False"
| "is_varint (b # bs) = (if bs = [] then b AND 0x80 = 0 else b AND 0x80 \<noteq> 0 \<and> is_varint bs)"

fun varint_val :: "u8 list \<Rightarrow> nat" where
  "varint_val [] = 0"
| "varint_val (b # bs) = unat (b AND 0x7F) + 128 * varint_val bs"

lemma is_varint_not_Nil [simp]: "is_varint e \<Longrightarrow> e \<noteq> []"
  by (cases e) auto

lemma is_varint_take_conts:
  "is_varint e \<Longrightarrow> n < length e \<Longrightarrow> \<forall>c\<in>set (take n e). c AND 0x80 \<noteq> 0"
proof (induction e arbitrary: n)
  case (Cons b e)
  then show ?case by (cases n) (auto split: if_splits)
qed simp

lemma varint_val_less: "varint_val e < 128 ^ length e"
proof (induction e)
  case (Cons b bs)
  have "unat b mod 128 < 128" by simp
  with Cons.IH have "unat b mod 128 + 128 * varint_val bs < 128 * 128 ^ length bs"
    by linarith
  then show ?case by (simp add: unat_and_7F)
qed simp

subsection \<open>The encoder writes one\<close>

lemma cont_byte:
  fixes w :: u64
  shows "((ucast (w AND 0x7F) :: u8) OR 0x80) AND 0x80 \<noteq> 0"
    and "unat (((ucast (w AND 0x7F) :: u8) OR 0x80) AND 0x7F) = unat w mod 128"
    and "((ucast (w AND 0x7F) :: u8) OR 0x80) AND 0x7F = ucast (w AND 0x7F)"
proof -
  have h: "(0x80 :: u8) = push_bit 7 1" by simp
  show "((ucast (w AND 0x7F) :: u8) OR 0x80) AND 0x80 \<noteq> 0"
    unfolding and_80_bit by (simp add: h bit_simps del: push_bit_of_1)
  show *: "((ucast (w AND 0x7F) :: u8) OR 0x80) AND 0x7F = ucast (w AND 0x7F)"
    unfolding and_7F_take_bit h
    by (rule bit_word_eqI) (auto simp: bit_simps)
  have "unat (ucast (take_bit 7 w) :: u8) = unat w mod 128"
    by (simp add: unat_ucast_mod unat_take_bit_mod)
  then show "unat (((ucast (w AND 0x7F) :: u8) OR 0x80) AND 0x7F) = unat w mod 128"
    using * by (simp add: and_7F_take_bit)
qed

lemma small_byte:
  fixes w :: u64
  assumes "unat w < 128"
  shows "(ucast w :: u8) AND 0x80 = 0" and "unat ((ucast w :: u8) AND 0x7F) = unat w"
    and "(ucast (w AND 0x7F) :: u8) = ucast w"
proof -
  have tb: "take_bit 7 w = w"
    using assms by (intro word_eq_unatI) (simp add: unat_take_bit_mod)
  show "(ucast w :: u8) AND 0x80 = 0"
    unfolding and_80_bit by (subst tb [symmetric]) (simp add: bit_simps)
  show "unat ((ucast w :: u8) AND 0x7F) = unat w"
    using assms by (simp add: unat_and_7F unat_ucast_mod)
  show "(ucast (w AND 0x7F) :: u8) = ucast w"
    by (simp add: and_7F_take_bit tb)
qed

lemma varint_buffer_0 [simp]: "varint_buffer 0 = []"
  by (simp add: varint_buffer.simps)

lemma varint_buffer_nonzero:
  "v \<noteq> 0 \<Longrightarrow> varint_buffer v = (ucast (v AND 0x7F) OR 0x80) # varint_buffer (drop_bit 7 v)"
  by (simp add: varint_buffer.simps)

lemma varint_buffer_eq_Nil [simp]: "varint_buffer v = [] \<longleftrightarrow> v = 0"
  by (cases "v = 0") (simp_all add: varint_buffer_nonzero)

lemma varint_buffer_correct:
  "v \<noteq> 0 \<Longrightarrow>
     is_varint (butlast (varint_buffer v) @ [last (varint_buffer v) AND 0x7F]) \<and>
     varint_val (butlast (varint_buffer v) @ [last (varint_buffer v) AND 0x7F]) = unat v"
proof (induction v rule: varint_buffer.induct)
  case (1 v)
  let ?w = "drop_bit 7 v"
  have split: "unat v = unat v mod 128 + 128 * unat ?w"
    by (simp add: unat_drop_bit_div)
  show ?case
  proof (cases "?w = 0")
    case True
    have "(ucast (v AND 0x7F) :: u8) AND 0x80 = 0"
      unfolding and_80_bit and_7F_take_bit by (simp add: bit_simps)
    moreover have "unat ((ucast (v AND 0x7F) :: u8) AND 0x7F) = unat v"
      using split True by (simp add: unat_and_7F and_7F_take_bit unat_ucast_mod unat_take_bit_mod)
    ultimately show ?thesis
      using True "1.prems" by (simp add: varint_buffer_nonzero cont_byte)
  next
    case False
    with "1.IH" [OF "1.prems"] show ?thesis
      using split "1.prems" cont_byte(1,2) [of v]
      by (simp add: varint_buffer_nonzero [of v])
  qed
qed

lemma length_varint_buffer: "unat v < 128 ^ k \<Longrightarrow> length (varint_buffer v) \<le> k"
proof (induction k arbitrary: v)
  case 0
  then show ?case by (simp add: unat_eq_zero)
next
  case (Suc k)
  show ?case
  proof (cases "v = 0")
    case False
    have "unat (drop_bit 7 v) < 128 ^ k"
      using Suc.prems by (simp add: unat_drop_bit_div less_mult_imp_div_less)
    with False Suc.IH show ?thesis by (simp add: varint_buffer_nonzero)
  qed simp
qed

lemma is_varint_varint_bytes: "is_varint (varint_bytes v)"
  and varint_val_varint_bytes: "varint_val (varint_bytes v) = unat v"
proof -
  have small: "unat v < 128" if "v \<le> 0x7F"
    using that by (simp add: word_le_nat_alt)
  have nz: "v \<noteq> 0" if "\<not> v \<le> 0x7F" using that by auto
  show "is_varint (varint_bytes v)"
    using varint_buffer_correct [of v] small small_byte [of v] nz
    by (auto simp: varint_bytes_def Let_def)
  show "varint_val (varint_bytes v) = unat v"
    using varint_buffer_correct [of v] small small_byte [of v] nz
    by (auto simp: varint_bytes_def Let_def)
qed

lemma length_varint_bytes: "0 < length (varint_bytes v)" "length (varint_bytes v) \<le> 10"
proof -
  have "unat v < 128 ^ 10" using unat_less_two_power [of v] by simp
  then have "length (varint_buffer v) \<le> 10" by (rule length_varint_buffer)
  moreover have "0 < length (varint_buffer v)" if "\<not> v \<le> 0x7F"
    using that by (cases "v = 0") auto
  ultimately show "0 < length (varint_bytes v)" "length (varint_bytes v) \<le> 10"
    by (auto simp: varint_bytes_def Let_def)
qed

lemma length_varint_bytes_le:
  assumes "unat v < 128 ^ k" and "0 < k"
  shows "length (varint_bytes v) \<le> k"
  using length_varint_buffer [OF assms(1)] assms(2)
  by (cases "v \<le> 0x7F") (auto simp: varint_bytes_def Let_def)

lemma varint_bytes_length_val: "unat v < 128 ^ length (varint_bytes v)"
  using varint_val_less [of "varint_bytes v"] by (simp add: varint_val_varint_bytes)

subsection \<open>The decoder reads one\<close>

text \<open>Or-ing in the next seven bits adds them, because the bits below are all that is set.\<close>

lemma or_group_eq_add:
  assumes "p < 2 ^ k"
  shows "(word_of_nat p :: 'a::len word) OR push_bit k (ucast ((b :: u8) AND 0x7F)) =
    word_of_nat (p + 2 ^ k * unat (b AND 0x7F))"
proof -
  have low: "\<not> bit (word_of_nat p :: 'a word) n" if "k \<le> n" for n
  proof -
    have "p < 2 ^ n" using assms that
      by (meson less_le_trans one_le_numeral power_increasing)
    then have "p div 2 ^ n = 0" by simp
    then have "\<not> bit p n" unfolding bit_iff_odd by simp
    then show ?thesis by (simp add: bit_simps)
  qed
  have "(word_of_nat p :: 'a word) OR push_bit k (ucast (b AND 0x7F)) =
    word_of_nat p + push_bit k (ucast (b AND 0x7F))"
    by (rule disjunctive_add_eq_or [symmetric], rule bit_word_eqI) (use low in \<open>auto simp: bit_simps\<close>)
  also have "\<dots> = word_of_nat (p + 2 ^ k * unat (b AND 0x7F))"
    by (simp add: push_bit_eq_mult unsigned_def mult.commute flip: of_nat_unat) 
  finally show ?thesis .
qed

text \<open>
  The two loops on an arbitrary stream that shows a varint: the value modulo the width, if the
  last byte comes before \<open>bitpos\<close> reaches the width, and an overflow error otherwise.
\<close>

context byte_source
begin

lemma varint_loop_ok:
  assumes "source_ok rd content s" and "visible content s = e @ rest" and "is_varint e"
    and "p < 2 ^ k" and "k + 7 * (length e - 1) < LENGTH('a::len)"
  shows "\<exists>s'. varint_loop k (word_of_nat p :: 'a word) s =
      (Some (word_of_nat (p + 2 ^ k * varint_val e)), s') \<and> advanced content (length e) s s'"
  using assms
proof (induction e arbitrary: k p s)
  case Nil
  then show ?case by simp
next
  case (Cons b e)
  obtain s1 where s1: "pb_readbyte s = (Some b, s1)" and adv: "advanced content 1 s s1"
    using readbyte_ok Cons.prems(1,2) by fastforce
  let ?p = "p + 2 ^ k * unat (b AND 0x7F)"
  have p: "?p < 2 ^ (k + 7)"
  proof -
    have "?p < 2 ^ k + 2 ^ k * unat (b AND 0x7F)" using Cons.prems(4) by simp
    also have "\<dots> = 2 ^ k * (1 + unat (b AND 0x7F))" by simp
    also have "\<dots> \<le> 2 ^ k * 128" by (intro mult_left_mono) (simp_all add: unat_and_7F Suc_leI)
    finally show ?thesis by (simp add: power_add)
  qed
  have k: "\<not> LENGTH('a) \<le> k" using Cons.prems(5) by simp
  show ?case
  proof (cases "e = []")
    case True
    with s1 adv k Cons.prems show ?thesis
      by (simp add: varint_loop.simps [of k] or_group_eq_add Let_def)
  next
    case False
    with Cons.prems(3) have c: "b AND 0x80 \<noteq> 0" "is_varint e" by simp_all
    have len: "k + 7 + 7 * (length e - 1) < LENGTH('a)" using Cons.prems(5) False
      by (cases e) auto
    have v1: "visible content s1 = e @ rest"
      using advanced_visible [OF adv] Cons.prems(2) by simp
    obtain s2 where "varint_loop (k + 7) (word_of_nat ?p :: 'a word) s1 =
        (Some (word_of_nat (?p + 2 ^ (k + 7) * varint_val e)), s2)"
      and adv2: "advanced content (length e) s1 s2"
      using Cons.IH [OF advanced_ok [OF adv Cons.prems(1)] v1 c(2) p len] by blast
    then show ?thesis
      using s1 c k advanced_trans [OF adv adv2] Cons.prems(4)
      by (simp add: varint_loop.simps [of k] or_group_eq_add Let_def power_add algebra_simps)
  qed
qed

lemma varint_loop_conts:
  assumes "source_ok rd content s" and "visible content s = cs @ rest"
    and "\<forall>c\<in>set cs. c AND 0x80 \<noteq> 0" and "k + 7 * length cs < LENGTH('a::len) + 7"
  shows "\<exists>s' r'. varint_loop k (r :: 'a word) s = varint_loop (k + 7 * length cs) (r' :: 'a word) s' \<and>
    advanced content (length cs) s s'"
  using assms
proof (induction cs arbitrary: k r s)
  case Nil
  then show ?case using advanced_refl by fastforce
next
  case (Cons b cs)
  obtain s1 where s1: "pb_readbyte s = (Some b, s1)" and adv: "advanced content 1 s s1"
    using readbyte_ok Cons.prems(1,2) by fastforce
  let ?r = "r OR push_bit k (ucast (b AND 0x7F))"
  have "visible content s1 = cs @ rest" using advanced_visible [OF adv] Cons.prems(2) by simp
  moreover have "k + 7 + 7 * length cs < LENGTH('a) + 7" using Cons.prems(4) by simp
  ultimately obtain s2 r2 where "varint_loop (k + 7) ?r s1 = varint_loop (k + 7 + 7 * length cs) r2 s2"
    and adv2: "advanced content (length cs) s1 s2"
    using Cons.IH [OF advanced_ok [OF adv Cons.prems(1)]] Cons.prems(3) by fastforce
  moreover have "\<not> LENGTH('a) \<le> k" using Cons.prems(4) by simp
  ultimately show ?case
    using s1 Cons.prems(3) advanced_trans [OF adv adv2]
    by (auto simp: varint_loop.simps [of k r] Let_def add.assoc add.commute add.left_commute)
qed

text \<open>The functional specification of \<open>pb_decode_varint\<close>: value, overflow, end of stream.\<close>

lemma decode_varint_value:
  assumes "source_ok rd content s" and "visible content s = e @ rest" and "is_varint e"
    and "length e \<le> 10"
  shows "\<exists>s'. pb_decode_varint s = (Some (word_of_nat (varint_val e)), s') \<and>
    advanced content (length e) s s'"
  using varint_loop_ok [where 'a = 64, OF assms(1-3), of 0 0] assms(4)
  by (simp add: pb_decode_varint_def)

lemma decode_varint_overflow:
  assumes "source_ok rd content s" and "visible content s = cs @ rest"
    and "\<forall>c\<in>set cs. c AND 0x80 \<noteq> 0" and "length cs = 10"
  shows "\<exists>s'. pb_decode_varint s = (None, in_error ''varint overflow'' s') \<and> advanced content 10 s s'"
proof -
  obtain s' r' where "pb_decode_varint s = varint_loop 70 r' s'" "advanced content 10 s s'"
    using varint_loop_conts [where 'a = 64, OF assms(1-3), of 0 0] assms(4)
    by (auto simp: pb_decode_varint_def)
  then show ?thesis by (auto simp: varint_loop.simps [of 70])
qed

lemma decode_varint_eof:
  assumes "source_ok rd content s" and "\<forall>c\<in>set (visible content s). c AND 0x80 \<noteq> 0"
    and "bytes_left s < 10"
  shows "\<exists>s'. pb_decode_varint s = (None, in_error ''end-of-stream'' s') \<and>
    advanced content (bytes_left s) s s'"
proof -
  obtain s' r' where "pb_decode_varint s = varint_loop (7 * bytes_left s) r' s'"
    and adv: "advanced content (bytes_left s) s s'"
    using varint_loop_conts [where 'a = 64, OF assms(1) append_Nil2 [symmetric] assms(2), of 0 0]
      assms(1,3) by (auto simp: pb_decode_varint_def)
  moreover from adv have "bytes_left s' = 0" by (simp add: advanced_bytes_left)
  ultimately show ?thesis using assms(3)
    by (auto simp: varint_loop.simps [of "7 * bytes_left s"] pb_readbyte_def)
qed

lemma decode_varint32_value:
  assumes ok: "source_ok rd content s" and v: "visible content s = e @ rest" and e: "is_varint e"
    and len: "length e \<le> 5"
  shows "\<exists>s'. pb_decode_varint32 s = (Some (word_of_nat (varint_val e)), s') \<and>
    advanced content (length e) s s'"
proof -
  from e obtain b e' where be: "e = b # e'" by (cases e) auto
  obtain s1 where s1: "pb_readbyte s = (Some b, s1)" and adv: "advanced content 1 s s1"
    using readbyte_ok [OF ok] v be by fastforce
  have val: "word_of_nat (unat (b AND 0x7F)) = (ucast (b AND 0x7F) :: u32)"
    by (rule word_eq_unatI) (simp add: unat_and_7F unat_ucast_mod unat_of_nat)
  show ?thesis
  proof (cases "e' = []")
    case True
    have "ucast b = (word_of_nat (unat (b AND 0x7F)) :: u32)"
      using e be True by (intro word_eq_unatI) (auto simp: unat_ucast_mod unat_of_nat unat_and_7F and_80_bit
        dest!: bit7_clear)
    then show ?thesis using e be True s1 adv by (simp add: pb_decode_varint32_def)
  next
    case False
    let ?p = "unat (b AND 0x7F)"
    have v1: "visible content s1 = e' @ rest" using advanced_visible [OF adv] v be by simp
    have p: "?p < 2 ^ 7" by (simp add: unat_and_7F)
    have w: "7 + 7 * (length e' - 1) < LENGTH(32)" using len be False by (cases e') auto
    have e': "is_varint e'" using e be False by simp
    obtain s2 where "varint_loop 7 (word_of_nat ?p :: u32) s1 =
        (Some (word_of_nat (?p + 2 ^ 7 * varint_val e')), s2)"
      and adv2: "advanced content (length e') s1 s2"
      using varint_loop_ok [where 'a = 32, OF advanced_ok [OF adv ok] v1 e' p w] by blast
    then show ?thesis
      using e be False s1 advanced_trans [OF adv adv2] val by (simp add: pb_decode_varint32_def)
  qed
qed

lemma decode_varint32_overflow:
  assumes ok: "source_ok rd content s" and v: "visible content s = cs @ rest"
    and c: "\<forall>c\<in>set cs. c AND 0x80 \<noteq> 0" and len: "length cs = 5"
  shows "\<exists>s'. pb_decode_varint32 s = (None, in_error ''varint overflow'' s') \<and> advanced content 5 s s'"
proof -
  from len obtain b cs' where be: "cs = b # cs'" by (cases cs) auto
  obtain s1 where s1: "pb_readbyte s = (Some b, s1)" and adv: "advanced content 1 s s1"
    using readbyte_ok [OF ok] v be by fastforce
  have "visible content s1 = cs' @ rest" using advanced_visible [OF adv] v be by simp
  then obtain s2 r2 where "varint_loop 7 (ucast (b AND 0x7F) :: u32) s1 = varint_loop 35 (r2 :: u32) s2"
    and adv2: "advanced content 4 s1 s2"
    using varint_loop_conts [where 'a = 32, OF advanced_ok [OF adv ok], of cs' rest 7] c be len
    by fastforce
  moreover have "advanced content 5 s s2" using advanced_trans [OF adv adv2] by simp
  ultimately show ?thesis using s1 c be
    by (auto simp: pb_decode_varint32_def varint_loop.simps [of 35])
qed

text \<open>Skipping a varint consumes exactly its bytes, however many there are.\<close>

lemma skip_varint_ok:
  assumes "source_ok rd content s" and "visible content s = e @ rest" and "is_varint e"
  shows "\<exists>s'. pb_skip_varint s = (True, s') \<and> advanced content (length e) s s'"
  using assms
proof (induction e arbitrary: s)
  case Nil
  then show ?case by simp
next
  case (Cons b e)
  have "1 \<le> bytes_left s" using Cons.prems(2) by (cases "bytes_left s") (auto simp: visible_def)
  then obtain s1 where s1: "pb_read s 1 = (Some [b], s1)" and adv: "advanced content 1 s s1"
    using read_ok [OF Cons.prems(1), of 1] Cons.prems(2) by auto
  have v1: "visible content s1 = e @ rest"
    using advanced_visible [OF adv] Cons.prems(2) by simp
  note unfold = pb_skip_varint.simps [of s]
  show ?case
  proof (cases "e = []")
    case True
    with Cons.prems(3) s1 adv show ?thesis by (auto simp: unfold)
  next
    case False
    then obtain s2 where "pb_skip_varint s1 = (True, s2)" and adv2: "advanced content (length e) s1 s2"
      using Cons.IH [OF advanced_ok [OF adv Cons.prems(1)] v1] Cons.prems(3) by auto
    with False Cons.prems(3) s1 advanced_trans [OF adv adv2] show ?thesis by (simp add: unfold)
  qed
qed

end

end
