(* ===== verification/Nanopb_Mem.thy ===== *)
theory Nanopb_Mem
  imports Nanopb_Iter Nanopb_Wire
begin

text \<open>
  The memory that the message encoder and decoder of nanopb work on: message structs are raw bytes
  at 64-bit addresses, read and written through the descriptors' offsets, on a little-endian
  target. Memory is total: whether an address belongs to an object is not part of the model, and what a
  call may touch is the subject of theorems instead. The null pointer is address 0.
\<close>

section \<open>Loads and stores\<close>

type_synonym mem = "u64 \<Rightarrow> u8"

definition load_bytes :: "mem \<Rightarrow> u64 \<Rightarrow> nat \<Rightarrow> u8 list" where
  "load_bytes m a n = map (\<lambda>i. m (a + word_of_nat i)) [0..<n]"

definition store_bytes :: "u64 \<Rightarrow> u8 list \<Rightarrow> mem \<Rightarrow> mem" where
  "store_bytes a bs m = (\<lambda>x. if unat (x - a) < length bs then bs ! unat (x - a) else m x)"

definition load_word :: "mem \<Rightarrow> u64 \<Rightarrow> 'a::len word" where
  "load_word m a = word_of_nat (le_val (load_bytes m a (LENGTH('a) div 8)))"

definition le_bytes :: "nat \<Rightarrow> nat \<Rightarrow> u8 list" where
  "le_bytes n v = rev (be_bytes n v)"

definition store_word :: "u64 \<Rightarrow> 'a::len word \<Rightarrow> mem \<Rightarrow> mem" where
  "store_word a v m = store_bytes a (le_bytes (LENGTH('a) div 8) (unat v)) m"

abbreviation load_u32 :: "mem \<Rightarrow> u64 \<Rightarrow> u32" where "load_u32 \<equiv> load_word"
abbreviation load_ptr :: "mem \<Rightarrow> u64 \<Rightarrow> u64" where "load_ptr \<equiv> load_word"

text \<open>The bytes of an object of \<open>n\<close> bytes at \<open>a\<close>.\<close>

definition span :: "u64 \<Rightarrow> nat \<Rightarrow> u64 set" where
  "span a n = {x. unat (x - a) < n}"

lemma length_load_bytes [simp]: "length (load_bytes m a n) = n"
  by (simp add: load_bytes_def)

lemma nth_load_bytes [simp]: "i < n \<Longrightarrow> load_bytes m a n ! i = m (a + word_of_nat i)"
  by (simp add: load_bytes_def)

lemma load_bytes_0 [simp]: "load_bytes m a 0 = []"
  by (simp add: load_bytes_def)

lemma load_bytes_append: "load_bytes m a (i + j) = load_bytes m a i @ load_bytes m (a + word_of_nat i) j"
  by (rule nth_equalityI) (auto simp: nth_append add.assoc)

lemma take_load_bytes: "k \<le> n \<Longrightarrow> take k (load_bytes m a n) = load_bytes m a k"
  by (rule nth_equalityI) auto

lemma length_le_bytes [simp]: "length (le_bytes n v) = n"
  by (simp add: le_bytes_def)

lemma le_val_le_bytes [simp]: "le_val (le_bytes n v) = v mod 256 ^ n"
  by (simp add: le_bytes_def byte_simps)

lemma le_bytes_le_val [simp]: "le_bytes (length bs) (le_val bs) = bs"
  using be_bytes_be_val [of "rev bs"] le_val_rev [of "rev bs"] by (simp add: le_bytes_def)

lemma span_translate: "x \<in> span (d + a) n \<longleftrightarrow> x - d \<in> span a n"
  by (simp add: span_def diff_diff_add)

lemma span_mono: "k \<le> n \<Longrightarrow> span a k \<subseteq> span a n"
  by (auto simp: span_def)

lemma span_sub: "unat b + k \<le> n \<Longrightarrow> span (a + b) k \<subseteq> span a n"
proof
  fix x assume "unat b + k \<le> n" and "x \<in> span (a + b) k"
  then have "unat (x - (a + b)) < k" by (simp add: span_def)
  moreover have "x - a = (x - (a + b)) + b" by simp
  then have "unat (x - a) \<le> unat (x - (a + b)) + unat b" by (simp only: unat_word_ariths) (rule mod_less_eq_dividend)
  ultimately show "x \<in> span a n" using \<open>unat b + k \<le> n\<close> by (simp add: span_def)
qed

lemma store_other [simp]: "x \<notin> span a (length bs) \<Longrightarrow> store_bytes a bs m x = m x"
  by (simp add: store_bytes_def span_def)

lemma store_Nil [simp]: "store_bytes a [] m = m"
  by (simp add: store_bytes_def)

lemma unat_offset: "i < 2 ^ 64 \<Longrightarrow> unat (a + word_of_nat i - a :: u64) = i"
  by (simp add: unat_of_nat)

lemma in_span_offset: "i < n \<Longrightarrow> n \<le> 2 ^ 64 \<Longrightarrow> a + word_of_nat i \<in> span a n"
  using unat_offset [of i a] by (simp add: span_def)

lemma in_span_iff: "n \<le> 2 ^ 64 \<Longrightarrow> x \<in> span a n \<longleftrightarrow> (\<exists>i<n. x = a + word_of_nat i)"
  using in_span_offset [of _ n a] by (auto simp: span_def intro!: exI [of _ "unat (x - a)"])

lemma unat_ucast_32_64 [simp]: "unat (ucast (w :: u32) :: u64) = unat w"
  using unat_less_two_power [of w] by (simp add: unat_ucast_mod)

text \<open>Reading back what was stored, in full or in part, and reading elsewhere.\<close>

lemma load_store_part:
  "i + k \<le> length bs \<Longrightarrow> length bs \<le> 2 ^ 64 \<Longrightarrow>
    load_bytes (store_bytes a bs m) (a + word_of_nat i) k = take k (drop i bs)"
proof (rule nth_equalityI)
  fix j assume "i + k \<le> length bs" "length bs \<le> 2 ^ 64" "j < length (load_bytes (store_bytes a bs m) (a + word_of_nat i) k)"
  moreover then have "unat (a + word_of_nat i + word_of_nat j - a :: u64) = i + j"
    using unat_offset [of "i + j" a] by (simp add: add.assoc)
  ultimately show "load_bytes (store_bytes a bs m) (a + word_of_nat i) k ! j = take k (drop i bs) ! j"
    by (simp add: store_bytes_def)
qed simp

lemma load_store_same: "length bs \<le> 2 ^ 64 \<Longrightarrow> load_bytes (store_bytes a bs m) a (length bs) = bs"
  using load_store_part [of 0 "length bs" bs a m] by simp

lemma load_bytes_cong:
  "(\<And>x. x \<in> span a n \<Longrightarrow> m x = m' x) \<Longrightarrow> n \<le> 2 ^ 64 \<Longrightarrow> load_bytes m a n = load_bytes m' a n"
  by (rule nth_equalityI) (simp_all add: in_span_offset)

lemma load_store_other:
  "span a n \<inter> span b (length bs) = {} \<Longrightarrow> n \<le> 2 ^ 64 \<Longrightarrow>
    load_bytes (store_bytes b bs m) a n = load_bytes m a n"
  by (rule load_bytes_cong) (auto intro!: store_other)

lemma load_word_cong:
  "(\<And>x. x \<in> span a (LENGTH('a) div 8) \<Longrightarrow> m x = m' x) \<Longrightarrow> LENGTH('a) \<le> 2 ^ 64 \<Longrightarrow>
    (load_word m a :: 'a::len word) = load_word m' a"
  unfolding load_word_def by (subst load_bytes_cong [of a _ m m']) auto

section \<open>Field types\<close>

abbreviation (input) "PB_LTYPE_VARINT \<equiv> (0x00 :: u8)"
abbreviation (input) "PB_LTYPE_UVARINT \<equiv> (0x01 :: u8)"
abbreviation (input) "PB_LTYPE_SVARINT \<equiv> (0x02 :: u8)"
abbreviation (input) "PB_LTYPE_FIXED32 \<equiv> (0x03 :: u8)"
abbreviation (input) "PB_LTYPE_FIXED64 \<equiv> (0x04 :: u8)"
abbreviation (input) "PB_LTYPE_LAST_PACKABLE \<equiv> (0x04 :: u8)"
abbreviation (input) "PB_LTYPE_BYTES \<equiv> (0x05 :: u8)"
abbreviation (input) "PB_LTYPE_STRING \<equiv> (0x06 :: u8)"
abbreviation (input) "PB_LTYPE_SUBMESSAGE \<equiv> (0x07 :: u8)"
abbreviation (input) "PB_LTYPE_FIXED_LENGTH_BYTES \<equiv> (0x09 :: u8)"
abbreviation (input) "PB_HTYPE_OPTIONAL \<equiv> (0x10 :: u8)"
abbreviation (input) "PB_ATYPE_CALLBACK \<equiv> (0x40 :: u8)"

text \<open>The descriptors of the encoder and decoder: \<open>ptr\<close> is the address of a default value, or of the
  descriptor array of a submessage.\<close>

type_synonym fld = "u64 pb_field"
type_synonym iter = "u64 pb_field_iter"

abbreviation "ltype f \<equiv> PB_LTYPE (ftype f)"
abbreviation "htype f \<equiv> PB_HTYPE (ftype f)"
abbreviation "atype f \<equiv> PB_ATYPE (ftype f)"

text \<open>\<open>PB_BYTES_ARRAY_T_ALLOCSIZE\<close>: the size of a \<open>pb_bytes_array_t\<close> with \<open>n\<close> bytes.\<close>

definition bytes_alloc_size :: "u32 \<Rightarrow> size_t" where
  "bytes_alloc_size n = ucast n + 4"

end
