(* ===== verification/Nanopb_Encode.thy ===== *)
theory Nanopb_Encode
  imports Nanopb_Mem
begin

text \<open>
  The message encoder of nanopb (nanopb/pb_encode.c): from the memory of a message struct and its field
  descriptors to an output stream.

  Results are \<open>(ok, stream) option\<close>: None stands for a call without a defined result, which is a
  recursion deeper than the bound \<open>d\<close> of \<open>pb_encode\<close>, a loop that does not end (a descriptor array without
  terminator or a cyclic list of extensions), or undefined behaviour (a call through a null entry of
  \<open>PB_ENCODERS\<close>, a count read from a flag). A recursive call of \<open>pb_encode\<close> for a submessage is the argument
  \<open>sub\<close> of the functions in between. User callbacks are found by their address in the environment; they
  may read the memory and write to the stream.
\<close>

record 's encode_env =
  enc_fields :: "u64 \<Rightarrow> fld list"
  enc_callback :: "u64 \<Rightarrow> mem \<Rightarrow> 's pb_ostream \<Rightarrow> fld \<Rightarrow> u64 \<Rightarrow> bool \<times> 's pb_ostream"
  enc_extension :: "u64 \<Rightarrow> mem \<Rightarrow> 's pb_ostream \<Rightarrow> u64 \<Rightarrow> bool \<times> 's pb_ostream"

type_synonym 's enc = "(bool \<times> 's pb_ostream) option"
type_synonym 's sub_encoder = "'s pb_ostream \<Rightarrow> fld list \<Rightarrow> u64 \<Rightarrow> 's enc"

text \<open>\<open>if (!r) return false;\<close>\<close>

definition then_ok :: "bool \<times> 's pb_ostream \<Rightarrow> ('s pb_ostream \<Rightarrow> 's enc) \<Rightarrow> 's enc" where
  "then_ok r k = (case r of (ok, s) \<Rightarrow> if ok then k s else Some (False, s))"

section \<open>Tags and submessages\<close>

definition pb_encode_tag_for_field :: "'s pb_ostream \<Rightarrow> fld \<Rightarrow> bool \<times> 's pb_ostream" where
  "pb_encode_tag_for_field s f =
     (if ltype f \<in> {PB_LTYPE_VARINT, PB_LTYPE_UVARINT, PB_LTYPE_SVARINT} then pb_encode_tag s PB_WT_VARINT (tag f)
      else if ltype f = PB_LTYPE_FIXED32 then pb_encode_tag s PB_WT_32BIT (tag f)
      else if ltype f = PB_LTYPE_FIXED64 then pb_encode_tag s PB_WT_64BIT (tag f)
      else if ltype f \<in> {PB_LTYPE_BYTES, PB_LTYPE_STRING, PB_LTYPE_SUBMESSAGE, PB_LTYPE_FIXED_LENGTH_BYTES}
      then pb_encode_tag s PB_WT_STRING (tag f)
      else (False, out_error ''invalid field type'' s))"

text \<open>A sizing stream has no callback, so its state is never used; the parent's stands in for the null
  pointer.\<close>

definition pb_encode_submessage :: "'s sub_encoder \<Rightarrow> 's sub_encoder" where
  "pb_encode_submessage sub s flds src =
     (case sub (pb_ostream_sizing (out_state s)) flds src of
        None \<Rightarrow> None
      | Some (ok, substream) \<Rightarrow>
          if \<not> ok then Some (False, s\<lparr>out_errmsg := out_errmsg substream\<rparr>)
          else
            let sz = bytes_written substream in
            then_ok (pb_encode_varint s sz) (\<lambda>s.
              if Option.is_none (out_callback s) then Some (pb_write s [] sz)
              else if max_size s < bytes_written s + sz then Some (False, out_error ''stream full'' s)
              else
                (case sub (s\<lparr>max_size := sz, bytes_written := 0, out_errmsg := None\<rparr>) flds src of
                   None \<Rightarrow> None
                 | Some (status, substream) \<Rightarrow>
                     let s = s\<lparr>bytes_written := bytes_written s + bytes_written substream,
                               out_state := out_state substream, out_errmsg := out_errmsg substream\<rparr>
                     in if bytes_written substream \<noteq> sz
                        then Some (False, out_error ''submsg size changed'' s)
                        else Some (status, s))))"

section \<open>Field encoders\<close>

definition signed_value :: "mem \<Rightarrow> fld \<Rightarrow> u64 \<Rightarrow> u64 option" where
  "signed_value m f src =
     (if data_size f = 1 then Some (scast (load_word m src :: u8))
      else if data_size f = 2 then Some (scast (load_word m src :: u16))
      else if data_size f = 4 then Some (scast (load_word m src :: u32))
      else if data_size f = 8 then Some (load_word m src)
      else None)"

definition unsigned_value :: "mem \<Rightarrow> fld \<Rightarrow> u64 \<Rightarrow> u64 option" where
  "unsigned_value m f src =
     (if data_size f = 1 then Some (ucast (load_word m src :: u8))
      else if data_size f = 2 then Some (ucast (load_word m src :: u16))
      else if data_size f = 4 then Some (ucast (load_word m src :: u32))
      else if data_size f = 8 then Some (load_word m src)
      else None)"

definition pb_enc_varint :: "mem \<Rightarrow> 's pb_ostream \<Rightarrow> fld \<Rightarrow> u64 \<Rightarrow> bool \<times> 's pb_ostream" where
  "pb_enc_varint m s f src =
     (case signed_value m f src of
        None \<Rightarrow> (False, out_error ''invalid data_size'' s)
      | Some v \<Rightarrow> pb_encode_varint s v)"

definition pb_enc_uvarint :: "mem \<Rightarrow> 's pb_ostream \<Rightarrow> fld \<Rightarrow> u64 \<Rightarrow> bool \<times> 's pb_ostream" where
  "pb_enc_uvarint m s f src =
     (case unsigned_value m f src of
        None \<Rightarrow> (False, out_error ''invalid data_size'' s)
      | Some v \<Rightarrow> pb_encode_varint s v)"

definition pb_enc_svarint :: "mem \<Rightarrow> 's pb_ostream \<Rightarrow> fld \<Rightarrow> u64 \<Rightarrow> bool \<times> 's pb_ostream" where
  "pb_enc_svarint m s f src =
     (case signed_value m f src of
        None \<Rightarrow> (False, out_error ''invalid data_size'' s)
      | Some v \<Rightarrow> pb_encode_svarint s v)"

definition pb_enc_fixed32 :: "mem \<Rightarrow> 's pb_ostream \<Rightarrow> fld \<Rightarrow> u64 \<Rightarrow> bool \<times> 's pb_ostream" where
  "pb_enc_fixed32 m s f src = pb_encode_fixed32 s (load_word m src)"

definition pb_enc_fixed64 :: "mem \<Rightarrow> 's pb_ostream \<Rightarrow> fld \<Rightarrow> u64 \<Rightarrow> bool \<times> 's pb_ostream" where
  "pb_enc_fixed64 m s f src = pb_encode_fixed64 s (load_word m src)"

definition pb_enc_bytes :: "mem \<Rightarrow> 's pb_ostream \<Rightarrow> fld \<Rightarrow> u64 \<Rightarrow> bool \<times> 's pb_ostream" where
  "pb_enc_bytes m s f src =
     (if src = 0 then pb_encode_string s [] 0
      else
        let sz = load_u32 m src in
        if atype f = PB_ATYPE_STATIC \<and> ucast (data_size f) < bytes_alloc_size sz
        then (False, out_error ''bytes size exceeded'' s)
        else pb_encode_string s (load_bytes m (src + 4) (unat sz)) (ucast sz))"

text \<open>The search for the terminator, at most \<open>max_size\<close> bytes.\<close>

fun string_size :: "mem \<Rightarrow> u64 \<Rightarrow> nat \<Rightarrow> nat" where
  "string_size m p 0 = 0"
| "string_size m p (Suc n) = (if m p \<noteq> 0 then Suc (string_size m (p + 1) n) else 0)"

definition pb_enc_string :: "mem \<Rightarrow> 's pb_ostream \<Rightarrow> fld \<Rightarrow> u64 \<Rightarrow> bool \<times> 's pb_ostream" where
  "pb_enc_string m s f src =
     (let max_size = (if atype f = PB_ATYPE_POINTER then 2 ^ 64 - 1 else unat (data_size f));
          sz = (if src = 0 then 0 else string_size m src max_size)
      in pb_encode_string s (load_bytes m src sz) (word_of_nat sz))"

definition pb_enc_fixed_length_bytes :: "mem \<Rightarrow> 's pb_ostream \<Rightarrow> fld \<Rightarrow> u64 \<Rightarrow> bool \<times> 's pb_ostream" where
  "pb_enc_fixed_length_bytes m s f src =
     pb_encode_string s (load_bytes m src (unat (data_size f))) (ucast (data_size f))"

definition pb_enc_submessage ::
    "'s encode_env \<Rightarrow> 's sub_encoder \<Rightarrow> 's pb_ostream \<Rightarrow> fld \<Rightarrow> u64 \<Rightarrow> 's enc" where
  "pb_enc_submessage E sub s f src =
     (case ptr f of
        None \<Rightarrow> Some (False, out_error ''invalid field descriptor'' s)
      | Some p \<Rightarrow> pb_encode_submessage sub s (enc_fields E p) src)"

text \<open>The table \<open>PB_ENCODERS\<close>; the null entry and the indices past its end have no defined result.\<close>

definition PB_ENCODERS ::
    "'s encode_env \<Rightarrow> 's sub_encoder \<Rightarrow> mem \<Rightarrow> 's pb_ostream \<Rightarrow> fld \<Rightarrow> u64 \<Rightarrow> 's enc" where
  "PB_ENCODERS E sub m s f src =
     (if ltype f = PB_LTYPE_VARINT then Some (pb_enc_varint m s f src)
      else if ltype f = PB_LTYPE_UVARINT then Some (pb_enc_uvarint m s f src)
      else if ltype f = PB_LTYPE_SVARINT then Some (pb_enc_svarint m s f src)
      else if ltype f = PB_LTYPE_FIXED32 then Some (pb_enc_fixed32 m s f src)
      else if ltype f = PB_LTYPE_FIXED64 then Some (pb_enc_fixed64 m s f src)
      else if ltype f = PB_LTYPE_BYTES then Some (pb_enc_bytes m s f src)
      else if ltype f = PB_LTYPE_STRING then Some (pb_enc_string m s f src)
      else if ltype f = PB_LTYPE_SUBMESSAGE then pb_enc_submessage E sub s f src
      else if ltype f = PB_LTYPE_FIXED_LENGTH_BYTES then Some (pb_enc_fixed_length_bytes m s f src)
      else None)"

section \<open>Arrays\<close>

text \<open>The loops of \<open>encode_array\<close> over \<open>count\<close> items from address \<open>p\<close> on.\<close>

fun encode_items ::
    "('s pb_ostream \<Rightarrow> u64 \<Rightarrow> 's enc) \<Rightarrow> u64 \<Rightarrow> nat \<Rightarrow> 's pb_ostream \<Rightarrow> u64 \<Rightarrow> 's enc" where
  "encode_items item sz 0 s p = Some (True, s)"
| "encode_items item sz (Suc count) s p =
     (case item s p of
        None \<Rightarrow> None
      | Some r \<Rightarrow> then_ok r (\<lambda>s. encode_items item sz count s (p + sz)))"

definition encode_array ::
    "('s pb_ostream \<Rightarrow> fld \<Rightarrow> u64 \<Rightarrow> 's enc) \<Rightarrow> mem \<Rightarrow> 's pb_ostream \<Rightarrow> fld \<Rightarrow> u64 \<Rightarrow> u32 \<Rightarrow> 's enc" where
  "encode_array func m s f a count =
     (if count = 0 then Some (True, s)
      else if atype f \<noteq> PB_ATYPE_POINTER \<and> array_size f < count
      then Some (False, out_error ''array max size exceeded'' s)
      else if ltype f \<le> PB_LTYPE_LAST_PACKABLE then
        then_ok (pb_encode_tag s PB_WT_STRING (tag f)) (\<lambda>s.
          (case (if ltype f = PB_LTYPE_FIXED32 then Some (True, 4 * ucast count)
                 else if ltype f = PB_LTYPE_FIXED64 then Some (True, 8 * ucast count)
                 else map_option (\<lambda>(ok, sizestream). (ok, bytes_written sizestream))
                   (encode_items (\<lambda>s p. func s f p) (ucast (data_size f)) (unat count)
                     (pb_ostream_sizing (out_state s)) a)) of
             None \<Rightarrow> None
           | Some (ok, sz) \<Rightarrow>
               if \<not> ok then Some (False, s)
               else then_ok (pb_encode_varint s sz) (\<lambda>s.
                 if Option.is_none (out_callback s) then Some (pb_write s [] sz)
                 else encode_items (\<lambda>s p. func s f p) (ucast (data_size f)) (unat count) s a)))
      else
        encode_items
          (\<lambda>s p. then_ok (pb_encode_tag_for_field s f) (\<lambda>s.
             if atype f = PB_ATYPE_POINTER \<and> (ltype f = PB_LTYPE_STRING \<or> ltype f = PB_LTYPE_BYTES)
             then func s f (load_ptr m p) else func s f p))
          (ucast (data_size f)) (unat count) s a)"

section \<open>Fields\<close>

text \<open>The loop over the fields of a submessage in \<open>pb_check_proto3_default_value\<close>.\<close>

partial_function (option) default_loop :: "(fld \<Rightarrow> u64 \<Rightarrow> bool option) \<Rightarrow> iter \<Rightarrow> bool option" where
  "default_loop check iter =
     (case check (cur iter) (pData iter) of
        None \<Rightarrow> None
      | Some dflt \<Rightarrow>
          if \<not> dflt then Some False
          else (case pb_field_iter_next iter of
                  (next, iter) \<Rightarrow> if next then default_loop check iter else Some True))"

fun pb_check_proto3_default_value :: "nat \<Rightarrow> 's encode_env \<Rightarrow> mem \<Rightarrow> fld \<Rightarrow> u64 \<Rightarrow> bool option" where
  "pb_check_proto3_default_value 0 E m f a = None"
| "pb_check_proto3_default_value (Suc d) E m f a =
     (if atype f = PB_ATYPE_STATIC \<and> ltype f = PB_LTYPE_BYTES then Some (load_u32 m a = 0)
      else if atype f = PB_ATYPE_STATIC \<and> ltype f = PB_LTYPE_STRING then Some (m a = 0)
      else if atype f = PB_ATYPE_STATIC \<and> ltype f = PB_LTYPE_FIXED_LENGTH_BYTES then Some (data_size f = 0)
      else if atype f = PB_ATYPE_STATIC \<and> ltype f = PB_LTYPE_SUBMESSAGE then
        (case ptr f of
           None \<Rightarrow> None
         | Some p \<Rightarrow>
             (case pb_field_iter_begin (enc_fields E p) a of
                (found, iter) \<Rightarrow>
                  if found then default_loop (pb_check_proto3_default_value d E m) iter else Some True))
      else Some (list_all (\<lambda>b. b = 0) (load_bytes m a (unat (data_size f)))))"

text \<open>\<open>check\<close> is \<open>pb_check_proto3_default_value\<close>. A field without \<open>size_offset\<close> has its flag in the local
  variable \<open>implicit_has\<close>, which is too small to hold a count.\<close>

definition encode_basic_field ::
    "'s encode_env \<Rightarrow> (fld \<Rightarrow> u64 \<Rightarrow> bool option) \<Rightarrow> 's sub_encoder \<Rightarrow> mem \<Rightarrow> 's pb_ostream \<Rightarrow> fld \<Rightarrow> u64 \<Rightarrow>
     's enc" where
  "encode_basic_field E check sub m s f a =
     (let func = PB_ENCODERS E sub m;
          pSize = (if size_offset f \<noteq> 0 then Some (a + scast (size_offset f)) else None)
      in case (if size_offset f \<noteq> 0 then Some False
               else if htype f = PB_HTYPE_OPTIONAL then map_option Not (check f a)
               else Some True) of
           None \<Rightarrow> None
         | Some implicit_has \<Rightarrow>
             (case (if atype f = PB_ATYPE_POINTER then (load_ptr m a, load_ptr m a \<noteq> 0)
                    else (a, implicit_has)) of
                (a, implicit_has) \<Rightarrow>
                  if htype f = PB_HTYPE_REQUIRED then
                    if a = 0 then Some (False, out_error ''missing required field'' s)
                    else then_ok (pb_encode_tag_for_field s f) (\<lambda>s. func s f a)
                  else if htype f = PB_HTYPE_OPTIONAL then
                    if (case pSize of None \<Rightarrow> implicit_has | Some p \<Rightarrow> m p \<noteq> 0)
                    then then_ok (pb_encode_tag_for_field s f) (\<lambda>s. func s f a)
                    else Some (True, s)
                  else if htype f = PB_HTYPE_REPEATED then
                    (case pSize of
                       None \<Rightarrow> None
                     | Some p \<Rightarrow> encode_array func m s f a (load_u32 m p))
                  else if htype f = PB_HTYPE_ONEOF then
                    (case pSize of
                       None \<Rightarrow> None
                     | Some p \<Rightarrow>
                         if load_u32 m p = tag f
                         then then_ok (pb_encode_tag_for_field s f) (\<lambda>s. func s f a)
                         else Some (True, s))
                  else Some (False, out_error ''invalid field type'' s)))"

text \<open>A \<open>pb_callback_t\<close> is the function pointer followed by its argument.\<close>

definition encode_callback_field ::
    "'s encode_env \<Rightarrow> mem \<Rightarrow> 's pb_ostream \<Rightarrow> fld \<Rightarrow> u64 \<Rightarrow> bool \<times> 's pb_ostream" where
  "encode_callback_field E m s f a =
     (let encode = load_ptr m a in
      if encode \<noteq> 0 then
        (case enc_callback E encode m s f (a + 8) of
           (ok, s) \<Rightarrow> if ok then (True, s) else (False, out_error ''callback error'' s))
      else (True, s))"

definition encode_field ::
    "'s encode_env \<Rightarrow> (fld \<Rightarrow> u64 \<Rightarrow> bool option) \<Rightarrow> 's sub_encoder \<Rightarrow> mem \<Rightarrow> 's pb_ostream \<Rightarrow> fld \<Rightarrow> u64 \<Rightarrow>
     's enc" where
  "encode_field E check sub m s f a =
     (if atype f = PB_ATYPE_STATIC \<or> atype f = PB_ATYPE_POINTER then encode_basic_field E check sub m s f a
      else if atype f = PB_ATYPE_CALLBACK then Some (encode_callback_field E m s f a)
      else Some (False, out_error ''invalid field type'' s))"

text \<open>A \<open>pb_extension_t\<close> has its type at offset 0, \<open>dest\<close> at 8, \<open>next\<close> at 16 and \<open>found\<close> at 24; its type has
  \<open>decode\<close> at 0, \<open>encode\<close> at 8 and \<open>arg\<close> at 16.\<close>

definition default_extension_encoder ::
    "'s encode_env \<Rightarrow> (fld \<Rightarrow> u64 \<Rightarrow> bool option) \<Rightarrow> 's sub_encoder \<Rightarrow> mem \<Rightarrow> 's pb_ostream \<Rightarrow> u64 \<Rightarrow> 's enc" where
  "default_extension_encoder E check sub m s extension =
     (let f = enc_fields E (load_ptr m (load_ptr m extension + 16)) ! 0 in
      if atype f = PB_ATYPE_POINTER then encode_field E check sub m s f (extension + 8)
      else encode_field E check sub m s f (load_ptr m (extension + 8)))"

partial_function (option) extension_loop ::
    "('s pb_ostream \<Rightarrow> u64 \<Rightarrow> 's enc) \<Rightarrow> mem \<Rightarrow> 's pb_ostream \<Rightarrow> u64 \<Rightarrow> 's enc" where
  "extension_loop encode m s extension =
     (if extension = 0 then Some (True, s)
      else case encode s extension of
             None \<Rightarrow> None
           | Some (status, s) \<Rightarrow>
               if \<not> status then Some (False, s)
               else extension_loop encode m s (load_ptr m (extension + 16)))"

definition encode_extension_field ::
    "'s encode_env \<Rightarrow> (fld \<Rightarrow> u64 \<Rightarrow> bool option) \<Rightarrow> 's sub_encoder \<Rightarrow> mem \<Rightarrow> 's pb_ostream \<Rightarrow> u64 \<Rightarrow> 's enc" where
  "encode_extension_field E check sub m s a =
     extension_loop
       (\<lambda>s extension.
          let encode = load_ptr m (load_ptr m extension + 8) in
          if encode \<noteq> 0 then Some (enc_extension E encode m s extension)
          else default_extension_encoder E check sub m s extension)
       m s (load_ptr m a)"

section \<open>Messages\<close>

definition encode_entry ::
    "'s encode_env \<Rightarrow> (fld \<Rightarrow> u64 \<Rightarrow> bool option) \<Rightarrow> 's sub_encoder \<Rightarrow> mem \<Rightarrow> iter \<Rightarrow> 's pb_ostream \<Rightarrow> 's enc" where
  "encode_entry E check sub m iter s =
     (if ltype (cur iter) = PB_LTYPE_EXTENSION then encode_extension_field E check sub m s (pData iter)
      else encode_field E check sub m s (cur iter) (pData iter))"

partial_function (option) encode_fields_loop :: "(iter \<Rightarrow> 's pb_ostream \<Rightarrow> 's enc) \<Rightarrow> iter \<Rightarrow> 's pb_ostream \<Rightarrow> 's enc" where
  "encode_fields_loop entry iter s =
     (case entry iter s of
        None \<Rightarrow> None
      | Some (ok, s) \<Rightarrow>
          if \<not> ok then Some (False, s)
          else (case pb_field_iter_next iter of
                  (next, iter) \<Rightarrow> if next then encode_fields_loop entry iter s else Some (True, s)))"

fun pb_encode :: "nat \<Rightarrow> 's encode_env \<Rightarrow> mem \<Rightarrow> 's sub_encoder" where
  "pb_encode 0 E m s flds src = None"
| "pb_encode (Suc d) E m s flds src =
     (case pb_field_iter_begin flds src of
        (found, iter) \<Rightarrow>
          if \<not> found then Some (True, s)
          else encode_fields_loop (encode_entry E (pb_check_proto3_default_value (Suc d) E m) (pb_encode d E m) m) iter s)"

definition pb_encode_delimited :: "nat \<Rightarrow> 's encode_env \<Rightarrow> mem \<Rightarrow> 's sub_encoder" where
  "pb_encode_delimited d E m s flds src = pb_encode_submessage (pb_encode d E m) s flds src"

text \<open>The size, or that the message cannot be encoded.\<close>

definition pb_get_encoded_size :: "nat \<Rightarrow> u8 list encode_env \<Rightarrow> mem \<Rightarrow> fld list \<Rightarrow> u64 \<Rightarrow> size_t option option" where
  "pb_get_encoded_size d E m flds src =
     map_option (\<lambda>(ok, s). if ok then Some (bytes_written s) else None) (pb_encode d E m (pb_ostream_sizing []) flds src)"

end
