(* ===== verification/Nanopb_Layout.thy ===== *)
theory Nanopb_Layout
  imports Nanopb_Mem
begin

text \<open>
  Well-formed message layouts: where the fields of a descriptor array lie in the message struct, and when
  they lie inside it. Offsets are those of the iterator on a struct at address 0; the iterator on another
  struct is the same, shifted.
\<close>

section \<open>Iterators on shifted structs\<close>

definition shifted :: "u64 \<Rightarrow> iter \<Rightarrow> iter \<Rightarrow> bool" where
  "shifted a it it0 \<longleftrightarrow> start it = start it0 \<and> pos it = pos it0 \<and>
     required_field_index it = required_field_index it0 \<and> dest_struct it = a + dest_struct it0 \<and>
     pData it = a + pData it0 \<and> pSize it = a + pSize it0"

lemma shifted_next:
  "shifted a it it0 \<Longrightarrow> shifted a (snd (pb_field_iter_next it)) (snd (pb_field_iter_next it0))"
  by (simp add: shifted_def pb_field_iter_next_def pb_field_iter_begin_def cur_def Let_def add.assoc)

lemma iter_at_shifted: "shifted a (iter_at fs a i) (iter_at fs 0 i)"
proof (induction i)
  case 0
  show ?case by (simp add: shifted_def pb_field_iter_begin_def Let_def add.assoc)
next
  case (Suc i)
  then show ?case using shifted_next by simp
qed

definition field_offset :: "fld list \<Rightarrow> nat \<Rightarrow> nat" where
  "field_offset fs i = unat (pData (iter_at fs 0 i))"

definition flag_offset :: "fld list \<Rightarrow> nat \<Rightarrow> nat" where
  "flag_offset fs i = unat (pSize (iter_at fs 0 i))"

lemma pData_at: "pData (iter_at fs a i) = a + word_of_nat (field_offset fs i)"
  using iter_at_shifted [of a fs i] by (simp add: shifted_def field_offset_def)

lemma pSize_at: "pSize (iter_at fs a i) = a + word_of_nat (flag_offset fs i)"
  using iter_at_shifted [of a fs i] by (simp add: shifted_def flag_offset_def)

lemma offsets_less: "field_offset fs i < 2 ^ 64" "flag_offset fs i < 2 ^ 64"
  using unat_less_two_power [of "pData (iter_at fs 0 i)"] unat_less_two_power [of "pSize (iter_at fs 0 i)"]
  by (simp_all add: field_offset_def flag_offset_def)

lemma pSize_neq_pData: "pSize (iter_at fs a i) \<noteq> pData (iter_at fs a i) \<longleftrightarrow> flag_offset fs i \<noteq> field_offset fs i"
  using iter_at_shifted [of a fs i] word_eq_unatI
  by (auto simp: shifted_def flag_offset_def field_offset_def)

text \<open>The bytes of field and flag, inside a struct of \<open>n\<close> bytes.\<close>

lemma span_at: "o' + k \<le> n \<Longrightarrow> n < 2 ^ 64 \<Longrightarrow> span (a + word_of_nat o') k \<subseteq> span a n"
  by (rule span_sub) (simp add: unat_of_nat)

section \<open>Required fields\<close>

definition required_before :: "fld list \<Rightarrow> nat \<Rightarrow> nat" where
  "required_before fs i = length (filter (\<lambda>j. htype (fs ! j) = PB_HTYPE_REQUIRED) [0..<i])"

lemma required_before_Suc:
  "required_before fs (Suc i) = (if htype (fs ! i) = PB_HTYPE_REQUIRED then required_before fs i + 1 else required_before fs i)"
  by (simp add: required_before_def)

lemma required_index_at:
  assumes d: "descriptor fs n" and n: "n < 2 ^ 32"
  shows "i < n \<or> i = 0 \<Longrightarrow> unat (required_field_index (iter_at fs a i)) = required_before fs i"
proof (induction i)
  case 0
  show ?case by (simp add: pb_field_iter_begin_def required_before_def Let_def)
next
  case (Suc i)
  then have i: "i < n" "Suc i < n" by auto
  have "required_before fs i \<le> i" using length_filter_le [of _ "[0..<i]"] by (simp add: required_before_def)
  then have lt: "required_before fs i + 1 < 2 ^ 32" using i n by linarith
  have nx: "tag (fs ! i) \<noteq> 0" "tag (fs ! Suc i) \<noteq> 0" using d i by (auto simp: descriptor_def)
  have IH: "unat (required_field_index (iter_at fs a i)) = required_before fs i" using Suc.IH i by simp
  then have inc: "unat (required_field_index (iter_at fs a i) + 1) = required_before fs i + 1"
    using lt by (simp add: unat_word_ariths)
  have req: "required_field_index (snd (pb_field_iter_next (iter_at fs a i))) =
      (if htype (fs ! i) = PB_HTYPE_REQUIRED then required_field_index (iter_at fs a i) + 1
       else required_field_index (iter_at fs a i))"
    using nx pos_iter_at [OF d, of i a] i
    by (auto simp: pb_field_iter_next_def cur_def Let_def PB_HTYPE_def)
  show ?case using IH inc req by (simp add: required_before_Suc)
qed

text \<open>The number of required fields for which the decoder's check is defined.\<close>

definition countable :: "fld list \<Rightarrow> nat \<Rightarrow> bool" where
  "countable fs n \<longleftrightarrow> required_before fs n = 0 \<or> required_before fs n < 64 \<and> required_before fs n mod 32 \<noteq> 0"

section \<open>Well-formed descriptors\<close>

text \<open>A static field of a struct of \<open>n\<close> bytes; \<open>sub p k\<close> says that the descriptors at \<open>p\<close> fit a struct of \<open>k\<close> bytes.\<close>

definition item_ok :: "(u64 \<Rightarrow> nat \<Rightarrow> bool) \<Rightarrow> fld \<Rightarrow> bool" where
  "item_ok sub f \<longleftrightarrow>
     (if ltype f \<in> {PB_LTYPE_VARINT, PB_LTYPE_UVARINT, PB_LTYPE_SVARINT} then data_size f \<in> {1, 2, 4, 8}
      else if ltype f = PB_LTYPE_FIXED32 then data_size f = 4
      else if ltype f = PB_LTYPE_FIXED64 then data_size f = 8
      else if ltype f = PB_LTYPE_SUBMESSAGE then (case ptr f of None \<Rightarrow> False | Some p \<Rightarrow> sub p (unat (data_size f)))
      else ltype f \<in> {PB_LTYPE_BYTES, PB_LTYPE_STRING, PB_LTYPE_FIXED_LENGTH_BYTES})"

definition field_length :: "fld \<Rightarrow> nat" where
  "field_length f = (if htype f = PB_HTYPE_REPEATED then unat (data_size f) * unat (array_size f) else unat (data_size f))"

definition flag_length :: "fld list \<Rightarrow> nat \<Rightarrow> nat" where
  "flag_length fs i =
     (if htype (fs ! i) = PB_HTYPE_REPEATED \<or> htype (fs ! i) = PB_HTYPE_ONEOF then 4
      else if htype (fs ! i) = PB_HTYPE_OPTIONAL \<and> flag_offset fs i \<noteq> field_offset fs i then 1 else 0)"

definition field_ok :: "(u64 \<Rightarrow> nat \<Rightarrow> bool) \<Rightarrow> fld list \<Rightarrow> nat \<Rightarrow> nat \<Rightarrow> bool" where
  "field_ok sub fs n i \<longleftrightarrow>
     atype (fs ! i) = PB_ATYPE_STATIC \<and> item_ok sub (fs ! i) \<and> field_length (fs ! i) < 2 ^ 32 \<and>
     field_offset fs i + field_length (fs ! i) \<le> n \<and> flag_offset fs i + flag_length fs i \<le> n"

fun layout_ok :: "nat \<Rightarrow> (u64 \<Rightarrow> fld list) \<Rightarrow> fld list \<Rightarrow> nat \<Rightarrow> bool" where
  "layout_ok 0 env fs n = False"
| "layout_ok (Suc d) env fs n \<longleftrightarrow>
     descriptor fs (length fs - 1) \<and> length fs < 2 ^ 32 \<and> n < 2 ^ 63 \<and> ftype (last fs) = 0 \<and> data_size (last fs) = 0 \<and>
     countable fs (length fs - 1) \<and>
     (\<forall>i<length fs - 1. field_ok (\<lambda>p. layout_ok d env (env p)) fs n i)"

section \<open>An example\<close>

text \<open>A struct of 40 bytes: a required \<open>int32\<close> at offset 0, an optional string of 8 bytes at 5 with its flag at 4,
  a repeated \<open>int32\<close> of up to 3 entries at 20 with its count at 16, and an optional submessage at 36, itself
  one required \<open>uint32\<close>, with its flag at 32.\<close>

definition example_last :: fld where
  "example_last = \<lparr>tag = 0, ftype = 0, data_offset = 0, size_offset = 0, data_size = 0, array_size = 0, ptr = None\<rparr>"

definition example_sub :: "fld list" where
  "example_sub =
     [\<lparr>tag = 1, ftype = 0x01, data_offset = 0, size_offset = 0, data_size = 4, array_size = 0, ptr = None\<rparr>, example_last]"

definition example_message :: "fld list" where
  "example_message =
     [\<lparr>tag = 1, ftype = 0x00, data_offset = 0, size_offset = 0, data_size = 4, array_size = 0, ptr = None\<rparr>,
      \<lparr>tag = 2, ftype = 0x16, data_offset = 1, size_offset = - 1, data_size = 8, array_size = 0, ptr = None\<rparr>,
      \<lparr>tag = 3, ftype = 0x20, data_offset = 7, size_offset = - 4, data_size = 4, array_size = 3, ptr = None\<rparr>,
      \<lparr>tag = 4, ftype = 0x17, data_offset = 4, size_offset = - 4, data_size = 4, array_size = 0, ptr = Some 1000\<rparr>,
      example_last]"

definition example_env :: "u64 \<Rightarrow> fld list" where
  "example_env p = (if p = 1000 then example_sub else [example_last])"

lemma example_offsets [simp]:
  "field_offset example_message 0 = 0" "field_offset example_message (Suc 0) = 5"
  "field_offset example_message 2 = 20" "field_offset example_message 3 = 36"
  "flag_offset example_message 0 = 0" "flag_offset example_message (Suc 0) = 4"
  "flag_offset example_message 2 = 16" "flag_offset example_message 3 = 32"
  "field_offset example_sub 0 = 0" "flag_offset example_sub 0 = 0"
  by code_simp+

lemma example_nth [simp]:
  "length example_sub = 2" "last example_sub = example_last" "example_sub ! Suc 0 = example_last"
  "tag (example_sub ! 0) = 1" "ftype (example_sub ! 0) = 0x01" "data_size (example_sub ! 0) = 4"
  "length example_message = 5" "last example_message = example_last" "example_message ! 4 = example_last"
  "tag (example_message ! 0) = 1" "ftype (example_message ! 0) = 0x00" "data_size (example_message ! 0) = 4"
  "tag (example_message ! Suc 0) = 2" "ftype (example_message ! Suc 0) = 0x16" "data_size (example_message ! Suc 0) = 8"
  "tag (example_message ! 2) = 3" "ftype (example_message ! 2) = 0x20" "data_size (example_message ! 2) = 4"
  "array_size (example_message ! 2) = 3"
  "tag (example_message ! 3) = 4" "ftype (example_message ! 3) = 0x17" "data_size (example_message ! 3) = 4"
  "ptr (example_message ! 3) = Some 1000"
  "tag example_last = 0" "ftype example_last = 0" "data_size example_last = 0" "example_env 1000 = example_sub"
  by (simp_all add: example_sub_def example_message_def example_last_def example_env_def)

lemma less_4: "i < (4 :: nat) \<longleftrightarrow> i = 0 \<or> i = Suc 0 \<or> i = 2 \<or> i = 3"
  by auto

lemma example_required [simp]: "required_before example_message 4 = 1" "required_before example_sub (Suc 0) = 1"
  by code_simp+

lemmas example_simps = field_ok_def item_ok_def field_length_def flag_length_def descriptor_def countable_def
  PB_ATYPE_def PB_HTYPE_def PB_LTYPE_def less_4

lemma example_sub_layout: "layout_ok (Suc 0) example_env example_sub 4"
  by (simp add: example_simps)

lemma example_layout: "layout_ok 2 example_env example_message 40"
proof -
  have "layout_ok (Suc (Suc 0)) example_env example_message 40"
    unfolding layout_ok.simps(2) [of "Suc 0"] using example_sub_layout
    by (auto simp: example_simps simp del: layout_ok.simps)
  then show ?thesis by (simp only: numeral_2_eq_2)
qed

end
