(* ===== verification/Nanopb_Encode_Spec.thy ===== *)
theory Nanopb_Encode_Spec
  imports Nanopb_Encode Nanopb_Layout
begin

text \<open>
  What the nanopb encoder writes: a reference encoding of messages as byte lists, and the proof that
  \<open>pb_encode\<close> writes it on buffer streams and counts its length on sizing streams.

  \<open>emits f bs\<close> says that an encoding step appends \<open>bs\<close> when there is room and otherwise stops with an
  error after a prefix of \<open>bs\<close>, within the limit of the stream.
\<close>

section \<open>Encoding steps\<close>

definition live :: "u8 list pb_ostream \<Rightarrow> bool" where
  "live s \<longleftrightarrow> out_errmsg s = None \<and>
     (out_callback s = None \<or> out_callback s = Some buf_write \<and> bytes_written s \<le> max_size s)"

definition room :: "u8 list pb_ostream \<Rightarrow> nat \<Rightarrow> bool" where
  "room s n \<longleftrightarrow> out_callback s = None \<or> unat (bytes_written s) + n \<le> unat (max_size s)"

definition appended :: "u8 list pb_ostream \<Rightarrow> u8 list \<Rightarrow> u8 list pb_ostream" where
  "appended s bs = s\<lparr>out_state := (if out_callback s = None then out_state s else out_state s @ bs),
                     bytes_written := bytes_written s + word_of_nat (length bs)\<rparr>"

definition overflowed :: "u8 list pb_ostream \<Rightarrow> u8 list pb_ostream \<Rightarrow> u8 list \<Rightarrow> bool" where
  "overflowed s s' bs \<longleftrightarrow> out_callback s' = Some buf_write \<and> max_size s' = max_size s \<and>
     (\<exists>k\<le>length bs. out_state s' = out_state s @ take k bs \<and> unat (bytes_written s') = unat (bytes_written s) + k) \<and>
     bytes_written s' \<le> max_size s"

definition emits :: "(u8 list pb_ostream \<Rightarrow> u8 list enc) \<Rightarrow> u8 list \<Rightarrow> bool" where
  "emits f bs \<longleftrightarrow> (\<forall>s. live s \<longrightarrow> unat (bytes_written s) + length bs < 2 ^ 64 \<longrightarrow>
     (if room s (length bs) then f s = Some (True, appended s bs) else (\<exists>s'. f s = Some (False, s') \<and> overflowed s s' bs)))"

lemma emits_room:
  "emits f bs \<Longrightarrow> live s \<Longrightarrow> unat (bytes_written s) + length bs < 2 ^ 64 \<Longrightarrow> room s (length bs) \<Longrightarrow>
    f s = Some (True, appended s bs)"
  by (simp add: emits_def)

lemma emits_full:
  "emits f bs \<Longrightarrow> live s \<Longrightarrow> unat (bytes_written s) + length bs < 2 ^ 64 \<Longrightarrow> \<not> room s (length bs) \<Longrightarrow>
    \<exists>s'. f s = Some (False, s') \<and> overflowed s s' bs"
  unfolding emits_def by meson

lemma unat_plus_length: "unat (w :: u64) + n < 2 ^ 64 \<Longrightarrow> unat (w + word_of_nat n) = unat w + n"
  by (simp add: unat_word_ariths unat_of_nat)

lemma appended_simps [simp]:
  "out_callback (appended s bs) = out_callback s" "max_size (appended s bs) = max_size s"
  "out_errmsg (appended s bs) = out_errmsg s" "bytes_written (appended s bs) = bytes_written s + word_of_nat (length bs)"
  "appended s [] = s"
  by (simp_all add: appended_def)

lemma sizing_simps [simp]:
  "bytes_written (pb_ostream_sizing st) = 0" "out_callback (pb_ostream_sizing st) = None" "out_errmsg (pb_ostream_sizing st) = None"
  by (simp_all add: pb_ostream_sizing_def)

lemma appended_append: "appended (appended s as) bs = appended s (as @ bs)"
  by (simp add: appended_def add.assoc)

lemma live_appended:
  "live s \<Longrightarrow> unat (bytes_written s) + length bs < 2 ^ 64 \<Longrightarrow> room s (length bs) \<Longrightarrow> live (appended s bs)"
  by (auto simp: live_def room_def word_le_nat_alt unat_plus_length)

lemma emits_Nil: "emits (\<lambda>s. Some (True, s)) []"
  by (auto simp: emits_def room_def live_def word_le_nat_alt)

lemma overflowed_left: "overflowed s s' as \<Longrightarrow> overflowed s s' (as @ bs)"
  by (fastforce simp: overflowed_def)

lemma overflowed_right:
  assumes "overflowed (appended s as) s' bs" and "out_callback s \<noteq> None" and "unat (bytes_written s) + length as < 2 ^ 64"
  shows "overflowed s s' (as @ bs)"
proof -
  from assms(1) obtain k where "k \<le> length bs" "out_state s' = out_state (appended s as) @ take k bs"
    "unat (bytes_written s') = unat (bytes_written (appended s as)) + k" by (auto simp: overflowed_def)
  with assms(2,3) have "length as + k \<le> length (as @ bs)" "out_state s' = out_state s @ take (length as + k) (as @ bs)"
    "unat (bytes_written s') = unat (bytes_written s) + (length as + k)" by (auto simp: appended_def unat_plus_length)
  then show ?thesis using assms(1) unfolding overflowed_def by auto
qed

lemma emits_bind:
  assumes f: "emits f as" and g: "emits g bs"
  shows "emits (\<lambda>s. case f s of None \<Rightarrow> None | Some r \<Rightarrow> then_ok r g) (as @ bs)"
  unfolding emits_def
proof (intro allI impI)
  fix s assume s: "live s" and n: "unat (bytes_written s) + length (as @ bs) < 2 ^ 64"
  then have n1: "unat (bytes_written s) + length as < 2 ^ 64" by simp
  show "if room s (length (as @ bs))
    then (case f s of None \<Rightarrow> None | Some r \<Rightarrow> then_ok r g) = Some (True, appended s (as @ bs))
    else \<exists>s'. (case f s of None \<Rightarrow> None | Some r \<Rightarrow> then_ok r g) = Some (False, s') \<and> overflowed s s' (as @ bs)"
  proof (cases "room s (length as)")
    case True
    let ?t = "appended s as"
    have fs: "f s = Some (True, ?t)" using f s n1 True by (simp add: emits_def)
    have t: "live ?t" "unat (bytes_written ?t) + length bs < 2 ^ 64"
      using live_appended [OF s n1 True] n by (simp_all add: unat_plus_length [OF n1])
    have r: "room ?t (length bs) \<longleftrightarrow> room s (length (as @ bs))"
      using n1 by (simp add: room_def unat_plus_length add.assoc)
    show ?thesis
    proof (cases "room s (length (as @ bs))")
      case True
      then have "g ?t = Some (True, appended ?t bs)" using g t r by (simp add: emits_def)
      with fs True show ?thesis by (simp add: then_ok_def appended_append)
    next
      case False
      then obtain s' where "g ?t = Some (False, s')" "overflowed ?t s' bs" using emits_full [OF g t] r by blast
      moreover have "out_callback s \<noteq> None" using False by (auto simp: room_def)
      ultimately show ?thesis using fs False overflowed_right [OF _ _ n1] by (auto simp: then_ok_def)
    qed
  next
    case False
    then have "\<not> room s (length (as @ bs))" by (auto simp: room_def)
    moreover obtain s' where "f s = Some (False, s')" "overflowed s s' as" using emits_full [OF f s n1 False] by blast
    ultimately show ?thesis using overflowed_left by (auto simp: then_ok_def)
  qed
qed

lemma emits_then_ok: "emits (\<lambda>s. Some (f s)) as \<Longrightarrow> emits g bs \<Longrightarrow> emits (\<lambda>s. then_ok (f s) g) (as @ bs)"
  using emits_bind [of "\<lambda>s. Some (f s)" as g bs] by simp

lemma emits_write: "emits (\<lambda>s. Some (pb_write s bs (word_of_nat (length bs)))) bs"
  unfolding emits_def
proof (intro allI impI)
  fix s assume s: "live s" and n: "unat (bytes_written s) + length bs < 2 ^ 64"
  have u: "unat (word_of_nat (length bs) :: size_t) = length bs" using n by (simp add: unat_of_nat)
  show "if room s (length bs) then Some (pb_write s bs (word_of_nat (length bs))) = Some (True, appended s bs)
    else \<exists>s'. Some (pb_write s bs (word_of_nat (length bs))) = Some (False, s') \<and> overflowed s s' bs"
  proof (cases "out_callback s")
    case None
    then show ?thesis by (simp add: room_def pb_write_def appended_def)
  next
    case (Some cb)
    with s have cb: "out_callback s = Some buf_write" "bytes_written s \<le> max_size s" by (auto simp: live_def)
    show ?thesis
    proof (cases "room s (length bs)")
      case True
      then have "\<not> max_size s < bytes_written s + word_of_nat (length bs)"
        using cb by (simp add: room_def word_less_nat_alt unat_plus_length [OF n])
      with True cb show ?thesis by (simp add: pb_write_def buf_write_def appended_def u)
    next
      case False
      then have "max_size s < bytes_written s + word_of_nat (length bs)"
        using cb by (simp add: room_def word_less_nat_alt unat_plus_length [OF n])
      with False cb show ?thesis by (auto simp: pb_write_def overflowed_def out_error_def intro!: exI [of _ 0])
    qed
  qed
qed

section \<open>Wire values\<close>

lemma emits_varint: "emits (\<lambda>s. Some (pb_encode_varint s v)) (varint_bytes v)"
  unfolding pb_encode_varint_def by (rule emits_write)

definition tag_bytes :: "pb_wire_type_t \<Rightarrow> u32 \<Rightarrow> u8 list" where
  "tag_bytes wt t = varint_bytes (push_bit 3 (ucast t) OR ucast wt)"

lemma emits_tag: "emits (\<lambda>s. Some (pb_encode_tag s wt t)) (tag_bytes wt t)"
  unfolding pb_encode_tag_def tag_bytes_def by (rule emits_varint)

text \<open>The bytes of a word, from its shifts.\<close>

lemma le_bytes_shifts:
  "le_bytes n (unat (v :: 'a::len word)) = map (\<lambda>i. ucast (drop_bit (8 * i) v AND 0xFF)) [0..<n]"
proof (rule nth_equalityI)
  fix i assume "i < length (le_bytes n (unat v))"
  then have i: "i < n" by simp
  have be: "be_bytes n x = map (\<lambda>i. word_of_nat (x div 256 ^ i mod 256)) (rev [0..<n])" for x
  proof (induction n arbitrary: x)
    case (Suc n)
    have "rev [0..<Suc n] = map Suc (rev [0..<n]) @ [0]"
      by (simp add: upt_conv_Cons map_Suc_upt [symmetric] rev_map del: upt_Suc)
    then show ?case using Suc by (simp add: div_mult2_eq comp_def del: upt_Suc)
  qed simp
  have p: "(256 :: nat) ^ i = 2 ^ (8 * i)" using power_mult [of "2 :: nat" 8 i] by simp
  have "le_bytes n (unat v) ! i = word_of_nat (unat v div 256 ^ i mod 256)"
    using i by (simp add: le_bytes_def be rev_map)
  also have "\<dots> = ucast (drop_bit (8 * i) v AND 0xFF)"
    unfolding p by (rule word_eq_unatI)
      (simp add: and_FF_take_bit unat_ucast_mod unat_take_bit_mod unat_drop_bit_div unat_of_nat)
  finally show "le_bytes n (unat v) ! i = map (\<lambda>i. ucast (drop_bit (8 * i) v AND 0xFF)) [0..<n] ! i" using i by simp
qed simp

lemma emits_fixed32: "emits (\<lambda>s. Some (pb_encode_fixed32 s v)) (le_bytes 4 (unat v))"
  using emits_write [of "le_bytes 4 (unat v)"] by (simp add: pb_encode_fixed32_def le_bytes_shifts upt_rec)

lemma emits_fixed64: "emits (\<lambda>s. Some (pb_encode_fixed64 s v)) (le_bytes 8 (unat v))"
  using emits_write [of "le_bytes 8 (unat v)"] by (simp add: pb_encode_fixed64_def le_bytes_shifts upt_rec)

definition prefixed :: "u8 list \<Rightarrow> u8 list" where
  "prefixed bs = varint_bytes (word_of_nat (length bs)) @ bs"

lemma emits_string: "emits (\<lambda>s. Some (pb_encode_string s bs (word_of_nat (length bs)))) (prefixed bs)"
proof -
  have "Some (pb_encode_string s bs (word_of_nat (length bs))) =
      then_ok (pb_encode_varint s (word_of_nat (length bs))) (\<lambda>s. Some (pb_write s bs (word_of_nat (length bs))))" for s :: "u8 list pb_ostream"
    by (auto simp: pb_encode_string_def then_ok_def split: prod.splits bool.splits)
  then show ?thesis
    unfolding prefixed_def using emits_then_ok [OF emits_varint emits_write, of "word_of_nat (length bs)" bs] by simp
qed

text \<open>A submessage: the sizing pass and the writing pass agree.\<close>

lemma emits_submessage:
  assumes sub: "emits (\<lambda>s. sub s flds src) bs"
  shows "emits (\<lambda>s. pb_encode_submessage sub s flds src) (prefixed bs)"
  unfolding emits_def
proof (intro allI impI)
  fix s assume s: "live s" and n: "unat (bytes_written s) + length (prefixed bs) < 2 ^ 64"
  let ?sz = "word_of_nat (length bs) :: size_t"
  have n1: "unat (bytes_written s) + length (varint_bytes ?sz) < 2 ^ 64" and nb: "length bs < 2 ^ 64"
    using n by (simp_all add: prefixed_def)
  have u: "unat ?sz = length bs" using nb by (simp add: unat_of_nat)
  have sizing: "sub (pb_ostream_sizing (out_state s)) flds src = Some (True, appended (pb_ostream_sizing (out_state s)) bs)"
    by (rule emits_room [OF sub]) (use nb in \<open>simp_all add: live_def room_def\<close>)
  let ?rest = "\<lambda>s. if Option.is_none (out_callback s) then Some (pb_write s [] ?sz)
      else if max_size s < bytes_written s + ?sz then Some (False, out_error ''stream full'' s)
      else (case sub (s\<lparr>max_size := ?sz, bytes_written := 0, out_errmsg := None\<rparr>) flds src of
         None \<Rightarrow> None
       | Some (status, substream) \<Rightarrow>
           let s = s\<lparr>bytes_written := bytes_written s + bytes_written substream,
                     out_state := out_state substream, out_errmsg := out_errmsg substream\<rparr>
           in if bytes_written substream \<noteq> ?sz then Some (False, out_error ''submsg size changed'' s)
              else Some (status, s))"
  have sz: "bytes_written (appended (pb_ostream_sizing (out_state s)) bs) = ?sz" by simp
  have whole: "pb_encode_submessage sub s flds src = then_ok (pb_encode_varint s ?sz) ?rest"
    unfolding pb_encode_submessage_def sizing option.case prod.case sz by (simp add: Let_def)
  have rest: "emits ?rest bs" unfolding emits_def
  proof (intro allI impI)
    fix t assume t: "live t" and m: "unat (bytes_written t) + length bs < 2 ^ 64"
    show "if room t (length bs) then ?rest t = Some (True, appended t bs)
      else \<exists>s'. ?rest t = Some (False, s') \<and> overflowed t s' bs"
    proof (cases "out_callback t")
      case None
      then show ?thesis by (simp add: room_def pb_write_def appended_def)
    next
      case (Some cb)
      with t have cb: "out_callback t = Some buf_write" "bytes_written t \<le> max_size t" "out_errmsg t = None" by (auto simp: live_def)
      have full: "max_size t < bytes_written t + ?sz \<longleftrightarrow> \<not> room t (length bs)"
        using cb by (simp add: room_def word_less_nat_alt unat_plus_length [OF m] not_le)
      show ?thesis
      proof (cases "room t (length bs)")
        case True
        let ?t = "t\<lparr>max_size := ?sz, bytes_written := 0, out_errmsg := None\<rparr>"
        have "live ?t" "room ?t (length bs)" using cb u by (simp_all add: live_def room_def)
        then have "sub ?t flds src = Some (True, appended ?t bs)" using sub nb by (simp add: emits_def)
        with True full cb show ?thesis by (simp add: Let_def appended_def)
      next
        case False
        with full cb show ?thesis by (auto simp: overflowed_def out_error_def intro!: exI [of _ 0])
      qed
    qed
  qed
  from emits_then_ok [OF emits_varint rest, of ?sz] s n
  show "if room s (length (prefixed bs)) then pb_encode_submessage sub s flds src = Some (True, appended s (prefixed bs))
    else \<exists>s'. pb_encode_submessage sub s flds src = Some (False, s') \<and> overflowed s s' (prefixed bs)"
    unfolding whole emits_def prefixed_def by blast
qed

section \<open>The reference encoding\<close>

definition item_bytes :: "(fld list \<Rightarrow> u64 \<Rightarrow> u8 list) \<Rightarrow> (u64 \<Rightarrow> fld list) \<Rightarrow> mem \<Rightarrow> fld \<Rightarrow> u64 \<Rightarrow> u8 list" where
  "item_bytes sub flds m f a =
     (if ltype f = PB_LTYPE_VARINT then varint_bytes (the (signed_value m f a))
      else if ltype f = PB_LTYPE_UVARINT then varint_bytes (the (unsigned_value m f a))
      else if ltype f = PB_LTYPE_SVARINT then varint_bytes (zigzag (the (signed_value m f a)))
      else if ltype f = PB_LTYPE_FIXED32 then load_bytes m a 4
      else if ltype f = PB_LTYPE_FIXED64 then load_bytes m a 8
      else if ltype f = PB_LTYPE_BYTES then
        prefixed (if a = 0 then [] else load_bytes m (a + 4) (unat (load_u32 m a)))
      else if ltype f = PB_LTYPE_STRING then
        prefixed (if a = 0 then [] else load_bytes m a
          (string_size m a (if atype f = PB_ATYPE_POINTER then 2 ^ 64 - 1 else unat (data_size f))))
      else if ltype f = PB_LTYPE_SUBMESSAGE then prefixed (sub (flds (the (ptr f))) a)
      else prefixed (load_bytes m a (unat (data_size f))))"

definition wire_type :: "fld \<Rightarrow> pb_wire_type_t" where
  "wire_type f =
     (if ltype f \<in> {PB_LTYPE_VARINT, PB_LTYPE_UVARINT, PB_LTYPE_SVARINT} then PB_WT_VARINT
      else if ltype f = PB_LTYPE_FIXED32 then PB_WT_32BIT
      else if ltype f = PB_LTYPE_FIXED64 then PB_WT_64BIT
      else PB_WT_STRING)"

text \<open>When an item can be encoded; \<open>sub\<close> is for submessages.\<close>

definition item_encodable :: "(fld list \<Rightarrow> u64 \<Rightarrow> bool) \<Rightarrow> (u64 \<Rightarrow> fld list) \<Rightarrow> mem \<Rightarrow> fld \<Rightarrow> u64 \<Rightarrow> bool" where
  "item_encodable sub flds m f a \<longleftrightarrow>
     (if ltype f \<in> {PB_LTYPE_VARINT, PB_LTYPE_UVARINT, PB_LTYPE_SVARINT} then a \<noteq> 0 \<and> data_size f \<in> {1, 2, 4, 8}
      else if ltype f \<in> {PB_LTYPE_FIXED32, PB_LTYPE_FIXED64, PB_LTYPE_FIXED_LENGTH_BYTES} then a \<noteq> 0
      else if ltype f = PB_LTYPE_BYTES then
        a = 0 \<or> atype f = PB_ATYPE_POINTER \<or> bytes_alloc_size (load_u32 m a) \<le> ucast (data_size f)
      else if ltype f = PB_LTYPE_STRING then True
      else ltype f = PB_LTYPE_SUBMESSAGE \<and> a \<noteq> 0 \<and> (case ptr f of None \<Rightarrow> False | Some p \<Rightarrow> sub (flds p) a))"

lemma item_encodable_ltype:
  assumes "item_encodable sub flds m f a"
  shows "ltype f \<in> {PB_LTYPE_VARINT, PB_LTYPE_UVARINT, PB_LTYPE_SVARINT, PB_LTYPE_FIXED32, PB_LTYPE_FIXED64,
    PB_LTYPE_BYTES, PB_LTYPE_STRING, PB_LTYPE_SUBMESSAGE, PB_LTYPE_FIXED_LENGTH_BYTES}"
proof (rule ccontr)
  assume "\<not> ?thesis"
  with assms show False by (simp add: item_encodable_def)
qed

lemma load_word_bytes:
  "LENGTH('a) = 8 * n \<Longrightarrow> le_bytes n (unat (load_word m a :: 'a::len word)) = load_bytes m a n"
proof -
  assume n: "LENGTH('a) = 8 * n"
  have "le_val (load_bytes m a n) < 256 ^ n" using le_val_less [of "load_bytes m a n"] by simp
  then have "le_val (load_bytes m a n) < 2 ^ LENGTH('a)" unfolding n power_mult by simp
  then have "unat (load_word m a :: 'a word) = le_val (load_bytes m a n)"
    using n by (simp add: load_word_def unat_of_nat)
  then show ?thesis using le_bytes_le_val [of "load_bytes m a n"] by simp
qed

lemma emits_item:
  assumes ok: "item_encodable sub_ok (enc_fields E) m f a"
    and sub: "\<And>fs b. sub_ok fs b \<Longrightarrow> emits (\<lambda>s. sub s fs b) (bytes fs b)"
  shows "emits (\<lambda>s. PB_ENCODERS E sub m s f a) (item_bytes bytes (enc_fields E) m f a)"
proof -
  consider "ltype f = PB_LTYPE_VARINT" | "ltype f = PB_LTYPE_UVARINT" | "ltype f = PB_LTYPE_SVARINT"
    | "ltype f = PB_LTYPE_FIXED32" | "ltype f = PB_LTYPE_FIXED64" | "ltype f = PB_LTYPE_BYTES"
    | "ltype f = PB_LTYPE_STRING" | "ltype f = PB_LTYPE_SUBMESSAGE" | "ltype f = PB_LTYPE_FIXED_LENGTH_BYTES"
    using item_encodable_ltype [OF ok] by blast
  then show ?thesis
  proof cases
    case 1
    with ok obtain v where "signed_value m f a = Some v"
      by (auto simp: item_encodable_def signed_value_def)
    with 1 show ?thesis by (simp add: PB_ENCODERS_def item_bytes_def pb_enc_varint_def emits_varint)
  next
    case 2
    with ok obtain v where "unsigned_value m f a = Some v"
      by (auto simp: item_encodable_def unsigned_value_def)
    with 2 show ?thesis by (simp add: PB_ENCODERS_def item_bytes_def pb_enc_uvarint_def emits_varint)
  next
    case 3
    with ok obtain v where "signed_value m f a = Some v"
      by (auto simp: item_encodable_def signed_value_def)
    with 3 show ?thesis
      by (simp add: PB_ENCODERS_def item_bytes_def pb_enc_svarint_def pb_encode_svarint_def emits_varint)
  next
    case 4
    then show ?thesis using emits_fixed32 [of "load_word m a"]
      by (simp add: PB_ENCODERS_def item_bytes_def pb_enc_fixed32_def load_word_bytes)
  next
    case 5
    then show ?thesis using emits_fixed64 [of "load_word m a"]
      by (simp add: PB_ENCODERS_def item_bytes_def pb_enc_fixed64_def load_word_bytes)
  next
    case 6
    then have "PB_ENCODERS E sub m s f a = Some (pb_encode_string s
        (if a = 0 then [] else load_bytes m (a + 4) (unat (load_u32 m a)))
        (word_of_nat (length (if a = 0 then [] else load_bytes m (a + 4) (unat (load_u32 m a))))))" for s
      using ok by (auto simp: PB_ENCODERS_def pb_enc_bytes_def item_encodable_def Let_def not_less)
    with 6 show ?thesis using emits_string by (simp add: item_bytes_def)
  next
    case 7
    let ?n = "if a = 0 then 0 else string_size m a (if atype f = PB_ATYPE_POINTER then 2 ^ 64 - 1 else unat (data_size f))"
    have "PB_ENCODERS E sub m s f a =
        Some (pb_encode_string s (load_bytes m a ?n) (word_of_nat (length (load_bytes m a ?n))))" for s
      using 7 by (simp add: PB_ENCODERS_def pb_enc_string_def Let_def)
    moreover have "item_bytes bytes (enc_fields E) m f a = prefixed (load_bytes m a ?n)"
      using 7 by (simp add: item_bytes_def)
    ultimately show ?thesis using emits_string [of "load_bytes m a ?n"] by simp
  next
    case 8
    with ok obtain p where "ptr f = Some p" "sub_ok (enc_fields E p) a"
      by (auto simp: item_encodable_def split: option.splits)
    with 8 emits_submessage [of sub "enc_fields E p" a, OF sub [OF this(2)]] show ?thesis
      by (simp add: PB_ENCODERS_def item_bytes_def pb_enc_submessage_def)
  next
    case 9
    then show ?thesis using emits_string [of "load_bytes m a (unat (data_size f))"]
      by (simp add: PB_ENCODERS_def item_bytes_def pb_enc_fixed_length_bytes_def)
  qed
qed

section \<open>Arrays and fields\<close>

lemma emits_items:
  "(\<And>i. i < count \<Longrightarrow> emits (\<lambda>s. item s (p + word_of_nat i * sz)) (bs i)) \<Longrightarrow>
    emits (\<lambda>s. encode_items item sz count s p) (concat (map bs [0..<count]))"
proof (induction count arbitrary: p bs)
  case 0
  then show ?case by (simp add: emits_Nil)
next
  case (Suc count)
  have "emits (\<lambda>s. encode_items item sz count s (p + sz)) (concat (map (bs \<circ> Suc) [0..<count]))"
    using Suc.prems [of "Suc i" for i] by (intro Suc.IH) (simp add: algebra_simps)
  moreover have "emits (\<lambda>s. item s p) (bs 0)" using Suc.prems [of 0] by simp
  moreover have "concat (map bs [0..<Suc count]) = bs 0 @ concat (map (bs \<circ> Suc) [0..<count])"
    by (simp add: upt_conv_Cons map_Suc_upt [symmetric] comp_def del: upt_Suc)
  ultimately show ?case using emits_bind [of "\<lambda>s. item s p" "bs 0"] by simp
qed

lemma emits_tag_for_field:
  assumes "item_encodable sub_ok flds m f a"
  shows "emits (\<lambda>s. Some (pb_encode_tag_for_field s f)) (tag_bytes (wire_type f) (tag f))"
proof -
  have "pb_encode_tag_for_field s f = pb_encode_tag s (wire_type f) (tag f)" for s :: "u8 list pb_ostream"
    using item_encodable_ltype [OF assms] by (simp add: pb_encode_tag_for_field_def wire_type_def) blast
  then show ?thesis using emits_tag by simp
qed

text \<open>The values of a field: of a pointer field, where the pointer points; of an array of strings or byte
  strings behind a pointer, where its entries point.\<close>

definition value_addr :: "mem \<Rightarrow> fld \<Rightarrow> u64 \<Rightarrow> u64" where
  "value_addr m f a = (if atype f = PB_ATYPE_POINTER then load_ptr m a else a)"

definition entry_addr :: "mem \<Rightarrow> fld \<Rightarrow> u64 \<Rightarrow> nat \<Rightarrow> u64" where
  "entry_addr m f a i =
     (let p = value_addr m f a + word_of_nat i * ucast (data_size f) in
      if atype f = PB_ATYPE_POINTER \<and> (ltype f = PB_LTYPE_STRING \<or> ltype f = PB_LTYPE_BYTES) then load_ptr m p else p)"

definition flag_addr :: "fld \<Rightarrow> u64 \<Rightarrow> u64" where
  "flag_addr f a = a + scast (size_offset f)"

definition array_bytes :: "(fld list \<Rightarrow> u64 \<Rightarrow> u8 list) \<Rightarrow> (u64 \<Rightarrow> fld list) \<Rightarrow> mem \<Rightarrow> fld \<Rightarrow> u64 \<Rightarrow> nat \<Rightarrow> u8 list" where
  "array_bytes sub flds m f a count =
     (let items = map (\<lambda>i. item_bytes sub flds m f (entry_addr m f a i)) [0..<count] in
      if count = 0 then []
      else if ltype f \<le> PB_LTYPE_LAST_PACKABLE then tag_bytes PB_WT_STRING (tag f) @ prefixed (concat items)
      else concat (map (\<lambda>bs. tag_bytes (wire_type f) (tag f) @ bs) items))"

text \<open>\<open>omit\<close> decides for a field without a flag.\<close>

definition present :: "(fld \<Rightarrow> u64 \<Rightarrow> bool) \<Rightarrow> mem \<Rightarrow> fld \<Rightarrow> u64 \<Rightarrow> bool" where
  "present omit m f a \<longleftrightarrow>
     (if htype f = PB_HTYPE_OPTIONAL then
        if size_offset f \<noteq> 0 then m (flag_addr f a) \<noteq> 0
        else if atype f = PB_ATYPE_POINTER then load_ptr m a \<noteq> 0 else \<not> omit f a
      else if htype f = PB_HTYPE_ONEOF then load_u32 m (flag_addr f a) = tag f
      else True)"

definition field_bytes ::
    "(fld \<Rightarrow> u64 \<Rightarrow> bool) \<Rightarrow> (fld list \<Rightarrow> u64 \<Rightarrow> u8 list) \<Rightarrow> (u64 \<Rightarrow> fld list) \<Rightarrow> mem \<Rightarrow> fld \<Rightarrow> u64 \<Rightarrow> u8 list" where
  "field_bytes omit sub flds m f a =
     (if htype f = PB_HTYPE_REPEATED then array_bytes sub flds m f a (unat (load_u32 m (flag_addr f a)))
      else if present omit m f a then tag_bytes (wire_type f) (tag f) @ item_bytes sub flds m f (value_addr m f a)
      else [])"

definition field_encodable ::
    "(fld \<Rightarrow> u64 \<Rightarrow> bool option) \<Rightarrow> (fld list \<Rightarrow> u64 \<Rightarrow> bool) \<Rightarrow> (u64 \<Rightarrow> fld list) \<Rightarrow> mem \<Rightarrow> fld \<Rightarrow> u64 \<Rightarrow> bool" where
  "field_encodable check sub flds m f a \<longleftrightarrow>
     (atype f = PB_ATYPE_STATIC \<or> atype f = PB_ATYPE_POINTER) \<and> ltype f \<noteq> PB_LTYPE_EXTENSION \<and>
     (htype f = PB_HTYPE_OPTIONAL \<longrightarrow> size_offset f = 0 \<longrightarrow> check f a \<noteq> None) \<and>
     (htype f = PB_HTYPE_REQUIRED \<longrightarrow> value_addr m f a \<noteq> 0) \<and>
     (htype f = PB_HTYPE_REPEATED \<or> htype f = PB_HTYPE_ONEOF \<longrightarrow> size_offset f \<noteq> 0) \<and>
     (if htype f = PB_HTYPE_REPEATED then
        (atype f = PB_ATYPE_POINTER \<or> load_u32 m (flag_addr f a) \<le> array_size f) \<and>
        (\<forall>i<unat (load_u32 m (flag_addr f a)). item_encodable sub flds m f (entry_addr m f a i))
      else present (\<lambda>f a. check f a = Some True) m f a \<longrightarrow> item_encodable sub flds m f (value_addr m f a))"

lemma emits_counted:
  "emits g bs \<Longrightarrow>
    emits (\<lambda>s. if Option.is_none (out_callback s) then Some (pb_write s [] (word_of_nat (length bs))) else g s) bs"
  by (auto simp: emits_def pb_write_def appended_def room_def Option.is_none_def)

lemma emits_sized:
  assumes measured: "\<And>st. length bs < 2 ^ 64 \<Longrightarrow> measured st = Some (True, word_of_nat (length bs))" and g: "emits g bs"
  shows "emits (\<lambda>s. case measured (out_state s) of None \<Rightarrow> None
    | Some (ok, sz) \<Rightarrow>
        if \<not> ok then Some (False, s)
        else then_ok (pb_encode_varint s sz) (\<lambda>s.
          if Option.is_none (out_callback s) then Some (pb_write s [] sz) else g s)) (prefixed bs)"
  unfolding emits_def
proof (intro allI impI)
  fix s assume s: "live s" and n: "unat (bytes_written s) + length (prefixed bs) < 2 ^ 64"
  then have "length bs < 2 ^ 64" by (simp add: prefixed_def)
  then have sz: "measured (out_state s) = Some (True, word_of_nat (length bs))" by (rule measured)
  show "if room s (length (prefixed bs)) then (case measured (out_state s) of None \<Rightarrow> None
    | Some (ok, sz) \<Rightarrow>
        if \<not> ok then Some (False, s)
        else then_ok (pb_encode_varint s sz) (\<lambda>s.
          if Option.is_none (out_callback s) then Some (pb_write s [] sz) else g s)) = Some (True, appended s (prefixed bs))
    else \<exists>s'. (case measured (out_state s) of None \<Rightarrow> None
    | Some (ok, sz) \<Rightarrow>
        if \<not> ok then Some (False, s)
        else then_ok (pb_encode_varint s sz) (\<lambda>s.
          if Option.is_none (out_callback s) then Some (pb_write s [] sz) else g s)) = Some (False, s') \<and>
      overflowed s s' (prefixed bs)"
    using emits_then_ok [OF emits_varint emits_counted [OF g], of "word_of_nat (length bs)"] s n
    unfolding sz option.case prod.case if_False not_True_eq_False prefixed_def emits_def by blast
qed

lemma length_fixed_items:
  "ltype f = PB_LTYPE_FIXED32 \<Longrightarrow> length (concat (map (\<lambda>i. item_bytes bytes flds m f (g i)) [0..<n])) = 4 * n"
  "ltype f = PB_LTYPE_FIXED64 \<Longrightarrow> length (concat (map (\<lambda>i. item_bytes bytes flds m f (g i)) [0..<n])) = 8 * n"
  by (simp_all add: item_bytes_def length_concat comp_def sum_list_triv)

lemma emits_array:
  assumes count: "atype f = PB_ATYPE_POINTER \<or> count \<le> array_size f"
    and ok: "\<And>i. i < unat count \<Longrightarrow> item_encodable sub_ok (enc_fields E) m f (entry_addr m f a i)"
    and sub: "\<And>fs b. sub_ok fs b \<Longrightarrow> emits (\<lambda>s. sub s fs b) (bytes fs b)"
  shows "emits (\<lambda>s. encode_array (PB_ENCODERS E sub m) m s f (value_addr m f a) count)
    (array_bytes bytes (enc_fields E) m f a (unat count))"
proof (cases "count = 0")
  case True
  then show ?thesis by (simp add: encode_array_def array_bytes_def emits_Nil Let_def)
next
  case False
  then have pos: "0 < unat count" by (simp add: unat_gt_0)
  let ?entry = "\<lambda>i. value_addr m f a + word_of_nat i * ucast (data_size f)"
  let ?items = "\<lambda>i. item_bytes bytes (enc_fields E) m f (entry_addr m f a i)"
  have item: "emits (\<lambda>s. PB_ENCODERS E sub m s f (entry_addr m f a i)) (?items i)" if "i < unat count" for i
    using emits_item [OF ok [OF that] sub] .
  have lt: "\<not> (atype f \<noteq> PB_ATYPE_POINTER \<and> array_size f < count)" using count by auto
  show ?thesis
  proof (cases "ltype f \<le> PB_LTYPE_LAST_PACKABLE")
    case True
    then have "ltype f \<noteq> PB_LTYPE_STRING" "ltype f \<noteq> PB_LTYPE_BYTES" by auto
    then have entry: "entry_addr m f a i = ?entry i" for i by (simp add: entry_addr_def)
    let ?bs = "concat (map ?items [0..<unat count])"
    let ?items_to = "\<lambda>s. encode_items (\<lambda>s p. PB_ENCODERS E sub m s f p) (ucast (data_size f)) (unat count) s (value_addr m f a)"
    let ?size = "\<lambda>st. if ltype f = PB_LTYPE_FIXED32 then Some (True, 4 * ucast count)
      else if ltype f = PB_LTYPE_FIXED64 then Some (True, 8 * ucast count)
      else map_option (\<lambda>(ok, sizestream). (ok, bytes_written sizestream)) (?items_to (pb_ostream_sizing st))"
    have all: "emits ?items_to ?bs" using item by (intro emits_items) (simp add: entry)
    have "?size st = Some (True, word_of_nat (length ?bs))" if n: "length ?bs < 2 ^ 64" for st
    proof -
      have "?items_to (pb_ostream_sizing st) = Some (True, appended (pb_ostream_sizing st) ?bs)"
        by (rule emits_room [OF all]) (use n in \<open>simp_all add: live_def room_def\<close>)
      then show ?thesis using length_fixed_items by simp
    qed
    from emits_then_ok [OF emits_tag emits_sized [OF this all], of PB_WT_STRING "tag f"]
    have "emits (\<lambda>s. encode_array (PB_ENCODERS E sub m) m s f (value_addr m f a) count)
        (tag_bytes PB_WT_STRING (tag f) @ prefixed ?bs)"
      unfolding encode_array_def if_not_P [OF \<open>count \<noteq> 0\<close>] if_not_P [OF lt] if_P [OF True] .
    then show ?thesis using True pos by (simp add: array_bytes_def Let_def)
  next
    case False
    let ?entries = "\<lambda>s p. then_ok (pb_encode_tag_for_field s f) (\<lambda>s.
      if atype f = PB_ATYPE_POINTER \<and> (ltype f = PB_LTYPE_STRING \<or> ltype f = PB_LTYPE_BYTES)
      then PB_ENCODERS E sub m s f (load_ptr m p) else PB_ENCODERS E sub m s f p)"
    have "emits (\<lambda>s. ?entries s (?entry i)) (tag_bytes (wire_type f) (tag f) @ ?items i)" if i: "i < unat count" for i
      using emits_then_ok [OF emits_tag_for_field [OF ok [OF i]] item [OF i]]
      by (simp add: entry_addr_def Let_def if_distrib [where f = "PB_ENCODERS E sub m _ f"])
    then have "emits (\<lambda>s. encode_items ?entries (ucast (data_size f)) (unat count) s (value_addr m f a))
        (concat (map (\<lambda>i. tag_bytes (wire_type f) (tag f) @ ?items i) [0..<unat count]))" by (rule emits_items)
    then have "emits (\<lambda>s. encode_array (PB_ENCODERS E sub m) m s f (value_addr m f a) count)
        (concat (map (\<lambda>i. tag_bytes (wire_type f) (tag f) @ ?items i) [0..<unat count]))"
      unfolding encode_array_def if_not_P [OF \<open>count \<noteq> 0\<close>] if_not_P [OF lt] if_not_P [OF False] .
    then show ?thesis using False pos by (simp add: array_bytes_def Let_def comp_def)
  qed
qed

lemma htype_cases: "htype f \<in> {PB_HTYPE_REQUIRED, PB_HTYPE_OPTIONAL, PB_HTYPE_REPEATED, PB_HTYPE_ONEOF}"
proof -
  have "x AND 0x30 = (if bit x 4 then 0x10 else 0) OR (if bit x 5 then 0x20 else (0 :: u8))" for x :: u8
  proof (rule bit_word_eqI)
    fix n assume "n < LENGTH(8)"
    then have "n \<in> {0, 1, 2, 3, 4, 5, 6, 7}" by auto
    then show "bit (x AND 0x30) n = bit ((if bit x 4 then 0x10 else 0) OR (if bit x 5 then 0x20 else (0 :: u8))) n"
      by (auto simp: bit_simps)
  qed
  from this [of "ftype f"] show ?thesis by (simp add: PB_HTYPE_def)
qed

lemma emits_field:
  assumes ok: "field_encodable check sub_ok (enc_fields E) m f a"
    and sub: "\<And>fs b. sub_ok fs b \<Longrightarrow> emits (\<lambda>s. sub s fs b) (bytes fs b)"
  shows "emits (\<lambda>s. encode_field E check sub m s f a)
    (field_bytes (\<lambda>f a. check f a = Some True) bytes (enc_fields E) m f a)"
proof -
  let ?func = "PB_ENCODERS E sub m"
  let ?omit = "\<lambda>f a. check f a = Some True"
  have at: "atype f = PB_ATYPE_STATIC \<or> atype f = PB_ATYPE_POINTER" using ok by (simp add: field_encodable_def)
  then have basic: "encode_field E check sub m s f a = encode_basic_field E check sub m s f a" for s
    by (auto simp: encode_field_def)
  have item: "emits (\<lambda>s. then_ok (pb_encode_tag_for_field s f) (\<lambda>s. ?func s f (value_addr m f a)))
      (tag_bytes (wire_type f) (tag f) @ item_bytes bytes (enc_fields E) m f (value_addr m f a))"
    if "item_encodable sub_ok (enc_fields E) m f (value_addr m f a)"
    by (rule emits_then_ok [OF emits_tag_for_field [OF that] emits_item [OF that sub]])
  consider "htype f = PB_HTYPE_REQUIRED" | "htype f = PB_HTYPE_OPTIONAL" | "htype f = PB_HTYPE_REPEATED"
    | "htype f = PB_HTYPE_ONEOF" using htype_cases [of f] by blast
  then show ?thesis
  proof cases
    case 1
    then have "encode_basic_field E check sub m s f a =
        then_ok (pb_encode_tag_for_field s f) (\<lambda>s. ?func s f (value_addr m f a))" for s
      using ok at by (auto simp: encode_basic_field_def field_encodable_def value_addr_def Let_def)
    with 1 ok item basic show ?thesis by (simp add: field_bytes_def field_encodable_def present_def)
  next
    case 2
    then have "encode_basic_field E check sub m s f a =
        (if present ?omit m f a then then_ok (pb_encode_tag_for_field s f) (\<lambda>s. ?func s f (value_addr m f a))
         else Some (True, s))" for s
      using ok at
      by (auto simp: encode_basic_field_def field_encodable_def value_addr_def Let_def present_def flag_addr_def)
    with 2 ok item basic emits_Nil show ?thesis by (simp add: field_bytes_def field_encodable_def)
  next
    case 3
    let ?count = "load_u32 m (flag_addr f a)"
    have "encode_basic_field E check sub m s f a = encode_array ?func m s f (value_addr m f a) ?count" for s
      using 3 ok at by (auto simp: encode_basic_field_def field_encodable_def value_addr_def Let_def flag_addr_def)
    moreover have "emits (\<lambda>s. encode_array ?func m s f (value_addr m f a) ?count)
        (array_bytes bytes (enc_fields E) m f a (unat ?count))"
      by (rule emits_array [where sub_ok = sub_ok]) (use 3 ok sub in \<open>auto simp: field_encodable_def\<close>)
    ultimately show ?thesis using 3 basic by (simp add: field_bytes_def)
  next
    case 4
    then have "encode_basic_field E check sub m s f a =
        (if present ?omit m f a then then_ok (pb_encode_tag_for_field s f) (\<lambda>s. ?func s f (value_addr m f a))
         else Some (True, s))" for s
      using ok at
      by (auto simp: encode_basic_field_def field_encodable_def value_addr_def Let_def present_def flag_addr_def)
    with 4 ok item basic emits_Nil show ?thesis by (simp add: field_bytes_def field_encodable_def)
  qed
qed

section \<open>Messages\<close>

fun message_bytes :: "nat \<Rightarrow> 's encode_env \<Rightarrow> mem \<Rightarrow> fld list \<Rightarrow> u64 \<Rightarrow> u8 list" where
  "message_bytes 0 E m fs a = []"
| "message_bytes (Suc d) E m fs a =
     concat (map (\<lambda>i. field_bytes (\<lambda>f a. pb_check_proto3_default_value (Suc d) E m f a = Some True)
         (message_bytes d E m) (enc_fields E) m (fs ! i) (pData (iter_at fs a i))) [0..<length fs - 1])"

fun encodable :: "nat \<Rightarrow> 's encode_env \<Rightarrow> mem \<Rightarrow> fld list \<Rightarrow> u64 \<Rightarrow> bool" where
  "encodable 0 E m fs a = False"
| "encodable (Suc d) E m fs a \<longleftrightarrow>
     descriptor fs (length fs - 1) \<and>
     (\<forall>i<length fs - 1. field_encodable (pb_check_proto3_default_value (Suc d) E m) (encodable d E m) (enc_fields E) m
        (fs ! i) (pData (iter_at fs a i)))"

lemma emits_loop:
  assumes d: "descriptor fs n" and entry: "\<And>i. i < n \<Longrightarrow> emits (\<lambda>s. entry (iter_at fs a i) s) (bs i)"
  shows "i < n \<Longrightarrow> emits (\<lambda>s. encode_fields_loop entry (iter_at fs a i) s) (concat (map bs [i..<n]))"
proof (induction "n - i" arbitrary: i)
  case 0
  then show ?case by simp
next
  case (Suc k)
  show ?case
  proof (cases "Suc i = n")
    case True
    then have "pb_field_iter_next (iter_at fs a i) = (False, iter_at fs a 0)" by (rule next_wraps [OF d])
    then have "encode_fields_loop entry (iter_at fs a i) = (\<lambda>s. case entry (iter_at fs a i) s of None \<Rightarrow> None
        | Some r \<Rightarrow> then_ok r (\<lambda>s. Some (True, s)))"
      by (intro ext, subst encode_fields_loop.simps) (auto simp: then_ok_def split: option.splits prod.splits)
    then show ?thesis
      using emits_bind [OF entry [OF Suc.prems] emits_Nil] True by (simp add: upt_rec [of i n])
  next
    case False
    then have lt: "Suc i < n" using Suc.prems by simp
    then have "pb_field_iter_next (iter_at fs a i) = (True, iter_at fs a (Suc i))" by (rule next_steps [OF d])
    then have "encode_fields_loop entry (iter_at fs a i) = (\<lambda>s. case entry (iter_at fs a i) s of None \<Rightarrow> None
        | Some r \<Rightarrow> then_ok r (\<lambda>s. encode_fields_loop entry (iter_at fs a (Suc i)) s))"
      by (intro ext, subst encode_fields_loop.simps) (auto simp: then_ok_def split: option.splits prod.splits simp del: iter_at.simps)
    moreover have "emits (\<lambda>s. encode_fields_loop entry (iter_at fs a (Suc i)) s) (concat (map bs [Suc i..<n]))"
      by (rule Suc.hyps) (use Suc.hyps(2) lt in simp_all)
    ultimately show ?thesis
      using emits_bind [OF entry [OF Suc.prems]] Suc.prems by (simp add: upt_rec [of i n] del: iter_at.simps)
  qed
qed

text \<open>What is left in a buffer of \<open>n\<close> bytes: all of \<open>bs\<close>, or an error after as many bytes as are
  counted.\<close>

definition writes_within :: "size_t \<Rightarrow> u8 list \<Rightarrow> u8 list enc \<Rightarrow> bool" where
  "writes_within n bs r \<longleftrightarrow>
     (if length bs \<le> unat n then \<exists>s. r = Some (True, s) \<and> out_state s = bs
      else \<exists>s. r = Some (False, s) \<and> bytes_written s \<le> n \<and> out_state s = take (unat (bytes_written s)) bs)"

lemma emits_buffer:
  assumes "emits f bs" and "length bs < 2 ^ 64"
  shows "writes_within n bs (f (pb_ostream_from_buffer n))"
proof -
  let ?s = "pb_ostream_from_buffer n"
  have s: "live ?s" "unat (bytes_written ?s) + length bs < 2 ^ 64" "room ?s (length bs) \<longleftrightarrow> length bs \<le> unat n"
    using assms(2) by (simp_all add: live_def room_def pb_ostream_from_buffer_def)
  show ?thesis
  proof (cases "length bs \<le> unat n")
    case True
    with emits_room [OF assms(1) s(1,2)] s(3) show ?thesis
      by (simp add: writes_within_def appended_def pb_ostream_from_buffer_def)
  next
    case False
    with emits_full [OF assms(1) s(1,2)] s(3) obtain s' where s': "f ?s = Some (False, s')" "overflowed ?s s' bs" by blast
    with False show ?thesis by (auto simp: writes_within_def overflowed_def pb_ostream_from_buffer_def)
  qed
qed

lemma emits_message: "encodable d E m fs a \<Longrightarrow> emits (\<lambda>s. pb_encode d E m s fs a) (message_bytes d E m fs a)"
proof (induction d arbitrary: fs a)
  case 0
  then show ?case by simp
next
  case (Suc d)
  let ?n = "length fs - 1"
  let ?check = "pb_check_proto3_default_value (Suc d) E m"
  have d: "descriptor fs ?n" using Suc.prems by simp
  have beg: "pb_field_iter_begin fs a = (tag (fs ! 0) \<noteq> 0, iter_at fs a 0)"
    by (simp add: pb_field_iter_begin_def Let_def)
  show ?case
  proof (cases "?n = 0")
    case True
    then have "tag (fs ! 0) = 0" using d by (simp add: descriptor_def)
    with True beg emits_Nil show ?thesis by (simp del: iter_at.simps)
  next
    case False
    have "emits (\<lambda>s. encode_entry E ?check (pb_encode d E m) m (iter_at fs a i) s)
        (field_bytes (\<lambda>f a. ?check f a = Some True) (message_bytes d E m) (enc_fields E) m (fs ! i) (pData (iter_at fs a i)))"
      if i: "i < ?n" for i
    proof -
      have ok: "field_encodable ?check (encodable d E m) (enc_fields E) m (fs ! i) (pData (iter_at fs a i))"
        using Suc.prems i by simp
      then have "ltype (fs ! i) \<noteq> PB_LTYPE_EXTENSION" by (simp add: field_encodable_def)
      with emits_field [OF ok Suc.IH] cur_iter_at [OF d i, of a] show ?thesis
        by (simp add: encode_entry_def del: iter_at.simps)
    qed
    from emits_loop [where i = 0 and fs = fs and a = a and entry = "encode_entry E ?check (pb_encode d E m) m", OF d this] False d beg show ?thesis
      by (simp add: descriptor_def del: iter_at.simps pb_check_proto3_default_value.simps)
  qed
qed

section \<open>Properties\<close>


definition example_struct :: mem where
  "example_struct = store_bytes 2000
     ([42, 0, 0, 0, 1, 104, 105, 0, 0, 0, 0, 0, 0, 0, 0, 0] @ [2, 0, 0, 0, 1, 0, 0, 0, 44, 1, 0, 0, 0, 0, 0, 0] @
      [1, 0, 0, 0, 7, 0, 0, 0]) (\<lambda>_. 0)"

definition example_encode_env :: "u8 list encode_env" where
  "example_encode_env = \<lparr>enc_fields = example_env, enc_callback = \<lambda>_ _ s _ _. (False, s), enc_extension = \<lambda>_ _ s _. (False, s)\<rparr>"

lemma example_array:
  "load_u32 example_struct (flag_addr (example_message ! 2) 2020) = 2" "size_offset (example_message ! 2) \<noteq> 0"
  "item_bytes sub example_env example_struct (example_message ! 2) (entry_addr example_struct (example_message ! 2) 2020 0) = [1]"
  "item_bytes sub example_env example_struct (example_message ! 2) (entry_addr example_struct (example_message ! 2) 2020 1) =
    [0xAC, 2]"
  "tag_bytes PB_WT_STRING 3 = [0x1A]" "prefixed [1, 0xAC, 2] = [3, 1, 0xAC, 2]"
  "item_encodable sub_ok example_env example_struct (example_message ! 2) (entry_addr example_struct (example_message ! 2) 2020 0)"
  "item_encodable sub_ok example_env example_struct (example_message ! 2) (entry_addr example_struct (example_message ! 2) 2020 1)"
  by code_simp+

lemma example_field_bytes:
  "field_bytes omit sub example_env example_struct (example_message ! 0) 2000 = [0x08, 42]"
  "field_bytes omit sub example_env example_struct (example_message ! 1) 2005 = [0x12, 2, 104, 105]"
  "field_bytes omit sub example_env example_struct (example_message ! 3) 2036 = 0x22 # prefixed (sub example_sub 2036)"
  "field_bytes omit sub example_env example_struct (example_sub ! 0) 2036 = [0x08, 7]"
  "field_encodable check sub_ok example_env example_struct (example_message ! 0) 2000"
  "field_encodable check sub_ok example_env example_struct (example_message ! 1) 2005"
  "field_encodable check sub_ok example_env example_struct (example_message ! 3) 2036 \<longleftrightarrow> sub_ok example_sub 2036"
  "field_encodable check sub_ok example_env example_struct (example_sub ! 0) 2036"
  by code_simp+

lemma example_array_bytes:
  "field_bytes omit sub example_env example_struct (example_message ! 2) 2020 = [0x1A, 3, 1, 0xAC, 2]"
  "field_encodable check sub_ok example_env example_struct (example_message ! 2) 2020"
  using example_array
  by (auto simp: field_bytes_def array_bytes_def field_encodable_def example_simps upt_rec [of 0 2] upt_rec [of "Suc 0" 2]
    less_2_cases_iff)

lemma example_encoding:
  "encodable 2 example_encode_env example_struct example_message 2000"
  "message_bytes 2 example_encode_env example_struct example_message 2000 =
    [0x08, 42, 0x12, 2, 104, 105, 0x1A, 3, 1, 0xAC, 2, 0x22, 2, 0x08, 7]"
proof -
  note eval = example_field_bytes [unfolded One_nat_def] example_array_bytes pData_at descriptor_def less_4
    encodable.simps(2) [of "Suc 0", folded numeral_2_eq_2] message_bytes.simps(2) [of "Suc 0", folded numeral_2_eq_2]
  have "[0..<4] = [0, Suc 0, 2, 3]" "prefixed [0x08, 7] = [2, 0x08, 7]" by code_simp+
  then show
    "encodable 2 example_encode_env example_struct example_message 2000"
    "message_bytes 2 example_encode_env example_struct example_message 2000 =
      [0x08, 42, 0x12, 2, 104, 105, 0x1A, 3, 1, 0xAC, 2, 0x22, 2, 0x08, 7]"
    by (auto simp: example_encode_env_def eval simp del: iter_at.simps pb_check_proto3_default_value.simps)
qed

lemma length_example: "length (varint_bytes 15) = 1"
  by code_simp


section \<open>Default values\<close>

text \<open>What the encoder takes for a default value: of a repeated number only the first entry is looked at, not
  the count.\<close>

lemma varint_bytes_not_Nil: "varint_bytes v \<noteq> []"
  using length_varint_bytes(1) [of v] by simp

lemma default_of_number:
  "ltype f \<le> PB_LTYPE_LAST_PACKABLE \<Longrightarrow>
    pb_check_proto3_default_value (Suc d) E m f a = Some (list_all (\<lambda>b. b = 0) (load_bytes m a (unat (data_size f))))"
  by auto

lemma default_of_submessage:
  assumes f: "atype f = PB_ATYPE_STATIC" "ltype f = PB_LTYPE_SUBMESSAGE" "ptr f = Some p"
    and fs: "enc_fields E p = [g, t]" "tag g \<noteq> 0" "tag t = 0"
  shows "pb_check_proto3_default_value (Suc d) E m f a =
    pb_check_proto3_default_value d E m g (a + ucast (data_offset g))"
proof -
  have d: "descriptor [g, t] 1" using fs by (simp add: descriptor_def)
  have "pb_field_iter_begin [g, t] a = (True, iter_at [g, t] a 0)"
    using fs by (simp add: pb_field_iter_begin_def Let_def)
  moreover have "cur (iter_at [g, t] a 0) = g" using cur_iter_at [OF d, of 0 a] by simp
  moreover have "pData (iter_at [g, t] a 0) = a + ucast (data_offset g)"
    by (simp add: pb_field_iter_begin_def Let_def)
  moreover have "pb_field_iter_next (iter_at [g, t] a 0) = (False, iter_at [g, t] a 0)"
    by (rule next_wraps [OF d]) simp
  ultimately show ?thesis
    using f fs by (simp add: default_loop.simps [of _ "iter_at [g, t] a 0"] split: option.splits del: iter_at.simps)
qed

text \<open>C18: A singular proto3 submessage (no presence flag) that holds one repeated number field is left out of the
  encoding whenever the bytes of its first entry are 0, whatever its count and its other entries: the
  test for default values never reads the count. With a count above 0 the encoding of the submessage
  itself is not empty, so its content is lost without an error.\<close>
theorem proto3_repeated_dropped:
  assumes f: "ltype f = PB_LTYPE_SUBMESSAGE" "htype f = PB_HTYPE_OPTIONAL" "atype f = PB_ATYPE_STATIC"
      "size_offset f = 0" "ptr f = Some p" "tag f \<noteq> 0" "tag t' = 0"
    and g: "enc_fields E p = [g, t]" "ltype g \<le> PB_LTYPE_LAST_PACKABLE" "htype g = PB_HTYPE_REPEATED" "tag g \<noteq> 0" "tag t = 0"
    and b: "b = a + ucast (data_offset f)"
    and zero: "\<forall>x\<in>set (load_bytes m (b + ucast (data_offset g)) (unat (data_size g))). x = 0"
    and count: "load_u32 m (b + ucast (data_offset g) + scast (size_offset g)) \<noteq> 0"
  shows "pb_encode (Suc (Suc d)) E m s [f, t'] a = Some (True, s) \<and> message_bytes (Suc d) E m (enc_fields E p) b \<noteq> []"
proof
  let ?check = "pb_check_proto3_default_value (Suc (Suc d)) E m"
  have d: "descriptor [f, t'] 1" using f by (simp add: descriptor_def)
  have beg: "pb_field_iter_begin [f, t'] a = (True, iter_at [f, t'] a 0)" and at: "pData (iter_at [f, t'] a 0) = b"
    using f b by (simp_all add: pb_field_iter_begin_def Let_def)
  have cur: "cur (iter_at [f, t'] a 0) = f" using cur_iter_at [OF d, of 0 a] by simp
  have stop: "pb_field_iter_next (iter_at [f, t'] a 0) = (False, iter_at [f, t'] a 0)"
    by (rule next_wraps [OF d]) simp
  have "?check f b = Some True"
    unfolding default_of_submessage [where E = E, OF f(3,1,5) g(1,4,5)] default_of_number [OF g(2)] using zero
    by (simp add: list_all_iff)
  then have "encode_entry E ?check (pb_encode (Suc d) E m) m (iter_at [f, t'] a 0) s = Some (True, s)" for s
    using f cur at by (simp add: encode_entry_def encode_field_def encode_basic_field_def Let_def
      del: iter_at.simps pb_encode.simps pb_check_proto3_default_value.simps)
  then show "pb_encode (Suc (Suc d)) E m s [f, t'] a = Some (True, s)"
    using beg stop by (simp add: encode_fields_loop.simps del: iter_at.simps pb_check_proto3_default_value.simps)
  have "unat (load_u32 m (b + ucast (data_offset g) + scast (size_offset g))) \<noteq> 0" using count by (simp add: unat_eq_0)
  then show "message_bytes (Suc d) E m (enc_fields E p) b \<noteq> []"
    using g by (simp add: pb_field_iter_begin_def Let_def field_bytes_def array_bytes_def flag_addr_def tag_bytes_def varint_bytes_not_Nil
      del: pb_check_proto3_default_value.simps)
qed

definition repeated_sub :: "fld list" where
  "repeated_sub =
     [\<lparr>tag = 1, ftype = 0x20, data_offset = 4, size_offset = - 4, data_size = 4, array_size = 3, ptr = None\<rparr>, example_last]"

definition repeated_outer :: "fld list" where
  "repeated_outer =
     [\<lparr>tag = 1, ftype = 0x17, data_offset = 0, size_offset = 0, data_size = 16, array_size = 0, ptr = Some 1000\<rparr>, example_last]"

text \<open>A struct whose submessage holds the two numbers 0 and 5: nothing is written.\<close>

lemma proto3_repeated_dropped_witness:
  "pb_encode 2 (example_encode_env\<lparr>enc_fields := \<lambda>_. repeated_sub\<rparr>)
     (store_bytes 2000 [2, 0, 0, 0, 0, 0, 0, 0, 5, 0, 0, 0] (\<lambda>_. 0)) (pb_ostream_from_buffer 10) repeated_outer 2000 =
   Some (True, pb_ostream_from_buffer 10)"
proof -
  let ?m = "store_bytes 2000 [2, 0, 0, 0, 0, 0, 0, 0, 5, 0, 0, 0] (\<lambda>_. 0)"
  have "load_bytes ?m 2004 4 = [0, 0, 0, 0]" "load_u32 ?m 2000 = 2" by code_simp+
  then show ?thesis
    using proto3_repeated_dropped [of "hd repeated_outer" 1000 "repeated_outer ! 1"
        "example_encode_env\<lparr>enc_fields := \<lambda>_. repeated_sub\<rparr>" "hd repeated_sub" "repeated_sub ! 1" 2000 2000 ?m 0 "pb_ostream_from_buffer 10"]
    by (simp add: repeated_outer_def repeated_sub_def example_last_def PB_LTYPE_def PB_HTYPE_def PB_ATYPE_def
      numeral_2_eq_2 [symmetric] del: pb_encode.simps)
qed

end
