(* ===== verification/Nanopb_Decode.thy ===== *)
theory Nanopb_Decode
  imports Nanopb_Mem
begin

text \<open>
  The message decoder of nanopb (nanopb/pb_decode.c), built as the application builds it: without
  \<open>PB_ENABLE_MALLOC\<close>, so pointer fields are refused.

  Results are \<open>(ok, stream, memory) option\<close>; None is a call without a defined result: a recursion
  deeper than the bound \<open>d\<close>, a loop that does not end, or undefined behaviour (a null decoder, a shift by
  the width of the word, an index past \<open>fields_seen\<close>). A read that fails leaves its destination as it was.
  User callbacks are found by their address; one callback serves streams of any kind, so the
  environment holds it for the message's stream and for the buffer stream of a scalar.
\<close>

type_synonym 's dec = "(bool \<times> 's pb_istream \<times> mem) option"

record 's decode_env =
  dec_fields :: "u64 \<Rightarrow> fld list"
  dec_callback :: "u64 \<Rightarrow> 's pb_istream \<Rightarrow> fld \<Rightarrow> u64 \<Rightarrow> mem \<Rightarrow> bool \<times> 's pb_istream \<times> mem"
  dec_callback_buf :: "u64 \<Rightarrow> u8 list pb_istream \<Rightarrow> fld \<Rightarrow> u64 \<Rightarrow> mem \<Rightarrow> bool \<times> u8 list pb_istream \<times> mem"
  dec_extension :: "u64 \<Rightarrow> 's pb_istream \<Rightarrow> u64 \<Rightarrow> u32 \<Rightarrow> pb_wire_type_t \<Rightarrow> mem \<Rightarrow> bool \<times> 's pb_istream \<times> mem"

type_synonym 's sub_decoder = "'s pb_istream \<Rightarrow> fld list \<Rightarrow> u64 \<Rightarrow> mem \<Rightarrow> 's dec"

text \<open>\<open>pb_read\<close> into memory, and a failed call.\<close>

definition read_to :: "'s pb_istream \<Rightarrow> u64 \<Rightarrow> nat \<Rightarrow> mem \<Rightarrow> bool \<times> 's pb_istream \<times> mem" where
  "read_to s a count m =
     (case pb_read s count of
        (None, s) \<Rightarrow> (False, s, m)
      | (Some bs, s) \<Rightarrow> (True, s, store_bytes a bs m))"

definition dec_error :: "string \<Rightarrow> 's pb_istream \<Rightarrow> mem \<Rightarrow> bool \<times> 's pb_istream \<times> mem" where
  "dec_error msg s m = (False, in_error msg s, m)"

section \<open>Field decoders\<close>

text \<open>A value stored at the field's size and read back into 64 bits, sign-extended or not: None for a
  size no integer has.\<close>

definition store_signed :: "fld \<Rightarrow> u64 \<Rightarrow> u64 \<Rightarrow> mem \<Rightarrow> (u64 \<times> mem) option" where
  "store_signed f dest v m =
     (if data_size f = 8 then Some (v, store_word dest v m)
      else if data_size f = 4 then Some (scast (ucast v :: u32), store_word dest (ucast v :: u32) m)
      else if data_size f = 2 then Some (scast (ucast v :: u16), store_word dest (ucast v :: u16) m)
      else if data_size f = 1 then Some (scast (ucast v :: u8), store_word dest (ucast v :: u8) m)
      else None)"

definition store_unsigned :: "fld \<Rightarrow> u64 \<Rightarrow> u64 \<Rightarrow> mem \<Rightarrow> (u64 \<times> mem) option" where
  "store_unsigned f dest v m =
     (if data_size f = 8 then Some (v, store_word dest v m)
      else if data_size f = 4 then Some (ucast (ucast v :: u32), store_word dest (ucast v :: u32) m)
      else if data_size f = 2 then Some (ucast (ucast v :: u16), store_word dest (ucast v :: u16) m)
      else if data_size f = 1 then Some (ucast (ucast v :: u8), store_word dest (ucast v :: u8) m)
      else None)"

text \<open>The common end of the integer decoders: the value must survive the cast.\<close>

definition check_clamped :: "u64 \<Rightarrow> (u64 \<times> mem) option \<Rightarrow> 's pb_istream \<Rightarrow> mem \<Rightarrow> bool \<times> 's pb_istream \<times> mem" where
  "check_clamped v r s m =
     (case r of
        None \<Rightarrow> dec_error ''invalid data_size'' s m
      | Some (clamped, m) \<Rightarrow> if clamped \<noteq> v then dec_error ''integer too large'' s m else (True, s, m))"

definition pb_dec_varint :: "'s pb_istream \<Rightarrow> fld \<Rightarrow> u64 \<Rightarrow> mem \<Rightarrow> bool \<times> 's pb_istream \<times> mem" where
  "pb_dec_varint s f dest m =
     (case pb_decode_varint s of
        (None, s) \<Rightarrow> (False, s, m)
      | (Some v, s) \<Rightarrow>
          (let svalue = (if data_size f = 8 then v else scast (ucast v :: u32)) in
           check_clamped svalue (store_signed f dest svalue m) s m))"

definition pb_dec_uvarint :: "'s pb_istream \<Rightarrow> fld \<Rightarrow> u64 \<Rightarrow> mem \<Rightarrow> bool \<times> 's pb_istream \<times> mem" where
  "pb_dec_uvarint s f dest m =
     (case pb_decode_varint s of
        (None, s) \<Rightarrow> (False, s, m)
      | (Some v, s) \<Rightarrow> check_clamped v (store_unsigned f dest v m) s m)"

definition pb_dec_svarint :: "'s pb_istream \<Rightarrow> fld \<Rightarrow> u64 \<Rightarrow> mem \<Rightarrow> bool \<times> 's pb_istream \<times> mem" where
  "pb_dec_svarint s f dest m =
     (case pb_decode_svarint s of
        (None, s) \<Rightarrow> (False, s, m)
      | (Some v, s) \<Rightarrow> check_clamped v (store_signed f dest v m) s m)"

definition pb_dec_fixed32 :: "'s pb_istream \<Rightarrow> fld \<Rightarrow> u64 \<Rightarrow> mem \<Rightarrow> bool \<times> 's pb_istream \<times> mem" where
  "pb_dec_fixed32 s f dest m =
     (case pb_decode_fixed32 s of (None, s) \<Rightarrow> (False, s, m) | (Some v, s) \<Rightarrow> (True, s, store_word dest v m))"

definition pb_dec_fixed64 :: "'s pb_istream \<Rightarrow> fld \<Rightarrow> u64 \<Rightarrow> mem \<Rightarrow> bool \<times> 's pb_istream \<times> mem" where
  "pb_dec_fixed64 s f dest m =
     (case pb_decode_fixed64 s of (None, s) \<Rightarrow> (False, s, m) | (Some v, s) \<Rightarrow> (True, s, store_word dest v m))"

text \<open>\<open>PB_SIZE_MAX\<close> is the largest \<open>uint32_t\<close> here, so the first check never fails.\<close>

definition pb_dec_bytes :: "'s pb_istream \<Rightarrow> fld \<Rightarrow> u64 \<Rightarrow> mem \<Rightarrow> bool \<times> 's pb_istream \<times> mem" where
  "pb_dec_bytes s f dest m =
     (case pb_decode_varint32 s of
        (None, s) \<Rightarrow> (False, s, m)
      | (Some sz, s) \<Rightarrow>
          if PB_SIZE_MAX < sz then dec_error ''bytes overflow'' s m
          else
            let alloc_size = bytes_alloc_size sz in
            if alloc_size < ucast sz then dec_error ''size too large'' s m
            else if atype f = PB_ATYPE_POINTER then dec_error ''no malloc support'' s m
            else if ucast (data_size f) < alloc_size then dec_error ''bytes overflow'' s m
            else read_to s (dest + 4) (unat sz) (store_word dest sz m))"

definition pb_dec_string :: "'s pb_istream \<Rightarrow> fld \<Rightarrow> u64 \<Rightarrow> mem \<Rightarrow> bool \<times> 's pb_istream \<times> mem" where
  "pb_dec_string s f dest m =
     (case pb_decode_varint32 s of
        (None, s) \<Rightarrow> (False, s, m)
      | (Some sz, s) \<Rightarrow>
          (let alloc_size = (ucast (sz + 1) :: size_t) in
           if alloc_size < ucast sz then dec_error ''size too large'' s m
           else if atype f = PB_ATYPE_POINTER then dec_error ''no malloc support'' s m
           else if ucast (data_size f) < alloc_size then dec_error ''string overflow'' s m
           else (case read_to s dest (unat sz) m of
                   (status, s, m) \<Rightarrow> (status, s, store_bytes (dest + ucast sz) [0] m))))"

definition pb_dec_fixed_length_bytes :: "'s pb_istream \<Rightarrow> fld \<Rightarrow> u64 \<Rightarrow> mem \<Rightarrow> bool \<times> 's pb_istream \<times> mem" where
  "pb_dec_fixed_length_bytes s f dest m =
     (case pb_decode_varint32 s of
        (None, s) \<Rightarrow> (False, s, m)
      | (Some sz, s) \<Rightarrow>
          if PB_SIZE_MAX < sz then dec_error ''bytes overflow'' s m
          else if sz = 0 then (True, s, store_bytes dest (replicate (unat (data_size f)) 0) m)
          else if sz \<noteq> data_size f then dec_error ''incorrect fixed length bytes size'' s m
          else read_to s dest (unat (data_size f)) m)"

text \<open>\<open>sub\<close> is \<open>pb_decode_noinit\<close> and \<open>init\<close> is \<open>pb_message_set_to_defaults\<close>, both one level down.\<close>

definition pb_dec_submessage ::
    "'s decode_env \<Rightarrow> (fld list \<Rightarrow> u64 \<Rightarrow> mem \<Rightarrow> mem option) \<Rightarrow> 's sub_decoder \<Rightarrow>
     's pb_istream \<Rightarrow> fld \<Rightarrow> u64 \<Rightarrow> mem \<Rightarrow> 's dec" where
  "pb_dec_submessage E init sub s f dest m =
     (case pb_make_string_substream s of
        (None, s) \<Rightarrow> Some (False, s, m)
      | (Some substream, s) \<Rightarrow>
          (case ptr f of
             None \<Rightarrow> Some (dec_error ''invalid field descriptor'' s m)
           | Some p \<Rightarrow>
               (case (if htype f = PB_HTYPE_REPEATED then init (dec_fields E p) dest m else Some m) of
                  None \<Rightarrow> None
                | Some m \<Rightarrow>
                    (case sub substream (dec_fields E p) dest m of
                       None \<Rightarrow> None
                     | Some (status, substream, m) \<Rightarrow>
                         (case pb_close_string_substream s substream of
                            (ok, s) \<Rightarrow> Some (ok \<and> status, s, m))))))"

definition PB_DECODERS ::
    "'s decode_env \<Rightarrow> (fld list \<Rightarrow> u64 \<Rightarrow> mem \<Rightarrow> mem option) \<Rightarrow> 's sub_decoder \<Rightarrow>
     's pb_istream \<Rightarrow> fld \<Rightarrow> u64 \<Rightarrow> mem \<Rightarrow> 's dec" where
  "PB_DECODERS E init sub s f dest m =
     (if ltype f = PB_LTYPE_VARINT then Some (pb_dec_varint s f dest m)
      else if ltype f = PB_LTYPE_UVARINT then Some (pb_dec_uvarint s f dest m)
      else if ltype f = PB_LTYPE_SVARINT then Some (pb_dec_svarint s f dest m)
      else if ltype f = PB_LTYPE_FIXED32 then Some (pb_dec_fixed32 s f dest m)
      else if ltype f = PB_LTYPE_FIXED64 then Some (pb_dec_fixed64 s f dest m)
      else if ltype f = PB_LTYPE_BYTES then Some (pb_dec_bytes s f dest m)
      else if ltype f = PB_LTYPE_STRING then Some (pb_dec_string s f dest m)
      else if ltype f = PB_LTYPE_SUBMESSAGE then pb_dec_submessage E init sub s f dest m
      else if ltype f = PB_LTYPE_FIXED_LENGTH_BYTES then Some (pb_dec_fixed_length_bytes s f dest m)
      else None)"

section \<open>Default values\<close>

text \<open>The fake iterator of an extension field.\<close>

definition iter_from_extension :: "(u64 \<Rightarrow> fld list) \<Rightarrow> u64 \<Rightarrow> mem \<Rightarrow> iter" where
  "iter_from_extension flds extension m =
     (let field = flds (load_ptr m (load_ptr m extension + 16));
          dest = load_ptr m (extension + 8);
          iter = snd (pb_field_iter_begin field dest)
      in iter\<lparr>pData := (if atype (field ! 0) = PB_ATYPE_POINTER then extension + 8 else dest),
              pSize := extension + 24\<rparr>)"

partial_function (option) default_extension_loop ::
    "(u64 \<Rightarrow> mem \<Rightarrow> mem option) \<Rightarrow> u64 \<Rightarrow> mem \<Rightarrow> mem option" where
  "default_extension_loop init ext m =
     (if ext = 0 then Some m
      else case init ext m of
             None \<Rightarrow> None
           | Some m \<Rightarrow> default_extension_loop init (load_ptr m (ext + 16)) m)"

partial_function (option) set_defaults_loop :: "(iter \<Rightarrow> mem \<Rightarrow> mem option) \<Rightarrow> iter \<Rightarrow> mem \<Rightarrow> mem option" where
  "set_defaults_loop init iter m =
     (case init iter m of
        None \<Rightarrow> None
      | Some m \<Rightarrow>
          (case pb_field_iter_next iter of
             (next, iter) \<Rightarrow> if next then set_defaults_loop init iter m else Some m))"

text \<open>\<open>pb_field_set_to_default\<close>: the recursion through extensions and through submessages share the bound.\<close>

fun pb_field_set_to_default :: "nat \<Rightarrow> (u64 \<Rightarrow> fld list) \<Rightarrow> iter \<Rightarrow> mem \<Rightarrow> mem option" where
  "pb_field_set_to_default 0 flds iter m = None"
| "pb_field_set_to_default (Suc d) flds iter m =
     (let f = cur iter in
      if ltype f = PB_LTYPE_EXTENSION then
        default_extension_loop
          (\<lambda>ext m. let m = store_bytes (ext + 24) [0] m in
             pb_field_set_to_default d flds (iter_from_extension flds ext m) m)
          (load_ptr m (pData iter)) m
      else if atype f = PB_ATYPE_STATIC then
        (case (if htype f = PB_HTYPE_OPTIONAL \<and> pSize iter \<noteq> pData iter
               then (True, store_bytes (pSize iter) [0] m)
               else if htype f = PB_HTYPE_REPEATED \<or> htype f = PB_HTYPE_ONEOF
               then (False, store_word (pSize iter) (0 :: u32) m)
               else (True, m)) of
           (init_data, m) \<Rightarrow>
             if \<not> init_data then Some m
             else if ltype f = PB_LTYPE_SUBMESSAGE then
               (case ptr f of
                  None \<Rightarrow> None
                | Some p \<Rightarrow>
                    (case pb_field_iter_begin (flds p) (pData iter) of
                       (found, sub) \<Rightarrow>
                         if \<not> found then Some m
                         else set_defaults_loop (pb_field_set_to_default d flds) sub m))
             else
               (case ptr f of
                  Some p \<Rightarrow> Some (store_bytes (pData iter) (load_bytes m p (unat (data_size f))) m)
                | None \<Rightarrow> Some (store_bytes (pData iter) (replicate (unat (data_size f)) 0) m)))
      else if atype f = PB_ATYPE_POINTER then
        (let m = store_word (pData iter) (0 :: u64) m in
         Some (if htype f = PB_HTYPE_REPEATED \<or> htype f = PB_HTYPE_ONEOF
               then store_word (pSize iter) (0 :: u32) m else m))
      else Some m)"

definition pb_message_set_to_defaults :: "nat \<Rightarrow> (u64 \<Rightarrow> fld list) \<Rightarrow> fld list \<Rightarrow> u64 \<Rightarrow> mem \<Rightarrow> mem option" where
  "pb_message_set_to_defaults d flds fs dest m =
     (case pb_field_iter_begin fs dest of
        (found, iter) \<Rightarrow>
          if \<not> found then Some m else set_defaults_loop (pb_field_set_to_default d flds) iter m)"

section \<open>Fields\<close>

text \<open>The loop over a packed array: the count in memory is read again for every item.\<close>

partial_function (option) packed_loop ::
    "('s pb_istream \<Rightarrow> fld \<Rightarrow> u64 \<Rightarrow> mem \<Rightarrow> 's dec) \<Rightarrow> iter \<Rightarrow> 's pb_istream \<Rightarrow> mem \<Rightarrow> 's dec" where
  "packed_loop func iter substream m =
     (let sz = load_u32 m (pSize iter) in
      if 0 < bytes_left substream \<and> sz < array_size (cur iter) then
        (case func substream (cur iter) (pData iter + ucast (data_size (cur iter) * sz)) m of
           None \<Rightarrow> None
         | Some (ok, substream, m) \<Rightarrow>
             if \<not> ok then Some (False, substream, m)
             else packed_loop func iter substream (store_word (pSize iter) (load_u32 m (pSize iter) + 1) m))
      else Some (True, substream, m))"

definition decode_static_field ::
    "'s decode_env \<Rightarrow> (fld list \<Rightarrow> u64 \<Rightarrow> mem \<Rightarrow> mem option) \<Rightarrow> 's sub_decoder \<Rightarrow>
     's pb_istream \<Rightarrow> pb_wire_type_t \<Rightarrow> iter \<Rightarrow> mem \<Rightarrow> 's dec" where
  "decode_static_field E init sub s wire_type iter m =
     (let f = cur iter; func = PB_DECODERS E init sub in
      if htype f = PB_HTYPE_REQUIRED then func s f (pData iter) m
      else if htype f = PB_HTYPE_OPTIONAL then
        func s f (pData iter) (if pSize iter \<noteq> pData iter then store_bytes (pSize iter) [1] m else m)
      else if htype f = PB_HTYPE_REPEATED then
        if wire_type = PB_WT_STRING \<and> ltype f \<le> PB_LTYPE_LAST_PACKABLE then
          (case pb_make_string_substream s of
             (None, s) \<Rightarrow> Some (False, s, m)
           | (Some substream, s) \<Rightarrow>
               (case packed_loop func iter substream m of
                  None \<Rightarrow> None
                | Some (status, substream, m) \<Rightarrow>
                    if bytes_left substream \<noteq> 0 then Some (dec_error ''array overflow'' s m)
                    else (case pb_close_string_substream s substream of
                            (ok, s) \<Rightarrow> Some (ok \<and> status, s, m))))
        else
          (let sz = load_u32 m (pSize iter) in
           if array_size f \<le> sz then Some (dec_error ''array overflow'' s m)
           else func s f (pData iter + ucast (data_size f * sz)) (store_word (pSize iter) (sz + 1) m))
      else if htype f = PB_HTYPE_ONEOF then
        (let m = store_word (pSize iter) (tag f) m in
         if ltype f = PB_LTYPE_SUBMESSAGE then
           (case ptr f of
              None \<Rightarrow> None
            | Some p \<Rightarrow>
                (case init (dec_fields E p) (pData iter)
                        (store_bytes (pData iter) (replicate (unat (data_size f)) 0) m) of
                   None \<Rightarrow> None
                 | Some m \<Rightarrow> func s f (pData iter) m))
         else func s f (pData iter) m)
      else Some (dec_error ''invalid field type'' s m))"

definition decode_pointer_field :: "'s pb_istream \<Rightarrow> mem \<Rightarrow> bool \<times> 's pb_istream \<times> mem" where
  "decode_pointer_field s m = dec_error ''no malloc support'' s m"

partial_function (option) callback_loop ::
    "('s pb_istream \<Rightarrow> mem \<Rightarrow> bool \<times> 's pb_istream \<times> mem) \<Rightarrow> 's pb_istream \<Rightarrow> mem \<Rightarrow> 's dec" where
  "callback_loop decode substream m =
     (case decode substream m of
        (ok, substream, m) \<Rightarrow>
          if \<not> ok then Some (False, substream, m)
          else if bytes_left substream \<noteq> 0 then callback_loop decode substream m
          else Some (True, substream, m))"

definition decode_callback_field ::
    "'s decode_env \<Rightarrow> 's pb_istream \<Rightarrow> pb_wire_type_t \<Rightarrow> iter \<Rightarrow> mem \<Rightarrow> 's dec" where
  "decode_callback_field E s wire_type iter m =
     (let decode = load_ptr m (pData iter); arg = pData iter + 8 in
      if decode = 0 then (case pb_skip_field s wire_type of (ok, s) \<Rightarrow> Some (ok, s, m))
      else if wire_type = PB_WT_STRING then
        (case pb_make_string_substream s of
           (None, s) \<Rightarrow> Some (False, s, m)
         | (Some substream, s) \<Rightarrow>
             (case callback_loop (\<lambda>substream. dec_callback E decode substream (cur iter) arg) substream m of
                None \<Rightarrow> None
              | Some (ok, substream, m) \<Rightarrow>
                  if \<not> ok then Some (dec_error ''callback failed'' s m)
                  else (case pb_close_string_substream s substream of (ok, s) \<Rightarrow> Some (ok, s, m))))
      else
        (case read_raw_value s wire_type 10 of
           ((ok, buffer, sz), s) \<Rightarrow>
             if \<not> ok then Some (False, s, m)
             else (case dec_callback_buf E decode (pb_istream_from_buffer buffer sz) (cur iter) arg m of
                     (ok, _, m) \<Rightarrow> Some (ok, s, m))))"

definition decode_field ::
    "'s decode_env \<Rightarrow> (fld list \<Rightarrow> u64 \<Rightarrow> mem \<Rightarrow> mem option) \<Rightarrow> 's sub_decoder \<Rightarrow>
     's pb_istream \<Rightarrow> pb_wire_type_t \<Rightarrow> iter \<Rightarrow> mem \<Rightarrow> 's dec" where
  "decode_field E init sub s wire_type iter m =
     (if atype (cur iter) = PB_ATYPE_STATIC then decode_static_field E init sub s wire_type iter m
      else if atype (cur iter) = PB_ATYPE_POINTER then Some (decode_pointer_field s m)
      else if atype (cur iter) = PB_ATYPE_CALLBACK then decode_callback_field E s wire_type iter m
      else Some (dec_error ''invalid field type'' s m))"

section \<open>Extensions\<close>

definition default_extension_decoder ::
    "'s decode_env \<Rightarrow> (fld list \<Rightarrow> u64 \<Rightarrow> mem \<Rightarrow> mem option) \<Rightarrow> 's sub_decoder \<Rightarrow>
     's pb_istream \<Rightarrow> u64 \<Rightarrow> u32 \<Rightarrow> pb_wire_type_t \<Rightarrow> mem \<Rightarrow> 's dec" where
  "default_extension_decoder E init sub s extension t wire_type m =
     (let f = dec_fields E (load_ptr m (load_ptr m extension + 16)) ! 0 in
      if tag f \<noteq> t then Some (True, s, m)
      else decode_field E init sub s wire_type (iter_from_extension (dec_fields E) extension m)
             (store_bytes (extension + 24) [1] m))"

partial_function (option) decode_extension_loop ::
    "('s pb_istream \<Rightarrow> u64 \<Rightarrow> mem \<Rightarrow> 's dec) \<Rightarrow> nat \<Rightarrow> 's pb_istream \<Rightarrow> u64 \<Rightarrow> mem \<Rightarrow> 's dec" where
  "decode_extension_loop decode left s extension m =
     (if extension \<noteq> 0 \<and> left = bytes_left s then
        (case decode s extension m of
           None \<Rightarrow> None
         | Some (status, s, m) \<Rightarrow>
             if \<not> status then Some (False, s, m)
             else decode_extension_loop decode left s (load_ptr m (extension + 16)) m)
      else Some (True, s, m))"

definition decode_extension ::
    "'s decode_env \<Rightarrow> (fld list \<Rightarrow> u64 \<Rightarrow> mem \<Rightarrow> mem option) \<Rightarrow> 's sub_decoder \<Rightarrow>
     's pb_istream \<Rightarrow> u32 \<Rightarrow> pb_wire_type_t \<Rightarrow> iter \<Rightarrow> mem \<Rightarrow> 's dec" where
  "decode_extension E init sub s t wire_type iter m =
     decode_extension_loop
       (\<lambda>s extension m.
          let decode = load_ptr m (load_ptr m extension) in
          if decode \<noteq> 0 then Some (dec_extension E decode s extension t wire_type m)
          else default_extension_decoder E init sub s extension t wire_type m)
       (bytes_left s) s (load_ptr m (pData iter)) m"

partial_function (option) find_extension_loop :: "nat \<Rightarrow> iter \<Rightarrow> (bool \<times> iter) option" where
  "find_extension_loop start_pos iter =
     (if ltype (cur iter) = PB_LTYPE_EXTENSION then Some (True, iter)
      else if pos (snd (pb_field_iter_next iter)) \<noteq> start_pos
      then find_extension_loop start_pos (snd (pb_field_iter_next iter))
      else Some (False, snd (pb_field_iter_next iter)))"

definition find_extension_field :: "iter \<Rightarrow> (bool \<times> iter) option" where
  "find_extension_field iter = find_extension_loop (pos iter) iter"

section \<open>Messages\<close>

text \<open>An unknown field, with the start of the extension range: an extension handles it, or it is skipped.\<close>

definition decode_unknown ::
    "'s decode_env \<Rightarrow> (fld list \<Rightarrow> u64 \<Rightarrow> mem \<Rightarrow> mem option) \<Rightarrow> 's sub_decoder \<Rightarrow>
     's pb_istream \<Rightarrow> u32 \<Rightarrow> pb_wire_type_t \<Rightarrow> iter \<Rightarrow> u32 \<Rightarrow> mem \<Rightarrow>
     (bool \<times> 's pb_istream \<times> iter \<times> u32 \<times> mem) option" where
  "decode_unknown E init sub s t wire_type iter range_start m =
     (let skip = (\<lambda>s iter range_start m. case pb_skip_field s wire_type of (ok, s) \<Rightarrow> Some (ok, s, iter, range_start, m)) in
      if range_start \<le> t then
        (case find_extension_field iter of
           None \<Rightarrow> None
         | Some (found, iter) \<Rightarrow>
             let range_start = (if found then tag (cur iter) else - 1) in
             if range_start \<le> t then
               (case decode_extension E init sub s t wire_type iter m of
                  None \<Rightarrow> None
                | Some (ok, s', m) \<Rightarrow>
                    if \<not> ok then Some (False, s', iter, range_start, m)
                    else if bytes_left s \<noteq> bytes_left s' then Some (True, s', iter, range_start, m)
                    else skip s' iter range_start m)
             else skip s iter range_start m)
      else skip s iter range_start m)"

definition PB_MAX_REQUIRED_FIELDS :: u32 where "PB_MAX_REQUIRED_FIELDS = 64"

text \<open>Required fields below the limit are marked in the two words of \<open>fields_seen\<close>.\<close>

definition mark_seen :: "iter \<Rightarrow> u32 list \<Rightarrow> u32 list" where
  "mark_seen iter fields_seen =
     (if htype (cur iter) = PB_HTYPE_REQUIRED \<and> required_field_index iter < PB_MAX_REQUIRED_FIELDS
      then let i = unat (drop_bit 5 (required_field_index iter)) in
        fields_seen[i := fields_seen ! i OR push_bit (unat (required_field_index iter AND 31)) 1]
      else fields_seen)"

text \<open>The loop of \<open>pb_decode_noinit\<close>; on success also the iterator and the marks at its end.\<close>

partial_function (option) decode_loop ::
    "('s pb_istream \<Rightarrow> pb_wire_type_t \<Rightarrow> iter \<Rightarrow> mem \<Rightarrow> 's dec) \<Rightarrow>
     ('s pb_istream \<Rightarrow> u32 \<Rightarrow> pb_wire_type_t \<Rightarrow> iter \<Rightarrow> u32 \<Rightarrow> mem \<Rightarrow>
        (bool \<times> 's pb_istream \<times> iter \<times> u32 \<times> mem) option) \<Rightarrow>
     's pb_istream \<Rightarrow> iter \<Rightarrow> u32 list \<Rightarrow> u32 \<Rightarrow> mem \<Rightarrow>
     (bool \<times> 's pb_istream \<times> iter \<times> u32 list \<times> mem) option" where
  "decode_loop known unknown s iter fields_seen range_start m =
     (if bytes_left s = 0 then Some (True, s, iter, fields_seen, m)
      else
        (case pb_decode_tag s of
           ((ok, wire_type, t, eof), s) \<Rightarrow>
             if \<not> ok then Some (eof, s, iter, fields_seen, m)
             else
               (case pb_field_iter_find iter t of
                  None \<Rightarrow> None
                | Some (found, iter) \<Rightarrow>
                    if \<not> found then
                      (case unknown s t wire_type iter range_start m of
                         None \<Rightarrow> None
                       | Some (ok, s, iter, range_start, m) \<Rightarrow>
                           if \<not> ok then Some (False, s, iter, fields_seen, m)
                           else decode_loop known unknown s iter fields_seen range_start m)
                    else
                      let fields_seen = mark_seen iter fields_seen in
                      (case known s wire_type iter m of
                         None \<Rightarrow> None
                       | Some (ok, s, m) \<Rightarrow>
                           if \<not> ok then Some (False, s, iter, fields_seen, m)
                           else decode_loop known unknown s iter fields_seen range_start m))))"

text \<open>Seeking to the end of the field array for the number of required fields.\<close>

partial_function (option) count_required :: "iter \<Rightarrow> (u32 \<times> u8 \<times> iter) option" where
  "count_required iter =
     (case pb_field_iter_next iter of
        (next, iter') \<Rightarrow>
          if next then count_required iter' else Some (required_field_index iter, ftype (cur iter), iter'))"

text \<open>The check of the marks: None for an index past the two words and for the shift by 32, which is
  undefined in C.\<close>

definition check_required :: "u32 list \<Rightarrow> u32 \<Rightarrow> bool option" where
  "check_required fields_seen req_field_count =
     (if req_field_count = 0 then Some True
      else
        let whole = unat (drop_bit 5 req_field_count); rest = unat (req_field_count AND 31) in
        if \<not> list_all (\<lambda>w. w = - 1) (take whole fields_seen) then Some False
        else if length fields_seen \<le> whole \<or> rest = 0 then None
        else Some (fields_seen ! whole = drop_bit (32 - rest) (- 1)))"

definition required_seen :: "iter \<Rightarrow> u32 list \<Rightarrow> bool option" where
  "required_seen iter fields_seen =
     (case count_required iter of
        None \<Rightarrow> None
      | Some (count, last_type, iter) \<Rightarrow>
          check_required fields_seen
            (if PB_HTYPE last_type = PB_HTYPE_REQUIRED \<and> tag (cur iter) \<noteq> 0 then count + 1 else count))"

fun pb_decode_noinit :: "nat \<Rightarrow> 's decode_env \<Rightarrow> 's sub_decoder" where
  "pb_decode_noinit 0 E s flds dest m = None"
| "pb_decode_noinit (Suc d) E s flds dest m =
     (let init = pb_message_set_to_defaults d (dec_fields E); sub = pb_decode_noinit d E in
      case decode_loop (decode_field E init sub) (decode_unknown E init sub) s
             (snd (pb_field_iter_begin flds dest)) [0, 0] 0 m of
        None \<Rightarrow> None
      | Some (ok, s, iter, fields_seen, m) \<Rightarrow>
          if \<not> ok then Some (False, s, m)
          else (case required_seen iter fields_seen of
                  None \<Rightarrow> None
                | Some seen \<Rightarrow> if seen then Some (True, s, m) else Some (dec_error ''missing required field'' s m)))"

definition pb_decode :: "nat \<Rightarrow> 's decode_env \<Rightarrow> 's sub_decoder" where
  "pb_decode d E s flds dest m =
     (case pb_message_set_to_defaults d (dec_fields E) flds dest m of
        None \<Rightarrow> None
      | Some m \<Rightarrow> pb_decode_noinit d E s flds dest m)"

definition pb_decode_delimited :: "nat \<Rightarrow> 's decode_env \<Rightarrow> 's sub_decoder" where
  "pb_decode_delimited d E s flds dest m =
     (case pb_make_string_substream s of
        (None, s) \<Rightarrow> Some (False, s, m)
      | (Some substream, s) \<Rightarrow>
          (case pb_decode d E substream flds dest m of
             None \<Rightarrow> None
           | Some (status, substream, m) \<Rightarrow>
               (case pb_close_string_substream s substream of (ok, s) \<Rightarrow> Some (ok \<and> status, s, m))))"

end
