(* ===== verification/Nanopb_Decode_Safe.thy ===== *)
theory Nanopb_Decode_Safe
  imports Nanopb_Decode Nanopb_Layout
begin

text \<open>
  Memory safety and termination of the nanopb decoder: on any input, decoding into a struct that its
  descriptors fit returns, consumes the stream only forwards, and writes nothing outside the struct
  (\<open>Nanopb_Decode_Bound\<close> puts this together with the bounds of the reads), and the check of the required
  fields against the marks of the fields found.

  \<open>reads\<close> is what any decoding call does to the stream, successful or not; \<open>keeps\<close> is what it does
  to memory; \<open>contained\<close> puts both together for a result.
\<close>

section \<open>Reading forwards\<close>

definition reads :: "('s \<Rightarrow> u8 list) \<Rightarrow> 's pb_istream \<Rightarrow> 's pb_istream \<Rightarrow> bool" where
  "reads content s s' \<longleftrightarrow> bytes_left s' \<le> bytes_left s \<and>
     content (in_state s') = drop (bytes_left s - bytes_left s') (content (in_state s)) \<and>
     in_callback s' = in_callback s \<and> in_is_buf_read s' = in_is_buf_read s"

lemma reads_refl [simp]: "reads content s s"
  by (simp add: reads_def)

lemma reads_trans [trans]: "reads content s t \<Longrightarrow> reads content t u \<Longrightarrow> reads content s u"
  by (simp add: reads_def)

lemma reads_error [simp]: "reads content s (in_error msg s') \<longleftrightarrow> reads content s s'"
  by (simp add: reads_def in_error_def)

lemma bytes_left_error [simp]: "bytes_left (in_error msg s) = bytes_left s"
  by (simp add: in_error_def)

lemma reads_ok: "reads content s s' \<Longrightarrow> source_ok rd content s \<Longrightarrow> source_ok rd content s'"
  by (auto simp: reads_def source_ok_def)

lemma reads_left: "reads content s s' \<Longrightarrow> bytes_left s' \<le> bytes_left s"
  by (simp add: reads_def)

lemma advanced_reads: "advanced content k s s' \<Longrightarrow> reads content s s' \<and> bytes_left s' + k = bytes_left s"
  by (auto simp: advanced_def reads_def)

context byte_source
begin

lemma read_reads:
  assumes "source_ok rd content s" and "pb_read s n = (r, s')"
  shows "reads content s s' \<and> (\<forall>bs. r = Some bs \<longrightarrow> length bs = n \<and> bytes_left s' + n = bytes_left s)"
proof (cases "n \<le> bytes_left s")
  case True
  from read_ok [OF assms(1) True] assms True show ?thesis by (auto dest!: advanced_reads)
next
  case False
  then show ?thesis using read_short [of s n] assms(2) by auto
qed

lemma readbyte_reads:
  assumes "source_ok rd content s" and "pb_readbyte s = (r, s')"
  shows "reads content s s' \<and> (r \<noteq> None \<longrightarrow> bytes_left s' < bytes_left s)"
proof (cases "visible content s")
  case Nil
  then have "bytes_left s = 0" using assms(1) by (metis length_visible list.size(3))
  then show ?thesis using assms(2) by (auto simp: pb_readbyte_def)
next
  case (Cons b bs)
  from readbyte_ok [OF assms(1) Cons] assms(2) show ?thesis by (auto dest!: advanced_reads)
qed

lemma varint_loop_reads:
  "source_ok rd content s \<Longrightarrow> varint_loop bitpos result s = (r, s') \<Longrightarrow>
    reads content s s' \<and> (r \<noteq> None \<longrightarrow> bytes_left s' < bytes_left s)"
proof (induction bitpos result s rule: varint_loop.induct)
  case (1 bitpos result s)
  obtain rb sb where b: "pb_readbyte s = (rb, sb)" by fastforce
  note rd = readbyte_reads [OF 1(2) b]
  show ?case
  proof (cases "LENGTH('a) \<le> bitpos \<or> rb = None")
    case True
    with 1(3) b rd show ?thesis by (auto simp: varint_loop.simps [of bitpos] split: if_splits)
  next
    case False
    then obtain byte where byte: "rb = Some byte" by blast
    let ?res = "result OR push_bit bitpos (ucast (byte AND 0x7F))"
    have ok: "source_ok rd content sb" using rd 1(2) reads_ok by blast
    show ?thesis
    proof (cases "byte AND 0x80 = 0")
      case True
      with False byte 1(3) b rd show ?thesis by (auto simp: varint_loop.simps [of bitpos] Let_def)
    next
      case c: False
      with False byte 1(3) b have rec: "varint_loop (bitpos + 7) ?res sb = (r, s')"
        by (simp add: varint_loop.simps [of bitpos] Let_def)
      have "\<not> LENGTH('a) \<le> bitpos" using False by simp
      from 1(1) [OF this b [symmetric] byte refl c ok rec] rd byte show ?thesis
        by (auto dest: reads_trans)
    qed
  qed
qed

lemma decode_varint_reads:
  "source_ok rd content s \<Longrightarrow> pb_decode_varint s = (r, s') \<Longrightarrow>
    reads content s s' \<and> (r \<noteq> None \<longrightarrow> bytes_left s' < bytes_left s)"
  unfolding pb_decode_varint_def by (rule varint_loop_reads)

lemma decode_varint32_reads:
  assumes ok: "source_ok rd content s" and r: "pb_decode_varint32 s = (r, s')"
  shows "reads content s s' \<and> (r \<noteq> None \<longrightarrow> bytes_left s' < bytes_left s)"
proof -
  obtain rb sb where b: "pb_readbyte s = (rb, sb)" by fastforce
  note rd = readbyte_reads [OF ok b]
  then have "source_ok rd content sb" using ok reads_ok by blast
  note loop = varint_loop_reads [OF this]
  show ?thesis
    using r b rd loop by (fastforce simp: pb_decode_varint32_def split: option.splits if_splits dest: reads_trans)
qed

lemma read_null_reads:
  assumes ok: "source_ok rd content s" and r: "pb_read_null s n = (b, s')"
  shows "reads content s s'"
proof (cases "n \<le> bytes_left s")
  case True
  from read_null_ok [OF ok True] r show ?thesis by (auto dest: advanced_reads)
next
  case False
  have "reads content s (snd (pb_read_tmp16 s n))" using ok
  proof (induction s n rule: pb_read_tmp16.induct)
    case (1 s n)
    show ?case
    proof (cases "16 < n")
      case True
      obtain rr s1 where s1: "pb_read s 16 = (rr, s1)" by fastforce
      note rd = read_reads [OF 1(2) s1]
      then have "source_ok rd content s1" using 1(2) reads_ok by blast
      with 1(1) [OF True s1 [symmetric]] rd s1 True show ?thesis
        by (cases rr) (auto simp: pb_read_tmp16.simps [of s n] intro: reads_trans)
    next
      case False
      then show ?thesis using read_reads [OF 1(2), of n]
        by (auto simp: pb_read_tmp16.simps [of s n] split: prod.splits option.splits)
    qed
  qed
  then show ?thesis using r read_reads [OF ok, of n]
    by (auto simp: pb_read_null_def split: if_splits prod.splits)
qed

lemma skip_varint_reads:
  "source_ok rd content s \<Longrightarrow> pb_skip_varint s = (r, s') \<Longrightarrow> reads content s s'"
proof (induction s rule: pb_skip_varint.induct)
  case (1 s)
  obtain rr s1 where s1: "pb_read s 1 = (rr, s1)" by fastforce
  note rd = read_reads [OF 1(2) s1]
  then have "source_ok rd content s1" using 1(2) reads_ok by blast
  with 1(1) [OF s1 [symmetric]] 1(3) rd s1 show ?case
    by (cases rr) (auto simp: pb_skip_varint.simps [of s] split: if_splits dest: reads_trans)
qed

lemma skip_field_reads:
  assumes ok: "source_ok rd content s" and r: "pb_skip_field s wt = (b, s')"
  shows "reads content s s'"
proof -
  have "reads content s s'" if str: "pb_skip_string s = (b, s')"
  proof -
    obtain rr s1 where s1: "pb_decode_varint32 s = (rr, s1)" by fastforce
    note rd = decode_varint32_reads [OF ok s1]
    then have "source_ok rd content s1" using ok reads_ok by blast
    from read_null_reads [OF this] str s1 rd show ?thesis
      by (fastforce simp: pb_skip_string_def split: option.splits intro: reads_trans)
  qed
  with r show ?thesis using skip_varint_reads [OF ok] read_null_reads [OF ok]
    by (auto simp: pb_skip_field_def split: if_splits)
qed

lemma decode_tag_reads:
  assumes ok: "source_ok rd content s" and r: "pb_decode_tag s = ((b, wt, t, eof), s')"
  shows "reads content s s' \<and> (b \<longrightarrow> bytes_left s' < bytes_left s)"
proof -
  obtain rr s1 where s1: "pb_decode_varint32 s = (rr, s1)" by fastforce
  from decode_varint32_reads [OF ok s1] r s1 show ?thesis
    by (auto simp: pb_decode_tag_def split: option.splits if_splits)
qed

lemma fixed_reads:
  assumes ok: "source_ok rd content s"
  shows "pb_decode_fixed32 s = (r, s') \<Longrightarrow> reads content s s' \<and> (r \<noteq> None \<longrightarrow> bytes_left s' < bytes_left s)"
    and "pb_decode_fixed64 s = (r', s') \<Longrightarrow> reads content s s' \<and> (r' \<noteq> None \<longrightarrow> bytes_left s' < bytes_left s)"
  using read_reads [OF ok, of 4] read_reads [OF ok, of 8]
  by (fastforce simp: pb_decode_fixed32_def pb_decode_fixed64_def split: prod.splits option.splits)+

lemma decode_svarint_reads:
  assumes ok: "source_ok rd content s" and r: "pb_decode_svarint s = (r, s')"
  shows "reads content s s' \<and> (r \<noteq> None \<longrightarrow> bytes_left s' < bytes_left s)"
  using decode_varint_reads [OF ok] r by (auto simp: pb_decode_svarint_def split: prod.splits option.splits)

text \<open>A substream sees a part of its parent; closing it puts the parent behind that part.\<close>

lemma make_substream_reads:
  assumes ok: "source_ok rd content s" and r: "pb_make_string_substream s = (r, s')"
  shows "case r of
      None \<Rightarrow> reads content s s'
    | Some sub \<Rightarrow> (\<exists>s1. reads content s s1 \<and> bytes_left s1 < bytes_left s \<and> bytes_left sub \<le> bytes_left s1 \<and>
        sub = s1\<lparr>bytes_left := bytes_left sub\<rparr> \<and> s' = s1\<lparr>bytes_left := bytes_left s1 - bytes_left sub\<rparr>)"
proof -
  obtain rr s1 where s1: "pb_decode_varint32 s = (rr, s1)" by fastforce
  from decode_varint32_reads [OF ok s1] r s1 show ?thesis
    by (auto simp: pb_make_string_substream_def split: option.splits if_splits)
qed

lemma substream_ok:
  "source_ok rd content s1 \<Longrightarrow> k \<le> bytes_left s1 \<Longrightarrow> source_ok rd content (s1\<lparr>bytes_left := k\<rparr>)"
  by (simp add: source_ok_def)

lemma close_substream_reads:
  assumes ok: "source_ok rd content s1" and k: "bytes_left sub \<le> bytes_left s1" and sub: "sub = s1\<lparr>bytes_left := bytes_left sub\<rparr>"
    and rd: "reads content sub sub'" and r: "pb_close_string_substream (s1\<lparr>bytes_left := bytes_left s1 - bytes_left sub\<rparr>) sub' = (b, s')"
  shows "b \<and> reads content s1 s' \<and> bytes_left s' = bytes_left s1 - bytes_left sub"
proof -
  have "source_ok rd content sub" using substream_ok [OF ok k] sub by metis
  then have ok': "source_ok rd content sub'" using rd reads_ok by blast
  from read_null_ok [OF this order.refl] obtain s2 where
    s2: "pb_read_null sub' (bytes_left sub') = (True, s2)" "advanced content (bytes_left sub') sub' s2" by blast
  have sub_at: "in_state sub = in_state s1" using sub by (metis pb_istream.select_convs(3) pb_istream.surjective pb_istream.update_convs(4))
  show ?thesis
  proof (cases "bytes_left sub' = 0")
    case True
    with r have "b" "s' = s1\<lparr>bytes_left := bytes_left s1 - bytes_left sub, in_state := in_state sub', in_errmsg := in_errmsg sub'\<rparr>"
      by (simp_all add: pb_close_string_substream_def)
    then show ?thesis using True rd sub_at k by (auto simp: reads_def)
  next
    case False
    with r s2 have "b" "s' = s1\<lparr>bytes_left := bytes_left s1 - bytes_left sub, in_state := in_state s2, in_errmsg := in_errmsg s2\<rparr>"
      by (simp_all add: pb_close_string_substream_def)
    then show ?thesis using s2(2) rd sub_at k by (auto simp: reads_def advanced_def)
  qed
qed

end

section \<open>Writing inside the struct\<close>

definition keeps :: "u64 set \<Rightarrow> mem \<Rightarrow> mem \<Rightarrow> bool" where
  "keeps A m m' \<longleftrightarrow> (\<forall>x. x \<notin> A \<longrightarrow> m' x = m x)"

lemma keeps_refl [simp]: "keeps A m m"
  by (simp add: keeps_def)

lemma keeps_trans: "keeps A m m' \<Longrightarrow> keeps A m' m'' \<Longrightarrow> keeps A m m''"
  by (simp add: keeps_def)

lemma keeps_mono: "keeps A m m' \<Longrightarrow> A \<subseteq> B \<Longrightarrow> keeps B m m'"
  by (auto simp: keeps_def)

lemma keeps_store: "span a (length bs) \<subseteq> A \<Longrightarrow> keeps A m (store_bytes a bs m)"
  by (auto simp: keeps_def intro!: store_other)

lemma keeps_store_word: "span a (LENGTH('a::len) div 8) \<subseteq> A \<Longrightarrow> keeps A m (store_word a (v :: 'a word) m)"
  by (simp add: store_word_def keeps_store)

definition contained :: "('s \<Rightarrow> u8 list) \<Rightarrow> u64 set \<Rightarrow> 's pb_istream \<Rightarrow> mem \<Rightarrow> 's dec \<Rightarrow> bool" where
  "contained content A s m r \<longleftrightarrow> (\<exists>ok s' m'. r = Some (ok, s', m') \<and> (ok \<longrightarrow> reads content s s') \<and> keeps A m m')"

text \<open>A decoder of submessages that does so at every well-formed layout.\<close>

definition sub_safe ::
    "('s \<Rightarrow> nat \<Rightarrow> u8 list option \<times> 's) \<Rightarrow> ('s \<Rightarrow> u8 list) \<Rightarrow> nat \<Rightarrow> (u64 \<Rightarrow> fld list) \<Rightarrow> 's sub_decoder \<Rightarrow> bool" where
  "sub_safe rd content d env sub \<longleftrightarrow>
     (\<forall>fs k s dest m. layout_ok d env fs k \<longrightarrow> source_ok rd content s \<longrightarrow>
        contained content (span dest k) s m (sub s fs dest m))"

text \<open>A decoder of items that moves on whenever it succeeds.\<close>

definition progresses :: "'s pb_istream \<Rightarrow> 's dec \<Rightarrow> bool" where
  "progresses s r \<longleftrightarrow> (\<forall>s' m'. r = Some (True, s', m') \<longrightarrow> bytes_left s' < bytes_left s)"

lemma containedI: "(ok \<Longrightarrow> reads content s s') \<Longrightarrow> keeps A m m' \<Longrightarrow> contained content A s m (Some (ok, s', m'))"
  by (auto simp: contained_def)

lemma contained_error: "keeps A m m' \<Longrightarrow> contained content A s m (Some (dec_error msg s' m'))"
  unfolding dec_error_def by (rule containedI) simp_all

lemma contained_after:
  "reads content s s1 \<Longrightarrow> keeps A m m1 \<Longrightarrow> contained content A s1 m1 r \<Longrightarrow> contained content A s m r"
  by (auto simp: contained_def intro: reads_trans keeps_trans)

lemma contained_mono: "contained content A s m r \<Longrightarrow> A \<subseteq> B \<Longrightarrow> contained content B s m r"
  by (auto simp: contained_def intro: keeps_mono)

lemma store_integer_keeps:
  assumes "data_size f \<in> {1, 2, 4, 8}"
  shows "\<exists>c m'. store_signed f dest v m = Some (c, m') \<and> keeps (span dest (unat (data_size f))) m m'"
    and "\<exists>c m'. store_unsigned f dest v m = Some (c, m') \<and> keeps (span dest (unat (data_size f))) m m'"
  using assms by (auto simp: store_signed_def store_unsigned_def intro!: keeps_store_word)

lemma check_clamped_contained:
  assumes "r = Some (c, m')" and "keeps A m m'" and "reads content s s'"
  shows "contained content A s m (Some (check_clamped v r s' m))"
  using assms by (auto simp: check_clamped_def contained_def dec_error_def)

context byte_source
begin

lemma integer_contained:
  assumes ok: "source_ok rd content s" and sz: "data_size f \<in> {1, 2, 4, 8}"
  shows "contained content (span dest (unat (data_size f))) s m (Some (pb_dec_varint s f dest m))"
    and "contained content (span dest (unat (data_size f))) s m (Some (pb_dec_uvarint s f dest m))"
    and "contained content (span dest (unat (data_size f))) s m (Some (pb_dec_svarint s f dest m))"
proof -
  let ?A = "span dest (unat (data_size f))"
  have c: "contained content ?A s m (Some (check_clamped w (store_signed f dest v m) s' m))"
    "contained content ?A s m (Some (check_clamped w (store_unsigned f dest v m) s' m))"
    if "reads content s s'" for w v s'
    using store_integer_keeps [OF sz, of dest v m] check_clamped_contained [OF _ _ that] by blast+
  note d = decode_varint_reads [OF ok] decode_svarint_reads [OF ok]
  show "contained content ?A s m (Some (pb_dec_varint s f dest m))"
    using d(1) c(1) by (fastforce simp: pb_dec_varint_def Let_def split: prod.splits option.splits intro: containedI)
  show "contained content ?A s m (Some (pb_dec_uvarint s f dest m))"
    using d(1) c(2) by (fastforce simp: pb_dec_uvarint_def Let_def split: prod.splits option.splits intro: containedI)
  show "contained content ?A s m (Some (pb_dec_svarint s f dest m))"
    using d(2) c(1) by (fastforce simp: pb_dec_svarint_def Let_def split: prod.splits option.splits intro: containedI)
qed

lemma integer_progresses:
  assumes ok: "source_ok rd content s"
  shows "progresses s (Some (pb_dec_varint s f dest m))" and "progresses s (Some (pb_dec_uvarint s f dest m))"
    and "progresses s (Some (pb_dec_svarint s f dest m))"
  using decode_varint_reads [OF ok] decode_svarint_reads [OF ok]
  by (auto simp: progresses_def pb_dec_varint_def pb_dec_uvarint_def pb_dec_svarint_def check_clamped_def dec_error_def
      Let_def split: prod.splits option.splits if_splits)

lemma fixed_contained:
  assumes ok: "source_ok rd content s"
  shows "contained content (span dest 4) s m (Some (pb_dec_fixed32 s f dest m))" and "progresses s (Some (pb_dec_fixed32 s f dest m))"
    and "contained content (span dest 8) s m (Some (pb_dec_fixed64 s f dest m))" and "progresses s (Some (pb_dec_fixed64 s f dest m))"
  using fixed_reads [OF ok]
  by (auto simp: progresses_def pb_dec_fixed32_def pb_dec_fixed64_def split: prod.splits option.splits
      intro!: containedI keeps_store_word)

lemma read_to_contained:
  assumes "source_ok rd content s" and "span a n \<subseteq> A"
  shows "contained content A s m (Some (read_to s a n m))"
  using read_reads [OF assms(1)] assms(2)
  by (auto simp: read_to_def split: prod.splits option.splits intro!: containedI keeps_store)

lemma bytes_contained:
  assumes ok: "source_ok rd content s"
  shows "contained content (span dest (unat (data_size f))) s m (Some (pb_dec_bytes s f dest m))"
proof -
  let ?A = "span dest (unat (data_size f))"
  obtain r s1 where r: "pb_decode_varint32 s = (r, s1)" by fastforce
  have rd: "reads content s s1" and ok1: "source_ok rd content s1"
    using decode_varint32_reads [OF ok r] reads_ok [OF _ ok] by blast+
  have "contained content ?A s m (Some (read_to s1 (dest + 4) (unat sz) (store_word dest sz m)))"
    if "\<not> ucast (data_size f) < bytes_alloc_size sz" for sz
  proof -
    have "unat sz + 4 < 2 ^ 64" using unat_less_two_power [of sz] by simp
    then have "unat (bytes_alloc_size sz) = unat sz + 4"
      by (simp add: bytes_alloc_size_def unat_word_ariths unat_ucast_mod)
    then have "4 + unat sz \<le> unat (data_size f)"
      using that by (simp add: word_less_nat_alt unat_ucast_mod not_less)
    then have "span (dest + 4) (unat sz) \<subseteq> ?A" "span dest 4 \<subseteq> ?A"
      using span_sub [of 4 "unat sz" "unat (data_size f)" dest] span_mono [of 4 "unat (data_size f)" dest] by simp_all
    then show ?thesis
      using contained_after [OF rd keeps_store_word [of dest ?A m sz] read_to_contained [OF ok1]] by simp
  qed
  then show ?thesis using rd r
    by (auto simp: pb_dec_bytes_def Let_def split: option.splits intro!: containedI contained_error)
qed

lemma string_contained:
  assumes ok: "source_ok rd content s"
  shows "contained content (span dest (unat (data_size f))) s m (Some (pb_dec_string s f dest m))"
proof -
  let ?A = "span dest (unat (data_size f))"
  obtain r s1 where r: "pb_decode_varint32 s = (r, s1)" by fastforce
  have rd: "reads content s s1" and ok1: "source_ok rd content s1"
    using decode_varint32_reads [OF ok r] reads_ok [OF _ ok] by blast+
  have "contained content ?A s m (Some (case read_to s1 dest (unat sz) m of (status, s, m) \<Rightarrow>
      (status, s, store_bytes (dest + ucast sz) [0] m)))"
    if a: "\<not> ucast (data_size f) < (ucast (sz + 1) :: size_t)" and b: "\<not> (ucast (sz + 1) :: size_t) < ucast sz" for sz :: u32
  proof -
    have "unat sz \<le> unat (sz + 1)" and "unat (sz + 1) \<le> unat (data_size f)"
      using a b by (simp_all add: word_less_nat_alt not_less)
    moreover have "unat sz \<noteq> unat (sz + 1)" by (simp add: word_unat_eq_iff [symmetric])
    ultimately have "unat sz + 1 \<le> unat (data_size f)" by linarith
    then have "span dest (unat sz) \<subseteq> ?A" and "span (dest + ucast sz) (Suc 0) \<subseteq> ?A"
      using span_sub [of "ucast sz" 1 "unat (data_size f)" dest] span_mono [of "unat sz" "unat (data_size f)" dest]
      by (simp_all add: unat_ucast_mod)
    moreover from this(2) have "keeps ?A m' (store_bytes (dest + ucast sz) [0] m')" for m' by (intro keeps_store) simp
    ultimately show ?thesis using read_to_contained [OF ok1, of dest "unat sz" ?A m] rd
      by (auto simp: contained_def split: prod.splits intro: reads_trans keeps_trans)
  qed
  then show ?thesis using rd r
    by (auto simp: pb_dec_string_def Let_def split: option.splits intro!: containedI contained_error)
qed

lemma fixed_bytes_contained:
  assumes ok: "source_ok rd content s"
  shows "contained content (span dest (unat (data_size f))) s m (Some (pb_dec_fixed_length_bytes s f dest m))"
proof -
  obtain r s1 where r: "pb_decode_varint32 s = (r, s1)" by fastforce
  have rd: "reads content s s1" and ok1: "source_ok rd content s1"
    using decode_varint32_reads [OF ok r] reads_ok [OF _ ok] by blast+
  from contained_after [OF rd keeps_refl read_to_contained [OF ok1]] r rd show ?thesis
    by (auto simp: pb_dec_fixed_length_bytes_def split: option.splits intro!: containedI contained_error keeps_store)
qed

end

section \<open>Default values\<close>

text \<open>An invariant over the loop through the fields.\<close>

lemma set_defaults_loop_rule:
  assumes d: "descriptor fs N"
    and step: "\<And>j m. j < N \<Longrightarrow> P j m \<Longrightarrow> \<exists>m'. init (iter_at fs a j) m = Some m' \<and> P (Suc j) m'"
  shows "i < N \<Longrightarrow> P i m \<Longrightarrow> \<exists>m'. set_defaults_loop init (iter_at fs a i) m = Some m' \<and> P N m'"
proof (induction "N - i" arbitrary: i m)
  case (Suc k)
  from step [OF Suc.prems] obtain m1 where m1: "init (iter_at fs a i) m = Some m1" "P (Suc i) m1" by blast
  show ?case
  proof (cases "Suc i = N")
    case True
    with m1 next_wraps [OF d True, of a] show ?thesis by (simp add: set_defaults_loop.simps)
  next
    case False
    then have lt: "Suc i < N" using Suc.prems by simp
    moreover have "k = N - Suc i" using Suc.hyps(2) by simp
    ultimately obtain m' where "set_defaults_loop init (iter_at fs a (Suc i)) m1 = Some m'" "P N m'"
      using Suc.hyps(1) m1(2) by blast
    with m1 next_steps [OF d lt, of a] show ?thesis by (subst set_defaults_loop.simps) (simp del: iter_at.simps)
  qed
qed simp

lemma set_defaults_loop_keeps:
  assumes "descriptor fs N" and "0 < N"
    and step: "\<And>j m. j < N \<Longrightarrow> \<exists>m'. init (iter_at fs a j) m = Some m' \<and> keeps A m m'"
  shows "\<exists>m'. set_defaults_loop init (iter_at fs a 0) m = Some m' \<and> keeps A m m'"
proof (rule set_defaults_loop_rule [where P = "\<lambda>_. keeps A m", OF assms(1) _ assms(2) keeps_refl])
  fix j m1 assume "j < N" "keeps A m m1"
  with step [of j m1] show "\<exists>m'. init (iter_at fs a j) m1 = Some m' \<and> keeps A m m'"
    by (auto intro: keeps_trans)
qed

lemma iter_begin_at: "pb_field_iter_begin fs a = (tag (fs ! 0) \<noteq> 0, iter_at fs a 0)"
  by (simp add: pb_field_iter_begin_def Let_def)

lemma layout_descriptor: "layout_ok d env fs n \<Longrightarrow> descriptor fs (length fs - 1)"
  by (cases d) auto

lemma layout_empty:
  assumes "layout_ok d env fs n"
  shows "tag (fs ! 0) \<noteq> 0 \<longleftrightarrow> 0 < length fs - 1"
  using layout_descriptor [OF assms] by (cases "length fs - 1") (auto simp: descriptor_def)

lemma field_types:
  assumes "field_ok sub fs n i"
  shows "atype (fs ! i) = PB_ATYPE_STATIC" "ltype (fs ! i) \<noteq> PB_LTYPE_EXTENSION"
  using assms by (auto simp: field_ok_def item_ok_def split: if_splits)

lemma field_spans:
  assumes "field_ok sub fs n i" and "n < 2 ^ 63"
  shows "span (pData (iter_at fs a i)) (field_length (fs ! i)) \<subseteq> span a n"
    and "span (pSize (iter_at fs a i)) (flag_length fs i) \<subseteq> span a n"
  unfolding pData_at pSize_at by (rule span_at; use assms in \<open>simp add: field_ok_def\<close>)+

lemma field_default_keeps:
  assumes "layout_ok (Suc d) env fs n" and "i < length fs - 1"
  shows "\<exists>m'. pb_field_set_to_default (Suc d) env (iter_at fs a i) m = Some m' \<and> keeps (span a n) m m'"
  using assms
proof (induction d arbitrary: fs n a i m)
  let ?goal = "\<lambda>d env fs n i a m. \<exists>m'. pb_field_set_to_default (Suc d) env (iter_at fs a i) m = Some m' \<and> keeps (span a n) m m'"
  have main: "?goal d env fs n i a m" if l: "layout_ok (Suc d) env fs n" "i < length fs - 1"
    and sub: "\<And>p m. ltype (fs ! i) = PB_LTYPE_SUBMESSAGE \<Longrightarrow> ptr (fs ! i) = Some p \<Longrightarrow>
      layout_ok d env (env p) (unat (data_size (fs ! i))) \<Longrightarrow> 0 < length (env p) - 1 \<Longrightarrow>
      \<exists>m'. set_defaults_loop (pb_field_set_to_default d env) (iter_at (env p) (pData (iter_at fs a i)) 0) m = Some m' \<and>
        keeps (span (pData (iter_at fs a i)) (unat (data_size (fs ! i)))) m m'" for d fs n i a m
  proof -
    let ?f = "fs ! i" and ?it = "iter_at fs a i" and ?A = "span a n"
    have f: "field_ok (\<lambda>p. layout_ok d env (env p)) fs n i" and n: "n < 2 ^ 63" and c: "cur ?it = ?f"
      using l cur_iter_at [OF layout_descriptor [OF l(1)] l(2)] by auto
    note ty = field_types [OF f] and sp = field_spans [OF f n, of a]
    have flag: "keeps ?A m (store_bytes (pSize ?it) [0] m)"
      if "htype ?f = PB_HTYPE_OPTIONAL" "pSize ?it \<noteq> pData ?it"
      using sp(2) that by (intro keeps_store) (simp add: flag_length_def pSize_neq_pData)
    have count: "keeps ?A m (store_word (pSize ?it) (0 :: u32) m)"
      if "htype ?f = PB_HTYPE_REPEATED \<or> htype ?f = PB_HTYPE_ONEOF"
      using sp(2) that by (intro keeps_store_word) (auto simp: flag_length_def)
    have data: "span (pData ?it) (unat (data_size ?f)) \<subseteq> ?A" if "htype ?f \<noteq> PB_HTYPE_REPEATED"
      using sp(1) that by (simp add: field_length_def)
    have init: "\<exists>m''. (if ltype ?f = PB_LTYPE_SUBMESSAGE then
               (case ptr ?f of
                  None \<Rightarrow> None
                | Some p \<Rightarrow>
                    (case pb_field_iter_begin (env p) (pData ?it) of
                       (found, sub) \<Rightarrow>
                         if \<not> found then Some m'
                         else set_defaults_loop (pb_field_set_to_default d env) sub m'))
             else
               (case ptr ?f of
                  Some p \<Rightarrow> Some (store_bytes (pData ?it) (load_bytes m' p (unat (data_size ?f))) m')
                | None \<Rightarrow> Some (store_bytes (pData ?it) (replicate (unat (data_size ?f)) 0) m'))) = Some m'' \<and> keeps ?A m m''"
      if h: "htype ?f \<noteq> PB_HTYPE_REPEATED" and k: "keeps ?A m m'" for m'
    proof (cases "ltype ?f = PB_LTYPE_SUBMESSAGE")
      case True
      then obtain p where p: "ptr ?f = Some p" "layout_ok d env (env p) (unat (data_size ?f))"
        using f by (auto simp: field_ok_def item_ok_def split: option.splits)
      show ?thesis
      proof (cases "0 < length (env p) - 1")
        case True
        from sub [OF \<open>ltype ?f = PB_LTYPE_SUBMESSAGE\<close> p True, of m'] obtain m'' where
          "set_defaults_loop (pb_field_set_to_default d env) (iter_at (env p) (pData ?it) 0) m' = Some m''"
          "keeps (span (pData ?it) (unat (data_size ?f))) m' m''" by blast
        with keeps_trans [OF k] keeps_mono [OF _ data [OF h]] p True \<open>ltype ?f = PB_LTYPE_SUBMESSAGE\<close> layout_empty [OF p(2)]
        show ?thesis by (auto simp: iter_begin_at simp del: iter_at.simps)
      qed (use p k True layout_empty [OF p(2)] in \<open>simp add: iter_begin_at del: iter_at.simps\<close>)
    next
      case False
      have "keeps ?A m (store_bytes (pData ?it) bs m')" if "length bs = unat (data_size ?f)" for bs
        using keeps_trans [OF k keeps_store] data [OF h] that by simp
      with False show ?thesis by (auto split: option.splits)
    qed
    show ?thesis
      using ty c flag count init [OF _ keeps_refl] init [OF _ flag]
      by (auto simp: Let_def simp del: iter_at.simps split: if_splits)
  qed
  {
    case 0
    show ?case by (rule main [OF 0]) simp
  next
    case (Suc d)
    show ?case
    proof (rule main [OF Suc.prems])
      fix p m
      assume p: "layout_ok (Suc d) env (env p) (unat (data_size (fs ! i)))" "0 < length (env p) - 1"
      let ?b = "pData (iter_at fs a i)" and ?k = "unat (data_size (fs ! i))"
      show "\<exists>m'. set_defaults_loop (pb_field_set_to_default (Suc d) env) (iter_at (env p) ?b 0) m = Some m' \<and>
          keeps (span ?b ?k) m m'"
        by (rule set_defaults_loop_keeps [OF layout_descriptor [OF p(1)] p(2)]) (rule Suc.IH [OF p(1)])
    qed
  }
qed

lemma message_defaults_keep:
  assumes "layout_ok d env fs n"
  shows "\<exists>m'. pb_message_set_to_defaults d env fs a m = Some m' \<and> keeps (span a n) m m'"
proof (cases "0 < length fs - 1")
  case True
  obtain d' where d: "d = Suc d'" using assms by (cases d) auto
  have "\<exists>m'. set_defaults_loop (pb_field_set_to_default d env) (iter_at fs a 0) m = Some m' \<and> keeps (span a n) m m'"
    unfolding d by (rule set_defaults_loop_keeps [OF layout_descriptor [OF assms] True]) (rule field_default_keeps [OF assms [unfolded d]])
  then show ?thesis using True layout_empty [OF assms] by (simp add: pb_message_set_to_defaults_def iter_begin_at d del: iter_at.simps)
qed (use layout_empty [OF assms] in \<open>simp add: pb_message_set_to_defaults_def iter_begin_at del: iter_at.simps\<close>)

section \<open>Fields\<close>

context byte_source
begin

lemma submessage_contained:
  assumes ok: "source_ok rd content s" and l: "layout_ok d (dec_fields E) (dec_fields E p) k" and p: "ptr f = Some p"
    and sub: "sub_safe rd content d (dec_fields E) sub"
  shows "contained content (span dest k) s m (pb_dec_submessage E (pb_message_set_to_defaults d (dec_fields E)) sub s f dest m)"
proof -
  let ?A = "span dest k"
  obtain r s' where r: "pb_make_string_substream s = (r, s')" by fastforce
  note mk = make_substream_reads [OF ok r]
  show ?thesis
  proof (cases r)
    case None
    with r show ?thesis by (auto simp: pb_dec_submessage_def intro!: containedI)
  next
    case (Some substream)
    with mk obtain s1 where s1: "reads content s s1" "bytes_left substream \<le> bytes_left s1"
      "substream = s1\<lparr>bytes_left := bytes_left substream\<rparr>" "s' = s1\<lparr>bytes_left := bytes_left s1 - bytes_left substream\<rparr>" by auto
    obtain m1 where m1: "(if htype f = PB_HTYPE_REPEATED then pb_message_set_to_defaults d (dec_fields E) (dec_fields E p) dest m
        else Some m) = Some m1" "keeps ?A m m1"
      using message_defaults_keep [OF l, of dest m] by (cases "htype f = PB_HTYPE_REPEATED") auto
    have ok1: "source_ok rd content s1" using s1(1) ok reads_ok by blast
    then have "source_ok rd content substream" using substream_ok [OF ok1 s1(2)] s1(3) by metis
    with sub l obtain st sub' m' where st: "sub substream (dec_fields E p) dest m1 = Some (st, sub', m')"
      "st \<longrightarrow> reads content substream sub'" "keeps ?A m1 m'" unfolding sub_safe_def contained_def by blast
    obtain b s2 where b: "pb_close_string_substream s' sub' = (b, s2)" by fastforce
    have "b \<and> reads content s1 s2" if st
      using close_substream_reads [OF ok1 s1(2,3) _ b [unfolded s1(4)]] st(2) that by blast
    then have "b \<and> st \<longrightarrow> reads content s s2" using s1(1) by (auto intro: reads_trans)
    then show ?thesis using r Some p m1 st b keeps_trans
      by (auto simp: pb_dec_submessage_def contained_def)
  qed
qed

lemma item_contained:
  assumes ok: "source_ok rd content s" and f: "item_ok (\<lambda>p. layout_ok d (dec_fields E) (dec_fields E p)) f"
    and sub: "sub_safe rd content d (dec_fields E) sub"
  shows "contained content (span dest (unat (data_size f))) s m
      (PB_DECODERS E (pb_message_set_to_defaults d (dec_fields E)) sub s f dest m)"
proof (cases "ltype f = PB_LTYPE_SUBMESSAGE")
  case True
  then obtain p where "ptr f = Some p" "layout_ok d (dec_fields E) (dec_fields E p) (unat (data_size f))"
    using f by (auto simp: item_ok_def split: option.splits)
  from submessage_contained [OF ok this(2,1) sub] True show ?thesis by (simp add: PB_DECODERS_def)
next
  case False
  with f show ?thesis
    using integer_contained [OF ok, of f dest m] fixed_contained(1,3) [OF ok, of dest m f] bytes_contained [OF ok, of dest f m]
      string_contained [OF ok, of dest f m] fixed_bytes_contained [OF ok, of dest f m]
    by (auto simp: PB_DECODERS_def item_ok_def split: if_splits)
qed

lemma item_progresses:
  assumes "source_ok rd content s" and "ltype f \<le> PB_LTYPE_LAST_PACKABLE"
  shows "progresses s (PB_DECODERS E init sub s f dest m)"
proof -
  have "x \<le> 4 \<Longrightarrow> x = 0 \<or> x = 1 \<or> x = 2 \<or> x = 3 \<or> x = (4 :: u8)" for x
    by (simp add: word_le_nat_alt word_unat_eq_iff) arith
  from this [of "ltype f"] show ?thesis
    using assms(2) integer_progresses [OF assms(1), of f dest m] fixed_contained(2,4) [OF assms(1), of f dest m]
    by (auto simp: PB_DECODERS_def)
qed

lemma packed_contained:
  assumes item: "\<And>s m sz. source_ok rd content s \<Longrightarrow> sz < array_size (cur iter) \<Longrightarrow>
      contained content A s m (func s (cur iter) (pData iter + ucast (data_size (cur iter) * sz)) m)"
    and prog: "\<And>s a m. source_ok rd content s \<Longrightarrow> progresses s (func s (cur iter) a m)"
    and count: "span (pSize iter) 4 \<subseteq> A"
  shows "source_ok rd content s \<Longrightarrow> contained content A s m (packed_loop func iter s m)"
proof (induction "bytes_left s" arbitrary: s m rule: less_induct)
  case less
  show ?case
  proof (cases "0 < bytes_left s \<and> load_u32 m (pSize iter) < array_size (cur iter)")
    case True
    from item [OF less.prems] True obtain ok s1 m1 where
      r: "func s (cur iter) (pData iter + ucast (data_size (cur iter) * load_u32 m (pSize iter))) m = Some (ok, s1, m1)"
      and s1: "ok \<longrightarrow> reads content s s1" "keeps A m m1" by (fastforce simp: contained_def)
    let ?m = "store_word (pSize iter) (load_u32 m1 (pSize iter) + 1) m1"
    show ?thesis
    proof (cases ok)
      case ok: True
      have rd: "reads content s s1" using s1 ok by blast
      have "bytes_left s1 < bytes_left s" using prog [OF less.prems] r ok by (auto simp: progresses_def)
      from less.hyps [OF this reads_ok [OF rd less.prems]]
      have "contained content A s1 ?m (packed_loop func iter s1 ?m)" .
      moreover have "keeps A m ?m" using count by (intro keeps_trans [OF s1(2)] keeps_store_word) simp
      ultimately have "contained content A s m (packed_loop func iter s1 ?m)" using rd contained_after by blast
      then show ?thesis using True ok r by (subst packed_loop.simps) (simp add: Let_def)
    next
      case False
      then show ?thesis using True r s1 by (subst packed_loop.simps) (auto simp: Let_def intro!: containedI)
    qed
  next
    case False
    then show ?thesis by (subst packed_loop.simps) (auto simp: Let_def intro!: containedI)
  qed
qed

text \<open>The place of an array entry.\<close>

lemma entry_span:
  assumes f: "field_ok sub fs n i" and n: "n < 2 ^ 63" and h: "htype (fs ! i) = PB_HTYPE_REPEATED" and k: "k < array_size (fs ! i)"
  shows "span (pData (iter_at fs a i) + ucast (data_size (fs ! i) * k)) (unat (data_size (fs ! i))) \<subseteq> span a n"
proof -
  let ?f = "fs ! i"
  have l: "unat (data_size ?f) * unat (array_size ?f) < 2 ^ 32"
    using f h by (simp add: field_ok_def field_length_def)
  have "unat (data_size ?f) * (unat k + 1) \<le> unat (data_size ?f) * unat (array_size ?f)"
    using k by (intro mult_left_mono) (simp_all add: word_less_nat_alt)
  moreover from this l have "unat (data_size ?f * k) = unat (data_size ?f) * unat k" by (simp add: unat_word_ariths)
  ultimately have "unat (ucast (data_size ?f * k) :: u64) + unat (data_size ?f) \<le> field_length ?f"
    using h by (simp add: field_length_def)
  then show ?thesis using span_sub field_spans(1) [OF f n] by blast
qed

lemma static_contained:
  assumes ok: "source_ok rd content s" and l: "layout_ok (Suc d) (dec_fields E) fs n" and i: "i < length fs - 1"
    and sub: "sub_safe rd content d (dec_fields E) sub"
  shows "contained content (span a n) s m
    (decode_static_field E (pb_message_set_to_defaults d (dec_fields E)) sub s wt (iter_at fs a i) m)"
proof -
  let ?f = "fs ! i" and ?it = "iter_at fs a i" and ?A = "span a n"
  let ?init = "pb_message_set_to_defaults d (dec_fields E)"
  let ?func = "PB_DECODERS E ?init sub"
  have f: "field_ok (\<lambda>p. layout_ok d (dec_fields E) (dec_fields E p)) fs n i" and n: "n < 2 ^ 63" and c: "cur ?it = ?f"
    using l i cur_iter_at [OF layout_descriptor [OF l] i] by auto
  have item: "item_ok (\<lambda>p. layout_ok d (dec_fields E) (dec_fields E p)) ?f" using f by (simp add: field_ok_def)
  note sp = field_spans [OF f n, of a]
  note fc = item_contained [OF _ item sub]
  have at_field: "contained content ?A s m1 (?func s ?f (pData ?it) m1)" if "htype ?f \<noteq> PB_HTYPE_REPEATED" for m1
    using contained_mono [OF fc [OF ok]] sp(1) that by (simp add: field_length_def)
  have at_entry: "contained content ?A s m1 (?func s ?f (pData ?it + ucast (data_size ?f * k)) m1)"
    if "htype ?f = PB_HTYPE_REPEATED" "k < array_size ?f" "source_ok rd content s" for k m1 s
    by (rule contained_mono [OF fc [OF that(3)] entry_span [OF f n that(1,2)]])
  have count: "span (pSize ?it) 4 \<subseteq> ?A" if "htype ?f = PB_HTYPE_REPEATED \<or> htype ?f = PB_HTYPE_ONEOF"
    using sp(2) that by (auto simp: flag_length_def)
  then have store_count: "keeps ?A m (store_word (pSize ?it) (v :: u32) m)"
    if "htype ?f = PB_HTYPE_REPEATED \<or> htype ?f = PB_HTYPE_ONEOF" for v
    using that by (intro keeps_store_word) simp
  have optional: "keeps ?A m (if pSize ?it \<noteq> pData ?it then store_bytes (pSize ?it) [1] m else m)"
    if "htype ?f = PB_HTYPE_OPTIONAL"
    using sp(2) that by (auto simp: flag_length_def pSize_neq_pData intro!: keeps_store)
  consider "htype ?f = PB_HTYPE_REQUIRED" | "htype ?f = PB_HTYPE_OPTIONAL" | "htype ?f = PB_HTYPE_REPEATED"
    | "htype ?f = PB_HTYPE_ONEOF" | "htype ?f \<notin> {PB_HTYPE_REQUIRED, PB_HTYPE_OPTIONAL, PB_HTYPE_REPEATED, PB_HTYPE_ONEOF}"
    by blast
  then show ?thesis
  proof cases
    case 1
    with at_field [of m] c show ?thesis by (simp add: decode_static_field_def Let_def del: iter_at.simps)
  next
    case 2
    with contained_after [OF reads_refl optional at_field] c show ?thesis
      by (simp add: decode_static_field_def Let_def del: iter_at.simps)
  next
    case 3
    show ?thesis
    proof (cases "wt = PB_WT_STRING \<and> ltype ?f \<le> PB_LTYPE_LAST_PACKABLE")
      case True
      obtain r s' where r: "pb_make_string_substream s = (r, s')" by fastforce
      note mk = make_substream_reads [OF ok r]
      show ?thesis
      proof (cases r)
        case None
        with r 3 True c show ?thesis
          by (auto simp: decode_static_field_def Let_def simp del: iter_at.simps intro!: containedI)
      next
        case (Some substream)
        with mk obtain s1 where s1: "reads content s s1" "bytes_left substream \<le> bytes_left s1"
          "substream = s1\<lparr>bytes_left := bytes_left substream\<rparr>" "s' = s1\<lparr>bytes_left := bytes_left s1 - bytes_left substream\<rparr>" by auto
        have ok1: "source_ok rd content s1" using s1(1) ok reads_ok by blast
        then have oks: "source_ok rd content substream" using substream_ok [OF ok1 s1(2)] s1(3) by metis
        have "contained content ?A substream m (packed_loop ?func ?it substream m)"
          by (rule packed_contained [OF _ _ _ oks]) (use at_entry [OF 3] item_progresses True c count 3 in \<open>simp_all del: iter_at.simps\<close>)
        then obtain st sub' m' where st: "packed_loop ?func ?it substream m = Some (st, sub', m')"
          "st \<longrightarrow> reads content substream sub'" "keeps ?A m m'" by (auto simp: contained_def)
        obtain b s2 where b: "pb_close_string_substream s' sub' = (b, s2)" by fastforce
        have "b \<and> reads content s1 s2" if st
          using close_substream_reads [OF ok1 s1(2,3) _ b [unfolded s1(4)]] st(2) that by blast
        then have "b \<and> st \<longrightarrow> reads content s s2" using s1(1) by (auto intro: reads_trans)
        then show ?thesis using r Some 3 True c st b
          by (auto simp: decode_static_field_def Let_def simp del: iter_at.simps intro!: containedI contained_error)
      qed
    next
      case False
      show ?thesis
      proof (cases "array_size ?f \<le> load_u32 m (pSize ?it)")
        case True
        with 3 False c show ?thesis
          by (auto simp: decode_static_field_def Let_def simp del: iter_at.simps intro!: contained_error)
      next
        case lt: False
        with contained_after [OF reads_refl store_count at_entry [OF 3 _ ok]] 3 False c show ?thesis
          by (auto simp: decode_static_field_def Let_def not_le simp del: iter_at.simps)
      qed
    qed
  next
    case 4
    let ?m = "store_word (pSize ?it) (tag ?f) m"
    have k: "keeps ?A m ?m" using 4 store_count by blast
    have h: "htype ?f \<noteq> PB_HTYPE_REPEATED" using 4 by simp
    show ?thesis
    proof (cases "ltype ?f = PB_LTYPE_SUBMESSAGE")
      case True
      then obtain p where p: "ptr ?f = Some p" "layout_ok d (dec_fields E) (dec_fields E p) (unat (data_size ?f))"
        using item by (auto simp: item_ok_def split: option.splits)
      let ?m2 = "store_bytes (pData ?it) (replicate (unat (data_size ?f)) 0) ?m"
      have data: "span (pData ?it) (unat (data_size ?f)) \<subseteq> ?A" using sp(1) h by (simp add: field_length_def)
      have k2: "keeps ?A m ?m2" using data by (intro keeps_trans [OF k] keeps_store) simp
      obtain m3 where m3: "?init (dec_fields E p) (pData ?it) ?m2 = Some m3" "keeps ?A ?m2 m3"
        using message_defaults_keep [OF p(2)] keeps_mono [OF _ data] by blast
      from contained_after [OF reads_refl keeps_trans [OF k2 m3(2)] at_field [OF h]] m3(1) 4 True p(1) c
      show ?thesis by (simp add: decode_static_field_def Let_def del: iter_at.simps)
    next
      case False
      with contained_after [OF reads_refl k at_field [OF h]] 4 c show ?thesis
        by (simp add: decode_static_field_def Let_def del: iter_at.simps)
    qed
  next
    case 5
    with c show ?thesis
      by (auto simp: decode_static_field_def Let_def simp del: iter_at.simps intro!: contained_error)
  qed
qed

end

section \<open>The fields of a message\<close>

text \<open>Positions of the iterator that a message of \<open>N\<close> fields has; an empty message has its terminator.\<close>

definition valid_pos :: "nat \<Rightarrow> nat \<Rightarrow> bool" where
  "valid_pos N i \<longleftrightarrow> i < N \<or> i = 0"

lemma next_valid:
  assumes d: "descriptor fs N" and i: "valid_pos N i"
  shows "pb_field_iter_next (iter_at fs a i) = (Suc i < N, iter_at fs a (if Suc i < N then Suc i else 0))"
proof (cases "N = 0")
  case True
  with d i show ?thesis
    by (simp add: valid_pos_def descriptor_def pb_field_iter_next_def pb_field_iter_begin_def cur_def Let_def)
next
  case False
  then have "i < N" using i by (auto simp: valid_pos_def)
  with next_wraps [OF d, of i a] next_steps [OF d, of i a] show ?thesis
    by (cases "Suc i = N") (simp_all del: iter_at.simps)
qed

lemma pos_valid: "descriptor fs N \<Longrightarrow> valid_pos N i \<Longrightarrow> pos (iter_at fs a i) = i"
  by (auto simp: valid_pos_def intro: pos_iter_at)

lemma valid_0 [simp]: "valid_pos N 0"
  by (simp add: valid_pos_def)

lemma find_valid:
  assumes d: "descriptor fs N" and i: "valid_pos N i"
  shows "\<exists>found j. pb_field_iter_find (iter_at fs a i) t = Some (found, iter_at fs a j) \<and> valid_pos N j"
proof (cases "i < N")
  case True
  have "(i + k) mod N < N" for k using True by simp
  with True show ?thesis unfolding field_iter_find_eq [OF d True] valid_pos_def by (auto simp del: iter_at.simps)
next
  case False
  then have N: "N = 0" "i = 0" using i by (auto simp: valid_pos_def)
  with d next_valid [OF d i, of a] pos_valid [OF d i, of a] show ?thesis
    by (auto simp: pb_field_iter_find_def iter_find_loop.simps valid_pos_def simp del: iter_at.simps)
qed

text \<open>No extension: the search goes once around.\<close>

lemma find_extension_none:
  assumes d: "descriptor fs N" and i: "i < N" and none: "\<And>j. j < N \<Longrightarrow> ltype (fs ! j) \<noteq> PB_LTYPE_EXTENSION"
  shows "find_extension_field (iter_at fs a i) = Some (False, iter_at fs a i)"
proof -
  have walk: "find_extension_loop i (iter_at fs a ((i + k) mod N)) = Some (False, iter_at fs a i)" if "k < N" for k
    using that
  proof (induction "N - k" arbitrary: k)
    case (Suc l)
    let ?j = "(i + k) mod N"
    have j: "?j < N" using i by simp
    have nx: "snd (pb_field_iter_next (iter_at fs a ?j)) = iter_at fs a ((i + Suc k) mod N)"
      using next_cyclic [OF d j, of a] by (simp add: mod_Suc_eq)
    have pos: "pos (iter_at fs a ((i + Suc k) mod N)) = (i + Suc k) mod N" using pos_iter_at [OF d] i by simp
    show ?case
    proof (cases "Suc k = N")
      case True
      then have "(i + Suc k) mod N = i" using i by simp
      with nx pos none [OF j] cur_iter_at [OF d j, of a] show ?thesis
        by (subst find_extension_loop.simps) (simp del: iter_at.simps)
    next
      case False
      then have k: "Suc k < N" using Suc.prems by simp
      have "(i + Suc k) mod N \<noteq> i"
      proof
        assume "(i + Suc k) mod N = i"
        then have "(i + Suc k) mod N = i mod N" using i by simp
        then have "N dvd Suc k" by (metis add_diff_cancel_left' le_add1 mod_eq_dvd_iff_nat)
        then show False using k by (auto dest: dvd_imp_le)
      qed
      with nx pos none [OF j] cur_iter_at [OF d j, of a] Suc.hyps(1) [of "Suc k"] Suc.hyps(2) k show ?thesis
        by (subst find_extension_loop.simps) (simp del: iter_at.simps)
    qed
  qed simp
  from walk [of 0] i show ?thesis by (simp add: find_extension_field_def pos_iter_at [OF d] del: iter_at.simps)
qed

lemma find_extension_valid:
  assumes l: "layout_ok d env fs n" and i: "valid_pos (length fs - 1) i"
  shows "find_extension_field (iter_at fs a i) = Some (False, iter_at fs a i)"
proof (cases "i < length fs - 1")
  case True
  show ?thesis
  proof (rule find_extension_none [OF layout_descriptor [OF l] True])
    fix j assume "j < length fs - 1"
    with l show "ltype (fs ! j) \<noteq> PB_LTYPE_EXTENSION" using field_types by (cases d) auto
  qed
next
  case False
  then have e: "i = 0" "length fs - 1 = 0" using i by (auto simp: valid_pos_def)
  note d = layout_descriptor [OF l]
  have "fs \<noteq> []" using d by (auto simp: descriptor_def)
  then have "fs ! 0 = last fs" using e by (simp add: last_conv_nth)
  then have "ltype (fs ! 0) \<noteq> PB_LTYPE_EXTENSION" using l by (cases d) (auto simp: PB_LTYPE_def)
  with next_valid [OF d i, of a] pos_valid [OF d i, of a] e show ?thesis
    by (simp add: find_extension_field_def find_extension_loop.simps cur_def del: iter_at.simps)
qed

section \<open>Messages\<close>

text \<open>The outcome of the loop of \<open>pb_decode_noinit\<close>: as \<open>contained\<close>, with the iterator at a valid place.\<close>

definition loop_outcome ::
    "('s \<Rightarrow> u8 list) \<Rightarrow> u64 set \<Rightarrow> fld list \<Rightarrow> u64 \<Rightarrow> 's pb_istream \<Rightarrow> mem \<Rightarrow>
     (bool \<times> 's pb_istream \<times> iter \<times> u32 list \<times> mem) option \<Rightarrow> bool" where
  "loop_outcome content A fs a s m r \<longleftrightarrow>
     (\<exists>ok s' j seen m'. r = Some (ok, s', iter_at fs a j, seen, m') \<and> (ok \<longrightarrow> reads content s s') \<and>
        keeps A m m' \<and> valid_pos (length fs - 1) j \<and> length seen = 2)"

lemma loop_outcome_after:
  "reads content s s1 \<Longrightarrow> keeps A m m1 \<Longrightarrow> loop_outcome content A fs a s1 m1 r \<Longrightarrow> loop_outcome content A fs a s m r"
  by (fastforce simp: loop_outcome_def intro: reads_trans keeps_trans)

lemma decoded_tag: "pb_decode_tag s = ((True, wt, t, eof), s') \<Longrightarrow> t \<noteq> - 1"
proof -
  assume "pb_decode_tag s = ((True, wt, t, eof), s')"
  then obtain w :: u32 where "t = drop_bit 3 w"
    by (auto simp: pb_decode_tag_def split: prod.splits option.splits if_splits)
  then have "unat t < 2 ^ 29" using unat_less_two_power [of w]
    by (simp add: unat_drop_bit_div div_less_iff_less_mult)
  moreover have "unat (- 1 :: u32) = 2 ^ 32 - 1" by (simp add: unsigned_minus_1_eq_mask mask_eq_exp_minus_1)
  ultimately show "t \<noteq> - 1" by auto
qed

lemma length_mark_seen [simp]: "length (mark_seen iter seen) = length seen"
  by (simp add: mark_seen_def Let_def)

context byte_source
begin

lemma decode_loop_outcome:
  assumes d: "descriptor fs (length fs - 1)"
    and known: "\<And>s wt j m. source_ok rd content s \<Longrightarrow> valid_pos (length fs - 1) j \<Longrightarrow>
      contained content A s m (known s wt (iter_at fs a j) m)"
    and unknown: "\<And>s t wt j rng m. source_ok rd content s \<Longrightarrow> valid_pos (length fs - 1) j \<Longrightarrow> t \<noteq> - 1 \<Longrightarrow>
      \<exists>ok s' rng'. unknown s t wt (iter_at fs a j) rng m = Some (ok, s', iter_at fs a j, rng', m) \<and> (ok \<longrightarrow> reads content s s')"
  shows "source_ok rd content s \<Longrightarrow> valid_pos (length fs - 1) i \<Longrightarrow> length seen = 2 \<Longrightarrow>
    loop_outcome content A fs a s m (decode_loop known unknown s (iter_at fs a i) seen rng m)"
proof (induction "bytes_left s" arbitrary: s i seen rng m rule: less_induct)
  case less
  let ?loop = "decode_loop known unknown"
  show ?case
  proof (cases "bytes_left s = 0")
    case True
    with less.prems show ?thesis by (subst decode_loop.simps) (auto simp: loop_outcome_def)
  next
    case left: False
    obtain ok wt t eof s1 where tg: "pb_decode_tag s = ((ok, wt, t, eof), s1)" by (metis prod_cases3 surj_pair)
    note rd = decode_tag_reads [OF less.prems(1) tg]
    have ok1: "source_ok rd content s1" using rd less.prems(1) reads_ok by blast
    show ?thesis
    proof (cases ok)
      case False
      with tg left rd less.prems show ?thesis by (subst decode_loop.simps) (auto simp: loop_outcome_def)
    next
      case True
      then have lt: "bytes_left s1 < bytes_left s" using rd by blast
      obtain found j where f: "pb_field_iter_find (iter_at fs a i) t = Some (found, iter_at fs a j)" "valid_pos (length fs - 1) j"
        using find_valid [OF d less.prems(2)] by blast
      have step: "loop_outcome content A fs a s m r"
        if "reads content s1 s2" "keeps A m m2" "source_ok rd content s2 \<Longrightarrow> bytes_left s2 < bytes_left s \<Longrightarrow>
          loop_outcome content A fs a s2 m2 r" for s2 m2 r
        using loop_outcome_after [OF reads_trans [OF _ that(1)] that(2) that(3)] rd lt reads_left [OF that(1)] reads_ok [OF that(1) ok1]
        by fastforce
      show ?thesis
      proof (cases found)
        case False
        have "t \<noteq> - 1" using decoded_tag [of s] tg \<open>ok\<close> by simp
        then obtain ok2 s2 rng2 where u: "unknown s1 t wt (iter_at fs a j) rng m = Some (ok2, s2, iter_at fs a j, rng2, m)"
          "ok2 \<longrightarrow> reads content s1 s2" using unknown [OF ok1 f(2)] by blast
        show ?thesis
        proof (cases ok2)
          case True
          have "loop_outcome content A fs a s m (?loop s2 (iter_at fs a j) seen rng2 m)"
            by (rule step [OF _ keeps_refl less.hyps]) (use u True f less.prems in auto)
          with left tg \<open>ok\<close> f False u True show ?thesis by (subst decode_loop.simps) (simp del: iter_at.simps)
        qed (use left tg \<open>ok\<close> f False u less.prems in \<open>subst decode_loop.simps; auto simp: loop_outcome_def simp del: iter_at.simps\<close>)
      next
        case True
        from known [OF ok1 f(2), of m wt] obtain ok2 s2 m2 where k: "known s1 wt (iter_at fs a j) m = Some (ok2, s2, m2)"
          "ok2 \<longrightarrow> reads content s1 s2" "keeps A m m2" by (auto simp: contained_def)
        let ?seen = "mark_seen (iter_at fs a j) seen"
        show ?thesis
        proof (cases ok2)
          case ok2: True
          have "loop_outcome content A fs a s m (?loop s2 (iter_at fs a j) ?seen rng m2)"
            by (rule step [OF _ k(3) less.hyps]) (use k ok2 f less.prems in auto)
          with left tg \<open>ok\<close> f True k ok2 show ?thesis by (subst decode_loop.simps) (simp add: Let_def del: iter_at.simps)
        qed (use left tg \<open>ok\<close> f True k less.prems in \<open>subst decode_loop.simps; auto simp: Let_def loop_outcome_def simp del: iter_at.simps\<close>)
      qed
    qed
  qed
qed

end

subsection \<open>Required fields\<close>

lemma count_required_valid:
  assumes d: "descriptor fs N"
  shows "valid_pos N i \<Longrightarrow> count_required (iter_at fs a i) =
    Some (required_field_index (iter_at fs a (N - 1)), ftype (fs ! (N - 1)), iter_at fs a 0)"
proof (induction "N - i" arbitrary: i rule: less_induct)
  case less
  have c: "cur (iter_at fs a i) = fs ! i" using pos_valid [OF d less.prems, of a] by (simp add: cur_def)
  show ?case
  proof (cases "Suc i < N")
    case True
    with less.hyps [of "Suc i"] next_valid [OF d less.prems, of a] show ?thesis
      by (subst count_required.simps) (simp add: valid_pos_def del: iter_at.simps)
  next
    case False
    then have "i = N - 1" using less.prems by (auto simp: valid_pos_def)
    with False c next_valid [OF d less.prems, of a] show ?thesis
      by (subst count_required.simps) (simp del: iter_at.simps)
  qed
qed

lemma check_required_defined:
  assumes "length seen = 2" and "unat c = 0 \<or> unat c < 64 \<and> unat c mod 32 \<noteq> 0"
  shows "check_required seen c \<noteq> None"
proof -
  have m: "(31 :: u32) = mask 5" by (simp add: mask_eq_exp_minus_1)
  have "unat (drop_bit 5 c) = unat c div 32" "unat (c AND 31) = unat c mod 32"
    unfolding m word_and_mask_take_bit by (simp_all add: unat_drop_bit_div unat_take_bit_mod)
  with assms show ?thesis
    by (auto simp: check_required_def Let_def unat_eq_zero div_less_iff_less_mult)
qed

lemma required_total:
  assumes d: "descriptor fs N" and N: "N < 2 ^ 32"
  shows "unat (if htype (fs ! (N - 1)) = PB_HTYPE_REQUIRED \<and> tag (fs ! 0) \<noteq> 0
      then required_field_index (iter_at fs a (N - 1)) + 1
      else required_field_index (iter_at fs a (N - 1))) = required_before fs N"
proof (cases N)
  case 0
  with d show ?thesis by (simp add: pb_field_iter_begin_def Let_def required_before_def descriptor_def)
next
  case (Suc k)
  then have k: "unat (required_field_index (iter_at fs a k)) = required_before fs k"
    using required_index_at [OF d N, of k a] by simp
  have "required_before fs k \<le> k" using length_filter_le [of _ "[0..<k]"] by (simp add: required_before_def)
  then have "unat (required_field_index (iter_at fs a k) + 1) = required_before fs k + 1"
    using N Suc k by (simp add: unat_word_ariths)
  moreover have "tag (fs ! 0) \<noteq> 0" using d Suc by (simp add: descriptor_def)
  ultimately show ?thesis using Suc k by (simp add: required_before_Suc del: iter_at.simps)
qed

lemma required_seen_eq:
  assumes d: "descriptor fs N" and N: "N < 2 ^ 32" and j: "valid_pos N j"
  obtains c where "required_seen (iter_at fs a j) seen = check_required seen c" and "unat c = required_before fs N"
proof
  let ?c = "if htype (fs ! (N - 1)) = PB_HTYPE_REQUIRED \<and> tag (fs ! 0) \<noteq> 0
    then required_field_index (iter_at fs a (N - 1)) + 1 else required_field_index (iter_at fs a (N - 1))"
  have "cur (iter_at fs a 0) = fs ! 0" using pos_valid [OF d valid_0, of a] by (simp add: cur_def del: iter_at.simps(1))
  then show "required_seen (iter_at fs a j) seen = check_required seen ?c"
    unfolding required_seen_def count_required_valid [OF d j] option.case prod.case by (simp del: iter_at.simps)
  show "unat ?c = required_before fs N" by (rule required_total [OF d N])
qed

lemma required_seen_defined:
  assumes l: "layout_ok d env fs n" and j: "valid_pos (length fs - 1) j" and seen: "length seen = 2"
  shows "\<exists>b. required_seen (iter_at fs a j) seen = Some b"
proof -
  have c: "countable fs (length fs - 1)" and N: "length fs - 1 < 2 ^ 32" using l by (cases d; auto)+
  obtain c where "required_seen (iter_at fs a j) seen = check_required seen c"
    and "unat c = required_before fs (length fs - 1)"
    by (rule required_seen_eq [OF layout_descriptor [OF l] N j, of a seen])
  with check_required_defined [OF seen, of c] c show ?thesis by (simp add: countable_def)
qed

subsection \<open>The decoder\<close>

context byte_source
begin

lemma field_contained:
  assumes ok: "source_ok rd content s" and l: "layout_ok (Suc d) (dec_fields E) fs n" and i: "valid_pos (length fs - 1) i"
    and sub: "sub_safe rd content d (dec_fields E) sub"
  shows "contained content (span a n) s m
    (decode_field E (pb_message_set_to_defaults d (dec_fields E)) sub s wt (iter_at fs a i) m)"
proof (cases "i < length fs - 1")
  case True
  then have "field_ok (\<lambda>p. layout_ok d (dec_fields E) (dec_fields E p)) fs n i" using l by simp
  with static_contained [OF ok l True sub] show ?thesis
    using field_types cur_iter_at [OF layout_descriptor [OF l] True] by (simp add: decode_field_def del: iter_at.simps)
next
  case False
  note d = layout_descriptor [OF l]
  have e: "i = 0" "length fs - 1 = 0" using i False by (auto simp: valid_pos_def)
  have "fs \<noteq> []" using d by (auto simp: descriptor_def)
  then have "fs ! 0 = last fs" using e by (simp add: last_conv_nth)
  then have f: "ftype (fs ! 0) = 0" "data_size (fs ! 0) = 0" using l by simp_all
  have c: "cur (iter_at fs a i) = fs ! 0" using pos_valid [OF d i, of a] e by (simp add: cur_def del: iter_at.simps(1))
  obtain r s1 where r: "pb_decode_varint s = (r, s1)" by fastforce
  with f c show ?thesis
    by (auto simp: decode_field_def decode_static_field_def PB_DECODERS_def pb_dec_varint_def check_clamped_def store_signed_def
        PB_ATYPE_def PB_HTYPE_def PB_LTYPE_def Let_def simp del: iter_at.simps split: option.splits intro!: containedI contained_error)
qed

lemma noinit_contained: "sub_safe rd content d (dec_fields E) (pb_decode_noinit d E)"
proof (induction d)
  case 0
  show ?case by (simp add: sub_safe_def)
next
  case (Suc d)
  show ?case unfolding sub_safe_def
  proof (intro allI impI)
    fix fs n s a m
    assume l: "layout_ok (Suc d) (dec_fields E) fs n" and ok: "source_ok rd content s"
    let ?init = "pb_message_set_to_defaults d (dec_fields E)"
    let ?loop = "decode_loop (decode_field E ?init (pb_decode_noinit d E)) (decode_unknown E ?init (pb_decode_noinit d E)) s
      (iter_at fs a 0) [0, 0] 0 m"
    have unknown: "\<exists>ok s' rng'. decode_unknown E ?init (pb_decode_noinit d E) s t wt (iter_at fs a j) rng m =
        Some (ok, s', iter_at fs a j, rng', m) \<and> (ok \<longrightarrow> reads content s s')"
      if "source_ok rd content s" "valid_pos (length fs - 1) j" "t \<noteq> - 1" for s t wt j rng m
    proof -
      obtain b s2 where b: "pb_skip_field s wt = (b, s2)" by fastforce
      have "\<not> - 1 \<le> t" using that(3) by (simp add: word_le_nat_alt not_le) (metis max_word_max not_less order_le_less word_less_nat_alt)
      with b skip_field_reads [OF that(1) b] find_extension_valid [OF l that(2)] show ?thesis
        by (auto simp: decode_unknown_def Let_def simp del: iter_at.simps)
    qed
    have "loop_outcome content (span a n) fs a s m ?loop"
    proof (rule decode_loop_outcome [OF layout_descriptor [OF l] _ _ ok valid_0])
      show "contained content (span a n) s m (decode_field E ?init (pb_decode_noinit d E) s wt (iter_at fs a j) m)"
        if "source_ok rd content s" "valid_pos (length fs - 1) j" for s wt j m
        by (rule field_contained [OF that(1) l that(2) Suc.IH])
    qed (use unknown in simp_all)
    then obtain ok s' j seen m' where r: "?loop = Some (ok, s', iter_at fs a j, seen, m')" "ok \<longrightarrow> reads content s s'"
      "keeps (span a n) m m'" "valid_pos (length fs - 1) j" "length seen = 2" unfolding loop_outcome_def by blast
    obtain b where "required_seen (iter_at fs a j) seen = Some b" using required_seen_defined [OF l r(4,5)] by blast
    with r show "contained content (span a n) s m (pb_decode_noinit (Suc d) E s fs a m)"
      by (auto simp: Let_def simp del: iter_at.simps simp flip: iter_at.simps(1) intro!: containedI contained_error)
  qed
qed

lemma decode_contained:
  assumes "layout_ok d (dec_fields E) fs n" and "source_ok rd content s"
  shows "contained content (span a n) s m (pb_decode d E s fs a m)"
proof -
  obtain m1 where m1: "pb_message_set_to_defaults d (dec_fields E) fs a m = Some m1" "keeps (span a n) m m1"
    using message_defaults_keep [OF assms(1)] by blast
  have "contained content (span a n) s m1 (pb_decode_noinit d E s fs a m1)"
    using noinit_contained assms unfolding sub_safe_def by blast
  from contained_after [OF reads_refl m1(2) this] m1(1) show ?thesis by (simp add: pb_decode_def)
qed

lemma delimited_contained:
  assumes l: "layout_ok d (dec_fields E) fs n" and ok: "source_ok rd content s"
  shows "contained content (span a n) s m (pb_decode_delimited d E s fs a m)"
proof -
  obtain r s' where r: "pb_make_string_substream s = (r, s')" by fastforce
  note mk = make_substream_reads [OF ok r]
  show ?thesis
  proof (cases r)
    case None
    with r show ?thesis by (auto simp: pb_decode_delimited_def intro!: containedI)
  next
    case (Some substream)
    with mk obtain s1 where s1: "reads content s s1" "bytes_left substream \<le> bytes_left s1"
      "substream = s1\<lparr>bytes_left := bytes_left substream\<rparr>" "s' = s1\<lparr>bytes_left := bytes_left s1 - bytes_left substream\<rparr>" by auto
    have ok1: "source_ok rd content s1" using s1(1) ok reads_ok by blast
    then have "source_ok rd content substream" using substream_ok [OF ok1 s1(2)] s1(3) by metis
    from decode_contained [OF l this, of a m] obtain st sub' m' where st: "pb_decode d E substream fs a m = Some (st, sub', m')"
      "st \<longrightarrow> reads content substream sub'" "keeps (span a n) m m'" unfolding contained_def by blast
    obtain b s2 where b: "pb_close_string_substream s' sub' = (b, s2)" by fastforce
    have "b \<and> st \<longrightarrow> reads content s s2"
      using close_substream_reads [OF ok1 s1(2,3) _ b [unfolded s1(4)]] st(2) s1(1) by (auto intro: reads_trans)
    then show ?thesis using r Some st b by (auto simp: pb_decode_delimited_def contained_def)
  qed
qed

end

section \<open>Properties\<close>

lemma reads_buffer:
  assumes "reads (\<lambda>bs. bs) (pb_istream_from_buffer inp (length inp)) s'"
  shows "bytes_left s' \<le> length inp \<and> in_state s' = drop (length inp - bytes_left s') inp"
  using assms by (simp add: reads_def)

text \<open>The marks after the fields at \<open>ds\<close> have been found, in this order.\<close>

definition marks_after :: "fld list \<Rightarrow> u64 \<Rightarrow> nat list \<Rightarrow> u32 list" where
  "marks_after fs a ds = fold (\<lambda>i. mark_seen (iter_at fs a i)) ds [0, 0]"

text \<open>The positions, among the required fields, of the required fields in \<open>A\<close>.\<close>

definition required_in :: "fld list \<Rightarrow> nat set \<Rightarrow> nat set" where
  "required_in fs A = required_before fs ` {i \<in> A. htype (fs ! i) = PB_HTYPE_REQUIRED}"

lemma required_before_less:
  "i < j \<Longrightarrow> htype (fs ! i) = PB_HTYPE_REQUIRED \<Longrightarrow> required_before fs i < required_before fs j"
proof (induction j)
  case (Suc j)
  then show ?case by (cases "i = j") (auto simp: required_before_Suc)
qed simp

lemma required_before_onto:
  "q < required_before fs N \<Longrightarrow> \<exists>i<N. htype (fs ! i) = PB_HTYPE_REQUIRED \<and> required_before fs i = q"
proof (induction N)
  case 0
  then show ?case by (simp add: required_before_def)
next
  case (Suc N)
  then show ?case
    by (cases "q < required_before fs N") (auto simp: required_before_Suc split: if_splits intro: less_SucI)
qed

lemma required_in_all:
  assumes "A \<subseteq> {..<N}"
  shows "(\<forall>i<N. htype (fs ! i) = PB_HTYPE_REQUIRED \<and> required_before fs i < k \<longrightarrow> i \<in> A) \<longleftrightarrow>
    {..<min k (required_before fs N)} \<subseteq> required_in fs A" (is "?all \<longleftrightarrow> ?sub")
proof
  assume all: ?all
  show ?sub
  proof
    fix q assume q: "q \<in> {..<min k (required_before fs N)}"
    then obtain i where "i < N" "htype (fs ! i) = PB_HTYPE_REQUIRED" "required_before fs i = q"
      using required_before_onto [of q fs N] by auto
    with all q show "q \<in> required_in fs A" by (auto simp: required_in_def)
  qed
next
  assume sub: ?sub
  show ?all
  proof (intro allI impI)
    fix i assume i: "i < N" "htype (fs ! i) = PB_HTYPE_REQUIRED \<and> required_before fs i < k"
    then have "required_before fs i \<in> {..<min k (required_before fs N)}"
      using required_before_less [of i N fs] by simp
    with sub obtain j where j: "j \<in> A" "htype (fs ! j) = PB_HTYPE_REQUIRED"
      "required_before fs j = required_before fs i" by (fastforce simp: required_in_def)
    have "\<not> i < j" "\<not> j < i"
      using required_before_less [of i j fs] required_before_less [of j i fs] i j by auto
    with j show "i \<in> A" by (simp add: linorder_class.not_less)
  qed
qed

lemma required_in_bound: "A \<subseteq> {..<N} \<Longrightarrow> required_in fs A \<subseteq> {..<required_before fs N}"
  using required_before_less by (auto simp: required_in_def)

lemma mark_seen_bit:
  assumes c: "unat (required_field_index it) = r" and b: "q < 64" and l: "length seen = 2"
  shows "bit (mark_seen it seen ! (q div 32)) (q mod 32) \<longleftrightarrow>
    bit (seen ! (q div 32)) (q mod 32) \<or> (htype (cur it) = PB_HTYPE_REQUIRED \<and> q = r)"
proof -
  have m: "(31 :: u32) = mask 5" by (simp add: mask_eq_exp_minus_1)
  have w: "unat (drop_bit 5 (required_field_index it)) = r div 32" "unat (required_field_index it AND 31) = r mod 32"
    "required_field_index it < PB_MAX_REQUIRED_FIELDS \<longleftrightarrow> r < 64"
    unfolding m word_and_mask_take_bit
    by (simp_all add: c unat_drop_bit_div unat_take_bit_mod PB_MAX_REQUIRED_FIELDS_def word_less_nat_alt)
  have q: "q div 32 < 2" using b by (simp add: div_less_iff_less_mult)
  have eq: "q = r \<longleftrightarrow> q div 32 = r div 32 \<and> q mod 32 = r mod 32" by (metis mult_div_mod_eq)
  obtain p :: u32 where p: "p = push_bit (r mod 32) 1" by simp
  have one: "bit p (q mod 32) \<longleftrightarrow> q mod 32 = r mod 32"
    unfolding p bit_push_bit_iff bit_1_iff by auto
  show ?thesis
  proof (cases "htype (cur it) = PB_HTYPE_REQUIRED \<and> r < 64")
    case True
    then have m: "mark_seen it seen = seen[r div 32 := (seen ! (r div 32)) OR push_bit (r mod 32) 1]"
      unfolding mark_seen_def w by (simp only: Let_def if_True simp_thms)
    show ?thesis unfolding m p [symmetric] using True q l eq one
      by (cases "q div 32 = r div 32") (auto simp: bit_or_iff)
  next
    case False
    then have m: "mark_seen it seen = seen" unfolding mark_seen_def w by auto
    show ?thesis unfolding m using False b by auto
  qed
qed

lemma marks_after_bit:
  assumes d: "descriptor fs N" and N: "N < 2 ^ 32" and ds: "set ds \<subseteq> {..<N}" and q: "q < 64"
  shows "bit (marks_after fs a ds ! (q div 32)) (q mod 32) \<longleftrightarrow> q \<in> required_in fs (set ds)"
    and "length (marks_after fs a ds) = 2"
proof -
  have "length (fold (\<lambda>i. mark_seen (iter_at fs a i)) ds seen) = 2 \<and>
      (bit (fold (\<lambda>i. mark_seen (iter_at fs a i)) ds seen ! (q div 32)) (q mod 32) \<longleftrightarrow>
       bit (seen ! (q div 32)) (q mod 32) \<or> q \<in> required_in fs (set ds))" if "length seen = 2" for seen
    using that ds
  proof (induction ds arbitrary: seen)
    case (Cons i ds)
    then have i: "i < N" by simp
    have "unat (required_field_index (iter_at fs a i)) = required_before fs i" "cur (iter_at fs a i) = fs ! i"
      using required_index_at [OF d N] cur_iter_at [OF d i] i by simp_all
    from mark_seen_bit [OF this(1) q Cons.prems(1)] this(2) Cons.IH [of "mark_seen (iter_at fs a i) seen"] Cons.prems
    show ?case by (auto simp: required_in_def simp del: iter_at.simps)
  qed (simp add: required_in_def)
  from this [of "[0, 0]"] q show "bit (marks_after fs a ds ! (q div 32)) (q mod 32) \<longleftrightarrow> q \<in> required_in fs (set ds)"
    "length (marks_after fs a ds) = 2"
    by (auto simp: marks_after_def div_less_iff_less_mult nth_Cons' less_2_cases_iff)
qed

lemma word_marks:
  assumes bits: "\<And>b. b < 32 \<Longrightarrow> bit (x :: u32) b \<longleftrightarrow> o1 + b \<in> S" and S: "S \<subseteq> {..<r}" and k: "k \<le> 32" "k = 32 \<or> r \<le> o1 + k"
  shows "x = mask k \<longleftrightarrow> {o1..<o1 + k} \<subseteq> S"
proof
  assume x: "x = mask k"
  show "{o1..<o1 + k} \<subseteq> S"
  proof
    fix q assume "q \<in> {o1..<o1 + k}"
    then obtain b where "q = o1 + b" "b < k" by (auto simp: le_iff_add)
    then show "q \<in> S" using bits [of b] k x by (simp add: bit_mask_iff)
  qed
next
  assume sub: "{o1..<o1 + k} \<subseteq> S"
  show "x = mask k"
  proof (rule bit_word_eqI)
    fix b assume "b < LENGTH(32)"
    then have b: "b < 32" by simp
    have "o1 + b \<in> S \<longleftrightarrow> b < k"
    proof
      assume "o1 + b \<in> S"
      then have "o1 + b < r" using S by auto
      then show "b < k" using k b by auto
    qed (use sub in auto)
    then show "bit x b \<longleftrightarrow> bit (mask k :: u32) b" using bits [OF b] b by (simp add: bit_mask_iff)
  qed
qed

definition two_words :: "fld list" where
  "two_words = replicate 32 \<lparr>tag = 1, ftype = 0, data_offset = 0, size_offset = 0, data_size = 4, array_size = 0, ptr = None\<rparr> @
     [\<lparr>tag = 0, ftype = 0, data_offset = 0, size_offset = 0, data_size = 0, array_size = 0, ptr = None\<rparr>]"

text \<open>C17: the check for required fields at the end of \<open>pb_decode_noinit\<close>, for the marks that \<open>mark_seen\<close> leaves
  after the fields at \<open>ds\<close> have been decoded, in any order and any number of times. Let \<open>r\<close> be the number of required
  fields. When \<open>r\<close> is below 64 and not 32, the check accepts exactly when every required field has been found. When
  \<open>r\<close> is 32 or at least 64 the check is undefined (None) exactly when all of the first 64 required fields have been
  found: the C code then shifts by 32 bits (\<open>r\<close> a multiple of 32) or reads \<open>fields_seen\<close> past its end (\<open>r\<close> at least
  64), or both; otherwise it refuses the message.\<close>

theorem required_check:
  assumes d: "descriptor fs N" and N: "N < 2 ^ 32" and j: "valid_pos N j" and ds: "set ds \<subseteq> {..<N}"
  shows "required_seen (iter_at fs a j) (marks_after fs a ds) =
    (let r = required_before fs N;
         found = (\<forall>i<N. htype (fs ! i) = PB_HTYPE_REQUIRED \<and> required_before fs i < 64 \<longrightarrow> i \<in> set ds) in
     if r = 0 then Some True
     else if r < 64 \<and> r \<noteq> 32 then Some found
     else if found then None
     else Some False)"
proof -
  let ?r = "required_before fs N" and ?S = "required_in fs (set ds)" and ?seen = "marks_after fs a ds"
  obtain c where c: "required_seen (iter_at fs a j) ?seen = check_required ?seen c" "unat c = ?r"
    by (rule required_seen_eq [OF d N j, of a ?seen])
  have m: "(31 :: u32) = mask 5" by (simp add: mask_eq_exp_minus_1)
  have w: "unat (drop_bit 5 c) = ?r div 32" "unat (c AND 31) = ?r mod 32" "c = 0 \<longleftrightarrow> ?r = 0"
    unfolding m word_and_mask_take_bit c(2) [symmetric] by (simp_all add: unat_drop_bit_div unat_take_bit_mod unat_eq_zero)
  have ones: "drop_bit (32 - k) (- 1) = (mask k :: u32)" if "k < 32" for k
    by (rule bit_word_eqI) (use that in \<open>auto simp: bit_simps\<close>)
  have len: "length ?seen = 2" by (rule marks_after_bit(2) [OF d N ds, of 0]) simp
  then obtain x y where s: "?seen = [x, y]" by (auto simp: numeral_2_eq_2 length_Suc_conv)
  have bx: "bit x b \<longleftrightarrow> 0 + b \<in> ?S" and yb: "bit y b \<longleftrightarrow> 32 + b \<in> ?S" if "b < 32" for b
    using marks_after_bit(1) [OF d N ds, of b a] marks_after_bit(1) [OF d N ds, of "32 + b" a] that by (simp_all add: s)
  have full: "mask 32 = (- 1 :: u32)" by (rule bit_word_eqI) (simp add: bit_mask_iff)
  have eq: "required_seen (iter_at fs a j) ?seen = (if ?r = 0 then Some True
      else if \<not> list_all (\<lambda>w. w = mask 32) (take (?r div 32) [x, y]) then Some False
      else if 2 \<le> ?r div 32 \<or> ?r mod 32 = 0 then None
      else Some ([x, y] ! (?r div 32) = mask (?r mod 32)))"
    unfolding c(1) check_required_def w Let_def full using ones [of "?r mod 32"] by (simp add: s)
  have S: "?S \<subseteq> {..<?r}" by (rule required_in_bound [OF ds])
  have found: "(\<forall>i<N. htype (fs ! i) = PB_HTYPE_REQUIRED \<and> required_before fs i < 64 \<longrightarrow> i \<in> set ds) \<longleftrightarrow>
    {0..<min 64 ?r} \<subseteq> ?S" using required_in_all [OF ds, of fs 64] by (simp add: atLeast0LessThan)
  have x32: "x = mask 32 \<longleftrightarrow> {0..<32} \<subseteq> ?S" and y32: "y = mask 32 \<longleftrightarrow> {32..<64} \<subseteq> ?S"
    using word_marks [OF bx S, of 32] word_marks [OF yb S, of 32] by simp_all
  have split: "{0..<k} \<subseteq> ?S \<longleftrightarrow> {0..<32} \<subseteq> ?S \<and> {32..<k} \<subseteq> ?S" if "32 \<le> k" for k
    using ivl_disj_un_two(3) [of 0 32 k] that by auto
  consider "?r = 0" | "0 < ?r" "?r < 32" | "?r = 32" | "32 < ?r" "?r < 64" | "64 \<le> ?r" by linarith
  then show ?thesis
  proof cases
    case 2
    have "x = mask ?r \<longleftrightarrow> {0..<?r} \<subseteq> ?S" using word_marks [OF bx S, of ?r] 2 by simp
    with 2 found show ?thesis by (simp add: eq Let_def)
  next
    case 3
    with found x32 show ?thesis by (simp add: eq Let_def)
  next
    case 4
    then have "?r div 32 = 1" by (intro div_nat_eqI) simp_all
    moreover from this have "?r mod 32 = ?r - 32" using mult_div_mod_eq [of 32 ?r] by simp
    moreover have "y = mask (?r - 32) \<longleftrightarrow> {32..<?r} \<subseteq> ?S" using word_marks [OF yb S, of "?r - 32"] 4 by simp
    ultimately show ?thesis using 4 found x32 split [of ?r] by (simp add: eq Let_def)
  next
    case 5
    then have "2 \<le> ?r div 32" using div_le_mono [of 64 ?r 32] by simp
    moreover from this have "take (?r div 32) [x, y] = [x, y]" by simp
    ultimately show ?thesis using 5 found x32 y32 split [of 64] by (simp add: eq Let_def)
  qed (simp add: eq)
qed

lemma required_check_witness:
  "required_seen (iter_at (drop 2 two_words) 0 0) (marks_after (drop 2 two_words) 0 (rev [0..<30])) = Some True \<and>
   required_seen (iter_at (drop 2 two_words) 0 0) (marks_after (drop 2 two_words) 0 [0..<29]) = Some False \<and>
   required_seen (iter_at two_words 0 0) (marks_after two_words 0 [0..<32]) = None \<and>
   required_seen (iter_at two_words 0 0) (marks_after two_words 0 [0..<31]) = Some False"
proof -
  have d: "descriptor (drop 2 two_words) 30" "descriptor two_words 32"
    by (auto simp: descriptor_def two_words_def nth_append)
  have r: "required_before (drop 2 two_words) 30 = 30" "required_before two_words 32 = 32" by code_simp+
  have req: "htype (drop 2 two_words ! 29) = PB_HTYPE_REQUIRED" "required_before (drop 2 two_words) 29 < 64"
    "htype (two_words ! 31) = PB_HTYPE_REQUIRED" "required_before two_words 31 < 64" by code_simp+
  have miss: "\<not> (\<forall>i<30. htype (drop 2 two_words ! i) = PB_HTYPE_REQUIRED \<and> required_before (drop 2 two_words) i < 64 \<longrightarrow> i \<in> set [0..<29])"
    "\<not> (\<forall>i<32. htype (two_words ! i) = PB_HTYPE_REQUIRED \<and> required_before two_words i < 64 \<longrightarrow> i \<in> set [0..<31])"
    using req by (intro notI; elim allE [of _ 29] allE [of _ 31]; simp)+
  have j: "valid_pos 30 0" "valid_pos 32 0" by (simp_all add: valid_pos_def)
  have s: "set (rev [0..<30]) \<subseteq> {..<30 :: nat}" "set [0..<29] \<subseteq> {..<30 :: nat}" "set [0..<32] \<subseteq> {..<32 :: nat}" "set [0..<31] \<subseteq> {..<32 :: nat}"
    by auto
  have n: "(30 :: nat) < 2 ^ 32" "(32 :: nat) < 2 ^ 32" by simp_all
  show ?thesis
    unfolding required_check [OF d(1) n(1) j(1) s(1)] required_check [OF d(1) n(1) j(1) s(2)]
      required_check [OF d(2) n(2) j(2) s(3)] required_check [OF d(2) n(2) j(2) s(4)] r Let_def if_not_P [OF miss(1)] if_not_P [OF miss(2)]
    using miss by simp
qed

end
