(* ===== verification/Nanopb_Value.thy ===== *)
theory Nanopb_Value
  imports Nanopb_Encode_Spec Nanopb_Decode_Safe
begin

text \<open>
  What a message struct means: the values of its fields, read from memory. \<open>plain\<close> describes the descriptor
  arrays the round trip is stated for (no oneofs, fields that do not overlap, distinct tags), and
  \<open>initialised\<close> is what \<open>pb_message_set_to_defaults\<close> establishes. Both and the values depend on the
  bytes of the struct only.
\<close>

section \<open>Field values\<close>

datatype pb_value = Num u64 | Bytes "u8 list" | Msg "pb_value list list"

definition item_value :: "(mem \<Rightarrow> fld list \<Rightarrow> u64 \<Rightarrow> pb_value list list) \<Rightarrow> (u64 \<Rightarrow> fld list) \<Rightarrow> mem \<Rightarrow> fld \<Rightarrow> u64 \<Rightarrow> pb_value" where
  "item_value sub flds m f a =
     (if ltype f = PB_LTYPE_VARINT \<or> ltype f = PB_LTYPE_SVARINT then Num (the (signed_value m f a))
      else if ltype f = PB_LTYPE_UVARINT then Num (the (unsigned_value m f a))
      else if ltype f = PB_LTYPE_FIXED32 then Num (ucast (load_u32 m a))
      else if ltype f = PB_LTYPE_FIXED64 then Num (load_word m a)
      else if ltype f = PB_LTYPE_BYTES then
        Bytes (load_bytes m (a + 4) (min (unat (load_u32 m a)) (unat (data_size f) - 4)))
      else if ltype f = PB_LTYPE_STRING then Bytes (load_bytes m a (string_size m a (unat (data_size f))))
      else if ltype f = PB_LTYPE_SUBMESSAGE then Msg (sub m (flds (the (ptr f))) a)
      else Bytes (load_bytes m a (unat (data_size f))))"

text \<open>Field \<open>i\<close> of the struct at \<open>a\<close>: no value if it is absent, several if it is repeated.\<close>

definition field_value :: "(mem \<Rightarrow> fld list \<Rightarrow> u64 \<Rightarrow> pb_value list list) \<Rightarrow> (u64 \<Rightarrow> fld list) \<Rightarrow> mem \<Rightarrow> fld list \<Rightarrow> u64 \<Rightarrow> nat \<Rightarrow>
    pb_value list" where
  "field_value sub flds m fs a i =
     (let f = fs ! i; p = pData (iter_at fs a i); flag = pSize (iter_at fs a i) in
      if htype f = PB_HTYPE_REPEATED then
        map (\<lambda>j. item_value sub flds m f (p + word_of_nat j * ucast (data_size f)))
          [0..<min (unat (load_u32 m flag)) (unat (array_size f))]
      else if htype f = PB_HTYPE_OPTIONAL \<and> flag \<noteq> p \<and> m flag = 0 then []
      else [item_value sub flds m f p])"

fun message_value :: "nat \<Rightarrow> (u64 \<Rightarrow> fld list) \<Rightarrow> mem \<Rightarrow> fld list \<Rightarrow> u64 \<Rightarrow> pb_value list list" where
  "message_value 0 flds m fs a = []"
| "message_value (Suc d) flds m fs a =
     map (field_value (message_value d flds) flds m fs a) [0..<length fs - 1]"

section \<open>Plain descriptors\<close>

definition apart :: "nat \<times> nat \<Rightarrow> nat \<times> nat \<Rightarrow> bool" where
  "apart r q \<longleftrightarrow> fst r + snd r \<le> fst q \<or> fst q + snd q \<le> fst r"

definition data_range :: "fld list \<Rightarrow> nat \<Rightarrow> nat \<times> nat" where
  "data_range fs i = (field_offset fs i, field_length (fs ! i))"

definition flag_range :: "fld list \<Rightarrow> nat \<Rightarrow> nat \<times> nat" where
  "flag_range fs i = (flag_offset fs i, flag_length fs i)"

definition separate :: "fld list \<Rightarrow> nat \<Rightarrow> nat \<Rightarrow> bool" where
  "separate fs i j \<longleftrightarrow>
     (\<forall>r\<in>{data_range fs i, flag_range fs i}. \<forall>q\<in>{data_range fs j, flag_range fs j}. apart r q)"

definition plain_field :: "(u64 \<Rightarrow> bool) \<Rightarrow> fld \<Rightarrow> bool" where
  "plain_field sub f \<longleftrightarrow>
     unat (tag f) < 2 ^ 29 \<and> htype f \<noteq> PB_HTYPE_ONEOF \<and>
     (ltype f = PB_LTYPE_BYTES \<longrightarrow> 4 \<le> unat (data_size f)) \<and>
     (ltype f = PB_LTYPE_SUBMESSAGE \<longrightarrow> sub (the (ptr f))) \<and>
     (htype f = PB_HTYPE_OPTIONAL \<longrightarrow> size_offset f = 0 \<longrightarrow> ltype f \<noteq> PB_LTYPE_SUBMESSAGE \<and> ptr f = None)"

fun plain :: "nat \<Rightarrow> (u64 \<Rightarrow> fld list) \<Rightarrow> fld list \<Rightarrow> bool" where
  "plain 0 flds fs = False"
| "plain (Suc d) flds fs \<longleftrightarrow>
     distinct (map tag (butlast fs)) \<and> (\<forall>f\<in>set (butlast fs). plain_field (\<lambda>p. plain d flds (flds p)) f) \<and>
     (\<forall>i<length fs - 1. apart (data_range fs i) (flag_range fs i) \<and> (\<forall>j<i. separate fs i j))"

text \<open>No item is at address 0, and strings are terminated inside their fields.\<close>

definition item_proper :: "(mem \<Rightarrow> fld list \<Rightarrow> u64 \<Rightarrow> bool) \<Rightarrow> (u64 \<Rightarrow> fld list) \<Rightarrow> mem \<Rightarrow> fld \<Rightarrow> u64 \<Rightarrow> bool" where
  "item_proper sub flds m f a \<longleftrightarrow>
     a \<noteq> 0 \<and> (ltype f = PB_LTYPE_STRING \<longrightarrow> string_size m a (unat (data_size f)) < unat (data_size f)) \<and>
     (ltype f = PB_LTYPE_SUBMESSAGE \<longrightarrow> sub m (flds (the (ptr f))) a)"

definition field_proper :: "(mem \<Rightarrow> fld list \<Rightarrow> u64 \<Rightarrow> bool) \<Rightarrow> (u64 \<Rightarrow> fld list) \<Rightarrow> mem \<Rightarrow> fld list \<Rightarrow> u64 \<Rightarrow> nat \<Rightarrow> bool" where
  "field_proper sub flds m fs a i \<longleftrightarrow>
     (let f = fs ! i; p = pData (iter_at fs a i); flag = pSize (iter_at fs a i) in
      if htype f = PB_HTYPE_REPEATED then
        (\<forall>j<unat (load_u32 m flag). item_proper sub flds m f (p + word_of_nat j * ucast (data_size f)))
      else htype f = PB_HTYPE_OPTIONAL \<and> flag \<noteq> p \<and> m flag = 0 \<or> item_proper sub flds m f p)"

fun proper :: "nat \<Rightarrow> (u64 \<Rightarrow> fld list) \<Rightarrow> mem \<Rightarrow> fld list \<Rightarrow> u64 \<Rightarrow> bool" where
  "proper 0 flds m fs a = False"
| "proper (Suc d) flds m fs a \<longleftrightarrow>
     (\<forall>i<length fs - 1. field_proper (proper d flds) flds m fs a i)"

section \<open>Initialised structs\<close>

definition field_initial :: "(mem \<Rightarrow> fld list \<Rightarrow> u64 \<Rightarrow> bool) \<Rightarrow> (u64 \<Rightarrow> fld list) \<Rightarrow> mem \<Rightarrow> fld list \<Rightarrow> u64 \<Rightarrow> nat \<Rightarrow> bool" where
  "field_initial sub flds m fs a i \<longleftrightarrow>
     (let f = fs ! i; p = pData (iter_at fs a i); flag = pSize (iter_at fs a i) in
      if htype f = PB_HTYPE_REPEATED then load_u32 m flag = 0
      else (htype f = PB_HTYPE_OPTIONAL \<and> flag \<noteq> p \<longrightarrow> m flag = 0) \<and>
        (if ltype f = PB_LTYPE_SUBMESSAGE then sub m (flds (the (ptr f))) p
         else ptr f = None \<longrightarrow> load_bytes m p (unat (data_size f)) = replicate (unat (data_size f)) 0))"

fun initialised :: "nat \<Rightarrow> (u64 \<Rightarrow> fld list) \<Rightarrow> mem \<Rightarrow> fld list \<Rightarrow> u64 \<Rightarrow> bool" where
  "initialised 0 flds m fs a = True"
| "initialised (Suc d) flds m fs a \<longleftrightarrow> (\<forall>i<length fs - 1. field_initial (initialised d flds) flds m fs a i)"

section \<open>Regions\<close>

definition region :: "fld list \<Rightarrow> u64 \<Rightarrow> nat \<Rightarrow> u64 set" where
  "region fs a i = span (pData (iter_at fs a i)) (field_length (fs ! i)) \<union> span (pSize (iter_at fs a i)) (flag_length fs i)"

lemma region_in_struct: "field_ok sub fs n i \<Longrightarrow> n < 2 ^ 63 \<Longrightarrow> region fs a i \<subseteq> span a n"
  unfolding region_def using field_spans by blast

lemma span_apart:
  assumes "apart (o1, k1) (o2, k2)" and "o1 + k1 < 2 ^ 64" and "o2 + k2 < 2 ^ 64"
  shows "span (a + word_of_nat o1) k1 \<inter> span (a + word_of_nat o2) k2 = {}"
proof (rule ccontr)
  assume "span (a + word_of_nat o1) k1 \<inter> span (a + word_of_nat o2) k2 \<noteq> {}"
  then obtain x where x: "x \<in> span (a + word_of_nat o1) k1" "x \<in> span (a + word_of_nat o2) k2" by blast
  have "k1 \<le> 2 ^ 64" "k2 \<le> 2 ^ 64" using assms by simp_all
  from x(1) [unfolded in_span_iff [OF this(1)]] x(2) [unfolded in_span_iff [OF this(2)]]
  obtain i j where "i < k1" "x = a + word_of_nat o1 + word_of_nat i" "j < k2" "x = a + word_of_nat o2 + word_of_nat j"
    by blast
  then have "a + (word_of_nat o1 + word_of_nat i) = a + (word_of_nat o2 + word_of_nat j)" by (simp only: add.assoc)
  then have eq: "(word_of_nat (o1 + i) :: u64) = word_of_nat (o2 + j)"
    unfolding add_left_cancel by (simp only: of_nat_add)
  have un: "unat (word_of_nat l :: u64) = l" if "l < 2 ^ 64" for l using that by (simp add: unat_of_nat)
  have "o1 + i < 2 ^ 64" "o2 + j < 2 ^ 64" using \<open>i < k1\<close> \<open>j < k2\<close> assms by simp_all
  then have "o1 + i = o2 + j" using un [of "o1 + i"] un [of "o2 + j"] unfolding eq by simp
  with \<open>i < k1\<close> \<open>j < k2\<close> assms(1) show False by (auto simp: apart_def)
qed

lemma field_ends:
  assumes "layout_ok (Suc d) flds fs n" and "i < length fs - 1"
  shows "field_offset fs i + field_length (fs ! i) < 2 ^ 64" "flag_offset fs i + flag_length fs i < 2 ^ 64"
  using assms by (auto simp: field_ok_def)

text \<open>A field's region meets no other, and its flag or count is not inside its data.\<close>

lemma region_disjoint:
  assumes "layout_ok (Suc d) flds fs n" and "plain (Suc d) flds fs" and "i < length fs - 1" and "j < i"
  shows "region fs a j \<inter> region fs a i = {}"
proof -
  have sep: "separate fs i j" using assms(2-4) by simp
  have j: "j < length fs - 1" using assms(3,4) by simp
  note ends = field_ends [OF assms(1,3)] field_ends [OF assms(1) j]
  have "span (a + word_of_nat (fst r)) (snd r) \<inter> span (a + word_of_nat (fst q)) (snd q) = {}"
    if "r \<in> {data_range fs i, flag_range fs i}" "q \<in> {data_range fs j, flag_range fs j}" for r q
    by (rule span_apart) (use that sep ends in \<open>auto simp: separate_def data_range_def flag_range_def\<close>)
  then show ?thesis unfolding region_def pData_at pSize_at
    by (fastforce simp: data_range_def flag_range_def)
qed

lemma flag_outside:
  assumes "layout_ok (Suc d) flds fs n" and "plain (Suc d) flds fs" and "i < length fs - 1"
  shows "span (pData (iter_at fs a i)) (field_length (fs ! i)) \<inter> span (pSize (iter_at fs a i)) (flag_length fs i) = {}"
  unfolding pData_at pSize_at
  by (rule span_apart) (use assms field_ends [OF assms(1,3)] in \<open>auto simp: data_range_def flag_range_def\<close>)

text \<open>Without oneofs the iterator's flag address is the encoder's.\<close>

lemma pSize_flag_addr:
  assumes "descriptor fs n" and "\<And>j. j < n \<Longrightarrow> htype (fs ! j) \<noteq> PB_HTYPE_ONEOF" and "i < n"
  shows "pSize (iter_at fs a i) = flag_addr (fs ! i) (pData (iter_at fs a i))"
proof (cases i)
  case 0
  then show ?thesis by (simp add: pb_field_iter_begin_def flag_addr_def Let_def)
next
  case (Suc k)
  then have k: "Suc k < n" "tag (fs ! k) \<noteq> 0" "tag (fs ! Suc k) \<noteq> 0" "htype (fs ! k) \<noteq> PB_HTYPE_ONEOF"
    "pos (iter_at fs a k) = k"
    using assms pos_iter_at [OF assms(1), of k a] by (auto simp: descriptor_def)
  then show ?thesis using Suc by (simp add: pb_field_iter_next_def cur_def Let_def flag_addr_def)
qed

section \<open>Values depend on the struct only\<close>

definition agree :: "u64 set \<Rightarrow> mem \<Rightarrow> mem \<Rightarrow> bool" where
  "agree A m m' \<longleftrightarrow> (\<forall>x\<in>A. m x = m' x)"

lemma agree_mono: "agree A m m' \<Longrightarrow> B \<subseteq> A \<Longrightarrow> agree B m m'"
  by (auto simp: agree_def)

lemma keeps_agree: "keeps A m m' \<Longrightarrow> A \<inter> B = {} \<Longrightarrow> agree B m m'"
  by (auto simp: agree_def keeps_def)

lemma agree_bytes: "agree (span a n) m m' \<Longrightarrow> n \<le> 2 ^ 64 \<Longrightarrow> load_bytes m a n = load_bytes m' a n"
  by (rule load_bytes_cong) (auto simp: agree_def)

lemma agree_word:
  "agree (span a (LENGTH('a) div 8)) m m' \<Longrightarrow> LENGTH('a) \<le> 2 ^ 64 \<Longrightarrow> (load_word m a :: 'a::len word) = load_word m' a"
  by (rule load_word_cong) (auto simp: agree_def)

lemma span_offset: "i + k \<le> n \<Longrightarrow> i < 2 ^ 64 \<Longrightarrow> span (a + word_of_nat i) k \<subseteq> span a n"
  by (rule span_sub) (simp add: unat_of_nat)

lemma string_size_le: "string_size m a n \<le> n"
  by (induction n arbitrary: a) auto

lemma agree_string: "agree (span a n) m m' \<Longrightarrow> n < 2 ^ 64 \<Longrightarrow> string_size m a n = string_size m' a n"
proof (induction n arbitrary: a)
  case (Suc n)
  have "span (a + 1) n \<subseteq> span a (Suc n)" using span_offset [of 1 n "Suc n" a] by simp
  then have "string_size m (a + 1) n = string_size m' (a + 1) n" using Suc agree_mono by simp
  moreover have "m a = m' a" using Suc.prems by (simp add: agree_def span_def)
  ultimately show ?case by simp
qed simp

lemma agree_integers:
  assumes "agree (span a (unat (data_size f))) m m'"
  shows "signed_value m f a = signed_value m' f a" and "unsigned_value m f a = unsigned_value m' f a"
  using assms agree_word [where 'a = 8, of a m m'] agree_word [where 'a = 16, of a m m'] agree_word [where 'a = 32, of a m m']
    agree_word [where 'a = 64, of a m m']
  by (auto simp: signed_value_def unsigned_value_def)

lemma data_size_bound: "unat (data_size f) < 2 ^ 32"
  using unat_less_two_power [of "data_size f"] by simp

lemma item_value_cong:
  assumes f: "item_ok (\<lambda>p k. sub_ok (flds p) k) f" "ltype f = PB_LTYPE_BYTES \<longrightarrow> 4 \<le> unat (data_size f)"
    and ag: "agree (span a (unat (data_size f))) m m'"
    and sub: "\<And>p. ptr f = Some p \<Longrightarrow> ltype f = PB_LTYPE_SUBMESSAGE \<Longrightarrow> sub_ok (flds p) (unat (data_size f)) \<Longrightarrow>
      sub m (flds p) a = sub m' (flds p) a"
  shows "item_value sub flds m f a = item_value sub flds m' f a"
proof -
  note n = data_size_bound [of f]
  have part: "load_bytes m (a + word_of_nat i) k = load_bytes m' (a + word_of_nat i) k" if "i + k \<le> unat (data_size f)" for i k
    by (rule agree_bytes [OF agree_mono [OF ag span_offset [OF that]]]) (use n that in simp_all)
  have w: "load_u32 m a = load_u32 m' a" if "4 \<le> unat (data_size f)"
    using that span_mono [of 4 "unat (data_size f)" a] by (intro agree_word agree_mono [OF ag]) simp_all
  have str: "load_bytes m a (string_size m a (unat (data_size f))) = load_bytes m' a (string_size m' a (unat (data_size f)))"
    using agree_string [OF ag] part [of 0] string_size_le n by simp
  have bytes: "load_bytes m (a + 4) (min c (unat (data_size f) - 4)) = load_bytes m' (a + 4) (min c (unat (data_size f) - 4))"
    if "4 \<le> unat (data_size f)" for c
    using part [of 4 "min c (unat (data_size f) - 4)"] that by simp
  have fixed: "load_bytes m a (unat (data_size f)) = load_bytes m' a (unat (data_size f))" using part [of 0] by simp
  have ints: "load_u32 m a = load_u32 m' a" if "data_size f = 4" using w that by simp
  have longs: "(load_word m a :: u64) = load_word m' a" if "data_size f = 8"
    using that ag by (intro agree_word) simp_all
  show ?thesis
    using f agree_integers [OF ag] str bytes fixed w ints longs sub
    unfolding item_value_def item_ok_def by (auto split: option.splits if_splits)
qed

text \<open>The entries of a repeated field.\<close>

lemma entry_address: "word_of_nat j * ucast (data_size f) = (word_of_nat (j * unat (data_size f)) :: u64)"
  by (simp add: word_unat_eq_iff unat_of_nat unat_word_ariths mod_mult_left_eq)

lemma entry_within:
  assumes "htype f = PB_HTYPE_REPEATED" and "field_length f < 2 ^ 32" and "j < unat (array_size f)"
  shows "span (p + word_of_nat j * ucast (data_size f)) (unat (data_size f)) \<subseteq> span p (field_length f)"
proof -
  have "(j + 1) * unat (data_size f) \<le> unat (array_size f) * unat (data_size f)"
    using assms(3) by (intro mult_right_mono) simp_all
  then have "j * unat (data_size f) + unat (data_size f) \<le> field_length f"
    using assms(1) by (simp add: field_length_def mult.commute)
  then show ?thesis unfolding entry_address by (rule span_offset) (use assms(2) \<open>_ \<le> field_length f\<close> in simp)
qed

lemma entries_disjoint:
  assumes "htype f = PB_HTYPE_REPEATED" and "field_length f < 2 ^ 32" and "j < k" and "k < unat (array_size f)"
  shows "span (p + word_of_nat j * ucast (data_size f)) (unat (data_size f)) \<inter>
    span (p + word_of_nat k * ucast (data_size f)) (unat (data_size f)) = {}"
proof -
  have "(j + 1) * unat (data_size f) \<le> k * unat (data_size f)" using assms(3) by (intro mult_right_mono) simp_all
  moreover have "(k + 1) * unat (data_size f) \<le> unat (array_size f) * unat (data_size f)"
    using assms(4) by (intro mult_right_mono) simp_all
  then have "k * unat (data_size f) + unat (data_size f) \<le> field_length f"
    using assms(1) by (simp add: field_length_def mult.commute)
  ultimately show ?thesis
    unfolding entry_address using assms(2) by (intro span_apart) (simp_all add: apart_def)
qed

lemma plain_fieldD:
  assumes "plain (Suc d) flds fs" and "i < length fs - 1"
  shows "plain_field (\<lambda>p. plain d flds (flds p)) (fs ! i)"
proof -
  have "fs ! i \<in> set (butlast fs)" using assms(2) nth_mem [of i "butlast fs"] by (simp add: nth_butlast)
  with assms(1) show ?thesis by simp
qed

lemma layout_fieldD:
  "layout_ok (Suc d) flds fs n \<Longrightarrow> i < length fs - 1 \<Longrightarrow> field_ok (\<lambda>p. layout_ok d flds (flds p)) fs n i"
  by simp

lemma region_parts:
  "htype (fs ! i) \<noteq> PB_HTYPE_REPEATED \<Longrightarrow> span (pData (iter_at fs a i)) (unat (data_size (fs ! i))) \<subseteq> region fs a i"
  "htype (fs ! i) = PB_HTYPE_REPEATED \<Longrightarrow> span (pData (iter_at fs a i)) (field_length (fs ! i)) \<subseteq> region fs a i"
  "htype (fs ! i) = PB_HTYPE_REPEATED \<Longrightarrow> span (pSize (iter_at fs a i)) 4 \<subseteq> region fs a i"
  "htype (fs ! i) = PB_HTYPE_OPTIONAL \<Longrightarrow> pSize (iter_at fs a i) \<noteq> pData (iter_at fs a i) \<Longrightarrow> pSize (iter_at fs a i) \<in> region fs a i"
  by (auto simp: region_def field_length_def flag_length_def pSize_neq_pData span_def simp del: iter_at.simps)

lemma field_value_cong:
  assumes l: "layout_ok (Suc d) flds fs n" and p: "plain (Suc d) flds fs" and i: "i < length fs - 1"
    and ag: "agree (region fs a i) m m'"
    and sub: "\<And>fs n a. layout_ok d flds fs n \<Longrightarrow> plain d flds fs \<Longrightarrow> agree (span a n) m m' \<Longrightarrow> sub m fs a = sub m' fs a"
  shows "field_value sub flds m fs a i = field_value sub flds m' fs a i"
proof -
  let ?f = "fs ! i" and ?p = "pData (iter_at fs a i)" and ?flag = "pSize (iter_at fs a i)"
  note f = layout_fieldD [OF l i] and pf = plain_fieldD [OF p i]
  have item: "item_value sub flds m ?f b = item_value sub flds m' ?f b"
    if "span b (unat (data_size ?f)) \<subseteq> region fs a i" for b
  proof (rule item_value_cong [where sub_ok = "layout_ok d flds"])
    show ag': "agree (span b (unat (data_size ?f))) m m'" by (rule agree_mono [OF ag that])
    show "sub m (flds q) b = sub m' (flds q) b"
      if "ptr ?f = Some q" "ltype ?f = PB_LTYPE_SUBMESSAGE" "layout_ok d flds (flds q) (unat (data_size ?f))" for q
      by (rule sub [OF that(3) _ ag']) (use that pf in \<open>simp add: plain_field_def\<close>)
  qed (use f pf in \<open>simp_all add: field_ok_def plain_field_def\<close>)
  show ?thesis
  proof (cases "htype ?f = PB_HTYPE_REPEATED")
    case True
    have "load_u32 m ?flag = load_u32 m' ?flag"
      by (rule agree_word) (use agree_mono [OF ag region_parts(3) [OF True]] in simp_all)
    moreover have "item_value sub flds m ?f (?p + word_of_nat j * ucast (data_size ?f)) =
        item_value sub flds m' ?f (?p + word_of_nat j * ucast (data_size ?f))" if "j < unat (array_size ?f)" for j
      using entry_within [OF True _ that] region_parts(2) [OF True] f by (intro item) (auto simp: field_ok_def)
    ultimately show ?thesis using True by (simp add: field_value_def Let_def)
  next
    case False
    have "m ?flag = m' ?flag" if "htype ?f = PB_HTYPE_OPTIONAL" "?flag \<noteq> ?p"
      using ag region_parts(4) [OF that] by (simp add: agree_def)
    with item [OF region_parts(1) [OF False]] False show ?thesis
      by (auto simp: field_value_def Let_def simp del: iter_at.simps)
  qed
qed

lemma message_value_cong:
  "layout_ok d flds fs n \<Longrightarrow> plain d flds fs \<Longrightarrow> agree (span a n) m m' \<Longrightarrow>
    message_value d flds m fs a = message_value d flds m' fs a"
proof (induction d arbitrary: fs n a)
  case (Suc d)
  have "field_value (message_value d flds) flds m fs a i = field_value (message_value d flds) flds m' fs a i"
    if i: "i < length fs - 1" for i
  proof (rule field_value_cong [OF Suc.prems(1,2) i _ Suc.IH])
    show "agree (region fs a i) m m'"
      by (rule agree_mono [OF Suc.prems(3) region_in_struct [OF layout_fieldD [OF Suc.prems(1) i]]]) (use Suc.prems(1) in simp)
  qed
  then show ?case by simp
qed simp

lemma field_initial_cong:
  assumes l: "layout_ok (Suc d) flds fs n" and i: "i < length fs - 1" and ag: "agree (region fs a i) m m'"
    and sub: "\<And>fs n a. layout_ok d flds fs n \<Longrightarrow> agree (span a n) m m' \<Longrightarrow> sub m fs a \<Longrightarrow> sub m' fs a"
    and init: "field_initial sub flds m fs a i"
  shows "field_initial sub flds m' fs a i"
proof -
  let ?f = "fs ! i" and ?p = "pData (iter_at fs a i)" and ?flag = "pSize (iter_at fs a i)"
  note f = layout_fieldD [OF l i]
  show ?thesis
  proof (cases "htype ?f = PB_HTYPE_REPEATED")
    case True
    have "load_u32 m ?flag = load_u32 m' ?flag"
      by (rule agree_word) (use agree_mono [OF ag region_parts(3) [OF True]] in simp_all)
    with True init show ?thesis by (simp add: field_initial_def Let_def)
  next
    case False
    note ag' = agree_mono [OF ag region_parts(1) [OF False]]
    have flag: "m ?flag = m' ?flag" if "htype ?f = PB_HTYPE_OPTIONAL" "?flag \<noteq> ?p"
      using ag region_parts(4) [OF that] by (simp add: agree_def)
    show ?thesis
    proof (cases "ltype ?f = PB_LTYPE_SUBMESSAGE")
      case True
      then obtain q where "ptr ?f = Some q" "layout_ok d flds (flds q) (unat (data_size ?f))"
        using f by (auto simp: field_ok_def item_ok_def split: option.splits)
      with sub [OF _ ag'] True False init flag show ?thesis by (auto simp: field_initial_def Let_def simp del: iter_at.simps)
    next
      case ltype: False
      have "load_bytes m ?p (unat (data_size ?f)) = load_bytes m' ?p (unat (data_size ?f))"
        using agree_bytes [OF ag'] data_size_bound [of ?f] by simp
      with ltype False init flag show ?thesis by (auto simp: field_initial_def Let_def simp del: iter_at.simps)
    qed
  qed
qed

lemma initialised_cong:
  "layout_ok d flds fs n \<Longrightarrow> agree (span a n) m m' \<Longrightarrow> initialised d flds m fs a \<Longrightarrow> initialised d flds m' fs a"
proof (induction d arbitrary: fs n a)
  case (Suc d)
  have "field_initial (initialised d flds) flds m' fs a i" if i: "i < length fs - 1" for i
  proof (rule field_initial_cong [where sub = "initialised d flds" and d = d, OF Suc.prems(1) i _ Suc.IH])
    show "agree (region fs a i) m m'"
      by (rule agree_mono [OF Suc.prems(2) region_in_struct [OF layout_fieldD [OF Suc.prems(1) i]]]) (use Suc.prems(1) in simp)
    show "field_initial (initialised d flds) flds m fs a i" using Suc.prems(3) i by simp
  qed
  then show ?case by simp
qed simp

section \<open>Defaults initialise\<close>

definition defaults_initialise :: "nat \<Rightarrow> (u64 \<Rightarrow> fld list) \<Rightarrow> bool" where
  "defaults_initialise d flds \<longleftrightarrow>
     (\<forall>fs n a m. layout_ok d flds fs n \<longrightarrow> plain d flds fs \<longrightarrow>
        (\<exists>m'. pb_message_set_to_defaults d flds fs a m = Some m' \<and> keeps (span a n) m m' \<and> initialised d flds m' fs a))"

lemma span_1: "span a (Suc 0) = {a}"
  by (auto simp: span_def unat_eq_zero)

lemma store_byte_same [simp]: "store_bytes a [b] m a = b"
  by (simp add: store_bytes_def)

lemma load_store_word:
  assumes "LENGTH('a) = 8 * k" and "k \<le> 2 ^ 64"
  shows "load_word (store_word a (v :: 'a::len word) m) a = v"
proof -
  have k: "LENGTH('a) div 8 = k" using assms(1) by simp
  have "load_bytes (store_bytes a (le_bytes k (unat v)) m) a k = le_bytes k (unat v)"
    using load_store_same [of "le_bytes k (unat v)" a m] assms(2) by simp
  moreover have "unat v < 256 ^ k"
    using unat_less_two_power [of v] power_mult [of "2 :: nat" 8 k] by (simp add: assms(1))
  ultimately show ?thesis unfolding load_word_def store_word_def k by simp
qed

lemma region_finite_bound: "layout_ok (Suc d) flds fs n \<Longrightarrow> n < 2 ^ 63"
  by simp

lemma field_default_initial:
  assumes l: "layout_ok (Suc d) flds fs n" and p: "plain (Suc d) flds fs" and i: "i < length fs - 1"
    and sub: "defaults_initialise d flds"
  shows "\<exists>m'. pb_field_set_to_default (Suc d) flds (iter_at fs a i) m = Some m' \<and> keeps (region fs a i) m m' \<and>
    field_initial (initialised d flds) flds m' fs a i"
proof -
  let ?f = "fs ! i" and ?it = "iter_at fs a i"
  let ?p = "pData ?it" and ?flag = "pSize ?it" and ?n = "unat (data_size (fs ! i))"
  note f = layout_fieldD [OF l i] and pf = plain_fieldD [OF p i]
  have c: "cur ?it = ?f" by (rule cur_iter_at [OF layout_descriptor [OF l] i])
  note ty = field_types [OF f]
  have h: "htype ?f \<noteq> PB_HTYPE_ONEOF" using pf by (simp add: plain_field_def)
  show ?thesis
  proof (cases "htype ?f = PB_HTYPE_REPEATED")
    case True
    have "keeps (region fs a i) m (store_word ?flag (0 :: u32) m)"
      using region_parts(3) [OF True] by (intro keeps_store_word) simp
    moreover have "load_u32 (store_word ?flag (0 :: u32) m) ?flag = 0" by (rule load_store_word [of 4]) simp_all
    ultimately show ?thesis using True ty c by (simp add: field_initial_def Let_def del: iter_at.simps)
  next
    case rep: False
    let ?m1 = "if htype ?f = PB_HTYPE_OPTIONAL \<and> ?flag \<noteq> ?p then store_bytes ?flag [0] m else m"
    have k1: "keeps (region fs a i) m ?m1"
      using region_parts(4) [of fs i a] by (auto intro!: keeps_store simp: span_1 simp del: iter_at.simps)
    have step: "\<exists>m'. (if ltype ?f = PB_LTYPE_SUBMESSAGE then
           (case ptr ?f of None \<Rightarrow> None | Some q \<Rightarrow> pb_message_set_to_defaults d flds (flds q) ?p ?m1)
         else (case ptr ?f of
             Some q \<Rightarrow> Some (store_bytes ?p (load_bytes ?m1 q ?n) ?m1)
           | None \<Rightarrow> Some (store_bytes ?p (replicate ?n 0) ?m1))) = Some m' \<and> keeps (span ?p ?n) ?m1 m' \<and>
        (if ltype ?f = PB_LTYPE_SUBMESSAGE then initialised d flds m' (flds (the (ptr ?f))) ?p
         else ptr ?f = None \<longrightarrow> load_bytes m' ?p ?n = replicate ?n 0)"
    proof (cases "ltype ?f = PB_LTYPE_SUBMESSAGE")
      case True
      then obtain q where q: "ptr ?f = Some q" "layout_ok d flds (flds q) ?n" "plain d flds (flds q)"
        using f pf by (auto simp: field_ok_def item_ok_def plain_field_def split: option.splits)
      then show ?thesis using True sub unfolding defaults_initialise_def by simp
    next
      case False
      have "load_bytes (store_bytes ?p (replicate ?n 0) ?m1) ?p ?n = replicate ?n 0"
        using load_store_same [of "replicate ?n 0" ?p ?m1] data_size_bound [of ?f] by simp
      with False show ?thesis by (auto split: option.splits intro!: keeps_store)
    qed
    then obtain m' where m': "pb_field_set_to_default (Suc d) flds ?it m = Some m'" "keeps (span ?p ?n) ?m1 m'"
      "if ltype ?f = PB_LTYPE_SUBMESSAGE then initialised d flds m' (flds (the (ptr ?f))) ?p
         else ptr ?f = None \<longrightarrow> load_bytes m' ?p ?n = replicate ?n 0"
      using rep h ty c
      by (auto simp: Let_def pb_message_set_to_defaults_def simp del: iter_at.simps split: if_splits option.splits)
    have "m' ?flag = 0" if "htype ?f = PB_HTYPE_OPTIONAL" "?flag \<noteq> ?p"
    proof -
      have "?flag \<notin> span ?p ?n"
        using flag_outside [OF l p i, of a] that rep
        by (auto simp: field_length_def flag_length_def pSize_neq_pData span_def simp del: iter_at.simps)
      then have "m' ?flag = ?m1 ?flag" using m'(2) by (simp add: keeps_def del: iter_at.simps)
      then show ?thesis using that by simp
    qed
    with m' rep have "field_initial (initialised d flds) flds m' fs a i"
      by (simp add: field_initial_def Let_def del: iter_at.simps)
    moreover have "keeps (region fs a i) m m'"
      by (rule keeps_trans [OF k1 keeps_mono [OF m'(2) region_parts(1) [OF rep]]])
    ultimately show ?thesis using m'(1) by blast
  qed
qed

lemma defaults_do_initialise: "defaults_initialise d flds"
proof (induction d)
  case 0
  show ?case by (simp add: defaults_initialise_def)
next
  case (Suc d)
  show ?case unfolding defaults_initialise_def
  proof (intro allI impI)
    fix fs n a m
    assume l: "layout_ok (Suc d) flds fs n" and p: "plain (Suc d) flds fs"
    let ?N = "length fs - 1" and ?init = "\<lambda>m i. field_initial (initialised d flds) flds m fs a i"
    let ?P = "\<lambda>j m'. keeps (span a n) m m' \<and> (\<forall>i<j. ?init m' i)"
    show "\<exists>m'. pb_message_set_to_defaults (Suc d) flds fs a m = Some m' \<and> keeps (span a n) m m' \<and>
        initialised (Suc d) flds m' fs a"
    proof (cases "?N = 0")
      case True
      then have "tag (fs ! 0) = 0" using layout_descriptor [OF l] by (simp add: descriptor_def)
      then show ?thesis using True
        by (simp add: pb_message_set_to_defaults_def iter_begin_at del: iter_at.simps pb_field_set_to_default.simps)
    next
      case False
      have "\<exists>m'. set_defaults_loop (pb_field_set_to_default (Suc d) flds) (iter_at fs a 0) m = Some m' \<and> ?P ?N m'"
      proof (rule set_defaults_loop_rule [where P = ?P, OF layout_descriptor [OF l]])
        fix j m1 assume j: "j < ?N" and m1: "?P j m1"
        obtain m2 where m2: "pb_field_set_to_default (Suc d) flds (iter_at fs a j) m1 = Some m2" "keeps (region fs a j) m1 m2"
          "?init m2 j" using field_default_initial [OF l p j Suc.IH] by blast
        have "?init m2 i" if i: "i < j" for i
        proof (rule field_initial_cong [where sub = "initialised d flds" and d = d, OF l _ _ initialised_cong])
          show "agree (region fs a i) m1 m2"
            by (rule keeps_agree [OF m2(2)]) (use region_disjoint [OF l p j i] in blast)
        qed (use m1 i j in auto)
        then have "\<forall>i<Suc j. ?init m2 i" using m2(3) by (simp add: less_Suc_eq)
        moreover have "keeps (span a n) m m2"
          using keeps_trans m1 keeps_mono [OF m2(2) region_in_struct [OF layout_fieldD [OF l j] region_finite_bound [OF l]]] by blast
        ultimately show "\<exists>m2. pb_field_set_to_default (Suc d) flds (iter_at fs a j) m1 = Some m2 \<and> ?P (Suc j) m2"
          using m2(1) by blast
      qed (use False in simp_all)
      then show ?thesis using layout_empty [OF l] False
        by (simp add: pb_message_set_to_defaults_def iter_begin_at del: iter_at.simps pb_field_set_to_default.simps)
    qed
  qed
qed

end
