(* ===== verification/Nanopb_Roundtrip.thy ===== *)
theory Nanopb_Roundtrip
  imports Nanopb_Wire
begin

text \<open>
  The correctness of the nanopb wire format on buffer streams: every encoder is inverted by its
  decoder whatever follows in the buffer, the decoders' results on arbitrary bytes, and the
  agreement of the skipping functions with the decoding ones.
\<close>

section \<open>What an encoder leaves in a fresh buffer\<close>

lemma pb_write_fresh:
  assumes "pb_write (pb_ostream_from_buffer n) buf (word_of_nat (length buf)) = (True, os)"
    and "length buf < 2 ^ 64"
  shows "out_state os = buf" and "unat (bytes_written os) = length buf" and "length buf \<le> unat n"
proof -
  have f: "fits (pb_ostream_from_buffer n) buf"
    using assms(2) by (simp add: fits_def pb_ostream_from_buffer_def)
  note w = pb_write_sink [OF sink_ok_from_buffer [of n] f]
  from assms(1) show "out_state os = buf"
    unfolding w by (auto simp: pb_ostream_from_buffer_def split: if_splits)
  from assms show "unat (bytes_written os) = length buf"
    unfolding w by (auto simp: pb_ostream_from_buffer_def unat_of_nat split: if_splits)
  from assms(1) show "length buf \<le> unat n"
    unfolding w by (auto simp: pb_ostream_from_buffer_def split: if_splits)
qed

lemma encode_varint_fresh:
  assumes "pb_encode_varint (pb_ostream_from_buffer n) v = (True, os)"
  shows "out_state os = varint_bytes v"
  using pb_write_fresh(1) [OF assms [unfolded pb_encode_varint_def]] length_varint_bytes(2) [of v]
  by simp

lemma buffer_source:
  "source_ok buf_read (\<lambda>bs. bs) (pb_istream_from_buffer (e @ rest) (length e + length rest))"
  "visible (\<lambda>bs. bs) (pb_istream_from_buffer (e @ rest) (length e + length rest)) = e @ rest"
  by (simp_all add: source_ok_buffer visible_buffer)

lemma buffer_advanced:
  "advanced (\<lambda>bs. bs) (length e) (pb_istream_from_buffer (e @ rest) (length e + length rest)) s' \<longleftrightarrow>
     s' = pb_istream_from_buffer rest (length rest)"
  by (simp add: advanced_buffer)

lemmas decode_varint_buffer = buf.decode_varint_value [OF buffer_source]
lemmas decode_varint32_buffer = buf.decode_varint32_value [OF buffer_source]

section \<open>Varints\<close>

text \<open>C4: what \<open>pb_encode_varint\<close> writes into a buffer, \<open>pb_decode_varint\<close> reads back as the
  same 64-bit value, leaving the stream at the first byte after it, whatever follows.\<close>
theorem varint_roundtrip:
  assumes "pb_encode_varint (pb_ostream_from_buffer n) v = (True, os)"
  shows "pb_decode_varint (pb_istream_from_buffer (out_state os @ rest) (length (out_state os) + length rest))
    = (Some v, pb_istream_from_buffer rest (length rest))"
  using decode_varint_buffer [OF is_varint_varint_bytes length_varint_bytes(2), of v rest]
  by (auto simp: encode_varint_fresh [OF assms] varint_val_varint_bytes buffer_advanced)

lemma varint_roundtrip_witness:
  "pb_decode_varint (pb_istream_from_buffer [0xAC, 0x02, 0x07] 3) = (Some 300, pb_istream_from_buffer [0x07] 1)"
proof -
  have "pb_encode_varint (pb_ostream_from_buffer 4) 300 =
    (True, \<lparr>out_callback = Some buf_write, out_state = [0xAC, 0x02], max_size = 4,
            bytes_written = 2, out_errmsg = None\<rparr>)"
    by (simp add: pb_encode_varint_def varint_bytes_def varint_buffer.simps Let_def pb_write_def
      pb_ostream_from_buffer_def buf_write_def)
  from varint_roundtrip [OF this, of "[0x07]"] show ?thesis by (simp add: eval_nat_numeral)
qed

text \<open>C14: \<open>pb_decode_varint32\<close> on the varint of a 64-bit value: below \<open>2^35\<close> it succeeds with the
  value cut to 32 bits, bits 32 to 34 being dropped without an error; from \<open>2^35\<close> on it reports
  \<open>varint overflow\<close> after five bytes.\<close>
theorem varint32_of_varint:
  "pb_decode_varint32 (pb_istream_from_buffer (varint_bytes v @ rest) (length (varint_bytes v) + length rest)) =
    (if unat v < 2 ^ 35 then (Some (ucast v), pb_istream_from_buffer rest (length rest))
     else (None, in_error ''varint overflow''
            (pb_istream_from_buffer (drop 5 (varint_bytes v) @ rest)
              (length (varint_bytes v) - 5 + length rest))))"
proof (cases "unat v < 2 ^ 35")
  case True
  then have "length (varint_bytes v) \<le> 5" by (intro length_varint_bytes_le) simp_all
  moreover have "(word_of_nat (unat v) :: u32) = ucast v"
    by (rule word_eq_unatI) (simp add: unat_ucast_mod unat_of_nat)
  ultimately show ?thesis
    using True decode_varint32_buffer [OF is_varint_varint_bytes, of v rest]
    by (auto simp: varint_val_varint_bytes buffer_advanced)
next
  case False
  have long: "5 < length (varint_bytes v)"
  proof (rule ccontr)
    assume "\<not> 5 < length (varint_bytes v)"
    then have "(128::nat) ^ length (varint_bytes v) \<le> 128 ^ 5" by (intro power_increasing) simp_all
    with varint_bytes_length_val [of v] False show False by simp
  qed
  let ?e = "varint_bytes v" and ?s = "pb_istream_from_buffer (varint_bytes v @ rest) (length (varint_bytes v) + length rest)"
  have vis: "visible (\<lambda>bs. bs) ?s = take 5 ?e @ drop 5 ?e @ rest"
    using buffer_source(2) [of ?e rest] by simp
  have "length (take 5 ?e) = 5" using long by simp
  moreover have "\<forall>c\<in>set (take 5 ?e). c AND 0x80 \<noteq> 0"
    using is_varint_take_conts [OF is_varint_varint_bytes] long by blast
  ultimately obtain s' where "pb_decode_varint32 ?s = (None, in_error ''varint overflow'' s')"
    and "advanced (\<lambda>bs. bs) 5 ?s s'"
    using buf.decode_varint32_overflow [OF buffer_source(1) vis] by blast
  with False long show ?thesis by (simp add: advanced_buffer)
qed

text \<open>C13: \<open>pb_decode_varint\<close> on arbitrary bytes of a buffer. A varint of at most ten bytes gives its
  value modulo \<open>2^64\<close>; ten continuation bytes give \<open>varint overflow\<close> and no eleventh byte is read;
  fewer than ten bytes with no last byte give \<open>end-of-stream\<close>.\<close>
theorem decode_varint_spec:
  "(is_varint e \<and> length e \<le> 10 \<longrightarrow>
      pb_decode_varint (pb_istream_from_buffer (e @ rest) (length e + length rest)) =
        (Some (word_of_nat (varint_val e)), pb_istream_from_buffer rest (length rest))) \<and>
   (length e = 10 \<and> (\<forall>c\<in>set e. c AND 0x80 \<noteq> 0) \<longrightarrow>
      pb_decode_varint (pb_istream_from_buffer (e @ rest) (length e + length rest)) =
        (None, in_error ''varint overflow'' (pb_istream_from_buffer rest (length rest)))) \<and>
   (length e < 10 \<and> (\<forall>c\<in>set e. c AND 0x80 \<noteq> 0) \<longrightarrow>
      pb_decode_varint (pb_istream_from_buffer e (length e)) =
        (None, in_error ''end-of-stream'' (pb_istream_from_buffer [] 0)))"
proof (intro conjI impI)
  assume "is_varint e \<and> length e \<le> 10"
  then show "pb_decode_varint (pb_istream_from_buffer (e @ rest) (length e + length rest)) =
      (Some (word_of_nat (varint_val e)), pb_istream_from_buffer rest (length rest))"
    using decode_varint_buffer [of e rest] by (auto simp: buffer_advanced)
next
  assume "length e = 10 \<and> (\<forall>c\<in>set e. c AND 0x80 \<noteq> 0)"
  then show "pb_decode_varint (pb_istream_from_buffer (e @ rest) (length e + length rest)) =
      (None, in_error ''varint overflow'' (pb_istream_from_buffer rest (length rest)))"
    using buf.decode_varint_overflow [OF buffer_source, of e rest] by (auto simp: advanced_buffer)
next
  assume e: "length e < 10 \<and> (\<forall>c\<in>set e. c AND 0x80 \<noteq> 0)"
  let ?s = "pb_istream_from_buffer e (length e)"
  have s: "source_ok buf_read (\<lambda>bs. bs) ?s" "visible (\<lambda>bs. bs) ?s = e" "bytes_left ?s = length e"
    by (simp_all add: source_ok_buffer visible_buffer)
  obtain s' where "pb_decode_varint ?s = (None, in_error ''end-of-stream'' s')"
    and "advanced (\<lambda>bs. bs) (length e) ?s s'"
    using buf.decode_varint_eof [OF s(1)] e by (auto simp: s(2,3))
  then show "pb_decode_varint ?s = (None, in_error ''end-of-stream'' (pb_istream_from_buffer [] 0))"
    by (simp add: advanced_buffer)
qed

theorem decode_varint_spec_witness:
  "varint_val [0xAC, 0x02] = 300 \<and>
   pb_decode_varint (pb_istream_from_buffer ([0xAC, 0x02] @ [0x07]) (length [0xAC, 0x02 :: u8] + length [0x07 :: u8])) =
     (Some (word_of_nat (varint_val [0xAC, 0x02])), pb_istream_from_buffer [0x07] (length [0x07 :: u8])) \<and>
   pb_decode_varint (pb_istream_from_buffer (replicate 10 0x80 @ [1]) (length (replicate 10 (0x80 :: u8)) + length [1 :: u8])) =
     (None, in_error ''varint overflow'' (pb_istream_from_buffer [1] (length [1 :: u8]))) \<and>
   pb_decode_varint (pb_istream_from_buffer [0x80] (length [0x80 :: u8])) =
     (None, in_error ''end-of-stream'' (pb_istream_from_buffer [] 0))"
proof (intro conjI)
  show "varint_val [0xAC, 0x02] = 300" by simp
qed ((rule decode_varint_spec [THEN conjunct1, THEN mp]
      decode_varint_spec [THEN conjunct2, THEN conjunct1, THEN mp]
      decode_varint_spec [THEN conjunct2, THEN conjunct2, THEN mp], simp)+)

section \<open>Zigzag integers\<close>

lemma unzigzag_zigzag: "unzigzag (zigzag v) = v"
proof (cases "v <s 0")
  case True
  then have b: "bit v 63" using bit_last_iff [of v] by (simp add: word_sless_alt)
  have "odd (NOT (push_bit 1 v))" by (simp add: even_not_iff)
  then have "NOT (push_bit 1 v) AND 1 \<noteq> 0" unfolding and_one_eq odd_iff_mod_2_eq_one by (metis zero_neq_one)
  then have "unzigzag (zigzag v) = NOT (drop_bit 1 (NOT (push_bit 1 v)))"
    using True by (simp only: zigzag_def unzigzag_def if_True if_not_P not_False_eq_True if_P)
  also have "\<dots> = v"
    by (rule bit_word_eqI) (use b in \<open>auto simp: bit_simps mult.commute [of v 2] bit_double_iff less_Suc_eq_le nat_less_le\<close>)
  finally show ?thesis .
next
  case False
  then have b: "\<not> bit v 63" using bit_last_iff [of v] by (simp add: word_sless_alt)
  have "even (push_bit 1 v)" by simp
  then have "push_bit 1 v AND 1 = 0" unfolding and_one_eq even_iff_mod_2_eq_zero .
  then have "unzigzag (zigzag v) = drop_bit 1 (push_bit 1 v)"
    using False by (simp only: zigzag_def unzigzag_def if_False not_True_eq_False simp_thms)
  also have "\<dots> = v"
    by (rule bit_word_eqI) (use b in \<open>auto simp: bit_simps mult.commute [of v 2] bit_double_iff less_Suc_eq_le nat_less_le\<close>)
  finally show ?thesis .
qed

lemma uint_zigzag: "int (unat (zigzag v)) = (if 0 \<le> sint v then 2 * sint v else - 2 * sint v - 1)"
proof (cases "v <s 0")
  case True
  then have neg: "sint v < 0" by (simp add: word_sless_alt)
  have "- (2 ^ 63) \<le> sint v" using sint_ge [of v] by simp
  have "word_of_int (- 2 * sint v - 1) = (- 2 * v - 1)" by simp
  then have "word_of_int (- 2 * sint v - 1) = zigzag v"
    using True by (simp add: zigzag_def not_eq_complement mult.commute)
  moreover have "0 \<le> - 2 * sint v - 1" and "- 2 * sint v - 1 < 2 ^ 64"
    using neg \<open>- (2 ^ 63) \<le> sint v\<close> by simp_all
  ultimately have "uint (zigzag v) = - 2 * sint v - 1" by (intro word_of_int_inverse) simp_all
  then show ?thesis using neg by simp
next
  case False
  then have nn: "0 \<le> sint v" by (simp add: word_sless_alt)
  have "sint v < 2 ^ 63" using sint_less [of v] by simp
  have "word_of_int (2 * sint v) = (2 * v)" by simp
  then have "word_of_int (2 * sint v) = zigzag v"
    using False by (simp add: zigzag_def mult.commute)
  moreover have "0 \<le> 2 * sint v" and "2 * sint v < 2 ^ 64"
    using nn \<open>sint v < 2 ^ 63\<close> by simp_all
  ultimately have "uint (zigzag v) = 2 * sint v" by (intro word_of_int_inverse) simp_all
  then show ?thesis using nn by simp
qed

text \<open>C15: signed integers: what \<open>pb_encode_svarint\<close> writes, \<open>pb_decode_svarint\<close> reads back, for every
  64-bit value; and the varint in between is the zigzag code, twice the value when it is not negative
  and minus twice the value less one when it is, so that small magnitudes have short encodings.\<close>
theorem svarint_roundtrip:
  assumes "pb_encode_svarint (pb_ostream_from_buffer n) v = (True, os)"
  shows "pb_decode_svarint (pb_istream_from_buffer (out_state os @ rest) (length (out_state os) + length rest))
      = (Some v, pb_istream_from_buffer rest (length rest)) \<and>
    int (varint_val (out_state os)) = (if 0 \<le> sint v then 2 * sint v else - 2 * sint v - 1)"
proof
  note enc = assms [unfolded pb_encode_svarint_def]
  show "pb_decode_svarint (pb_istream_from_buffer (out_state os @ rest) (length (out_state os) + length rest))
      = (Some v, pb_istream_from_buffer rest (length rest))"
    using decode_varint_buffer [OF is_varint_varint_bytes length_varint_bytes(2), of "zigzag v" rest]
    by (auto simp: pb_decode_svarint_def encode_varint_fresh [OF enc] varint_val_varint_bytes
      buffer_advanced unzigzag_zigzag)
  show "int (varint_val (out_state os)) = (if 0 \<le> sint v then 2 * sint v else - 2 * sint v - 1)"
    using uint_zigzag [of v] by (simp only: encode_varint_fresh [OF enc] varint_val_varint_bytes)
qed

theorem svarint_roundtrip_witness:
  "pb_decode_svarint (pb_istream_from_buffer ([0x03] @ [0x07]) (length [0x03 :: u8] + length [0x07 :: u8])) =
     (Some (- 2), pb_istream_from_buffer [0x07] (length [0x07 :: u8]))"
proof -
  have z: "(- 2 :: u64) <s 0" by (simp add: word_sless_alt)
  have "pb_encode_svarint (pb_ostream_from_buffer 4) (- 2) =
    (True, \<lparr>out_callback = Some buf_write, out_state = [0x03], max_size = 4,
            bytes_written = 1, out_errmsg = None\<rparr>)"
    by (simp add: pb_encode_svarint_def zigzag_def z pb_encode_varint_def varint_bytes_def
      pb_write_def pb_ostream_from_buffer_def buf_write_def)
  from svarint_roundtrip [OF this, of "[0x07]"] show ?thesis by simp
qed

section \<open>Fixed-width integers\<close>

lemma split32:
  fixes v :: u32
  shows "push_bit 0 (ucast (ucast (v AND 0xFF) :: u8)) OR
    push_bit 8 (ucast (ucast (drop_bit 8 v AND 0xFF) :: u8)) OR
    push_bit 16 (ucast (ucast (drop_bit 16 v AND 0xFF) :: u8)) OR
    push_bit 24 (ucast (ucast (drop_bit 24 v AND 0xFF) :: u8)) = v"
  unfolding ucast_ucast_byte push_bit_0_id id_apply or.assoc [symmetric] take_bit_or_push_bit arith_simps
  by (rule take_bit_word_eq_self) simp

lemma split64:
  fixes v :: u64
  shows "push_bit 0 (ucast (ucast (v AND 0xFF) :: u8)) OR
    push_bit 8 (ucast (ucast (drop_bit 8 v AND 0xFF) :: u8)) OR
    push_bit 16 (ucast (ucast (drop_bit 16 v AND 0xFF) :: u8)) OR
    push_bit 24 (ucast (ucast (drop_bit 24 v AND 0xFF) :: u8)) OR
    push_bit 32 (ucast (ucast (drop_bit 32 v AND 0xFF) :: u8)) OR
    push_bit 40 (ucast (ucast (drop_bit 40 v AND 0xFF) :: u8)) OR
    push_bit 48 (ucast (ucast (drop_bit 48 v AND 0xFF) :: u8)) OR
    push_bit 56 (ucast (ucast (drop_bit 56 v AND 0xFF) :: u8)) = v"
  unfolding ucast_ucast_byte push_bit_0_id id_apply or.assoc [symmetric] take_bit_or_push_bit arith_simps
  by (rule take_bit_word_eq_self) simp

text \<open>fixed32 and fixed64 values are read back as they were written.\<close>
theorem fixed_roundtrip:
  "(pb_encode_fixed32 (pb_ostream_from_buffer n) v = (True, os) \<longrightarrow>
      pb_decode_fixed32 (pb_istream_from_buffer (out_state os @ rest) (4 + length rest)) =
        (Some v, pb_istream_from_buffer rest (length rest))) \<and>
   (pb_encode_fixed64 (pb_ostream_from_buffer n) w = (True, os) \<longrightarrow>
      pb_decode_fixed64 (pb_istream_from_buffer (out_state os @ rest) (8 + length rest)) =
        (Some w, pb_istream_from_buffer rest (length rest)))"
proof (intro conjI impI)
  let ?b = "[ucast (v AND 0xFF), ucast (drop_bit 8 v AND 0xFF), ucast (drop_bit 16 v AND 0xFF),
    ucast (drop_bit 24 v AND 0xFF)] :: u8 list"
  assume "pb_encode_fixed32 (pb_ostream_from_buffer n) v = (True, os)"
  then have b: "out_state os = ?b"
    using pb_write_fresh(1) [of n ?b os] by (simp add: pb_encode_fixed32_def)
  show "pb_decode_fixed32 (pb_istream_from_buffer (out_state os @ rest) (4 + length rest)) =
    (Some v, pb_istream_from_buffer rest (length rest))"
    unfolding b pb_decode_fixed32_def
    by (simp add: pb_read_def pb_istream_from_buffer_def buf_read_def split32 [simplified])
next
  let ?b = "[ucast (w AND 0xFF), ucast (drop_bit 8 w AND 0xFF), ucast (drop_bit 16 w AND 0xFF),
    ucast (drop_bit 24 w AND 0xFF), ucast (drop_bit 32 w AND 0xFF), ucast (drop_bit 40 w AND 0xFF),
    ucast (drop_bit 48 w AND 0xFF), ucast (drop_bit 56 w AND 0xFF)] :: u8 list"
  assume "pb_encode_fixed64 (pb_ostream_from_buffer n) w = (True, os)"
  then have b: "out_state os = ?b"
    using pb_write_fresh(1) [of n ?b os] by (simp add: pb_encode_fixed64_def)
  show "pb_decode_fixed64 (pb_istream_from_buffer (out_state os @ rest) (8 + length rest)) =
    (Some w, pb_istream_from_buffer rest (length rest))"
    unfolding b pb_decode_fixed64_def
    by (simp add: pb_read_def pb_istream_from_buffer_def buf_read_def split64 [simplified])
qed

theorem fixed_roundtrip_witness:
  "pb_decode_fixed32 (pb_istream_from_buffer ([0x44, 0x33, 0x22, 0x11] @ [0x07]) (4 + length [0x07 :: u8])) =
     (Some 0x11223344, pb_istream_from_buffer [0x07] (length [0x07 :: u8])) \<and>
   pb_decode_fixed64 (pb_istream_from_buffer ([8, 7, 6, 5, 4, 3, 2, 1] @ [0x07]) (8 + length [0x07 :: u8])) =
     (Some 0x0102030405060708, pb_istream_from_buffer [0x07] (length [0x07 :: u8]))"
proof -
  have "pb_encode_fixed32 (pb_ostream_from_buffer 4) 0x11223344 =
    (True, \<lparr>out_callback = Some buf_write, out_state = [0x44, 0x33, 0x22, 0x11], max_size = 4,
            bytes_written = 4, out_errmsg = None\<rparr>)"
    and "pb_encode_fixed64 (pb_ostream_from_buffer 8) 0x0102030405060708 =
    (True, \<lparr>out_callback = Some buf_write, out_state = [8, 7, 6, 5, 4, 3, 2, 1], max_size = 8,
            bytes_written = 8, out_errmsg = None\<rparr>)"
    by (simp_all add: pb_encode_fixed32_def pb_encode_fixed64_def pb_write_def
      pb_ostream_from_buffer_def buf_write_def)
  from fixed_roundtrip [THEN conjunct1, rule_format, OF this(1), of "[0x07]"]
    fixed_roundtrip [THEN conjunct2, rule_format, OF this(2), of "[0x07]"]
  show ?thesis by simp
qed

section \<open>Tags\<close>

lemma tag_word:
  fixes fn wt :: u32
  assumes "unat fn < 2 ^ 29" and "unat wt < 8"
  shows "(ucast (push_bit 3 (ucast fn :: u64) OR ucast wt) :: u32) AND 7 = wt"
    and "drop_bit 3 (ucast (push_bit 3 (ucast fn :: u64) OR ucast wt) :: u32) = fn"
    and "unat (push_bit 3 (ucast fn :: u64) OR ucast wt) < 2 ^ 35"
proof -
  let ?t = "push_bit 3 (ucast fn :: u64) OR ucast wt"
  have "take_bit 3 wt = wt" and "take_bit 29 fn = fn"
    using assms by (auto intro!: word_eq_unatI simp: unat_take_bit_mod)
  then have w: "bit wt i \<Longrightarrow> i < 3" and f: "bit fn i \<Longrightarrow> i < 29" for i
    by (metis bit_take_bit_iff)+
  have m: "(7 :: u32) = mask 3" by (simp add: mask_eq_exp_minus_1)
  show "ucast ?t AND 7 = wt"
    unfolding m word_and_mask_take_bit
    by (rule bit_word_eqI) (auto simp: bit_simps dest: w)
  show "drop_bit 3 (ucast ?t) = fn"
    by (rule bit_word_eqI) (auto simp: bit_simps dest: w f)
  have "take_bit 32 ?t = ?t"
    by (rule bit_word_eqI) (auto simp: bit_simps dest: w f)
  then have "unat ?t = unat ?t mod 2 ^ 32" by (metis unat_take_bit_mod)
  then have "unat ?t < 2 ^ 32" by (metis mod_less_divisor zero_less_numeral zero_less_power)
  then show "unat ?t < 2 ^ 35" by simp
qed

lemma decode32_varint_bytes:
  "unat v < 2 ^ 35 \<Longrightarrow>
    pb_decode_varint32 (pb_istream_from_buffer (varint_bytes v @ rest) (length (varint_bytes v) + length rest)) =
      (Some (ucast v), pb_istream_from_buffer rest (length rest))"
proof -
  assume "unat v < 2 ^ 35"
  then have "length (varint_bytes v) \<le> 5" by (intro length_varint_bytes_le) simp_all
  moreover have "(word_of_nat (unat v) :: u32) = ucast v"
    by (rule word_eq_unatI) (simp add: unat_ucast_mod unat_of_nat)
  ultimately show ?thesis
    using decode_varint32_buffer [OF is_varint_varint_bytes, of v rest]
    by (auto simp: varint_val_varint_bytes buffer_advanced)
qed

text \<open>A field tag written by \<open>pb_encode_tag\<close> is read back by \<open>pb_decode_tag\<close> as the same wire
  type and field number, for every field number protobuf allows (1 to \<open>2^29 - 1\<close>) and any 3-bit wire
  type; end of message is not signalled.\<close>
theorem tag_roundtrip:
  assumes "pb_encode_tag (pb_ostream_from_buffer n) wt fn = (True, os)"
    and "fn \<noteq> 0" and "unat fn < 2 ^ 29" and "unat wt < 8"
  shows "pb_decode_tag (pb_istream_from_buffer (out_state os @ rest) (length (out_state os) + length rest)) =
    ((True, wt, fn, False), pb_istream_from_buffer rest (length rest))"
proof -
  note t = tag_word [OF assms(3,4)]
  have "(ucast (push_bit 3 (ucast fn :: u64) OR ucast wt) :: u32) \<noteq> 0"
    using t(2) assms(2) by (metis drop_bit_of_0)
  then show ?thesis
    using decode32_varint_bytes [OF t(3), of rest] t(1,2)
    by (simp only: encode_varint_fresh [OF assms(1) [unfolded pb_encode_tag_def]] pb_decode_tag_def
      prod.case option.case if_False)
qed

theorem tag_roundtrip_witness:
  "pb_decode_tag (pb_istream_from_buffer ([0x12] @ [0x07]) (length [0x12 :: u8] + length [0x07 :: u8])) =
    ((True, PB_WT_STRING, 2, False), pb_istream_from_buffer [0x07] (length [0x07 :: u8]))"
proof -
  have "pb_encode_tag (pb_ostream_from_buffer 4) PB_WT_STRING 2 =
    (True, \<lparr>out_callback = Some buf_write, out_state = [0x12], max_size = 4,
            bytes_written = 1, out_errmsg = None\<rparr>)"
    by (simp add: wire_type_defs pb_encode_tag_def pb_encode_varint_def varint_bytes_def
      pb_write_def pb_ostream_from_buffer_def buf_write_def)
  from tag_roundtrip [OF this, of "[0x07]"] show ?thesis by (simp add: wire_type_defs)
qed

section \<open>Strings and substreams\<close>

lemma pb_write_grows:
  assumes "pb_write s buf (word_of_nat (length buf)) = (True, s')" and "sink_ok s" and "fits s buf"
  shows "s' = s\<lparr>out_state := out_state s @ buf,
                 bytes_written := bytes_written s + word_of_nat (length buf)\<rparr>"
    and "sink_ok s'"
proof -
  note w = assms(1) [unfolded pb_write_sink [OF assms(2,3)]]
  from w show s': "s' = s\<lparr>out_state := out_state s @ buf,
      bytes_written := bytes_written s + word_of_nat (length buf)\<rparr>" by (auto split: if_splits)
  from w s' assms(2) show "sink_ok s'"
    by (auto simp: sink_ok_def unat_bytes_written_add [OF assms(3)] word_le_nat_alt split: if_splits)
qed

lemma encode_string_fresh:
  assumes "pb_encode_string (pb_ostream_from_buffer n) str (word_of_nat (length str)) = (True, os)"
    and "length str < 2 ^ 32"
  shows "out_state os = varint_bytes (word_of_nat (length str)) @ str"
proof -
  let ?v = "varint_bytes (word_of_nat (length str))"
  from assms(1) obtain s1 where s1: "pb_write (pb_ostream_from_buffer n) ?v (word_of_nat (length ?v)) = (True, s1)"
    and os: "pb_write s1 str (word_of_nat (length str)) = (True, os)"
    by (auto simp: pb_encode_string_def pb_encode_varint_def split: prod.splits bool.splits)
  have v: "length ?v \<le> 10" by (rule length_varint_bytes)
  then have f: "fits (pb_ostream_from_buffer n) ?v" by (simp add: fits_def pb_ostream_from_buffer_def)
  note g = pb_write_grows [OF s1 sink_ok_from_buffer f]
  have "fits s1 str" using v assms(2) unat_bytes_written_add [OF f] g(1)
    by (simp add: fits_def pb_ostream_from_buffer_def unat_of_nat)
  from pb_write_grows(1) [OF os g(2) this] g(1) show ?thesis
    by (simp add: pb_ostream_from_buffer_def)
qed

text \<open>C16: a string written by \<open>pb_encode_string\<close> (shorter than \<open>2^32\<close> bytes) is opened by
  \<open>pb_make_string_substream\<close> as a substream that shows exactly its bytes; closing the substream
  unread, and \<open>pb_skip_string\<close> on the parent, both leave the parent right after the string.\<close>
theorem string_roundtrip:
  assumes enc: "pb_encode_string (pb_ostream_from_buffer n) str (word_of_nat (length str)) = (True, os)"
    and len: "length str < 2 ^ 32"
  shows "\<exists>sub s1.
    pb_make_string_substream (pb_istream_from_buffer (out_state os @ rest) (length (out_state os) + length rest))
      = (Some sub, s1) \<and>
    visible (\<lambda>bs. bs) sub = str \<and>
    pb_close_string_substream s1 sub = (True, pb_istream_from_buffer rest (length rest)) \<and>
    pb_skip_string (pb_istream_from_buffer (out_state os @ rest) (length (out_state os) + length rest))
      = (True, pb_istream_from_buffer rest (length rest))"
proof -
  let ?w = "word_of_nat (length str) :: u64" and ?rest = "str @ rest"
  let ?s = "pb_istream_from_buffer (out_state os @ rest) (length (out_state os) + length rest)"
  let ?t = "pb_istream_from_buffer ?rest (length ?rest)"
  have w: "unat ?w = length str" and u: "unat (ucast ?w :: u32) = length str"
    using len by (simp_all add: unat_of_nat unat_ucast_mod)
  have s: "pb_decode_varint32 ?s = (Some (ucast ?w), ?t)"
    using decode32_varint_bytes [of ?w ?rest] len w
    by (simp add: encode_string_fresh [OF enc len] add.assoc)
  have t: "source_ok buf_read (\<lambda>bs. bs) ?t" "bytes_left ?t = length str + length rest"
    by (simp_all add: source_ok_buffer)
  have skip: "pb_skip_string ?s = (True, pb_istream_from_buffer rest (length rest))"
    using buf.read_null_ok [OF t(1), of "length str"] by (auto simp: pb_skip_string_def s u advanced_buffer)
  let ?sub = "?t\<lparr>bytes_left := length str\<rparr>" and ?s1 = "?t\<lparr>bytes_left := length rest\<rparr>"
  have mk: "pb_make_string_substream ?s = (Some ?sub, ?s1)"
    by (simp add: pb_make_string_substream_def s u t(2))
  have sub: "?sub = pb_istream_from_buffer ?rest (length str)"
    "?s1 = pb_istream_from_buffer ?rest (length rest)" by (simp_all add: pb_istream_from_buffer_def)
  have "source_ok buf_read (\<lambda>bs. bs) (pb_istream_from_buffer ?rest (length str))"
    by (simp add: source_ok_buffer)
  from buf.read_null_ok [OF this, of "length str"]
  have "pb_read_null ?sub (length str) = (True, pb_istream_from_buffer rest 0)"
    by (auto simp: advanced_buffer)
  then have cl: "pb_close_string_substream ?s1 ?sub = (True, pb_istream_from_buffer rest (length rest))"
    by (cases str) (auto simp: pb_close_string_substream_def pb_istream_from_buffer_def)
  show ?thesis
    using mk skip cl by (intro exI [of _ ?sub] exI [of _ ?s1]) (simp add: sub(1) visible_buffer)
qed

theorem string_roundtrip_witness:
  "\<exists>sub s1.
    pb_make_string_substream (pb_istream_from_buffer ([2, 0x68, 0x69] @ [7]) (length [2, 0x68, 0x69 :: u8] + length [7 :: u8]))
      = (Some sub, s1) \<and>
    visible (\<lambda>bs. bs) sub = [0x68, 0x69] \<and>
    pb_close_string_substream s1 sub = (True, pb_istream_from_buffer [7] (length [7 :: u8])) \<and>
    pb_skip_string (pb_istream_from_buffer ([2, 0x68, 0x69] @ [7]) (length [2, 0x68, 0x69 :: u8] + length [7 :: u8]))
      = (True, pb_istream_from_buffer [7] (length [7 :: u8]))"
proof -
  have "pb_encode_string (pb_ostream_from_buffer 8) [0x68, 0x69] (word_of_nat (length [0x68, 0x69 :: u8])) =
    (True, \<lparr>out_callback = Some buf_write, out_state = [2, 0x68, 0x69], max_size = 8,
            bytes_written = 3, out_errmsg = None\<rparr>)"
    by (simp add: pb_encode_string_def pb_encode_varint_def varint_bytes_def
      pb_write_def pb_ostream_from_buffer_def buf_write_def)
  from string_roundtrip [OF this, of "[7]"] show ?thesis by simp
qed

section \<open>The encoder never writes past its buffer\<close>

lemma pb_write_preserves:
  assumes "sink_ok s" and "fits s buf"
  shows "sink_ok (snd (pb_write s buf (word_of_nat (length buf))))"
    and "unat (bytes_written (snd (pb_write s buf (word_of_nat (length buf))))) \<le> unat (bytes_written s) + length buf"
  using assms unat_bytes_written_add [OF assms(2)]
  by (auto simp: pb_write_sink [OF assms] sink_ok_def out_error_def word_le_nat_alt)

lemma encode_varint_preserves:
  assumes "sink_ok s" and "unat (bytes_written s) + 10 < 2 ^ 64"
  shows "sink_ok (snd (pb_encode_varint s v))"
    and "unat (bytes_written (snd (pb_encode_varint s v))) \<le> unat (bytes_written s) + 10"
proof -
  have f: "fits s (varint_bytes v)"
    using assms(2) length_varint_bytes(2) [of v] by (simp add: fits_def)
  show "sink_ok (snd (pb_encode_varint s v))"
    using pb_write_preserves(1) [OF assms(1) f] by (simp add: pb_encode_varint_def)
  show "unat (bytes_written (snd (pb_encode_varint s v))) \<le> unat (bytes_written s) + 10"
    using pb_write_preserves(2) [OF assms(1) f] length_varint_bytes(2) [of v]
    unfolding pb_encode_varint_def by linarith
qed

text \<open>Every primitive encoder keeps a buffer stream within its buffer, whether it succeeds or
  fails: the bytes stored are exactly the bytes counted and never more than \<open>max_size\<close>. The
  hypothesis rules out a byte count within a few bytes of wrapping around \<open>size_t\<close>, where the test
  \<open>bytes_written + count > max_size\<close> of \<open>pb_write\<close> would be fooled.\<close>
theorem encoders_stay_in_buffer:
  assumes ok: "sink_ok s" and room: "unat (bytes_written s) + length str + 20 < 2 ^ 64"
  shows "sink_ok (snd (pb_encode_varint s v)) \<and> sink_ok (snd (pb_encode_svarint s v)) \<and>
    sink_ok (snd (pb_encode_fixed32 s u)) \<and> sink_ok (snd (pb_encode_fixed64 s v)) \<and>
    sink_ok (snd (pb_encode_tag s wt fn)) \<and>
    sink_ok (snd (pb_encode_string s str (word_of_nat (length str))))"
proof -
  have r: "unat (bytes_written s) + 10 < 2 ^ 64" using room by simp
  have str: "sink_ok (snd (pb_encode_string s str (word_of_nat (length str))))"
  proof (cases "pb_encode_varint s (word_of_nat (length str))")
    case (Pair b s1)
    have s1: "sink_ok s1" "unat (bytes_written s1) \<le> unat (bytes_written s) + 10"
      using encode_varint_preserves [OF ok r, of "word_of_nat (length str)"] Pair by simp_all
    then have "fits s1 str" using room by (simp add: fits_def)
    then show ?thesis using Pair s1(1) pb_write_preserves(1) [OF s1(1)]
      by (cases b) (simp_all add: pb_encode_string_def)
  qed
  have fits4: "fits s [a, b, c, d]" for a b c d using room by (simp add: fits_def)
  have fits8: "fits s [a, b, c, d, e, f, g, h]" for a b c d e f g h using room by (simp add: fits_def)
  have "sink_ok (snd (pb_encode_fixed32 s u))"
    using pb_write_preserves(1) [OF ok fits4] by (simp add: pb_encode_fixed32_def)
  moreover have "sink_ok (snd (pb_encode_fixed64 s v))"
    using pb_write_preserves(1) [OF ok fits8] by (simp add: pb_encode_fixed64_def)
  ultimately show ?thesis
    using encode_varint_preserves(1) [OF ok r] str
    by (simp add: pb_encode_svarint_def pb_encode_tag_def)
qed

theorem encoders_stay_in_buffer_witness:
  "sink_ok (snd (pb_encode_varint (pb_ostream_from_buffer 1) 300)) \<and>
   \<not> fst (pb_encode_varint (pb_ostream_from_buffer 1) 300)"
proof -
  have "unat (bytes_written (pb_ostream_from_buffer 1)) + length ([] :: u8 list) + 20 < 2 ^ 64"
    by (simp add: pb_ostream_from_buffer_def)
  note w = encoders_stay_in_buffer [OF sink_ok_from_buffer this]
  have "\<not> fst (pb_encode_varint (pb_ostream_from_buffer 1) 300)"
    by (simp add: pb_encode_varint_def varint_bytes_def varint_buffer.simps Let_def pb_write_def
      pb_ostream_from_buffer_def)
  then show ?thesis using w [THEN conjunct1] by blast
qed

end
