(* ===== verification/Nanopb_Message_Roundtrip.thy ===== *)
theory Nanopb_Message_Roundtrip
  imports Nanopb_Value Nanopb_Roundtrip
begin

text \<open>
  The round trip of whole messages: \<open>pb_decode\<close> on what \<open>pb_encode\<close> writes for a message struct gives a struct
  with the same field values. Every decoding step is an exact one: it consumes the bytes of its part
  of the encoding, whatever follows, and changes the memory of its field only.
\<close>

section \<open>Exact reading from a buffer\<close>

abbreviation ibuf :: "u8 list \<Rightarrow> nat \<Rightarrow> u8 list pb_istream" where
  "ibuf \<equiv> pb_istream_from_buffer"

lemma ibuf_source:
  "k \<le> length rest \<Longrightarrow> source_ok buf_read (\<lambda>bs. bs) (ibuf (e @ rest) (length e + k))"
  "k \<le> length rest \<Longrightarrow> visible (\<lambda>bs. bs) (ibuf (e @ rest) (length e + k)) = e @ take k rest"
  by (simp_all add: source_ok_buffer visible_buffer)

lemma ibuf_advanced:
  "advanced (\<lambda>bs. bs) (length e) (ibuf (e @ rest) (length e + k)) s' \<longleftrightarrow> s' = ibuf rest k"
  by (simp add: advanced_buffer)

lemma ibuf_varint:
  "k \<le> length rest \<Longrightarrow>
    pb_decode_varint (ibuf (varint_bytes v @ rest) (length (varint_bytes v) + k)) = (Some v, ibuf rest k)"
  using buf.decode_varint_value [OF ibuf_source is_varint_varint_bytes length_varint_bytes(2), of k rest v]
  by (auto simp: varint_val_varint_bytes ibuf_advanced)

lemma ibuf_varint32:
  assumes "k \<le> length rest" and "unat v < 2 ^ 35"
  shows "pb_decode_varint32 (ibuf (varint_bytes v @ rest) (length (varint_bytes v) + k)) = (Some (ucast v), ibuf rest k)"
proof -
  have "unat v < 128 ^ 5" using assms(2) by simp
  then have "length (varint_bytes v) \<le> 5" by (rule length_varint_bytes_le) simp
  moreover have "(word_of_nat (unat v) :: u32) = ucast v"
    by (rule word_eq_unatI) (simp add: unat_ucast_mod unat_of_nat)
  ultimately show ?thesis
    using buf.decode_varint32_value [OF ibuf_source [OF assms(1)] is_varint_varint_bytes, of v] assms(2)
    by (auto simp: varint_val_varint_bytes ibuf_advanced)
qed

lemma ibuf_svarint:
  "k \<le> length rest \<Longrightarrow>
    pb_decode_svarint (ibuf (varint_bytes (zigzag v) @ rest) (length (varint_bytes (zigzag v)) + k)) = (Some v, ibuf rest k)"
  by (simp add: pb_decode_svarint_def ibuf_varint unzigzag_zigzag)

lemma ibuf_read: "pb_read (ibuf (bs @ rest) (length bs + k)) (length bs) = (Some bs, ibuf rest k)"
  by (simp add: pb_read_def pb_istream_from_buffer_def buf_read_def)

lemma ibuf_fixed:
  assumes "k \<le> length rest"
  shows "pb_decode_fixed32 (ibuf (le_bytes 4 (unat v) @ rest) (4 + k)) = (Some v, ibuf rest k)"
    and "pb_decode_fixed64 (ibuf (le_bytes 8 (unat w) @ rest) (8 + k)) = (Some w, ibuf rest k)"
  using ibuf_read [of "le_bytes 4 (unat v)" rest k] ibuf_read [of "le_bytes 8 (unat w)" rest k]
  by (simp_all add: pb_decode_fixed32_def pb_decode_fixed64_def le_bytes_shifts nth_map split32 [simplified] split64 [simplified])

lemma ibuf_tag:
  assumes "k \<le> length rest" and "t \<noteq> 0" and "unat t < 2 ^ 29" and "unat wt < 8"
  shows "pb_decode_tag (ibuf (tag_bytes wt t @ rest) (length (tag_bytes wt t) + k)) = ((True, wt, t, False), ibuf rest k)"
proof -
  let ?v = "push_bit 3 (ucast t :: u64) OR ucast wt"
  note w = tag_word [OF assms(3,4)]
  have "(ucast ?v :: u32) \<noteq> 0" using w(2) assms(2) by (metis drop_bit_of_0)
  then show ?thesis
    using ibuf_varint32 [OF assms(1) w(3)] w(1,2) unfolding tag_bytes_def pb_decode_tag_def by simp
qed

lemma ibuf_substream:
  assumes "k \<le> length rest" and "length bs < 2 ^ 32"
  shows "pb_make_string_substream (ibuf (prefixed bs @ rest) (length (prefixed bs) + k)) =
    (Some (ibuf (bs @ rest) (length bs)), ibuf (bs @ rest) k)"
proof -
  let ?w = "word_of_nat (length bs) :: u64"
  have w: "unat ?w = length bs" "unat (ucast ?w :: u32) = length bs"
    using assms(2) by (simp_all add: unat_of_nat unat_ucast_mod)
  have "pb_decode_varint32 (ibuf (prefixed bs @ rest) (length (prefixed bs) + k)) = (Some (ucast ?w), ibuf (bs @ rest) (length bs + k))"
    using ibuf_varint32 [of "length bs + k" "bs @ rest" ?w] assms w by (simp add: prefixed_def add.assoc)
  then show ?thesis by (simp add: pb_make_string_substream_def w)
qed

lemma ibuf_close: "pb_close_string_substream (ibuf (bs @ rest) k) (ibuf rest 0) = (True, ibuf rest k)"
  by (simp add: pb_close_string_substream_def pb_istream_from_buffer_def)

text \<open>A call that reads exactly \<open>e\<close> and takes the memory from \<open>m\<close> to \<open>m'\<close>.\<close>

definition decodes :: "(u8 list pb_istream \<Rightarrow> mem \<Rightarrow> u8 list dec) \<Rightarrow> u8 list \<Rightarrow> mem \<Rightarrow> mem \<Rightarrow> bool" where
  "decodes f e m m' \<longleftrightarrow>
     (\<forall>rest k. k \<le> length rest \<longrightarrow> f (ibuf (e @ rest) (length e + k)) m = Some (True, ibuf rest k, m'))"

section \<open>Items\<close>

lemma ucast_scast_same: "LENGTH('a) \<le> LENGTH('b) \<Longrightarrow> (ucast (scast (w :: 'a::len word) :: 'b::len word) :: 'a word) = w"
  by (rule bit_word_eqI) (auto simp: bit_simps)

lemma ucast_ucast_same: "LENGTH('a) \<le> LENGTH('b) \<Longrightarrow> (ucast (ucast (w :: 'a::len word) :: 'b::len word) :: 'a word) = w"
  by (rule bit_word_eqI) (auto simp: bit_simps)

lemma store_signed_value:
  assumes "signed_value m f a = Some v"
  shows "\<exists>m''. store_signed f c v m' = Some (v, m'') \<and> keeps (span c (unat (data_size f))) m' m'' \<and> signed_value m'' f c = Some v"
proof -
  have l: "load_word (store_word c (w :: u8) m') c = w" "load_word (store_word c (x :: u16) m') c = x"
    "load_word (store_word c (y :: u32) m') c = y" "load_word (store_word c (z :: u64) m') c = z" for w x y z
    using load_store_word [where 'a = 8, of 1] load_store_word [where 'a = 16, of 2] load_store_word [where 'a = 32, of 4]
      load_store_word [where 'a = 64, of 8] by simp_all
  show ?thesis
    using assms
    by (auto simp: signed_value_def store_signed_def l ucast_scast_same split: if_splits intro!: keeps_store_word)
qed

lemma store_unsigned_value:
  assumes "unsigned_value m f a = Some v"
  shows "\<exists>m''. store_unsigned f c v m' = Some (v, m'') \<and> keeps (span c (unat (data_size f))) m' m'' \<and> unsigned_value m'' f c = Some v"
proof -
  have l: "load_word (store_word c (w :: u8) m') c = w" "load_word (store_word c (x :: u16) m') c = x"
    "load_word (store_word c (y :: u32) m') c = y" "load_word (store_word c (z :: u64) m') c = z" for w x y z
    using load_store_word [where 'a = 8, of 1] load_store_word [where 'a = 16, of 2] load_store_word [where 'a = 32, of 4]
      load_store_word [where 'a = 64, of 8] by simp_all
  show ?thesis
    using assms
    by (auto simp: unsigned_value_def store_unsigned_def l ucast_ucast_same split: if_splits intro!: keeps_store_word)
qed

lemma scast_value_32: "signed_value m f a = Some v \<Longrightarrow> data_size f \<noteq> 8 \<Longrightarrow> scast (ucast v :: u32) = v"
proof -
  have "scast (ucast (scast (w :: u8) :: u64) :: u32) = (scast w :: u64)" for w
    by (rule bit_word_eqI) (auto simp: bit_simps min_def)
  moreover have "scast (ucast (scast (w :: u16) :: u64) :: u32) = (scast w :: u64)" for w
    by (rule bit_word_eqI) (auto simp: bit_simps min_def)
  moreover assume "signed_value m f a = Some v" "data_size f \<noteq> 8"
  ultimately show ?thesis by (auto simp: signed_value_def ucast_scast_same split: if_splits)
qed

lemma varint_decodes:
  assumes "signed_value m f a = Some v"
  shows "\<exists>m''. decodes (\<lambda>s m. Some (pb_dec_varint s f c m)) (varint_bytes v) m' m'' \<and>
      keeps (span c (unat (data_size f))) m' m'' \<and> signed_value m'' f c = Some v"
    and "\<exists>m''. decodes (\<lambda>s m. Some (pb_dec_svarint s f c m)) (varint_bytes (zigzag v)) m' m'' \<and>
      keeps (span c (unat (data_size f))) m' m'' \<and> signed_value m'' f c = Some v"
  using store_signed_value [OF assms, of c m'] scast_value_32 [OF assms]
  by (auto simp: decodes_def pb_dec_varint_def pb_dec_svarint_def ibuf_varint ibuf_svarint check_clamped_def Let_def)

lemma uvarint_decodes:
  assumes "unsigned_value m f a = Some v"
  shows "\<exists>m''. decodes (\<lambda>s m. Some (pb_dec_uvarint s f c m)) (varint_bytes v) m' m'' \<and>
      keeps (span c (unat (data_size f))) m' m'' \<and> unsigned_value m'' f c = Some v"
  using store_unsigned_value [OF assms, of c m']
  by (auto simp: decodes_def pb_dec_uvarint_def ibuf_varint check_clamped_def Let_def)

lemma fixed_decodes:
  "decodes (\<lambda>s m. Some (pb_dec_fixed32 s f c m)) (load_bytes m a 4) m' (store_word c (load_u32 m a) m')"
  "decodes (\<lambda>s m. Some (pb_dec_fixed64 s f c m)) (load_bytes m a 8) m' (store_word c (load_word m a :: u64) m')"
  using ibuf_fixed(1) [of _ _ "load_u32 m a"] ibuf_fixed(2) [of _ _ "load_word m a :: u64"]
  by (simp_all add: decodes_def pb_dec_fixed32_def pb_dec_fixed64_def load_word_bytes)

lemma ibuf_length:
  assumes "k \<le> length rest" and "length bs < 2 ^ 32"
  shows "pb_decode_varint32 (ibuf (prefixed bs @ rest) (length (prefixed bs) + k)) =
    (Some (word_of_nat (length bs)), ibuf (bs @ rest) (length bs + k))"
proof -
  let ?w = "word_of_nat (length bs) :: u64"
  have w: "unat ?w = length bs" "(ucast ?w :: u32) = word_of_nat (length bs)"
    using assms(2) by (simp_all add: word_unat_eq_iff unat_of_nat unat_ucast_mod)
  then show ?thesis
    using ibuf_varint32 [of "length bs + k" "bs @ rest" ?w] assms by (simp add: prefixed_def add.assoc)
qed

lemma ibuf_read_to: "read_to (ibuf (bs @ rest) (length bs + k)) c (length bs) m = (True, ibuf rest k, store_bytes c bs m)"
  by (simp add: read_to_def ibuf_read)

lemma alloc_size_fits: "bytes_alloc_size sz \<le> ucast n \<Longrightarrow> unat sz + 4 \<le> unat (n :: u32)"
proof -
  assume fit: "bytes_alloc_size sz \<le> ucast n"
  have "unat sz < 2 ^ 32" using unat_less_two_power [of sz] by simp
  then have "unat (bytes_alloc_size sz) = unat sz + 4" by (simp add: bytes_alloc_size_def unat_word_ariths)
  with fit show ?thesis by (simp add: word_le_nat_alt)
qed

lemma bytes_decode:
  assumes ty: "atype f = PB_ATYPE_STATIC" and fit: "bytes_alloc_size (load_u32 m a) \<le> ucast (data_size f)"
    and four: "4 \<le> unat (data_size f)"
  defines "bs \<equiv> load_bytes m (a + 4) (unat (load_u32 m a))"
  shows "\<exists>m''. decodes (\<lambda>s m. Some (pb_dec_bytes s f c m)) (prefixed bs) m' m'' \<and>
      keeps (span c (unat (data_size f))) m' m'' \<and>
      load_bytes m'' (c + 4) (min (unat (load_u32 m'' c)) (unat (data_size f) - 4)) = bs"
proof -
  let ?sz = "load_u32 m a"
  let ?m1 = "store_word c ?sz m'"
  let ?m2 = "store_bytes (c + 4) bs ?m1"
  have sz: "unat ?sz < 2 ^ 32" using unat_less_two_power [of ?sz] by simp
  have len: "length bs = unat ?sz" by (simp add: bs_def)
  have alloc: "unat (bytes_alloc_size ?sz) = unat ?sz + 4" using sz by (simp add: bytes_alloc_size_def unat_word_ariths)
  have le: "unat ?sz + 4 \<le> unat (data_size f)" by (rule alloc_size_fits [OF fit])
  have ok: "\<not> bytes_alloc_size ?sz < ucast ?sz" "\<not> PB_SIZE_MAX < ?sz"
    using alloc by (simp_all add: word_less_nat_alt not_less) (use sz in simp)
  have w: "(word_of_nat (length bs) :: u32) = ?sz" by (simp add: len)
  have "decodes (\<lambda>s m. Some (pb_dec_bytes s f c m)) (prefixed bs) m' ?m2"
    unfolding decodes_def
  proof (intro allI impI)
    fix rest :: "u8 list" and k assume k: "k \<le> length rest"
    show "Some (pb_dec_bytes (ibuf (prefixed bs @ rest) (length (prefixed bs) + k)) f c m') = Some (True, ibuf rest k, ?m2)"
      using ibuf_read_to [of bs rest k "c + 4" ?m1] ibuf_length [OF k, of bs] ok ty sz leD [OF fit]
      by (simp add: pb_dec_bytes_def len w Let_def)
  qed
  moreover have "keeps (span c (unat (data_size f))) m' ?m2"
    by (intro keeps_trans [OF keeps_store_word keeps_store])
      (use le span_mono [of 4 "unat (data_size f)" c] span_offset [of 4 "unat ?sz" "unat (data_size f)" c] in \<open>simp_all add: len\<close>)
  moreover have "load_u32 ?m2 c = ?sz"
  proof -
    have "span c 4 \<inter> span (c + word_of_nat 4) (length bs) = {}"
      using span_apart [of 0 4 4 "length bs" c] sz by (simp add: apart_def len)
    then have "load_u32 ?m2 c = load_u32 ?m1 c"
      by (intro load_word_cong) (auto intro!: store_other)
    then show ?thesis using load_store_word [where 'a = 32, of 4 c ?sz m'] by simp
  qed
  moreover have "load_bytes ?m2 (c + 4) (unat ?sz) = bs"
    using load_store_same [of bs "c + 4" ?m1] sz by (simp add: len)
  ultimately show ?thesis using le by (intro exI [of _ ?m2]) (simp add: min_absorb1)
qed

lemma string_size_eq:
  "(\<And>i. i < n \<Longrightarrow> m (a + word_of_nat i) \<noteq> 0) \<Longrightarrow> m (a + word_of_nat n) = 0 \<Longrightarrow> n < N \<Longrightarrow> string_size m a N = n"
proof (induction N arbitrary: a n)
  case (Suc N)
  show ?case
  proof (cases n)
    case 0
    then show ?thesis using Suc.prems(2) by simp
  next
    case (Suc l)
    have "string_size m (a + 1) N = l"
    proof (rule Suc.IH)
      show "m (a + 1 + word_of_nat i) \<noteq> 0" if "i < l" for i
        using Suc.prems(1) [of "Suc i"] that Suc by (simp add: add.assoc)
    qed (use Suc.prems Suc in \<open>simp_all add: add.assoc\<close>)
    with Suc.prems(1) [of 0] Suc show ?thesis by simp
  qed
qed simp

lemma string_size_chars:
  "i < string_size m a N \<Longrightarrow> m (a + word_of_nat i) \<noteq> 0"
proof (induction N arbitrary: a i)
  case (Suc N)
  then show ?case by (cases i) (auto simp: add.assoc split: if_splits dest: Suc.IH)
qed simp

lemma string_decodes:
  assumes ty: "atype f = PB_ATYPE_STATIC" and fits: "string_size m a (unat (data_size f)) < unat (data_size f)"
  defines "bs \<equiv> load_bytes m a (string_size m a (unat (data_size f)))"
  shows "\<exists>m''. decodes (\<lambda>s m. Some (pb_dec_string s f c m)) (prefixed bs) m' m'' \<and>
      keeps (span c (unat (data_size f))) m' m'' \<and>
      load_bytes m'' c (string_size m'' c (unat (data_size f))) = bs"
proof -
  let ?n = "string_size m a (unat (data_size f))"
  let ?m2 = "store_bytes (c + word_of_nat ?n) [0] (store_bytes c bs m')"
  note ds = data_size_bound [of f]
  have len: "length bs = ?n" by (simp add: bs_def)
  have n: "?n + 1 < 2 ^ 32" "unat (word_of_nat ?n :: u32) = ?n" "unat (word_of_nat ?n + 1 :: u32) = ?n + 1"
    using ds fits by (simp_all add: unat_of_nat unat_word_ariths)
  have "decodes (\<lambda>s m. Some (pb_dec_string s f c m)) (prefixed bs) m' ?m2"
    unfolding decodes_def
  proof (intro allI impI)
    fix rest :: "u8 list" and k assume k: "k \<le> length rest"
    have "(ucast (word_of_nat ?n :: u32) :: u64) = word_of_nat ?n" using n(2) by (simp add: word_unat_eq_iff unat_of_nat)
    moreover have "\<not> (ucast (word_of_nat ?n + 1 :: u32) :: u64) < ucast (word_of_nat ?n :: u32)"
      "\<not> (ucast (data_size f) :: u64) < ucast (word_of_nat ?n + 1 :: u32)"
      using n fits by (simp_all add: word_less_nat_alt)
    ultimately show "Some (pb_dec_string (ibuf (prefixed bs @ rest) (length (prefixed bs) + k)) f c m') = Some (True, ibuf rest k, ?m2)"
      using ibuf_read_to [of bs rest k c m'] ty n
      by (simp add: pb_dec_string_def ibuf_length [OF k] len Let_def)
  qed
  moreover have "keeps (span c (unat (data_size f))) m' ?m2"
    by (intro keeps_trans [OF keeps_store keeps_store])
      (use fits span_mono [of ?n "unat (data_size f)" c] span_offset [of ?n 1 "unat (data_size f)" c] ds in \<open>simp_all add: len\<close>)
  moreover have chars: "load_bytes ?m2 c ?n = bs"
  proof -
    have "span c ?n \<inter> span (c + word_of_nat ?n) 1 = {}"
      using span_apart [of 0 ?n ?n 1 c] n by (simp add: apart_def)
    then show ?thesis
      using load_store_other [of c ?n "c + word_of_nat ?n" "[0]" "store_bytes c bs m'"] load_store_same [of bs c m'] n
      by (simp add: len)
  qed
  moreover have "string_size ?m2 c (unat (data_size f)) = ?n"
  proof (rule string_size_eq)
    fix i assume i: "i < ?n"
    have "?m2 (c + word_of_nat i) = bs ! i" using arg_cong [OF chars, of "\<lambda>bs. bs ! i"] i by simp
    then show "?m2 (c + word_of_nat i) \<noteq> 0" using string_size_chars [OF i] i by (simp add: bs_def)
  qed (use fits in simp_all)
  ultimately show ?thesis by (intro exI [of _ ?m2]) simp
qed

lemma fixed_bytes_decode:
  "\<exists>m''. decodes (\<lambda>s m. Some (pb_dec_fixed_length_bytes s f c m)) (prefixed (load_bytes m a (unat (data_size f)))) m' m'' \<and>
      keeps (span c (unat (data_size f))) m' m'' \<and> load_bytes m'' c (unat (data_size f)) = load_bytes m a (unat (data_size f))"
proof -
  let ?bs = "load_bytes m a (unat (data_size f))"
  note ds = data_size_bound [of f]
  have le: "\<not> PB_SIZE_MAX < data_size f" by (simp add: word_less_nat_alt not_less) (use ds in simp)
  have "decodes (\<lambda>s m. Some (pb_dec_fixed_length_bytes s f c m)) (prefixed ?bs) m' (store_bytes c ?bs m')"
    unfolding decodes_def
  proof (intro allI impI)
    fix rest :: "u8 list" and k assume k: "k \<le> length rest"
    show "Some (pb_dec_fixed_length_bytes (ibuf (prefixed ?bs @ rest) (length (prefixed ?bs) + k)) f c m') =
        Some (True, ibuf rest k, store_bytes c ?bs m')"
      using ibuf_read_to [of ?bs rest k c m'] ibuf_length [OF k, of ?bs] ds le
      by (auto simp: pb_dec_fixed_length_bytes_def)
  qed
  then show ?thesis using load_store_same [of ?bs c m'] ds
    by (intro exI [of _ "store_bytes c ?bs m'"]) (auto intro!: keeps_store)
qed

text \<open>What is to be shown of messages, one level down.\<close>

definition message_decodes :: "nat \<Rightarrow> u8 list decode_env \<Rightarrow> 'e encode_env \<Rightarrow> mem \<Rightarrow> fld list \<Rightarrow> u64 \<Rightarrow> u64 \<Rightarrow> nat \<Rightarrow> bool" where
  "message_decodes d D E m fs a c n \<longleftrightarrow>
     (\<forall>m'. initialised d (dec_fields D) m' fs c \<longrightarrow>
        (\<exists>m''. (\<forall>rest. pb_decode_noinit d D (ibuf (message_bytes d E m fs a @ rest) (length (message_bytes d E m fs a))) fs c m' =
              Some (True, ibuf rest 0, m'')) \<and>
           keeps (span c n) m' m'' \<and> message_value d (dec_fields D) m'' fs c = message_value d (dec_fields D) m fs a))"

lemma submessage_decodes:
  assumes p: "ptr f = Some p" and l: "layout_ok d (dec_fields D) (dec_fields D p) (unat (data_size f))"
      "plain d (dec_fields D) (dec_fields D p)"
    and sub: "message_decodes d D E m (dec_fields D p) a c (unat (data_size f))"
    and init: "htype f \<noteq> PB_HTYPE_REPEATED \<Longrightarrow> initialised d (dec_fields D) m' (dec_fields D p) c"
    and len: "length (message_bytes d E m (dec_fields D p) a) < 2 ^ 32"
  shows "\<exists>m''. decodes (\<lambda>s m. pb_dec_submessage D (pb_message_set_to_defaults d (dec_fields D)) (pb_decode_noinit d D) s f c m)
        (prefixed (message_bytes d E m (dec_fields D p) a)) m' m'' \<and>
      keeps (span c (unat (data_size f))) m' m'' \<and>
      message_value d (dec_fields D) m'' (dec_fields D p) c = message_value d (dec_fields D) m (dec_fields D p) a"
proof -
  let ?bs = "message_bytes d E m (dec_fields D p) a" and ?A = "span c (unat (data_size f))"
  obtain m1 where m1: "(if htype f = PB_HTYPE_REPEATED then pb_message_set_to_defaults d (dec_fields D) (dec_fields D p) c m'
      else Some m') = Some m1" "keeps ?A m' m1" "initialised d (dec_fields D) m1 (dec_fields D p) c"
    using defaults_do_initialise [of d "dec_fields D", unfolded defaults_initialise_def, rule_format, OF l, of c m'] init
    by (cases "htype f = PB_HTYPE_REPEATED") auto
  from sub m1(3) obtain m2 where m2: "\<And>rest. pb_decode_noinit d D (ibuf (?bs @ rest) (length ?bs)) (dec_fields D p) c m1 =
      Some (True, ibuf rest 0, m2)" "keeps ?A m1 m2"
    "message_value d (dec_fields D) m2 (dec_fields D p) c = message_value d (dec_fields D) m (dec_fields D p) a"
    unfolding message_decodes_def by blast
  have "decodes (\<lambda>s m. pb_dec_submessage D (pb_message_set_to_defaults d (dec_fields D)) (pb_decode_noinit d D) s f c m)
      (prefixed ?bs) m' m2"
    unfolding decodes_def
  proof (intro allI impI)
    fix rest :: "u8 list" and k assume k: "k \<le> length rest"
    show "pb_dec_submessage D (pb_message_set_to_defaults d (dec_fields D)) (pb_decode_noinit d D)
        (ibuf (prefixed ?bs @ rest) (length (prefixed ?bs) + k)) f c m' = Some (True, ibuf rest k, m2)"
      unfolding pb_dec_submessage_def ibuf_substream [OF k len] prod.case option.case p m1(1) m2(1) ibuf_close by simp
  qed
  with m2 m1(2) show ?thesis by (intro exI [of _ m2]) (auto intro: keeps_trans)
qed

definition messages_decode :: "nat \<Rightarrow> u8 list decode_env \<Rightarrow> 'e encode_env \<Rightarrow> mem \<Rightarrow> bool" where
  "messages_decode d D E m \<longleftrightarrow>
     (\<forall>fs n a c. layout_ok d (dec_fields D) fs n \<longrightarrow> plain d (dec_fields D) fs \<longrightarrow> encodable d E m fs a \<longrightarrow>
        proper d (dec_fields D) m fs a \<longrightarrow> length (message_bytes d E m fs a) < 2 ^ 32 \<longrightarrow> message_decodes d D E m fs a c n)"

lemma item_decodes:
  assumes ty: "atype f = PB_ATYPE_STATIC" and ok: "item_ok (\<lambda>p. layout_ok d (dec_fields D) (dec_fields D p)) f"
    and plain: "plain_field (\<lambda>p. plain d (dec_fields D) (dec_fields D p)) f"
    and enc: "item_encodable (encodable d E m) (dec_fields D) m f a"
    and proper: "item_proper (proper d (dec_fields D)) (dec_fields D) m f a"
    and len: "length (item_bytes (message_bytes d E m) (dec_fields D) m f a) < 2 ^ 32"
    and init: "ltype f = PB_LTYPE_SUBMESSAGE \<Longrightarrow> htype f \<noteq> PB_HTYPE_REPEATED \<Longrightarrow>
      initialised d (dec_fields D) m' (dec_fields D (the (ptr f))) c"
    and sub: "messages_decode d D E m"
  shows "\<exists>m''. decodes (\<lambda>s m. PB_DECODERS D (pb_message_set_to_defaults d (dec_fields D)) (pb_decode_noinit d D) s f c m)
        (item_bytes (message_bytes d E m) (dec_fields D) m f a) m' m'' \<and>
      keeps (span c (unat (data_size f))) m' m'' \<and>
      item_value (message_value d (dec_fields D)) (dec_fields D) m'' f c =
        item_value (message_value d (dec_fields D)) (dec_fields D) m f a"
proof -
  have a: "a \<noteq> 0" using proper by (simp add: item_proper_def)
  consider "ltype f = PB_LTYPE_VARINT" | "ltype f = PB_LTYPE_UVARINT" | "ltype f = PB_LTYPE_SVARINT"
    | "ltype f = PB_LTYPE_FIXED32" | "ltype f = PB_LTYPE_FIXED64" | "ltype f = PB_LTYPE_BYTES"
    | "ltype f = PB_LTYPE_STRING" | "ltype f = PB_LTYPE_SUBMESSAGE" | "ltype f = PB_LTYPE_FIXED_LENGTH_BYTES"
    using item_encodable_ltype [OF enc] by blast
  then show ?thesis
  proof cases
    case 1
    with enc obtain v where "signed_value m f a = Some v" by (auto simp: item_encodable_def signed_value_def)
    with 1 varint_decodes(1) [OF this, of c m'] show ?thesis by (auto simp: PB_DECODERS_def item_bytes_def item_value_def)
  next
    case 2
    with enc obtain v where "unsigned_value m f a = Some v" by (auto simp: item_encodable_def unsigned_value_def)
    with 2 uvarint_decodes [OF this, of c m'] show ?thesis by (auto simp: PB_DECODERS_def item_bytes_def item_value_def)
  next
    case 3
    with enc obtain v where "signed_value m f a = Some v" by (auto simp: item_encodable_def signed_value_def)
    with 3 varint_decodes(2) [OF this, of c m'] show ?thesis by (auto simp: PB_DECODERS_def item_bytes_def item_value_def)
  next
    case 4
    then have "data_size f = 4" using ok by (simp add: item_ok_def)
    with 4 show ?thesis
      using fixed_decodes(1) [of f c m a m'] load_store_word [where 'a = 32, of 4 c "load_u32 m a" m']
      by (intro exI [of _ "store_word c (load_u32 m a) m'"])
        (simp add: PB_DECODERS_def item_bytes_def item_value_def keeps_store_word)
  next
    case 5
    then have "data_size f = 8" using ok by (simp add: item_ok_def)
    with 5 show ?thesis
      using fixed_decodes(2) [of f c m a m'] load_store_word [where 'a = 64, of 8 c "load_word m a" m']
      by (intro exI [of _ "store_word c (load_word m a :: u64) m'"])
        (simp add: PB_DECODERS_def item_bytes_def item_value_def keeps_store_word)
  next
    case 6
    have fit: "bytes_alloc_size (load_u32 m a) \<le> ucast (data_size f)" and four: "4 \<le> unat (data_size f)"
      using 6 enc plain a ty by (auto simp: item_encodable_def plain_field_def)
    have "unat (load_u32 m a) \<le> unat (data_size f) - 4" using alloc_size_fits [OF fit] by simp
    with 6 bytes_decode [OF ty fit four, of c m'] a show ?thesis
      by (auto simp: PB_DECODERS_def item_bytes_def item_value_def min_absorb1)
  next
    case 7
    then have "string_size m a (unat (data_size f)) < unat (data_size f)" using proper by (simp add: item_proper_def)
    with 7 string_decodes [OF ty this, of c m'] a ty show ?thesis
      by (auto simp: PB_DECODERS_def item_bytes_def item_value_def)
  next
    case 8
    then obtain p where p: "ptr f = Some p" "layout_ok d (dec_fields D) (dec_fields D p) (unat (data_size f))"
      using ok by (auto simp: item_ok_def split: option.splits)
    have q: "plain d (dec_fields D) (dec_fields D p)" "encodable d E m (dec_fields D p) a" "proper d (dec_fields D) m (dec_fields D p) a"
      using 8 p plain enc proper by (auto simp: plain_field_def item_encodable_def item_proper_def)
    have len': "length (message_bytes d E m (dec_fields D p) a) < 2 ^ 32"
      using len 8 p by (simp add: item_bytes_def prefixed_def)
    have "initialised d (dec_fields D) m' (dec_fields D p) c" if "htype f \<noteq> PB_HTYPE_REPEATED" using init 8 p that by simp
    moreover have "message_decodes d D E m (dec_fields D p) a c (unat (data_size f))"
      using sub p(2) q len' unfolding messages_decode_def by blast
    ultimately show ?thesis using submessage_decodes [OF p q(1) _ _ len'] 8 p
      by (auto simp: PB_DECODERS_def item_bytes_def item_value_def)
  next
    case 9
    with fixed_bytes_decode [of f c m a m'] show ?thesis
      by (auto simp: PB_DECODERS_def item_bytes_def item_value_def)
  qed
qed

section \<open>Steps of the decoding loop\<close>

lemma find_field:
  assumes d: "descriptor fs N" and p: "valid_pos N p" and i: "i < N"
    and tags: "\<And>j. j < N \<Longrightarrow> tag (fs ! j) = tag (fs ! i) \<Longrightarrow> j = i" and ty: "ltype (fs ! i) \<noteq> PB_LTYPE_EXTENSION"
  shows "pb_field_iter_find (iter_at fs b p) (tag (fs ! i)) = Some (True, iter_at fs b i)"
proof -
  have p: "p < N" using p i by (auto simp: valid_pos_def)
  let ?m = "\<lambda>k. matches (tag (fs ! i)) (fs ! ((p + k) mod N))"
  have here: "matches (tag (fs ! i)) (fs ! i)" using ty by (simp add: matches_def)
  have "?m ((i + N - p) mod N)" using here p i by (simp add: mod_add_right_eq)
  then have "?m (LEAST k. ?m k)" by (rule LeastI)
  then have "(p + (LEAST k. ?m k)) mod N = i" using i by (intro tags) (simp_all add: matches_def)
  with here i show ?thesis unfolding field_iter_find_eq [OF d p] by auto
qed

type_synonym known = "u8 list pb_istream \<Rightarrow> pb_wire_type_t \<Rightarrow> iter \<Rightarrow> mem \<Rightarrow> u8 list dec"
type_synonym unknown = "u8 list pb_istream \<Rightarrow> u32 \<Rightarrow> pb_wire_type_t \<Rightarrow> iter \<Rightarrow> u32 \<Rightarrow> mem \<Rightarrow>
  (bool \<times> u8 list pb_istream \<times> iter \<times> u32 \<times> mem) option"

text \<open>The loop reads \<open>e\<close>, wherever its iterator stands before.\<close>

definition runs :: "known \<Rightarrow> unknown \<Rightarrow> fld list \<Rightarrow> u64 \<Rightarrow> u8 list \<Rightarrow> u32 list \<Rightarrow> mem \<Rightarrow> u32 list \<Rightarrow> mem \<Rightarrow> bool" where
  "runs K U fs b e seen m seen' m' \<longleftrightarrow>
     (\<forall>p rest k. valid_pos (length fs - 1) p \<longrightarrow> k \<le> length rest \<longrightarrow>
        (\<exists>q. valid_pos (length fs - 1) q \<and>
           decode_loop K U (ibuf (e @ rest) (length e + k)) (iter_at fs b p) seen 0 m =
           decode_loop K U (ibuf rest k) (iter_at fs b q) seen' 0 m'))"

lemma runs_Nil: "runs K U fs b [] seen m seen m"
  by (auto simp: runs_def)

lemma runs_append:
  assumes e: "runs K U fs b e seen m seen1 m1" and e': "runs K U fs b e' seen1 m1 seen2 m2"
  shows "runs K U fs b (e @ e') seen m seen2 m2"
  unfolding runs_def
proof (intro allI impI)
  fix p :: nat and rest :: "u8 list" and k
  assume p: "valid_pos (length fs - 1) p" and k: "k \<le> length rest"
  have "length e' + k \<le> length (e' @ rest)" using k by simp
  with e p obtain q where q: "valid_pos (length fs - 1) q"
    "decode_loop K U (ibuf (e @ e' @ rest) (length e + (length e' + k))) (iter_at fs b p) seen 0 m =
      decode_loop K U (ibuf (e' @ rest) (length e' + k)) (iter_at fs b q) seen1 0 m1" unfolding runs_def by blast
  from e' q(1) k obtain r where "valid_pos (length fs - 1) r"
    "decode_loop K U (ibuf (e' @ rest) (length e' + k)) (iter_at fs b q) seen1 0 m1 =
      decode_loop K U (ibuf rest k) (iter_at fs b r) seen2 0 m2" unfolding runs_def by blast
  with q(2) show "\<exists>q. valid_pos (length fs - 1) q \<and>
      decode_loop K U (ibuf ((e @ e') @ rest) (length (e @ e') + k)) (iter_at fs b p) seen 0 m =
      decode_loop K U (ibuf rest k) (iter_at fs b q) seen2 0 m2" by (auto simp: add.assoc)
qed

lemma plain_tags:
  assumes "plain (Suc d) flds fs" and "i < length fs - 1" and "j < length fs - 1" and "tag (fs ! j) = tag (fs ! i)"
  shows "j = i"
proof -
  have "distinct (map tag (butlast fs))" using assms(1) by simp
  moreover have "map tag (butlast fs) ! j = map tag (butlast fs) ! i" using assms(2-4) by (simp add: nth_butlast)
  ultimately show ?thesis using assms(2,3) nth_eq_iff_index_eq [of "map tag (butlast fs)" j i] by simp
qed

lemma runs_field:
  assumes l: "layout_ok (Suc d) flds fs n" and p: "plain (Suc d) flds fs" and i: "i < length fs - 1"
    and wt: "unat wt < 8" and dec: "decodes (\<lambda>s. K s wt (iter_at fs b i)) e m m'"
  shows "runs K U fs b (tag_bytes wt (tag (fs ! i)) @ e) seen m (mark_seen (iter_at fs b i) seen) m'"
  unfolding runs_def
proof (intro allI impI)
  fix q :: nat and rest :: "u8 list" and k
  assume q: "valid_pos (length fs - 1) q" and k: "k \<le> length rest"
  let ?t = "tag (fs ! i)"
  note d = layout_descriptor [OF l]
  have t: "?t \<noteq> 0" "unat ?t < 2 ^ 29" using d i plain_fieldD [OF p i] by (auto simp: descriptor_def plain_field_def)
  have tag: "pb_decode_tag (ibuf (tag_bytes wt ?t @ e @ rest) (length (tag_bytes wt ?t) + (length e + k))) =
      ((True, wt, ?t, False), ibuf (e @ rest) (length e + k))"
    by (rule ibuf_tag) (use k t wt in simp_all)
  have "pb_field_iter_find (iter_at fs b q) ?t = Some (True, iter_at fs b i)"
    by (rule find_field [OF d q i plain_tags [OF p i] field_types(2) [OF layout_fieldD [OF l i]]])
  moreover have "K (ibuf (e @ rest) (length e + k)) wt (iter_at fs b i) m = Some (True, ibuf rest k, m')"
    using dec k by (simp add: decodes_def)
  moreover have "0 < length (tag_bytes wt ?t)" using varint_bytes_not_Nil by (simp add: tag_bytes_def)
  ultimately have "decode_loop K U (ibuf (tag_bytes wt ?t @ e @ rest) (length (tag_bytes wt ?t) + (length e + k))) (iter_at fs b q) seen 0 m =
      decode_loop K U (ibuf rest k) (iter_at fs b i) (mark_seen (iter_at fs b i) seen) 0 m'"
    using tag by (subst decode_loop.simps) (simp add: Let_def del: iter_at.simps)
  moreover have "valid_pos (length fs - 1) i" using i by (simp add: valid_pos_def)
  ultimately show "\<exists>r. valid_pos (length fs - 1) r \<and>
      decode_loop K U (ibuf ((tag_bytes wt ?t @ e) @ rest) (length (tag_bytes wt ?t @ e) + k)) (iter_at fs b q) seen 0 m =
      decode_loop K U (ibuf rest k) (iter_at fs b r) (mark_seen (iter_at fs b i) seen) 0 m'"
    by (auto simp: add.assoc)
qed

section \<open>Marks\<close>

definition marks :: "nat \<Rightarrow> u32 list" where
  "marks r = [mask (min r 32), mask (r - 32)]"

lemma marks_0: "marks 0 = [0, 0]"
  by (simp add: marks_def)

lemma mark_other: "htype (cur iter) \<noteq> PB_HTYPE_REQUIRED \<Longrightarrow> mark_seen iter seen = seen"
  by (simp add: mark_seen_def)

lemma mark_next:
  assumes "htype (cur iter) = PB_HTYPE_REQUIRED" and "unat (required_field_index iter) = r" and "r < 64"
  shows "mark_seen iter (marks r) = marks (Suc r)"
proof -
  let ?r = "required_field_index iter"
  have m: "(31 :: u32) = mask 5" by (simp add: mask_eq_exp_minus_1)
  have w: "unat (drop_bit 5 ?r) = r div 32" "unat (?r AND 31) = r mod 32" "?r < PB_MAX_REQUIRED_FIELDS"
    unfolding m word_and_mask_take_bit using assms(2,3)
    by (simp_all add: unat_drop_bit_div unat_take_bit_mod PB_MAX_REQUIRED_FIELDS_def word_less_nat_alt)
  have step: "mask n OR push_bit n 1 = (mask (Suc n) :: u32)" for n
    by (rule bit_word_eqI) (auto simp: bit_simps less_Suc_eq)
  show ?thesis
  proof (cases "r < 32")
    case True
    then show ?thesis using w assms(1) step [of r]
      by (simp add: mark_seen_def marks_def Let_def min_def)
  next
    case False
    then have "r div 32 = 1" using assms(3) by (intro div_nat_eqI) simp_all
    moreover from this have "r mod 32 = r - 32" using mult_div_mod_eq [of 32 r] by simp
    moreover have "Suc (r - 32) = r - 31" using False by simp
    ultimately show ?thesis using w assms(1) step [of "r - 32"] False
      by (simp add: mark_seen_def marks_def Let_def min_def Suc_diff_le)
  qed
qed

lemma marks_complete:
  assumes d: "descriptor fs N" and N: "N < 2 ^ 32" and j: "valid_pos N j" and c: "countable fs N"
  shows "required_seen (iter_at fs b j) (marks (required_before fs N)) = Some True"
proof -
  let ?r = "required_before fs N"
  obtain c where c': "required_seen (iter_at fs b j) (marks ?r) = check_required (marks ?r) c" "unat c = ?r"
    by (rule required_seen_eq [OF d N j, of b "marks ?r"])
  have m: "(31 :: u32) = mask 5" by (simp add: mask_eq_exp_minus_1)
  have w: "unat (drop_bit 5 c) = ?r div 32" "unat (c AND 31) = ?r mod 32" "c = 0 \<longleftrightarrow> ?r = 0"
    unfolding m word_and_mask_take_bit c'(2) [symmetric] by (simp_all add: unat_drop_bit_div unat_take_bit_mod unat_eq_zero)
  have ones: "drop_bit (32 - k) (- 1) = (mask k :: u32)" if "k < 32" for k
    by (rule bit_word_eqI) (use that in \<open>auto simp: bit_simps\<close>)
  have full: "mask 32 = (- 1 :: u32)" by (rule bit_word_eqI) (auto simp: bit_simps)
  have "?r < 64" "?r \<noteq> 32" using c by (auto simp: countable_def)
  then consider "?r = 0" | "0 < ?r" "?r < 32" | "32 < ?r" "?r < 64" by linarith
  then show ?thesis
  proof cases
    case 1
    with w show ?thesis unfolding c'(1) check_required_def by simp
  next
    case 2
    with w ones [of ?r] show ?thesis unfolding c'(1) check_required_def by (simp add: Let_def marks_def min_def)
  next
    case 3
    then have "?r div 32 = 1" by (intro div_nat_eqI) simp_all
    moreover from this have "?r mod 32 = ?r - 32" using mult_div_mod_eq [of 32 ?r] by simp
    ultimately show ?thesis using 3 w ones [of "?r - 32"] full
      unfolding c'(1) check_required_def by (simp add: Let_def marks_def min_def)
  qed
qed

section \<open>Arrays\<close>

text \<open>Field \<open>i\<close>, repeated, after its first \<open>j\<close> entries: \<open>m\<close> and \<open>a\<close> are the source, \<open>m0\<close> the memory before.\<close>

definition array_after ::
    "nat \<Rightarrow> (u64 \<Rightarrow> fld list) \<Rightarrow> fld list \<Rightarrow> nat \<Rightarrow> mem \<Rightarrow> u64 \<Rightarrow> mem \<Rightarrow> u64 \<Rightarrow> nat \<Rightarrow> mem \<Rightarrow> bool" where
  "array_after d flds fs i m a m0 b j m' \<longleftrightarrow>
     keeps (region fs b i) m0 m' \<and> load_u32 m' (pSize (iter_at fs b i)) = word_of_nat j \<and>
     (\<forall>k<j. item_value (message_value d flds) flds m' (fs ! i) (pData (iter_at fs b i) + word_of_nat k * ucast (data_size (fs ! i))) =
        item_value (message_value d flds) flds m (fs ! i) (pData (iter_at fs a i) + word_of_nat k * ucast (data_size (fs ! i))))"

lemma item_value_kept:
  assumes "layout_ok (Suc d) flds fs n" and "plain (Suc d) flds fs" and "i < length fs - 1"
    and ag: "agree (span c (unat (data_size (fs ! i)))) m m'"
  shows "item_value (message_value d flds) flds m (fs ! i) c = item_value (message_value d flds) flds m' (fs ! i) c"
proof (rule item_value_cong [where sub_ok = "layout_ok d flds"])
  note f = layout_fieldD [OF assms(1,3)] and pf = plain_fieldD [OF assms(2,3)]
  show "message_value d flds m (flds q) c = message_value d flds m' (flds q) c"
    if "ptr (fs ! i) = Some q" "ltype (fs ! i) = PB_LTYPE_SUBMESSAGE" "layout_ok d flds (flds q) (unat (data_size (fs ! i)))" for q
    by (rule message_value_cong [OF that(3) _ ag]) (use that pf in \<open>simp add: plain_field_def\<close>)
qed (use layout_fieldD [OF assms(1,3)] plain_fieldD [OF assms(2,3)] ag in \<open>simp_all add: field_ok_def plain_field_def\<close>)

lemma decoder_entry_addr:
  assumes "htype f = PB_HTYPE_REPEATED" and "field_length f < 2 ^ 32" and "j < unat (array_size f)"
  shows "ucast (data_size f * word_of_nat j) = (word_of_nat j * ucast (data_size f) :: u64)"
proof -
  have "j * unat (data_size f) \<le> unat (array_size f) * unat (data_size f)" using assms(3) by (intro mult_right_mono) simp_all
  moreover have "unat (array_size f) * unat (data_size f) < 2 ^ 32" using assms(1,2) by (simp add: field_length_def mult.commute)
  ultimately have lt: "unat (data_size f) * j < 2 ^ 32" unfolding mult.commute [of "unat (data_size f)" j] by (rule le_less_trans)
  have j: "j < 2 ^ 32" using assms(3) unat_less_two_power [of "array_size f"] by simp
  have "unat (data_size f * word_of_nat j) = unat (data_size f) * j"
    using lt j by (simp add: unat_word_ariths unat_of_nat)
  then show ?thesis using lt j
    by (simp add: word_unat_eq_iff unat_word_ariths unat_of_nat mult.commute)
qed

lemma array_step:
  assumes l: "layout_ok (Suc d) flds fs n" and p: "plain (Suc d) flds fs" and i: "i < length fs - 1"
    and h: "htype (fs ! i) = PB_HTYPE_REPEATED" and j: "j < unat (array_size (fs ! i))"
    and inv: "array_after d flds fs i m a m0 b j m1"
    and step: "keeps (span (pData (iter_at fs b i) + word_of_nat j * ucast (data_size (fs ! i))) (unat (data_size (fs ! i))) \<union>
        span (pSize (iter_at fs b i)) 4) m1 m2"
      "load_u32 m2 (pSize (iter_at fs b i)) = word_of_nat (Suc j)"
      "item_value (message_value d flds) flds m2 (fs ! i) (pData (iter_at fs b i) + word_of_nat j * ucast (data_size (fs ! i))) =
        item_value (message_value d flds) flds m (fs ! i) (pData (iter_at fs a i) + word_of_nat j * ucast (data_size (fs ! i)))"
  shows "array_after d flds fs i m a m0 b (Suc j) m2"
proof -
  let ?f = "fs ! i"
  let ?entry = "\<lambda>k. pData (iter_at fs b i) + word_of_nat k * ucast (data_size ?f)" and ?ds = "unat (data_size ?f)"
  have fl: "field_length ?f < 2 ^ 32" using layout_fieldD [OF l i] by (simp add: field_ok_def)
  have inside: "span (?entry k) ?ds \<subseteq> span (pData (iter_at fs b i)) (field_length ?f)" if "k < unat (array_size ?f)" for k
    by (rule entry_within [OF h fl that])
  have "keeps (region fs b i) m1 m2"
    by (rule keeps_mono [OF step(1)]) (use inside [OF j] region_parts(2,3) [OF h, of b] in blast)
  then have keep: "keeps (region fs b i) m0 m2" using inv keeps_trans by (auto simp: array_after_def)
  have old: "item_value (message_value d flds) flds m1 ?f (?entry k) = item_value (message_value d flds) flds m2 ?f (?entry k)"
    if k: "k < j" for k
  proof (rule item_value_kept [OF l p i keeps_agree [OF step(1)]])
    have "span (?entry k) ?ds \<inter> span (pSize (iter_at fs b i)) 4 = {}"
      using flag_outside [OF l p i, of b] inside [of k] k j h by (auto simp: flag_length_def)
    moreover have "span (?entry k) ?ds \<inter> span (?entry j) ?ds = {}" by (rule entries_disjoint [OF h fl k j])
    ultimately show "(span (?entry j) ?ds \<union> span (pSize (iter_at fs b i)) 4) \<inter> span (?entry k) ?ds = {}" by blast
  qed
  with inv keep step(2,3) show ?thesis by (auto simp: array_after_def less_Suc_eq)
qed

definition source_field :: "nat \<Rightarrow> u8 list decode_env \<Rightarrow> 'e encode_env \<Rightarrow> fld list \<Rightarrow> nat \<Rightarrow> mem \<Rightarrow> u64 \<Rightarrow> nat \<Rightarrow> bool" where
  "source_field d D E fs n m a i \<longleftrightarrow>
     layout_ok (Suc d) (dec_fields D) fs n \<and> plain (Suc d) (dec_fields D) fs \<and> i < length fs - 1 \<and>
     field_encodable (pb_check_proto3_default_value (Suc d) E m) (encodable d E m) (dec_fields D) m (fs ! i)
       (pData (iter_at fs a i)) \<and>
     field_proper (proper d (dec_fields D)) (dec_fields D) m fs a i \<and> messages_decode d D E m"

abbreviation "decoder d D \<equiv> PB_DECODERS D (pb_message_set_to_defaults d (dec_fields D)) (pb_decode_noinit d D)"
abbreviation "field_decoder d D \<equiv> decode_field D (pb_message_set_to_defaults d (dec_fields D)) (pb_decode_noinit d D)"
abbreviation "bytes_of d D E m \<equiv> item_bytes (message_bytes d E m) (dec_fields D) m"
abbreviation "value_of d D \<equiv> item_value (message_value d (dec_fields D)) (dec_fields D)"
abbreviation "entry_at fs a i j \<equiv> pData (iter_at fs a i) + word_of_nat j * ucast (data_size (fs ! i))"

lemma source_fieldD:
  assumes "source_field d D E fs n m a i"
  shows "layout_ok (Suc d) (dec_fields D) fs n" "plain (Suc d) (dec_fields D) fs" "i < length fs - 1" "messages_decode d D E m"
    "atype (fs ! i) = PB_ATYPE_STATIC" "item_ok (\<lambda>p. layout_ok d (dec_fields D) (dec_fields D p)) (fs ! i)"
    "plain_field (\<lambda>p. plain d (dec_fields D) (dec_fields D p)) (fs ! i)"
    "pSize (iter_at fs c i) = flag_addr (fs ! i) (pData (iter_at fs c i))" "field_length (fs ! i) < 2 ^ 32"
proof -
  show l: "layout_ok (Suc d) (dec_fields D) fs n" and p: "plain (Suc d) (dec_fields D) fs" and i: "i < length fs - 1"
    and "messages_decode d D E m" using assms by (simp_all only: source_field_def)
  note f = layout_fieldD [OF l i]
  from f show "atype (fs ! i) = PB_ATYPE_STATIC" "item_ok (\<lambda>p. layout_ok d (dec_fields D) (dec_fields D p)) (fs ! i)"
    "field_length (fs ! i) < 2 ^ 32" by (simp_all add: field_ok_def)
  show "plain_field (\<lambda>p. plain d (dec_fields D) (dec_fields D p)) (fs ! i)" by (rule plain_fieldD [OF p i])
  show "pSize (iter_at fs c i) = flag_addr (fs ! i) (pData (iter_at fs c i))"
    by (rule pSize_flag_addr [OF layout_descriptor [OF l] _ i]) (use plain_fieldD [OF p] in \<open>simp add: plain_field_def\<close>)
qed

lemma array_entry:
  assumes s: "source_field d D E fs n m a i" and h: "htype (fs ! i) = PB_HTYPE_REPEATED"
    and j: "j < unat (load_u32 m (pSize (iter_at fs a i)))"
    and len: "length (bytes_of d D E m (fs ! i) (entry_at fs a i j)) < 2 ^ 32"
  shows "\<exists>m2. decodes (\<lambda>s. decoder d D s (fs ! i) (entry_at fs b i j)) (bytes_of d D E m (fs ! i) (entry_at fs a i j)) m1 m2 \<and>
      keeps (span (entry_at fs b i j) (unat (data_size (fs ! i)))) m1 m2 \<and>
      value_of d D m2 (fs ! i) (entry_at fs b i j) = value_of d D m (fs ! i) (entry_at fs a i j)"
    and "j < unat (array_size (fs ! i))"
proof -
  note sf = source_fieldD [OF s]
  have enc: "field_encodable (pb_check_proto3_default_value (Suc d) E m) (encodable d E m) (dec_fields D) m (fs ! i) (pData (iter_at fs a i))"
    and pr: "field_proper (proper d (dec_fields D)) (dec_fields D) m fs a i" using s by (simp_all only: source_field_def)
  have addr: "entry_addr m (fs ! i) (pData (iter_at fs a i)) j = entry_at fs a i j"
    using sf(5) by (simp add: entry_addr_def value_addr_def Let_def)
  have "item_encodable (encodable d E m) (dec_fields D) m (fs ! i) (entry_at fs a i j)"
    unfolding addr [symmetric] using enc h j sf(8) [of a] by (simp add: field_encodable_def del: iter_at.simps)
  moreover have "item_proper (proper d (dec_fields D)) (dec_fields D) m (fs ! i) (entry_at fs a i j)"
    using pr h j by (simp add: field_proper_def Let_def del: iter_at.simps)
  ultimately show "\<exists>m2. decodes (\<lambda>s. decoder d D s (fs ! i) (entry_at fs b i j)) (bytes_of d D E m (fs ! i) (entry_at fs a i j)) m1 m2 \<and>
      keeps (span (entry_at fs b i j) (unat (data_size (fs ! i)))) m1 m2 \<and>
      value_of d D m2 (fs ! i) (entry_at fs b i j) = value_of d D m (fs ! i) (entry_at fs a i j)"
    using item_decodes [where m' = m1 and c = "entry_at fs b i j", OF sf(5-7) _ _ len _ sf(4)] h by simp
  show "j < unat (array_size (fs ! i))"
    using enc h j sf(5) sf(8) [of a] by (simp add: field_encodable_def word_le_nat_alt del: iter_at.simps)
qed

abbreviation "items_of d D E m fs a i j c \<equiv> concat (map (\<lambda>j. bytes_of d D E m (fs ! i) (entry_at fs a i j)) [j..<c])"

lemma items_of_rec: "j < c \<Longrightarrow> items_of d D E m fs a i j c = bytes_of d D E m (fs ! i) (entry_at fs a i j) @ items_of d D E m fs a i (Suc j) c"
  by (simp add: upt_conv_Cons)

lemma packable_bytes: "ltype f \<le> PB_LTYPE_LAST_PACKABLE \<Longrightarrow> item_bytes sub flds m f a \<noteq> []"
proof -
  have "x \<le> 4 \<Longrightarrow> x = 0 \<or> x = 1 \<or> x = 2 \<or> x = 3 \<or> x = (4 :: u8)" for x
    by (simp add: word_le_nat_alt word_unat_eq_iff) arith
  moreover assume "ltype f \<le> PB_LTYPE_LAST_PACKABLE"
  moreover have "load_bytes m a 4 \<noteq> []" "load_bytes m a 8 \<noteq> []" by (simp_all add: load_bytes_def)
  ultimately show ?thesis using varint_bytes_not_Nil by (auto simp: item_bytes_def)
qed

lemma count_successor:
  "keeps (span c k) m m' \<Longrightarrow> span c k \<inter> span flag 4 = {} \<Longrightarrow> load_u32 m flag = word_of_nat j \<Longrightarrow> load_u32 m' flag + 1 = word_of_nat (Suc j)"
  using agree_word [where 'a = 32, of flag m m'] keeps_agree [of "span c k" m m' "span flag 4"] by simp

lemma packed_decodes:
  assumes s: "source_field d D E fs n m a i" and h: "htype (fs ! i) = PB_HTYPE_REPEATED"
    and ty: "ltype (fs ! i) \<le> PB_LTYPE_LAST_PACKABLE"
  shows "c = unat (load_u32 m (pSize (iter_at fs a i))) \<Longrightarrow> j \<le> c \<Longrightarrow> length (items_of d D E m fs a i j c) < 2 ^ 32 \<Longrightarrow>
    array_after d (dec_fields D) fs i m a m0 b j m1 \<Longrightarrow>
    \<exists>m2. array_after d (dec_fields D) fs i m a m0 b c m2 \<and>
      (\<forall>rest. packed_loop (decoder d D) (iter_at fs b i) (ibuf (items_of d D E m fs a i j c @ rest) (length (items_of d D E m fs a i j c))) m1 =
        Some (True, ibuf rest 0, m2))"
proof (induction "c - j" arbitrary: j m1)
  case 0
  then show ?case by (auto simp: packed_loop.simps Let_def simp del: iter_at.simps)
next
  case (Suc k)
  then have j: "j < c" by simp
  let ?f = "fs ! i" and ?flag = "pSize (iter_at fs b i)"
  let ?bs = "bytes_of d D E m ?f (entry_at fs a i j)" and ?rest = "items_of d D E m fs a i (Suc j) c"
  note sf = source_fieldD [OF s]
  note split = items_of_rec [where d = d and D = D and E = E and m = m and fs = fs and a = a and i = i, OF j]
  have cur: "cur (iter_at fs b i) = ?f" by (rule cur_iter_at [OF layout_descriptor [OF sf(1)] sf(3)])
  have len: "length ?bs < 2 ^ 32" "length ?rest < 2 ^ 32" using Suc.prems(3) unfolding split by simp_all
  note entry = array_entry [OF s h j [unfolded Suc.prems(1)] len(1)]
  obtain m2 where m2: "decodes (\<lambda>s. decoder d D s ?f (entry_at fs b i j)) ?bs m1 m2"
    "keeps (span (entry_at fs b i j) (unat (data_size ?f))) m1 m2"
    "value_of d D m2 ?f (entry_at fs b i j) = value_of d D m ?f (entry_at fs a i j)" using entry(1) by blast
  have apart: "span (entry_at fs b i j) (unat (data_size ?f)) \<inter> span ?flag 4 = {}"
    using entry_within [OF h sf(9) entry(2), of "pData (iter_at fs b i)"] flag_outside [OF sf(1-3), of b] h
    by (auto simp: flag_length_def)
  have count: "load_u32 m1 ?flag = word_of_nat j" using Suc.prems(4) by (simp add: array_after_def)
  let ?m3 = "store_word ?flag (load_u32 m2 ?flag + 1) m2"
  have next_count: "load_u32 m2 ?flag + 1 = word_of_nat (Suc j)" by (rule count_successor [OF m2(2) apart count])
  have m3: "array_after d (dec_fields D) fs i m a m0 b (Suc j) ?m3"
  proof (rule array_step [OF sf(1-3) h entry(2) Suc.prems(4)])
    show "keeps (span (entry_at fs b i j) (unat (data_size ?f)) \<union> span ?flag 4) m1 ?m3"
      by (rule keeps_trans [OF keeps_mono [OF m2(2)] keeps_store_word]) auto
    show "load_u32 ?m3 ?flag = word_of_nat (Suc j)"
      unfolding next_count using load_store_word [where 'a = 32, of 4 ?flag "word_of_nat (Suc j)" m2] by (simp del: of_nat_Suc)
    have "value_of d D m2 ?f (entry_at fs b i j) = value_of d D ?m3 ?f (entry_at fs b i j)"
      by (rule item_value_kept [OF sf(1-3) keeps_agree [OF keeps_store_word [OF subset_refl]]]) (use apart in auto)
    then show "value_of d D ?m3 ?f (entry_at fs b i j) = value_of d D m ?f (entry_at fs a i j)" using m2(3) by simp
  qed
  have "k = c - Suc j" "Suc j \<le> c" using Suc.hyps(2) by simp_all
  from Suc.hyps(1) [OF this(1) Suc.prems(1) this(2) len(2) m3] obtain m4 where m4: "array_after d (dec_fields D) fs i m a m0 b c m4"
    "\<And>rest. packed_loop (decoder d D) (iter_at fs b i) (ibuf (?rest @ rest) (length ?rest)) ?m3 = Some (True, ibuf rest 0, m4)" by blast
  have "packed_loop (decoder d D) (iter_at fs b i) (ibuf (?bs @ ?rest @ rest) (length ?bs + length ?rest)) m1 = Some (True, ibuf rest 0, m4)"
    for rest
  proof -
    have "0 < length ?bs" using packable_bytes [OF ty] by simp
    moreover have "(word_of_nat j :: u32) < array_size ?f" using entry(2) unat_less_two_power [of "array_size ?f"]
      by (simp add: word_less_nat_alt unat_of_nat)
    moreover have "pData (iter_at fs b i) + ucast (data_size ?f * word_of_nat j) = entry_at fs b i j"
      using decoder_entry_addr [OF h sf(9) entry(2)] by simp
    moreover have "decoder d D (ibuf (?bs @ ?rest @ rest) (length ?bs + length ?rest)) ?f (entry_at fs b i j) m1 =
        Some (True, ibuf (?rest @ rest) (length ?rest), m2)" using m2(1) unfolding decodes_def by simp
    ultimately show ?thesis using m4(2) [of rest] cur count
      by (subst packed_loop.simps) (simp add: Let_def del: iter_at.simps)
  qed
  then show ?case unfolding split using m4(1) by auto
qed

abbreviation "entries_of d D E m fs a i j c \<equiv>
  concat (map (\<lambda>j. tag_bytes (wire_type (fs ! i)) (tag (fs ! i)) @ bytes_of d D E m (fs ! i) (entry_at fs a i j)) [j..<c])"

lemma entries_of_rec:
  "j < c \<Longrightarrow> entries_of d D E m fs a i j c =
    (tag_bytes (wire_type (fs ! i)) (tag (fs ! i)) @ bytes_of d D E m (fs ! i) (entry_at fs a i j)) @ entries_of d D E m fs a i (Suc j) c"
  by (simp add: upt_conv_Cons)

lemma wire_type_less: "unat (wire_type f) < 8"
  by (simp add: wire_type_def wire_type_defs)

lemma static_field:
  "atype (cur it) = PB_ATYPE_STATIC \<Longrightarrow> field_decoder d D s wt it m =
    decode_static_field D (pb_message_set_to_defaults d (dec_fields D)) (pb_decode_noinit d D) s wt it m"
  by (simp add: decode_field_def)

lemma unpacked_runs:
  assumes s: "source_field d D E fs n m a i" and h: "htype (fs ! i) = PB_HTYPE_REPEATED"
    and ty: "\<not> ltype (fs ! i) \<le> PB_LTYPE_LAST_PACKABLE"
  shows "c = unat (load_u32 m (pSize (iter_at fs a i))) \<Longrightarrow> j \<le> c \<Longrightarrow> length (entries_of d D E m fs a i j c) < 2 ^ 32 \<Longrightarrow>
    array_after d (dec_fields D) fs i m a m0 b j m1 \<Longrightarrow>
    \<exists>m2. array_after d (dec_fields D) fs i m a m0 b c m2 \<and>
      runs (field_decoder d D) U fs b (entries_of d D E m fs a i j c) seen m1 seen m2"
proof (induction "c - j" arbitrary: j m1)
  case 0
  then show ?case using runs_Nil by auto
next
  case (Suc k)
  then have j: "j < c" by simp
  let ?f = "fs ! i" and ?flag = "pSize (iter_at fs b i)"
  let ?bs = "bytes_of d D E m ?f (entry_at fs a i j)" and ?tag = "tag_bytes (wire_type (fs ! i)) (tag (fs ! i))"
  note sf = source_fieldD [OF s]
  note split = entries_of_rec [where d = d and D = D and E = E and m = m and fs = fs and a = a and i = i, OF j]
  have cur: "cur (iter_at fs b i) = ?f" by (rule cur_iter_at [OF layout_descriptor [OF sf(1)] sf(3)])
  have len: "length ?bs < 2 ^ 32" "length (entries_of d D E m fs a i (Suc j) c) < 2 ^ 32"
    using Suc.prems(3) unfolding split by simp_all
  let ?mc = "store_word ?flag (word_of_nat (Suc j) :: u32) m1"
  note entry = array_entry [OF s h j [unfolded Suc.prems(1)] len(1)]
  obtain m2 where m2: "decodes (\<lambda>s. decoder d D s ?f (entry_at fs b i j)) ?bs ?mc m2"
    "keeps (span (entry_at fs b i j) (unat (data_size ?f))) ?mc m2"
    "value_of d D m2 ?f (entry_at fs b i j) = value_of d D m ?f (entry_at fs a i j)" using entry(1) by blast
  have apart: "span (entry_at fs b i j) (unat (data_size ?f)) \<inter> span ?flag 4 = {}"
    using entry_within [OF h sf(9) entry(2), of "pData (iter_at fs b i)"] flag_outside [OF sf(1-3), of b] h
    by (auto simp: flag_length_def)
  have count: "load_u32 m1 ?flag = word_of_nat j" using Suc.prems(4) by (simp add: array_after_def)
  have after: "array_after d (dec_fields D) fs i m a m0 b (Suc j) m2"
  proof (rule array_step [OF sf(1-3) h entry(2) Suc.prems(4) _ _ m2(3)])
    show "keeps (span (entry_at fs b i j) (unat (data_size ?f)) \<union> span ?flag 4) m1 m2"
      by (rule keeps_trans [OF keeps_store_word keeps_mono [OF m2(2)]]) auto
    have "load_u32 ?mc ?flag = load_u32 m2 ?flag"
      by (rule agree_word) (use keeps_agree [OF m2(2) apart] in simp_all)
    then show "load_u32 m2 ?flag = word_of_nat (Suc j)"
      using load_store_word [where 'a = 32, of 4 ?flag "word_of_nat (Suc j)" m1] by (simp del: of_nat_Suc)
  qed
  have "decodes (\<lambda>s. field_decoder d D s (wire_type ?f) (iter_at fs b i)) ?bs m1 m2"
    unfolding decodes_def
  proof (intro allI impI)
    fix rest :: "u8 list" and k assume k: "k \<le> length rest"
    have "\<not> array_size ?f \<le> (word_of_nat j :: u32)" using entry(2) unat_less_two_power [of "array_size ?f"]
      by (simp add: word_le_nat_alt unat_of_nat)
    moreover have "pData (iter_at fs b i) + ucast (data_size ?f * word_of_nat j) = entry_at fs b i j"
      using decoder_entry_addr [OF h sf(9) entry(2)] by simp
    moreover have "(word_of_nat j + 1 :: u32) = word_of_nat (Suc j)" by simp
    moreover have "decoder d D (ibuf (?bs @ rest) (length ?bs + k)) ?f (entry_at fs b i j) ?mc = Some (True, ibuf rest k, m2)"
      using m2(1) k unfolding decodes_def by simp
    ultimately show "field_decoder d D (ibuf (?bs @ rest) (length ?bs + k)) (wire_type ?f) (iter_at fs b i) m1 = Some (True, ibuf rest k, m2)"
      using h ty cur count sf(5) by (simp add: static_field decode_static_field_def Let_def del: iter_at.simps of_nat_Suc)
  qed
  from runs_field [where K = "field_decoder d D" and wt = "wire_type ?f" and b = b and U = U and seen = seen,
      OF sf(1-3) wire_type_less this]
  have one: "runs (field_decoder d D) U fs b (?tag @ ?bs) seen m1 seen m2" using mark_other h cur by simp
  have "k = c - Suc j" "Suc j \<le> c" using Suc.hyps(2) by simp_all
  from Suc.hyps(1) [OF this(1) Suc.prems(1) this(2) len(2) after] obtain m3 where "array_after d (dec_fields D) fs i m a m0 b c m3"
    "runs (field_decoder d D) U fs b (entries_of d D E m fs a i (Suc j) c) seen m2 seen m3" by blast
  then show ?case unfolding split using runs_append [OF one] by blast
qed

lemma packed_runs:
  assumes s: "source_field d D E fs n m a i" and h: "htype (fs ! i) = PB_HTYPE_REPEATED"
    and ty: "ltype (fs ! i) \<le> PB_LTYPE_LAST_PACKABLE" and c: "c = unat (load_u32 m (pSize (iter_at fs a i)))"
    and len: "length (items_of d D E m fs a i 0 c) < 2 ^ 32" and inv: "array_after d (dec_fields D) fs i m a m0 b 0 m1"
  shows "\<exists>m2. array_after d (dec_fields D) fs i m a m0 b c m2 \<and>
    runs (field_decoder d D) U fs b (tag_bytes PB_WT_STRING (tag (fs ! i)) @ prefixed (items_of d D E m fs a i 0 c)) seen m1 seen m2"
proof -
  let ?f = "fs ! i" and ?bs = "items_of d D E m fs a i 0 c"
  note sf = source_fieldD [OF s]
  have cur: "cur (iter_at fs b i) = ?f" by (rule cur_iter_at [OF layout_descriptor [OF sf(1)] sf(3)])
  obtain m2 where m2: "array_after d (dec_fields D) fs i m a m0 b c m2"
    "\<And>rest. packed_loop (decoder d D) (iter_at fs b i) (ibuf (?bs @ rest) (length ?bs)) m1 = Some (True, ibuf rest 0, m2)"
    using packed_decodes [OF s h ty c _ len inv] by blast
  have "decodes (\<lambda>s. field_decoder d D s PB_WT_STRING (iter_at fs b i)) (prefixed ?bs) m1 m2"
    unfolding decodes_def
  proof (intro allI impI)
    fix rest :: "u8 list" and k assume k: "k \<le> length rest"
    show "field_decoder d D (ibuf (prefixed ?bs @ rest) (length (prefixed ?bs) + k)) PB_WT_STRING (iter_at fs b i) m1 = Some (True, ibuf rest k, m2)"
      using h ty cur sf(5) ibuf_substream [OF k len] m2(2) ibuf_close
      by (simp add: static_field decode_static_field_def Let_def del: iter_at.simps)
  qed
  moreover have "unat PB_WT_STRING < 8" by (simp add: wire_type_defs)
  ultimately show ?thesis using runs_field [OF sf(1-3), of PB_WT_STRING "field_decoder d D" b "prefixed ?bs" m1 m2 U seen] mark_other h cur m2(1)
    by auto
qed

section \<open>Fields\<close>

lemma flag_not_data:
  assumes "layout_ok (Suc d) flds fs n" and "plain (Suc d) flds fs" and "i < length fs - 1"
    and "htype (fs ! i) = PB_HTYPE_OPTIONAL" and "pSize (iter_at fs b i) \<noteq> pData (iter_at fs b i)"
  shows "pSize (iter_at fs b i) \<notin> span (pData (iter_at fs b i)) (unat (data_size (fs ! i)))"
  using flag_outside [OF assms(1-3), of b] assms(4,5)
  by (auto simp: field_length_def flag_length_def pSize_neq_pData span_def simp del: iter_at.simps)

lemma single_runs:
  assumes s: "source_field d D E fs n m a i" and h: "htype (fs ! i) = PB_HTYPE_REQUIRED \<or> htype (fs ! i) = PB_HTYPE_OPTIONAL"
    and init: "field_initial (initialised d (dec_fields D)) (dec_fields D) m0 fs b i"
    and enc: "item_encodable (encodable d E m) (dec_fields D) m (fs ! i) (pData (iter_at fs a i))"
    and pr: "item_proper (proper d (dec_fields D)) (dec_fields D) m (fs ! i) (pData (iter_at fs a i))"
    and len: "length (bytes_of d D E m (fs ! i) (pData (iter_at fs a i))) < 2 ^ 32"
  shows "\<exists>m2. runs (field_decoder d D) U fs b
        (tag_bytes (wire_type (fs ! i)) (tag (fs ! i)) @ bytes_of d D E m (fs ! i) (pData (iter_at fs a i)))
        seen m0 (mark_seen (iter_at fs b i) seen) m2 \<and>
      keeps (region fs b i) m0 m2 \<and> value_of d D m2 (fs ! i) (pData (iter_at fs b i)) = value_of d D m (fs ! i) (pData (iter_at fs a i)) \<and>
      (htype (fs ! i) = PB_HTYPE_OPTIONAL \<longrightarrow> pSize (iter_at fs b i) \<noteq> pData (iter_at fs b i) \<longrightarrow> m2 (pSize (iter_at fs b i)) \<noteq> 0)"
proof -
  let ?f = "fs ! i" and ?p = "pData (iter_at fs b i)" and ?flag = "pSize (iter_at fs b i)"
  let ?m1 = "if htype ?f = PB_HTYPE_OPTIONAL \<and> ?flag \<noteq> ?p then store_bytes ?flag [1] m0 else m0"
  note sf = source_fieldD [OF s]
  have cur: "cur (iter_at fs b i) = ?f" by (rule cur_iter_at [OF layout_descriptor [OF sf(1)] sf(3)])
  have rep: "htype ?f \<noteq> PB_HTYPE_REPEATED" using h by auto
  have k1: "keeps (region fs b i) m0 ?m1"
    using region_parts(4) [of fs i b] by (auto intro!: keeps_store simp: span_1 simp del: iter_at.simps)
  have ag: "agree (span ?p (unat (data_size ?f))) m0 ?m1"
    using flag_not_data [OF sf(1-3), of b] by (auto simp: agree_def span_1 intro!: store_other [symmetric] simp del: iter_at.simps)
  have "initialised d (dec_fields D) ?m1 (dec_fields D (the (ptr ?f))) ?p" if ty: "ltype ?f = PB_LTYPE_SUBMESSAGE"
  proof -
    obtain q where "ptr ?f = Some q" "layout_ok d (dec_fields D) (dec_fields D q) (unat (data_size ?f))"
      using sf(6) ty by (auto simp: item_ok_def split: option.splits)
    with initialised_cong [OF _ ag] init ty rep show ?thesis by (simp add: field_initial_def Let_def del: iter_at.simps)
  qed
  from item_decodes [where m' = ?m1 and c = ?p, OF sf(5-7) enc pr len this sf(4)]
  obtain m2 where m2: "decodes (\<lambda>s. decoder d D s ?f ?p) (bytes_of d D E m ?f (pData (iter_at fs a i))) ?m1 m2"
    "keeps (span ?p (unat (data_size ?f))) ?m1 m2" "value_of d D m2 ?f ?p = value_of d D m ?f (pData (iter_at fs a i))" by blast
  have "field_decoder d D s wt (iter_at fs b i) m0 = decoder d D s ?f ?p ?m1" for s wt
    using h cur sf(5) by (auto simp: static_field decode_static_field_def Let_def simp del: iter_at.simps)
  then have "decodes (\<lambda>s. field_decoder d D s (wire_type ?f) (iter_at fs b i)) (bytes_of d D E m ?f (pData (iter_at fs a i))) m0 m2"
    using m2(1) by (simp add: decodes_def)
  from runs_field [where K = "field_decoder d D" and wt = "wire_type ?f" and b = b and U = U and seen = seen,
      OF sf(1-3) wire_type_less this]
  have "runs (field_decoder d D) U fs b (tag_bytes (wire_type ?f) (tag ?f) @ bytes_of d D E m ?f (pData (iter_at fs a i)))
      seen m0 (mark_seen (iter_at fs b i) seen) m2" .
  moreover have "keeps (region fs b i) m0 m2"
    by (rule keeps_trans [OF k1 keeps_mono [OF m2(2) region_parts(1) [OF rep]]])
  moreover have "m2 ?flag \<noteq> 0" if "htype ?f = PB_HTYPE_OPTIONAL" "?flag \<noteq> ?p"
  proof -
    have "m2 ?flag = ?m1 ?flag" using m2(2) flag_not_data [OF sf(1-3) that] by (simp add: keeps_def del: iter_at.simps)
    then show ?thesis using that by simp
  qed
  ultimately show ?thesis using m2(3) by blast
qed

text \<open>A field that proto3 leaves out holds what the defaults put there.\<close>

lemma number_value_bytes:
  assumes "item_ok sub_ok f" and "ltype f \<le> PB_LTYPE_LAST_PACKABLE"
    and "load_bytes m a (unat (data_size f)) = load_bytes m' c (unat (data_size f))"
  shows "item_value sub flds m f a = item_value sub flds m' f c"
proof -
  have "x \<le> 4 \<Longrightarrow> x = 0 \<or> x = 1 \<or> x = 2 \<or> x = 3 \<or> x = (4 :: u8)" for x
    by (simp add: word_le_nat_alt word_unat_eq_iff) arith
  with assms show ?thesis
    by (auto simp: item_value_def item_ok_def signed_value_def unsigned_value_def load_word_def)
qed

lemma string_size_0: "m a = 0 \<Longrightarrow> string_size m a n = 0"
  by (cases n) simp_all

lemma load_replicate_0:
  assumes "load_bytes m a n = replicate n 0"
  shows "i < n \<Longrightarrow> m (a + word_of_nat i) = 0"
  using arg_cong [OF assms, of "\<lambda>bs. bs ! i"] by simp

lemma load_u32_0:
  assumes "load_bytes m a n = replicate n 0" and "4 \<le> n"
  shows "load_u32 m a = 0"
proof -
  have "load_bytes m a 4 = replicate 4 0"
    by (rule nth_equalityI) (use load_replicate_0 [OF assms(1)] assms(2) in simp_all)
  moreover have "le_val (replicate 4 0) = 0" by code_simp
  ultimately show ?thesis by (simp add: load_word_def)
qed

lemma omitted_value:
  assumes l: "item_ok sub_ok f" and ty: "atype f = PB_ATYPE_STATIC" "ltype f \<noteq> PB_LTYPE_SUBMESSAGE"
    and omit: "pb_check_proto3_default_value (Suc d) E m f a = Some True"
    and zero: "load_bytes m' c (unat (data_size f)) = replicate (unat (data_size f)) 0"
    and four: "ltype f = PB_LTYPE_BYTES \<longrightarrow> 4 \<le> unat (data_size f)"
  shows "item_value sub flds m f a = item_value sub flds m' f c"
proof (cases "ltype f \<le> PB_LTYPE_LAST_PACKABLE")
  case True
  have "load_bytes m a (unat (data_size f)) = replicate (unat (data_size f)) 0"
    using omit unfolding default_of_number [OF True] by (intro nth_equalityI) (auto simp: list_all_length)
  with zero show ?thesis by (intro number_value_bytes [OF l True]) simp
next
  case False
  then consider "ltype f = PB_LTYPE_BYTES" | "ltype f = PB_LTYPE_STRING" | "ltype f = PB_LTYPE_FIXED_LENGTH_BYTES"
    using l ty(2) by (auto simp: item_ok_def split: if_splits)
  then show ?thesis
  proof cases
    case 1
    then have "load_u32 m a = 0" using omit ty by simp
    moreover have "load_u32 m' c = 0" using load_u32_0 [OF zero] four 1 by simp
    ultimately show ?thesis using 1 by (simp add: item_value_def)
  next
    case 2
    have "m a = 0" using omit ty 2 by simp
    then have "string_size m a (unat (data_size f)) = 0" by (rule string_size_0)
    moreover have "string_size m' c (unat (data_size f)) = 0"
      using load_replicate_0 [OF zero, of 0] string_size_0 [of m' c] by (cases "unat (data_size f)") simp_all
    ultimately show ?thesis using 2 by (simp add: item_value_def)
  next
    case 3
    have "data_size f = 0" using omit ty 3 by simp
    then show ?thesis using 3 by (simp add: item_value_def)
  qed
qed

text \<open>A whole field: the loop reads its bytes and gives it the value it has in the source.\<close>

lemma flag_zero:
  assumes "pSize (iter_at fs c i) = flag_addr (fs ! i) (pData (iter_at fs c i))"
  shows "pSize (iter_at fs c i) = pData (iter_at fs c i) \<longleftrightarrow> size_offset (fs ! i) = 0"
proof
  assume "pSize (iter_at fs c i) = pData (iter_at fs c i)"
  then have "(scast (size_offset (fs ! i)) :: u64) = 0" using assms by (simp add: flag_addr_def del: iter_at.simps)
  then show "size_offset (fs ! i) = 0" 
    using ucast_scast_same [where 'b = 64, of "size_offset (fs ! i)"] by simp
next
  show "pSize (iter_at fs c i) = pData (iter_at fs c i)" if "size_offset (fs ! i) = 0"
    using assms that by (simp add: flag_addr_def del: iter_at.simps)
qed

abbreviation "omits d E m \<equiv> \<lambda>f a. pb_check_proto3_default_value (Suc d) E m f a = Some True"
abbreviation "field_of d D E m fs a i \<equiv>
  field_bytes (omits d E m) (message_bytes d E m) (dec_fields D) m (fs ! i) (pData (iter_at fs a i))"
abbreviation "values_of d D m fs a i \<equiv> field_value (message_value d (dec_fields D)) (dec_fields D) m fs a i"

lemma repeated_field_runs:
  assumes s: "source_field d D E fs n m a i" and h: "htype (fs ! i) = PB_HTYPE_REPEATED"
    and init: "field_initial (initialised d (dec_fields D)) (dec_fields D) m0 fs b i"
    and len: "length (field_of d D E m fs a i) < 2 ^ 32"
  shows "\<exists>m2. runs (field_decoder d D) U fs b (field_of d D E m fs a i) seen m0 seen m2 \<and>
    keeps (region fs b i) m0 m2 \<and> values_of d D m2 fs b i = values_of d D m fs a i"
proof -
  let ?f = "fs ! i"
  let ?c = "unat (load_u32 m (pSize (iter_at fs a i)))"
  note sf = source_fieldD [OF s]
  have addr: "entry_addr m ?f (pData (iter_at fs a i)) j = entry_at fs a i j" for j
    using sf(5) by (simp add: entry_addr_def value_addr_def Let_def)
  have bytes: "field_of d D E m fs a i =
      (if ?c = 0 then []
       else if ltype ?f \<le> PB_LTYPE_LAST_PACKABLE then tag_bytes PB_WT_STRING (tag ?f) @ prefixed (items_of d D E m fs a i 0 ?c)
       else entries_of d D E m fs a i 0 ?c)"
    using h sf(8) [of a] by (simp add: field_bytes_def array_bytes_def addr Let_def comp_def del: iter_at.simps)
  have start: "array_after d (dec_fields D) fs i m a m0 b 0 m0"
    using init h by (simp add: array_after_def field_initial_def Let_def del: iter_at.simps)
  have "\<exists>m2. array_after d (dec_fields D) fs i m a m0 b ?c m2 \<and> runs (field_decoder d D) U fs b (field_of d D E m fs a i) seen m0 seen m2"
  proof (cases "?c = 0")
    case True
    then show ?thesis using start bytes runs_Nil by auto
  next
    case c: False
    show ?thesis
    proof (cases "ltype ?f \<le> PB_LTYPE_LAST_PACKABLE")
      case True
      have "length (items_of d D E m fs a i 0 ?c) < 2 ^ 32" using len c True unfolding bytes by (simp add: prefixed_def)
      from packed_runs [OF s h True refl this start] show ?thesis using c True unfolding bytes by simp
    next
      case False
      have "length (entries_of d D E m fs a i 0 ?c) < 2 ^ 32" using len c False unfolding bytes by simp
      from unpacked_runs [OF s h False refl le0 this start] show ?thesis using c False unfolding bytes by simp
    qed
  qed
  then obtain m2 where m2: "array_after d (dec_fields D) fs i m a m0 b ?c m2"
    "runs (field_decoder d D) U fs b (field_of d D E m fs a i) seen m0 seen m2" by blast
  have "unat (load_u32 m2 (pSize (iter_at fs b i))) = ?c" using m2(1) unfolding array_after_def by simp
  then have "values_of d D m2 fs b i = values_of d D m fs a i"
    using m2(1) h unfolding field_value_def Let_def array_after_def by (simp del: iter_at.simps)
  with m2 show ?thesis unfolding array_after_def by blast
qed

lemma field_runs:
  assumes s: "source_field d D E fs n m a i"
    and init: "field_initial (initialised d (dec_fields D)) (dec_fields D) m0 fs b i"
    and len: "length (field_of d D E m fs a i) < 2 ^ 32"
    and r: "required_before fs (Suc i) < 64" and N: "length fs < 2 ^ 32"
  shows "\<exists>m2. runs (field_decoder d D) U fs b (field_of d D E m fs a i)
      (marks (required_before fs i)) m0 (marks (required_before fs (Suc i))) m2 \<and>
    keeps (region fs b i) m0 m2 \<and> values_of d D m2 fs b i = values_of d D m fs a i"
proof -
  let ?f = "fs ! i" and ?p = "pData (iter_at fs a i)" and ?flag = "pSize (iter_at fs a i)"
  note sf = source_fieldD [OF s]
  have enc: "field_encodable (pb_check_proto3_default_value (Suc d) E m) (encodable d E m) (dec_fields D) m ?f ?p"
    and pr: "field_proper (proper d (dec_fields D)) (dec_fields D) m fs a i" using s by (simp_all only: source_field_def)
  have d: "descriptor fs (length fs - 1)" by (rule layout_descriptor [OF sf(1)])
  have cur: "cur (iter_at fs b i) = ?f" by (rule cur_iter_at [OF d sf(3)])
  have va: "value_addr m ?f ?p = ?p" using sf(5) by (simp add: value_addr_def)
  note flag = flag_zero [OF sf(8)]
  have single: "\<exists>m2. runs (field_decoder d D) U fs b (field_of d D E m fs a i) seen m0 (mark_seen (iter_at fs b i) seen) m2 \<and>
      keeps (region fs b i) m0 m2 \<and> values_of d D m2 fs b i = values_of d D m fs a i"
    if h: "htype ?f = PB_HTYPE_REQUIRED \<or> htype ?f = PB_HTYPE_OPTIONAL" and p: "present (omits d E m) m ?f ?p"
      and full: "htype ?f = PB_HTYPE_OPTIONAL \<longrightarrow> ?flag \<noteq> ?p \<longrightarrow> m ?flag \<noteq> 0" for seen
  proof -
    have rep: "htype ?f \<noteq> PB_HTYPE_REPEATED" using h by auto
    have bytes: "field_of d D E m fs a i = tag_bytes (wire_type ?f) (tag ?f) @ bytes_of d D E m ?f ?p"
      using rep p va by (simp add: field_bytes_def del: iter_at.simps pb_check_proto3_default_value.simps)
    have "item_encodable (encodable d E m) (dec_fields D) m ?f ?p"
      using enc rep p va by (simp add: field_encodable_def del: iter_at.simps pb_check_proto3_default_value.simps)
    moreover have "item_proper (proper d (dec_fields D)) (dec_fields D) m ?f ?p"
      using pr rep full by (auto simp: field_proper_def Let_def simp del: iter_at.simps)
    moreover have "length (bytes_of d D E m ?f ?p) < 2 ^ 32" using len unfolding bytes by simp
    ultimately obtain m2 where m2: "runs (field_decoder d D) U fs b (field_of d D E m fs a i) seen m0 (mark_seen (iter_at fs b i) seen) m2"
      "keeps (region fs b i) m0 m2" "value_of d D m2 ?f (pData (iter_at fs b i)) = value_of d D m ?f ?p"
      "htype ?f = PB_HTYPE_OPTIONAL \<longrightarrow> pSize (iter_at fs b i) \<noteq> pData (iter_at fs b i) \<longrightarrow> m2 (pSize (iter_at fs b i)) \<noteq> 0"
      using single_runs [OF s h init] unfolding bytes by blast
    have "values_of d D m2 fs b i = values_of d D m fs a i"
      using m2(3,4) full rep by (auto simp: field_value_def Let_def simp del: iter_at.simps)
    with m2 show ?thesis by blast
  qed
  consider "htype ?f = PB_HTYPE_REQUIRED" | "htype ?f = PB_HTYPE_OPTIONAL" | "htype ?f = PB_HTYPE_REPEATED"
    using htype_cases [of ?f] sf(7) by (auto simp: plain_field_def)
  then show ?thesis
  proof cases
    case 1
    have ri: "unat (required_field_index (iter_at fs b i)) = required_before fs i"
      by (rule required_index_at [OF d]) (use N sf(3) in simp_all)
    have "required_before fs i < 64" using r 1 by (simp add: required_before_Suc)
    from mark_next [OF _ ri this] have "mark_seen (iter_at fs b i) (marks (required_before fs i)) = marks (required_before fs (Suc i))"
      using 1 cur by (simp add: required_before_Suc)
    then show ?thesis using single [of "marks (required_before fs i)"] 1 by (simp add: present_def)
  next
    case 2
    then have same: "required_before fs (Suc i) = required_before fs i" by (simp add: required_before_Suc)
    have ms: "mark_seen (iter_at fs b i) seen = seen" for seen using mark_other cur 2 by simp
    show ?thesis
    proof (cases "present (omits d E m) m ?f ?p")
      case True
      have "?flag \<noteq> ?p \<longrightarrow> m ?flag \<noteq> 0"
        using True 2 flag [of a] sf(8) [of a] by (auto simp: present_def simp del: iter_at.simps pb_check_proto3_default_value.simps)
      with single [of "marks (required_before fs i)"] True 2 ms same show ?thesis by simp
    next
      case False
      then have bytes: "field_of d D E m fs a i = []"
        using 2 by (simp add: field_bytes_def del: iter_at.simps pb_check_proto3_default_value.simps)
      have "values_of d D m0 fs b i = values_of d D m fs a i"
      proof (cases "size_offset ?f = 0")
        case True
        have ty: "ltype ?f \<noteq> PB_LTYPE_SUBMESSAGE" "ptr ?f = None" "ltype ?f = PB_LTYPE_BYTES \<longrightarrow> 4 \<le> unat (data_size ?f)"
          using sf(7) 2 True by (simp_all add: plain_field_def)
        have omit: "pb_check_proto3_default_value (Suc d) E m ?f ?p = Some True"
          using False 2 True sf(5) by (simp add: present_def del: pb_check_proto3_default_value.simps)
        have zero: "load_bytes m0 (pData (iter_at fs b i)) (unat (data_size ?f)) = replicate (unat (data_size ?f)) 0"
          using init 2 ty by (simp add: field_initial_def Let_def del: iter_at.simps)
        have "value_of d D m ?f ?p = value_of d D m0 ?f (pData (iter_at fs b i))"
          by (rule omitted_value [OF sf(6,5) ty(1) omit zero ty(3)])
        then show ?thesis using 2 flag True by (simp add: field_value_def Let_def del: iter_at.simps)
      next
        case off: False
        then have "m ?flag = 0" using False 2 sf(8) [of a] by (simp add: present_def del: iter_at.simps)
        moreover have "m0 (pSize (iter_at fs b i)) = 0"
          using init 2 flag off by (simp add: field_initial_def Let_def del: iter_at.simps)
        ultimately show ?thesis using 2 flag off by (simp add: field_value_def Let_def del: iter_at.simps)
      qed
      then show ?thesis unfolding bytes same using runs_Nil
        by (intro exI [of _ m0]) (simp del: iter_at.simps pb_check_proto3_default_value.simps)
    qed
  next
    case 3
    then have "required_before fs (Suc i) = required_before fs i" by (simp add: required_before_Suc)
    with repeated_field_runs [OF s 3 init len] show ?thesis by simp
  qed
qed

section \<open>Messages\<close>

lemma required_before_mono: "i \<le> j \<Longrightarrow> required_before fs i \<le> required_before fs j"
proof (induction j)
  case (Suc j)
  then show ?case by (cases "i = Suc j") (auto simp: required_before_Suc)
qed simp

lemma message_fields: "message_bytes (Suc d) E m fs a =
    concat (map (\<lambda>i. field_bytes (omits d E m) (message_bytes d E m) (enc_fields E) m (fs ! i) (pData (iter_at fs a i))) [0..<length fs - 1])"
  by (simp del: iter_at.simps pb_check_proto3_default_value.simps)

definition fields_after :: "nat \<Rightarrow> (u64 \<Rightarrow> fld list) \<Rightarrow> fld list \<Rightarrow> nat \<Rightarrow> mem \<Rightarrow> u64 \<Rightarrow> mem \<Rightarrow> u64 \<Rightarrow> nat \<Rightarrow> mem \<Rightarrow> bool" where
  "fields_after d flds fs n m a m0 b j m' \<longleftrightarrow>
     keeps (span b n) m0 m' \<and>
     (\<forall>i<j. field_value (message_value d flds) flds m' fs b i = field_value (message_value d flds) flds m fs a i) \<and>
     (\<forall>i. j \<le> i \<longrightarrow> i < length fs - 1 \<longrightarrow> field_initial (initialised d flds) flds m' fs b i)"

lemma fields_step:
  assumes l: "layout_ok (Suc d) flds fs n" and p: "plain (Suc d) flds fs" and j: "j < length fs - 1"
    and after: "fields_after d flds fs n m a m0 b j m1"
    and keep: "keeps (region fs b j) m1 m2"
    and val: "field_value (message_value d flds) flds m2 fs b j = field_value (message_value d flds) flds m fs a j"
  shows "fields_after d flds fs n m a m0 b (Suc j) m2"
proof -
  have ag: "agree (region fs b i) m1 m2" if "i < length fs - 1" "i \<noteq> j" for i
  proof (rule keeps_agree [OF keep])
    show "region fs b j \<inter> region fs b i = {}"
      using region_disjoint [OF l p j, of i b] region_disjoint [OF l p that(1), of j b] that(2) by (cases "i < j") auto
  qed
  have "keeps (span b n) m0 m2"
    using after keeps_trans keeps_mono [OF keep region_in_struct [OF layout_fieldD [OF l j] region_finite_bound [OF l]]]
    unfolding fields_after_def by blast
  moreover have "field_value (message_value d flds) flds m1 fs b i = field_value (message_value d flds) flds m2 fs b i" if "i < j" for i
    by (rule field_value_cong [OF l p _ ag message_value_cong]) (use that j in simp_all)
  moreover have "field_initial (initialised d flds) flds m2 fs b i" if "Suc j \<le> i" "i < length fs - 1" for i
  proof (rule field_initial_cong [where sub = "initialised d flds" and d = d, OF l that(2) ag initialised_cong])
    show "field_initial (initialised d flds) flds m1 fs b i" using after that unfolding fields_after_def by simp
  qed (use that in simp_all)
  ultimately show ?thesis using after val unfolding fields_after_def by (auto simp: less_Suc_eq)
qed

lemma message_runs:
  assumes l: "layout_ok (Suc d) (dec_fields D) fs n" and p: "plain (Suc d) (dec_fields D) fs"
    and enc: "encodable (Suc d) E m fs a" and pr: "proper (Suc d) (dec_fields D) m fs a"
    and env: "dec_fields D = enc_fields E" and sub: "messages_decode d D E m"
    and len: "length (message_bytes (Suc d) E m fs a) < 2 ^ 32"
    and init: "initialised (Suc d) (dec_fields D) m0 fs b"
  shows "j \<le> length fs - 1 \<Longrightarrow> \<exists>m2. fields_after d (dec_fields D) fs n m a m0 b j m2 \<and>
    runs (field_decoder d D) U fs b (concat (map (field_of d D E m fs a) [0..<j])) (marks 0) m0 (marks (required_before fs j)) m2"
proof (induction j)
  case 0
  have "fields_after d (dec_fields D) fs n m a m0 b 0 m0" using init by (simp add: fields_after_def del: iter_at.simps)
  then show ?case using runs_Nil by (auto simp: required_before_def)
next
  case (Suc j)
  then have j: "j < length fs - 1" by simp
  obtain m1 where m1: "fields_after d (dec_fields D) fs n m a m0 b j m1"
    "runs (field_decoder d D) U fs b (concat (map (field_of d D E m fs a) [0..<j])) (marks 0) m0 (marks (required_before fs j)) m1"
    using Suc by auto
  have src: "source_field d D E fs n m a j"
    using l p j enc pr sub env unfolding source_field_def encodable.simps proper.simps by simp
  have "length (field_of d D E m fs a j) < 2 ^ 32"
  proof -
    have "[0..<length fs - 1] = [0..<j] @ j # [Suc j..<length fs - 1]"
      using j upt_add_eq_append [of 0 j "length fs - 1 - j"] by (simp add: upt_conv_Cons)
    then have "length (field_of d D E m fs a j) \<le> length (message_bytes (Suc d) E m fs a)"
      unfolding message_fields env by (simp del: iter_at.simps pb_check_proto3_default_value.simps)
    with len show ?thesis by (rule le_less_trans [rotated])
  qed
  moreover have "required_before fs (Suc j) < 64"
    using required_before_mono [of "Suc j" "length fs - 1" fs] j l by (auto simp: countable_def)
  moreover have "field_initial (initialised d (dec_fields D)) (dec_fields D) m1 fs b j"
    using m1(1) j unfolding fields_after_def by simp
  moreover have "length fs < 2 ^ 32" using l by simp
  ultimately obtain m2 where m2: "runs (field_decoder d D) U fs b (field_of d D E m fs a j)
      (marks (required_before fs j)) m1 (marks (required_before fs (Suc j))) m2"
    "keeps (region fs b j) m1 m2" "values_of d D m2 fs b j = values_of d D m fs a j"
    using field_runs [OF src] by blast
  have "concat (map (field_of d D E m fs a) [0..<Suc j]) = concat (map (field_of d D E m fs a) [0..<j]) @ field_of d D E m fs a j"
    by (simp del: iter_at.simps pb_check_proto3_default_value.simps)
  from runs_append [OF m1(2) m2(1), folded this] fields_step [OF l p j m1(1) m2(2,3)] show ?case by blast
qed

lemma message_step:
  assumes l: "layout_ok (Suc d) (dec_fields D) fs n" and p: "plain (Suc d) (dec_fields D) fs"
    and enc: "encodable (Suc d) E m fs a" and pr: "proper (Suc d) (dec_fields D) m fs a"
    and env: "dec_fields D = enc_fields E" and sub: "messages_decode d D E m"
    and len: "length (message_bytes (Suc d) E m fs a) < 2 ^ 32"
  shows "message_decodes (Suc d) D E m fs a b n"
  unfolding message_decodes_def
proof (intro allI impI)
  fix m0 assume init: "initialised (Suc d) (dec_fields D) m0 fs b"
  let ?N = "length fs - 1" and ?bs = "message_bytes (Suc d) E m fs a"
  let ?sub = "pb_decode_noinit d D" and ?defaults = "pb_message_set_to_defaults d (dec_fields D)"
  let ?loop = "decode_loop (field_decoder d D) (decode_unknown D ?defaults ?sub)"
  note d = layout_descriptor [OF l]
  from message_runs [OF l p enc pr env sub len init le_refl, of "decode_unknown D ?defaults ?sub"]
  obtain m2 where m2: "fields_after d (dec_fields D) fs n m a m0 b ?N m2"
    "runs (field_decoder d D) (decode_unknown D ?defaults ?sub) fs b ?bs (marks 0) m0 (marks (required_before fs ?N)) m2"
    unfolding message_fields env by blast
  have "pb_decode_noinit (Suc d) D (ibuf (?bs @ rest) (length ?bs)) fs b m0 = Some (True, ibuf rest 0, m2)" for rest
  proof -
    from m2(2) obtain q where q: "valid_pos ?N q"
      "?loop (ibuf (?bs @ rest) (length ?bs)) (iter_at fs b 0) (marks 0) 0 m0 =
        ?loop (ibuf rest 0) (iter_at fs b q) (marks (required_before fs ?N)) 0 m2"
      unfolding runs_def using valid_0 le0 by (metis add_0_right)
    have "?loop (ibuf rest 0) (iter_at fs b q) (marks (required_before fs ?N)) 0 m2 =
        Some (True, ibuf rest 0, iter_at fs b q, marks (required_before fs ?N), m2)"
      by (subst decode_loop.simps) (simp add: pb_istream_from_buffer_def)
    moreover have "required_seen (iter_at fs b q) (marks (required_before fs ?N)) = Some True"
      by (rule marks_complete [OF d _ q(1)]) (use l in auto)
    ultimately show ?thesis
      using q(2) unfolding pb_decode_noinit.simps iter_begin_at marks_0 by (simp add: Let_def del: iter_at.simps message_bytes.simps)
  qed
  moreover have "message_value (Suc d) (dec_fields D) m2 fs b = message_value (Suc d) (dec_fields D) m fs a"
    using m2(1) unfolding fields_after_def by simp
  moreover have "keeps (span b n) m0 m2" using m2(1) unfolding fields_after_def by simp
  ultimately show "\<exists>m''. (\<forall>rest. pb_decode_noinit (Suc d) D (ibuf (?bs @ rest) (length ?bs)) fs b m0 = Some (True, ibuf rest 0, m'')) \<and>
      keeps (span b n) m0 m'' \<and> message_value (Suc d) (dec_fields D) m'' fs b = message_value (Suc d) (dec_fields D) m fs a"
    by blast
qed

lemma messages_decode: "dec_fields D = enc_fields E \<Longrightarrow> messages_decode d D E m"
proof (induction d)
  case 0
  then show ?case by (simp add: messages_decode_def)
next
  case (Suc d)
  then have "messages_decode d D E m" by simp
  then show ?case unfolding messages_decode_def [of "Suc d"] using message_step [OF _ _ _ _ Suc.prems] by blast
qed

section \<open>Property\<close>

text \<open>C3: The round trip of messages. Take static descriptors whose fields do not overlap (\<open>layout_ok\<close>, \<open>plain\<close>: no
  oneofs, distinct tags) and a message struct at \<open>a\<close> that can be encoded, with its strings terminated
  (\<open>encodable\<close>, \<open>proper\<close>). If the buffer has room, \<open>pb_encode\<close> succeeds, and \<open>pb_decode\<close> on the bytes it wrote
  succeeds at the end of the input, whatever the memory held before; it leaves the memory outside the struct at \<open>b\<close>
  as it was, and the struct has the values of the source, field by field: presence of optional fields, count and
  entries of arrays (packed or not), strings, byte strings and submessages included.\<close>

theorem pb_message_roundtrip:
  assumes "layout_ok d flds fs n" and "plain d flds fs" and "encodable d E m fs a" and "proper d flds m fs a"
    and "enc_fields E = flds" and "dec_fields D = flds"
    and "length (message_bytes d E m fs a) < 2 ^ 32" and "length (message_bytes d E m fs a) \<le> unat cap"
  shows "\<exists>s s' m'. pb_encode d E m (pb_ostream_from_buffer cap) fs a = Some (True, s) \<and>
    pb_decode d D (pb_istream_from_buffer (out_state s) (length (out_state s))) fs b old = Some (True, s', m') \<and>
    bytes_left s' = 0 \<and> message_value d flds m' fs b = message_value d flds m fs a \<and>
    (\<forall>x. n \<le> unat (x - b) \<longrightarrow> m' x = old x)"
proof -
  let ?bs = "message_bytes d E m fs a"
  have len: "length ?bs < 2 ^ 64" using assms(7) by simp
  obtain s where s: "pb_encode d E m (pb_ostream_from_buffer cap) fs a = Some (True, s)" "out_state s = ?bs"
    using emits_buffer [OF emits_message [OF assms(3)] len, of cap] assms(8) unfolding writes_within_def by auto
  obtain m1 where m1: "pb_message_set_to_defaults d flds fs b old = Some m1" "keeps (span b n) old m1" "initialised d flds m1 fs b"
    using defaults_do_initialise [of d flds, unfolded defaults_initialise_def, rule_format, OF assms(1,2)] by blast
  have "message_decodes d D E m fs a b n"
    using messages_decode [of D E d m] assms(1-5,7) unfolding messages_decode_def assms(6) by simp
  with m1(3) assms(6) obtain m2 where m2: "\<And>rest. pb_decode_noinit d D (ibuf (?bs @ rest) (length ?bs)) fs b m1 = Some (True, ibuf rest 0, m2)"
    "keeps (span b n) m1 m2" "message_value d flds m2 fs b = message_value d flds m fs a"
    unfolding message_decodes_def by blast
  have "pb_decode d D (ibuf ?bs (length ?bs)) fs b old = Some (True, ibuf [] 0, m2)"
    using m1(1) m2(1) [of "[]"] assms(6) by (simp add: pb_decode_def)
  moreover have "m2 x = old x" if "n \<le> unat (x - b)" for x
    using keeps_trans [OF m1(2) m2(2)] that unfolding keeps_def by (simp add: span_def)
  moreover have "bytes_left (ibuf [] 0) = 0" by (simp add: pb_istream_from_buffer_def)
  ultimately show ?thesis using s m2(3) by auto
qed

lemma less_3: "i < (3 :: nat) \<longleftrightarrow> i = 0 \<or> i = Suc 0 \<or> i = 2"
  by auto

lemma example_plain: "plain 2 example_env example_message"
proof -
  have b: "butlast example_message = map ((!) example_message) [0, Suc 0, 2, 3]" "butlast example_sub = [example_sub ! 0]"
    by (simp_all add: example_message_def example_sub_def)
  have "size_offset (example_message ! Suc 0) = - 1" "size_offset (example_message ! 3) = - 4" by code_simp+
  then have "plain (Suc (Suc 0)) example_env example_message"
    by (auto simp: b example_simps plain_field_def data_range_def flag_range_def separate_def apart_def less_3 less_2_cases_iff)
  then show ?thesis by (simp only: numeral_2_eq_2)
qed

lemma example_items_proper:
  "field_proper sub example_env example_struct example_message 2000 0"
  "field_proper sub example_env example_struct example_message 2000 (Suc 0)"
  "field_proper sub example_env example_struct example_message 2000 3 \<longleftrightarrow> sub example_struct example_sub 2036"
  "field_proper sub example_env example_struct example_sub 2036 0"
  by code_simp+

lemma example_array_proper: "field_proper sub example_env example_struct example_message 2000 2"
proof -
  have "load_u32 example_struct (pSize (iter_at example_message 2000 2)) = 2" by code_simp
  moreover have "item_proper sub example_env example_struct (example_message ! 2)
      (pData (iter_at example_message 2000 2) + word_of_nat j * ucast (data_size (example_message ! 2)))" if "j < 2" for j
  proof -
    have "j = 0 \<or> j = Suc 0" using that by auto
    then show ?thesis by (elim disjE; simp only:; code_simp)
  qed
  ultimately show ?thesis by (simp add: field_proper_def example_simps Let_def)
qed

lemma example_proper: "proper 2 example_env example_struct example_message 2000"
proof -
  have "proper (Suc (Suc 0)) example_env example_struct example_message 2000"
    using example_items_proper example_array_proper by (simp add: less_4)
  then show ?thesis by (simp only: numeral_2_eq_2)
qed

lemma example_values:
  "field_value sub example_env example_struct example_message 2000 0 = [Num 42]"
  "field_value sub example_env example_struct example_message 2000 (Suc 0) = [Bytes [104, 105]]"
  "field_value sub example_env example_struct example_message 2000 3 = [Msg (sub example_struct example_sub 2036)]"
  "field_value sub example_env example_struct example_sub 2036 0 = [Num 7]"
  by code_simp+

lemma example_array_value: "field_value sub example_env example_struct example_message 2000 2 = [Num 1, Num 300]"
proof -
  have "unat (load_u32 example_struct (pSize (iter_at example_message 2000 2))) = 2" by code_simp
  moreover have "[0..<2] = [0, Suc 0]" by code_simp
  moreover have "item_value sub example_env example_struct (example_message ! 2)
      (pData (iter_at example_message 2000 2) + word_of_nat 0 * ucast (data_size (example_message ! 2))) = Num 1" by code_simp
  moreover have "item_value sub example_env example_struct (example_message ! 2)
      (pData (iter_at example_message 2000 2) + word_of_nat (Suc 0) * ucast (data_size (example_message ! 2))) = Num 300" by code_simp
  ultimately show ?thesis
    by (simp add: field_value_def Let_def PB_HTYPE_def del: iter_at.simps of_nat_Suc of_nat_0 mult_zero_left)
qed

lemma example_value:
  "message_value 2 example_env example_struct example_message 2000 =
    [[Num 42], [Bytes [104, 105]], [Num 1, Num 300], [Msg [[Num 7]]]]"
proof -
  have "[0..<4] = [0, Suc 0, 2, 3]" by code_simp
  then have "message_value (Suc (Suc 0)) example_env example_struct example_message 2000 =
      [[Num 42], [Bytes [104, 105]], [Num 1, Num 300], [Msg [[Num 7]]]]" by (simp add: example_values example_array_value)
  then show ?thesis by (simp only: numeral_2_eq_2)
qed

lemma pb_message_roundtrip_witness:
  "\<exists>s' m'. pb_decode 2 \<lparr>dec_fields = example_env, dec_callback = \<lambda>_ s _ _ m. (False, s, m),
      dec_callback_buf = \<lambda>_ s _ _ m. (False, s, m), dec_extension = \<lambda>_ s _ _ _ m. (False, s, m)\<rparr>
      (pb_istream_from_buffer [0x08, 42, 0x12, 2, 104, 105, 0x1A, 3, 1, 0xAC, 2, 0x22, 2, 0x08, 7] 15)
      example_message 4096 (\<lambda>_. 0xAA) = Some (True, s', m') \<and>
    message_value 2 example_env m' example_message 4096 = [[Num 42], [Bytes [104, 105]], [Num 1, Num 300], [Msg [[Num 7]]]]"
proof -
  let ?D = "\<lparr>dec_fields = example_env, dec_callback = \<lambda>_ s _ _ m. (False, s, m),
      dec_callback_buf = \<lambda>_ s _ _ m. (False, s, m), dec_extension = \<lambda>_ s _ _ _ m. (False, s, m)\<rparr> :: u8 list decode_env"
  let ?bs = "[0x08, 42, 0x12, 2, 104, 105, 0x1A, 3, 1, 0xAC, 2, 0x22, 2, 0x08, 7] :: u8 list"
  have env: "enc_fields example_encode_env = example_env" "dec_fields ?D = example_env" by (simp_all add: example_encode_env_def)
  have len: "length (message_bytes 2 example_encode_env example_struct example_message 2000) < 2 ^ 32"
    "length (message_bytes 2 example_encode_env example_struct example_message 2000) \<le> unat (20 :: size_t)"
    unfolding example_encoding by simp_all
  have w: "writes_within 20 ?bs (pb_encode 2 example_encode_env example_struct (pb_ostream_from_buffer 20) example_message 2000)"
    using emits_buffer [OF emits_message [OF example_encoding(1)], of 20] unfolding example_encoding by simp
  from pb_message_roundtrip [where b = 4096 and old = "\<lambda>_. 0xAA",
      OF example_layout example_plain example_encoding(1) example_proper env len]
  obtain s s' m' where "pb_encode 2 example_encode_env example_struct (pb_ostream_from_buffer 20) example_message 2000 = Some (True, s)"
    "pb_decode 2 ?D (pb_istream_from_buffer (out_state s) (length (out_state s))) example_message 4096 (\<lambda>_. 0xAA) = Some (True, s', m')"
    "message_value 2 example_env m' example_message 4096 = message_value 2 example_env example_struct example_message 2000" by blast
  moreover from w this(1) have "out_state s = ?bs" by (simp add: writes_within_def del: pb_encode.simps)
  moreover have "length ?bs = 15" by simp
  ultimately show ?thesis unfolding example_value by (metis (no_types))
qed

end
