(* ===== verification/Nanopb_Decode_Bound.thy ===== *)
theory Nanopb_Decode_Bound
  imports Nanopb_Decode_Safe
begin

text \<open>
  The nanopb decoder never reads past its input.

  The list behind a buffer stream holds the bytes of the buffer and nothing else, so a read of more
  bytes is undefined in C while the model's \<open>buf_read\<close> has to return something. It is told apart here by
  varying the callback: \<open>in_range_read\<close> is any callback that agrees with \<open>buf_read\<close> as long as the bytes are
  there and does anything at all when they are not. A decoder that gives the same result with each of
  them, on success and on failure, cannot have asked for a byte outside the buffer. \<open>run_ok\<close> says this of a
  reading call and \<open>dec_ok\<close> of a decoding call (two runs, with \<open>s\<close> and with \<open>via rd s\<close>, that agree),
  with \<open>within\<close> for the position: the stream stays inside its input whatever the result.
\<close>

section \<open>Callbacks that agree with buf_read in range\<close>

definition in_range_read :: "(u8 list \<Rightarrow> nat \<Rightarrow> u8 list option \<times> u8 list) \<Rightarrow> bool" where
  "in_range_read rd \<longleftrightarrow> (\<forall>st n. n \<le> length st \<longrightarrow> rd st n = buf_read st n)"

abbreviation bounded :: "u8 list pb_istream \<Rightarrow> bool" where
  "bounded \<equiv> source_ok buf_read (\<lambda>bs. bs)"

abbreviation via :: "(u8 list \<Rightarrow> nat \<Rightarrow> u8 list option \<times> u8 list) \<Rightarrow> u8 list pb_istream \<Rightarrow> u8 list pb_istream" where
  "via rd s \<equiv> s\<lparr>in_callback := rd\<rparr>"

definition within :: "u8 list pb_istream \<Rightarrow> u8 list pb_istream \<Rightarrow> bool" where
  "within s s' \<longleftrightarrow> in_callback s' = in_callback s \<and>
     (\<exists>k. in_state s' = drop k (in_state s) \<and> k + bytes_left s' \<le> bytes_left s)"

lemma within_refl [simp]: "within s s"
  by (auto simp: within_def intro: exI [of _ 0])

lemma within_trans: "within s t \<Longrightarrow> within t u \<Longrightarrow> within s u"
proof -
  assume a: "within s t" and b: "within t u"
  obtain k where k: "in_state t = drop k (in_state s)" "k + bytes_left t \<le> bytes_left s" using a by (auto simp: within_def)
  obtain l where l: "in_state u = drop l (in_state t)" "l + bytes_left u \<le> bytes_left t" using b by (auto simp: within_def)
  show ?thesis using a b k l by (auto simp: within_def add.commute intro!: exI [of _ "k + l"])
qed

lemma within_bounded: "within s s' \<Longrightarrow> bounded s \<Longrightarrow> bounded s'"
  by (auto simp: within_def source_ok_def)

lemma reads_within: "reads (\<lambda>bs. bs) s s' \<Longrightarrow> within s s'"
  by (auto simp: reads_def within_def intro!: exI [of _ "bytes_left s - bytes_left s'"])

lemma within_error [simp]: "within s (in_error msg s') = within s s'"
  by (simp add: within_def in_error_def)

lemma via_error [simp]: "via rd (in_error msg s) = in_error msg (via rd s)"
  by (simp add: in_error_def)

lemma bounded_error [simp]: "bounded (in_error msg s) = bounded s"
  by (simp add: source_ok_def in_error_def)

text \<open>A reading call, and a decoding call.\<close>

definition run_ok :: "(u8 list \<Rightarrow> nat \<Rightarrow> u8 list option \<times> u8 list) \<Rightarrow> u8 list pb_istream \<Rightarrow>
    (u8 list pb_istream \<Rightarrow> 'r \<times> u8 list pb_istream) \<Rightarrow> bool" where
  "run_ok rd s g \<longleftrightarrow> (\<exists>x s'. g s = (x, s') \<and> g (via rd s) = (x, via rd s') \<and> within s s')"

definition dec_ok :: "(u8 list \<Rightarrow> nat \<Rightarrow> u8 list option \<times> u8 list) \<Rightarrow> u8 list pb_istream \<Rightarrow>
    (u8 list pb_istream \<Rightarrow> u8 list dec) \<Rightarrow> bool" where
  "dec_ok rd s g \<longleftrightarrow> (\<forall>ok s' m'. g s = Some (ok, s', m') \<longrightarrow> g (via rd s) = Some (ok, via rd s', m') \<and> within s s')"

lemma run_bind:
  assumes "run_ok rd s g" and "bounded s" and "\<And>x s'. bounded s' \<Longrightarrow> run_ok rd s' (h x)"
  shows "run_ok rd s (\<lambda>s. case g s of (x, s') \<Rightarrow> h x s')"
proof -
  obtain x s' where g: "g s = (x, s')" "g (via rd s) = (x, via rd s')" "within s s'" using assms(1) by (auto simp: run_ok_def)
  obtain y s2 where h: "h x s' = (y, s2)" "h x (via rd s') = (y, via rd s2)" "within s' s2"
    using assms(3) [OF within_bounded [OF g(3) assms(2)]] unfolding run_ok_def by blast
  with g show ?thesis by (auto simp: run_ok_def intro: within_trans)
qed

lemma run_return [simp]: "run_ok rd s (\<lambda>s. (x, s))"
  by (simp add: run_ok_def)

lemma run_error [simp]: "run_ok rd s (\<lambda>s. (x, in_error msg s))"
  by (simp add: run_ok_def)

lemma dec_bind:
  assumes "run_ok rd s g" and "bounded s" and "\<And>x s'. bounded s' \<Longrightarrow> dec_ok rd s' (h x)"
  shows "dec_ok rd s (\<lambda>s. case g s of (x, s') \<Rightarrow> h x s')"
proof -
  obtain x s' where g: "g s = (x, s')" "g (via rd s) = (x, via rd s')" "within s s'" using assms(1) by (auto simp: run_ok_def)
  note h = assms(3) [OF within_bounded [OF g(3) assms(2)], of x]
  with g show ?thesis by (auto simp: dec_ok_def intro: within_trans)
qed

lemma dec_return [simp]: "dec_ok rd s (\<lambda>s. Some (b, s, m))" "dec_ok rd s (\<lambda>s. Some (dec_error msg s m))" "dec_ok rd s (\<lambda>s. None)"
  by (simp_all add: dec_ok_def dec_error_def)

text \<open>The other constructs around the calls.\<close>

lemma run_if: "(b \<Longrightarrow> run_ok rd s g) \<Longrightarrow> (\<not> b \<Longrightarrow> run_ok rd s h) \<Longrightarrow> run_ok rd s (\<lambda>s. if b then g s else h s)"
  by (cases b) simp_all

lemma dec_if: "(b \<Longrightarrow> dec_ok rd s g) \<Longrightarrow> (\<not> b \<Longrightarrow> dec_ok rd s h) \<Longrightarrow> dec_ok rd s (\<lambda>s. if b then g s else h s)"
  by (cases b) simp_all

lemma run_option:
  "run_ok rd s g \<Longrightarrow> (\<And>v. run_ok rd s (h v)) \<Longrightarrow> run_ok rd s (\<lambda>s. case x of None \<Rightarrow> g s | Some v \<Rightarrow> h v s)"
  by (cases x) simp_all

lemma dec_option:
  "dec_ok rd s g \<Longrightarrow> (\<And>v. dec_ok rd s (h v)) \<Longrightarrow> dec_ok rd s (\<lambda>s. case x of None \<Rightarrow> g s | Some v \<Rightarrow> h v s)"
  by (cases x) simp_all

lemmas run_intros = run_option run_if run_return run_error
lemmas dec_intros = dec_option dec_if dec_return

section \<open>Reading\<close>

lemma read_run:
  assumes "in_range_read rd" and "bounded s"
  shows "run_ok rd s (\<lambda>s. pb_read s n)"
proof (cases "n \<le> bytes_left s")
  case True
  then have n: "n \<le> length (in_state s)" and cb: "in_callback s = buf_read" using assms(2) by (auto simp: source_ok_def)
  with assms(1) have "rd (in_state s) n = buf_read (in_state s) n" by (simp add: in_range_read_def)
  with True cb show ?thesis by (auto simp: run_ok_def pb_read_def buf_read_def within_def)
qed (simp add: run_ok_def pb_read_def)

lemma readbyte_run:
  assumes "in_range_read rd" and "bounded s"
  shows "run_ok rd s pb_readbyte"
proof (cases "bytes_left s = 0")
  case False
  then have n: "1 \<le> length (in_state s)" and cb: "in_callback s = buf_read" using assms(2) by (auto simp: source_ok_def)
  with assms(1) have "rd (in_state s) 1 = buf_read (in_state s) 1" by (simp add: in_range_read_def)
  with False cb show ?thesis by (auto simp: run_ok_def pb_readbyte_def buf_read_def within_def)
qed (simp add: run_ok_def pb_readbyte_def)

lemma varint_loop_run:
  assumes rd: "in_range_read rd"
  shows "bounded s \<Longrightarrow> run_ok rd s (varint_loop bitpos (result :: 'a::len word))"
proof (induction "LENGTH('a) - bitpos" arbitrary: bitpos result s rule: less_induct)
  case less
  have step: "varint_loop bitpos result = (\<lambda>s. if LENGTH('a) \<le> bitpos then (None, in_error ''varint overflow'' s)
      else (case pb_readbyte s of (x, s') \<Rightarrow> (case x of None \<Rightarrow> (None, s') | Some byte \<Rightarrow>
          (let result' = result OR push_bit bitpos (ucast (byte AND 0x7F))
           in if byte AND 0x80 \<noteq> 0 then varint_loop (bitpos + 7) result' s' else (Some result', s')))))"
    by (rule ext) (subst varint_loop.simps, rule refl)
  show ?case
  proof (cases "LENGTH('a) \<le> bitpos")
    case False
    have rec: "bounded s \<Longrightarrow> run_ok rd s (varint_loop (bitpos + 7) r)" for r :: "'a word" and s
      using less.hyps [of "bitpos + 7"] False by simp
    show ?thesis unfolding step if_not_P [OF False] Let_def
      by (rule run_bind [OF readbyte_run [OF rd less.prems] less.prems]) (intro run_intros rec)
  qed (simp add: step)
qed

lemma varint32_run:
  assumes "in_range_read rd" and "bounded s"
  shows "run_ok rd s pb_decode_varint32"
  unfolding pb_decode_varint32_def [abs_def]
  by (rule run_bind [OF readbyte_run [OF assms] assms(2)]) (intro run_intros varint_loop_run assms)

lemma varint_run: "in_range_read rd \<Longrightarrow> bounded s \<Longrightarrow> run_ok rd s pb_decode_varint"
  unfolding pb_decode_varint_def [abs_def] by (rule varint_loop_run)

lemma read_null_run:
  assumes "in_range_read rd" and b: "bounded s"
  shows "run_ok rd s (\<lambda>s. pb_read_null s n)"
proof -
  have tmp16: "run_ok rd s (\<lambda>s. pb_read_tmp16 s n)" using b
  proof (induction n arbitrary: s rule: less_induct)
    case (less n)
    have step: "(\<lambda>s :: u8 list pb_istream. pb_read_tmp16 s n) = (\<lambda>s. if 16 < n
        then (case pb_read s 16 of (x, s') \<Rightarrow> (case x of None \<Rightarrow> (False, s') | Some _ \<Rightarrow> pb_read_tmp16 s' (n - 16)))
        else (case pb_read s n of (x, s') \<Rightarrow> (case x of None \<Rightarrow> (False, s') | Some _ \<Rightarrow> (True, s'))))"
      by (rule ext) (subst pb_read_tmp16.simps, rule refl)
    show ?case unfolding step
      by (intro run_if run_bind [OF read_run [OF assms(1) less.prems] less.prems] run_intros less.IH) simp_all
  qed
  show ?thesis
  proof (cases "in_is_buf_read s")
    case True
    then show ?thesis using read_run [OF assms, of n] by (auto simp: run_ok_def pb_read_null_def)
  next
    case False
    then show ?thesis using tmp16 by (auto simp: run_ok_def pb_read_null_def)
  qed
qed

lemma skip_varint_run:
  assumes "in_range_read rd"
  shows "bounded s \<Longrightarrow> run_ok rd s pb_skip_varint"
proof (induction "bytes_left s" arbitrary: s rule: less_induct)
  case less
  obtain x s' where r: "pb_read s 1 = (x, s')" "pb_read (via rd s) 1 = (x, via rd s')" "within s s'"
    using read_run [OF assms less.prems, of 1] by (auto simp: run_ok_def)
  show ?case
  proof (cases x)
    case None
    with r show ?thesis by (auto simp: run_ok_def pb_skip_varint.simps [of s] pb_skip_varint.simps [of "via rd s"])
  next
    case (Some bs)
    with r have "bytes_left s' < bytes_left s" using pb_read_shrinks [of s 1 bs s'] by simp
    from less.hyps [OF this within_bounded [OF r(3) less.prems]] r Some show ?thesis
      by (auto simp: run_ok_def pb_skip_varint.simps [of s] pb_skip_varint.simps [of "via rd s"] intro: within_trans)
  qed
qed

lemma skip_field_run:
  assumes "in_range_read rd" and "bounded s"
  shows "run_ok rd s (\<lambda>s. pb_skip_field s wt)"
proof -
  have "run_ok rd s pb_skip_string" unfolding pb_skip_string_def [abs_def]
    by (rule run_bind [OF varint32_run [OF assms] assms(2)]) (intro run_intros read_null_run assms(1))
  then show ?thesis unfolding pb_skip_field_def by (intro run_intros read_null_run skip_varint_run assms)
qed

lemma decode_tag_run:
  assumes "in_range_read rd" and "bounded s"
  shows "run_ok rd s pb_decode_tag"
proof -
  obtain x s' where "pb_decode_varint32 s = (x, s')" "pb_decode_varint32 (via rd s) = (x, via rd s')" "within s s'"
    using varint32_run [OF assms] by (auto simp: run_ok_def)
  then show ?thesis by (auto simp: run_ok_def pb_decode_tag_def split: option.splits)
qed

lemma fixed_run:
  assumes "in_range_read rd" and "bounded s"
  shows "run_ok rd s pb_decode_fixed32" and "run_ok rd s pb_decode_fixed64" and "run_ok rd s pb_decode_svarint"
  unfolding pb_decode_fixed32_def [abs_def] pb_decode_fixed64_def [abs_def] pb_decode_svarint_def [abs_def]
  by (rule run_bind [OF read_run [OF assms] assms(2)] run_bind [OF varint_run [OF assms] assms(2)], intro run_intros)+

text \<open>A substream is a part of its parent, which stands behind that part when it is closed.\<close>

lemma make_substream_run:
  assumes "in_range_read rd" and "bounded s" and r: "pb_make_string_substream s = (r, s')"
  shows "pb_make_string_substream (via rd s) = (map_option (via rd) r, via rd s') \<and>
    (case r of None \<Rightarrow> within s s'
     | Some sub \<Rightarrow> \<exists>s1. within s s1 \<and> bytes_left sub \<le> bytes_left s1 \<and>
        sub = s1\<lparr>bytes_left := bytes_left sub\<rparr> \<and> s' = s1\<lparr>bytes_left := bytes_left s1 - bytes_left sub\<rparr>)"
proof -
  obtain x s1 where "pb_decode_varint32 s = (x, s1)" "pb_decode_varint32 (via rd s) = (x, via rd s1)" "within s s1"
    using varint32_run [OF assms(1,2)] by (auto simp: run_ok_def)
  with r show ?thesis by (auto simp: pb_make_string_substream_def not_less split: option.splits if_splits)
qed

lemma close_substream_run:
  assumes "in_range_read rd" and b: "bounded s1" and k: "bytes_left sub \<le> bytes_left s1" and sub: "sub = s1\<lparr>bytes_left := bytes_left sub\<rparr>"
    and w: "within sub sub'" and p: "p = s1\<lparr>bytes_left := bytes_left s1 - bytes_left sub\<rparr>"
    and r: "pb_close_string_substream p sub' = (ok, s')"
  shows "pb_close_string_substream (via rd p) (via rd sub') = (ok, via rd s') \<and> within s1 s'"
proof -
  have bs: "bounded sub" using buf.substream_ok [OF b k] sub by metis
  then have b': "bounded sub'" using w within_bounded by blast
  obtain x s2 where n: "pb_read_null sub' (bytes_left sub') = (x, s2)" "pb_read_null (via rd sub') (bytes_left sub') = (x, via rd s2)" "within sub' s2"
    using read_null_run [OF assms(1) b', of "bytes_left sub'"] by (auto simp: run_ok_def)
  have at: "in_state sub = in_state s1" "in_callback sub = in_callback s1" by (subst sub, simp)+
  have shut: "within s1 (p\<lparr>in_state := in_state t, in_errmsg := e\<rparr>)" if t: "within sub t" for t e
  proof -
    obtain j where "in_state t = drop j (in_state s1)" "j + bytes_left t \<le> bytes_left sub"
      using t unfolding within_def at by blast
    with k show ?thesis unfolding p within_def by (auto intro!: exI [of _ j])
  qed
  have "within s1 p" using k unfolding p within_def by (auto intro!: exI [of _ 0])
  then show ?thesis using r n shut [OF w] shut [OF within_trans [OF w n(3)]]
    by (auto simp: pb_close_string_substream_def split: if_splits bool.splits)
qed

section \<open>Decoding\<close>

text \<open>The forms the decoders of scalars have.\<close>

lemma fin_bind:
  assumes "run_ok rd s g" and "bounded s" and "\<And>x s'. bounded s' \<Longrightarrow> dec_ok rd s' (\<lambda>s. Some (h x s))"
  shows "dec_ok rd s (\<lambda>s. Some (case g s of (x, s') \<Rightarrow> h x s'))"
proof -
  have "dec_ok rd s (\<lambda>s. case g s of (x, s') \<Rightarrow> Some (h x s'))" by (rule dec_bind [OF assms])
  moreover have "(\<lambda>s. case g s of (x, s') \<Rightarrow> Some (h x s')) = (\<lambda>s. Some (case g s of (x, s') \<Rightarrow> h x s'))"
    by (auto split: prod.splits)
  ultimately show ?thesis by simp
qed

lemma fin_if: "(b \<Longrightarrow> dec_ok rd s (\<lambda>s. Some (g s))) \<Longrightarrow> (\<not> b \<Longrightarrow> dec_ok rd s (\<lambda>s. Some (h s))) \<Longrightarrow>
    dec_ok rd s (\<lambda>s. Some (if b then g s else h s))"
  by (cases b) simp_all

lemma fin_option: "dec_ok rd s (\<lambda>s. Some (g s)) \<Longrightarrow> (\<And>v. dec_ok rd s (\<lambda>s. Some (h v s))) \<Longrightarrow>
    dec_ok rd s (\<lambda>s. Some (case x of None \<Rightarrow> g s | Some v \<Rightarrow> h v s))"
  by (cases x) simp_all

lemma fin_clamped: "dec_ok rd s (\<lambda>s. Some (check_clamped v r s m))"
  by (auto simp: check_clamped_def dec_error_def dec_ok_def split: option.splits)

lemmas fin_intros = fin_option fin_if fin_clamped dec_return

lemma read_to_dec: "in_range_read rd \<Longrightarrow> bounded s \<Longrightarrow> dec_ok rd s (\<lambda>s. Some (read_to s a n m))"
  unfolding read_to_def by (rule fin_bind [OF read_run]) (assumption+, intro fin_intros)

lemma read_to_then:
  "in_range_read rd \<Longrightarrow> bounded s \<Longrightarrow> dec_ok rd s (\<lambda>s. Some (case read_to s a n m of (st, s, m) \<Rightarrow> (st, s, g m)))"
  using read_to_dec [of rd s a n m] by (auto simp: dec_ok_def split: prod.splits)

lemma scalar_dec:
  assumes "in_range_read rd" and "bounded s"
  shows "dec_ok rd s (\<lambda>s. Some (pb_dec_varint s f dest m))" and "dec_ok rd s (\<lambda>s. Some (pb_dec_uvarint s f dest m))"
    and "dec_ok rd s (\<lambda>s. Some (pb_dec_svarint s f dest m))" and "dec_ok rd s (\<lambda>s. Some (pb_dec_fixed32 s f dest m))"
    and "dec_ok rd s (\<lambda>s. Some (pb_dec_fixed64 s f dest m))" and "dec_ok rd s (\<lambda>s. Some (pb_dec_bytes s f dest m))"
    and "dec_ok rd s (\<lambda>s. Some (pb_dec_string s f dest m))" and "dec_ok rd s (\<lambda>s. Some (pb_dec_fixed_length_bytes s f dest m))"
  unfolding pb_dec_varint_def pb_dec_uvarint_def pb_dec_svarint_def pb_dec_fixed32_def pb_dec_fixed64_def pb_dec_bytes_def
    pb_dec_string_def pb_dec_fixed_length_bytes_def Let_def
  by (rule fin_bind [OF varint_run [OF assms] assms(2)] fin_bind [OF fixed_run(1) [OF assms] assms(2)]
      fin_bind [OF fixed_run(2) [OF assms] assms(2)] fin_bind [OF fixed_run(3) [OF assms] assms(2)]
      fin_bind [OF varint32_run [OF assms] assms(2)],
      intro fin_intros read_to_dec [OF assms(1)] read_to_then [OF assms(1)], assumption?)+

text \<open>A decoder of submessages.\<close>

definition sub_runs :: "(u8 list \<Rightarrow> nat \<Rightarrow> u8 list option \<times> u8 list) \<Rightarrow> nat \<Rightarrow> (u64 \<Rightarrow> fld list) \<Rightarrow> u8 list sub_decoder \<Rightarrow> bool" where
  "sub_runs rd d env sub \<longleftrightarrow>
     (\<forall>fs k s dest m. layout_ok d env fs k \<longrightarrow> bounded s \<longrightarrow> dec_ok rd s (\<lambda>s. sub s fs dest m))"

lemma submessage_dec:
  assumes rd: "in_range_read rd" and b: "bounded s" and l: "\<And>p. ptr f = Some p \<Longrightarrow> \<exists>k. layout_ok d (dec_fields E) (dec_fields E p) k"
    and sub: "sub_runs rd d (dec_fields E) sub"
  shows "dec_ok rd s (\<lambda>s. pb_dec_submessage E init sub s f dest m)"
proof -
  obtain r s' where r: "pb_make_string_substream s = (r, s')" by fastforce
  note mk = make_substream_run [OF rd b r]
  show ?thesis
  proof (cases r)
    case None
    with r mk show ?thesis by (simp add: dec_ok_def pb_dec_submessage_def)
  next
    case (Some substream)
    with mk obtain s1 where v: "pb_make_string_substream (via rd s) = (Some (via rd substream), via rd s')"
      and s1: "within s s1" "bytes_left substream \<le> bytes_left s1" "substream = s1\<lparr>bytes_left := bytes_left substream\<rparr>"
        "s' = s1\<lparr>bytes_left := bytes_left s1 - bytes_left substream\<rparr>" by auto
    have b1: "bounded s1" by (rule within_bounded [OF s1(1) b])
    then have bs: "bounded substream" using buf.substream_ok [OF b1 s1(2)] s1(3) by metis
    have p: "within s s'" using s1(1,2,4) by (auto simp: within_def)
    show ?thesis unfolding dec_ok_def
    proof (intro allI impI)
      fix ok s2 m'
      assume res: "pb_dec_submessage E init sub s f dest m = Some (ok, s2, m')"
      show "pb_dec_submessage E init sub (via rd s) f dest m = Some (ok, via rd s2, m') \<and> within s s2"
      proof (cases "ptr f")
        case None
        with res r v Some p show ?thesis by (auto simp: pb_dec_submessage_def dec_error_def)
      next
        case q: (Some q)
        with res r Some obtain m1 st sub' mm where m1: "(if htype f = PB_HTYPE_REPEATED then init (dec_fields E q) dest m else Some m) = Some m1"
          and st: "sub substream (dec_fields E q) dest m1 = Some (st, sub', mm)"
          by (auto simp: pb_dec_submessage_def split: option.splits)
        obtain c s3 where c: "pb_close_string_substream s' sub' = (c, s3)" by fastforce
        obtain k where "layout_ok d (dec_fields E) (dec_fields E q) k" using l [OF q] by blast
        with sub bs st have sv: "sub (via rd substream) (dec_fields E q) dest m1 = Some (st, via rd sub', mm)" "within substream sub'"
          unfolding sub_runs_def dec_ok_def by blast+
        note cl = close_substream_run [OF rd b1 s1(2,3) sv(2) s1(4) c]
        have "ok = (c \<and> st)" "s2 = s3" "m' = mm" using res r Some q m1 st c by (auto simp: pb_dec_submessage_def)
        with v Some q m1 sv(1) cl s1(1) show ?thesis by (auto simp: pb_dec_submessage_def intro: within_trans)
      qed
    qed
  qed
qed

lemma item_dec:
  assumes rd: "in_range_read rd" and b: "bounded s" and f: "item_ok (\<lambda>p. layout_ok d (dec_fields E) (dec_fields E p)) f"
    and sub: "sub_runs rd d (dec_fields E) sub"
  shows "dec_ok rd s (\<lambda>s. PB_DECODERS E init sub s f dest m)"
proof -
  have "dec_ok rd s (\<lambda>s. pb_dec_submessage E init sub s f dest m)" if "ltype f = PB_LTYPE_SUBMESSAGE"
    by (rule submessage_dec [OF rd b _ sub]) (use that f in \<open>auto simp: item_ok_def split: option.splits\<close>)
  then show ?thesis unfolding PB_DECODERS_def by (intro dec_if scalar_dec [OF rd b] dec_return) simp
qed

lemma within_left: "within s s' \<Longrightarrow> bytes_left s' \<le> bytes_left s"
  by (auto simp: within_def)

lemma dec_okE:
  assumes "dec_ok rd s g" and "g s = Some (ok, s', m')"
  shows "g (via rd s) = Some (ok, via rd s', m')" and "within s s'"
  using assms unfolding dec_ok_def by blast+

lemma packed_dec:
  assumes item: "\<And>s a m. bounded s \<Longrightarrow> dec_ok rd s (\<lambda>s. func s (cur iter) a m)"
    and prog: "\<And>s a m. bounded s \<Longrightarrow> progresses s (func s (cur iter) a m)"
  shows "bounded s \<Longrightarrow> dec_ok rd s (\<lambda>s. packed_loop func iter s m)"
proof (induction "bytes_left s" arbitrary: s m rule: less_induct)
  case less
  let ?a = "pData iter + ucast (data_size (cur iter) * load_u32 m (pSize iter))"
  show ?case
  proof (cases "0 < bytes_left s \<and> load_u32 m (pSize iter) < array_size (cur iter) \<and> func s (cur iter) ?a m \<noteq> None")
    case False
    then show ?thesis
      unfolding dec_ok_def packed_loop.simps [of func iter s m] packed_loop.simps [of func iter "via rd s" m]
      by (cases "func s (cur iter) ?a m") (auto simp: Let_def)
  next
    case True
    then obtain ok s1 m1 where r: "func s (cur iter) ?a m = Some (ok, s1, m1)" by auto
    note v = dec_okE [OF item [OF less.prems] r]
    let ?m = "store_word (pSize iter) (load_u32 m1 (pSize iter) + 1) m1"
    have rec: "dec_ok rd s1 (\<lambda>s. packed_loop func iter s ?m)" if ok
      by (rule less.hyps) (use prog [OF less.prems] r that within_bounded [OF v(2) less.prems] in \<open>auto simp: progresses_def\<close>)
    show ?thesis
      unfolding dec_ok_def packed_loop.simps [of func iter s m] packed_loop.simps [of func iter "via rd s" m]
      using True r v rec by (auto simp: Let_def dest: dec_okE intro: within_trans)
  qed
qed

lemma packed_field_dec:
  assumes rd: "in_range_read rd" and b: "bounded s"
    and loop: "\<And>s m. bounded s \<Longrightarrow> dec_ok rd s (\<lambda>s. packed_loop func iter s m)"
  shows "dec_ok rd s (\<lambda>s. case pb_make_string_substream s of
             (None, s) \<Rightarrow> Some (False, s, m)
           | (Some substream, s) \<Rightarrow>
               (case packed_loop func iter substream m of
                  None \<Rightarrow> None
                | Some (status, substream, m) \<Rightarrow>
                    if bytes_left substream \<noteq> 0 then Some (dec_error ''array overflow'' s m)
                    else (case pb_close_string_substream s substream of
                            (ok, s) \<Rightarrow> Some (ok \<and> status, s, m))))"
proof -
  obtain r s' where r: "pb_make_string_substream s = (r, s')" by fastforce
  note mk = make_substream_run [OF rd b r]
  show ?thesis
  proof (cases r)
    case None
    with r mk show ?thesis by (simp add: dec_ok_def)
  next
    case (Some substream)
    with mk obtain s1 where v: "pb_make_string_substream (via rd s) = (Some (via rd substream), via rd s')"
      and s1: "within s s1" "bytes_left substream \<le> bytes_left s1" "substream = s1\<lparr>bytes_left := bytes_left substream\<rparr>"
        "s' = s1\<lparr>bytes_left := bytes_left s1 - bytes_left substream\<rparr>" by auto
    have b1: "bounded s1" by (rule within_bounded [OF s1(1) b])
    then have bs: "bounded substream" using buf.substream_ok [OF b1 s1(2)] s1(3) by metis
    have p: "within s s'" using s1(1,2,4) by (auto simp: within_def)
    show ?thesis
    proof (cases "packed_loop func iter substream m")
      case None
      with r Some show ?thesis by (simp add: dec_ok_def)
    next
      case (Some res)
      then obtain st sub' mm where st: "packed_loop func iter substream m = Some (st, sub', mm)" by (cases res) auto
      note sv = dec_okE [OF loop [OF bs] st]
      obtain c s3 where c: "pb_close_string_substream s' sub' = (c, s3)" by fastforce
      note cl = close_substream_run [OF rd b1 s1(2,3) sv(2) s1(4) c]
      show ?thesis using r \<open>r = Some substream\<close> v st sv(1) c cl p s1(1)
        by (auto simp: dec_ok_def dec_error_def intro: within_trans)
    qed
  qed
qed

lemma static_dec:
  assumes rd: "in_range_read rd" and b: "bounded s" and f: "item_ok (\<lambda>p. layout_ok d (dec_fields E) (dec_fields E p)) (cur iter)"
    and sub: "sub_runs rd d (dec_fields E) sub"
  shows "dec_ok rd s (\<lambda>s. decode_static_field E init sub s wt iter m)"
proof -
  note item = item_dec [OF rd _ f sub]
  have packed: "dec_ok rd s (\<lambda>s. packed_loop (PB_DECODERS E init sub) iter s m)"
    if "bounded s" "ltype (cur iter) \<le> PB_LTYPE_LAST_PACKABLE" for s m
    by (rule packed_dec [where func = "PB_DECODERS E init sub", OF _ _ that(1)])
      (use item buf.item_progresses [OF _ that(2)] in blast)+
  show ?thesis unfolding decode_static_field_def Let_def
    by (intro dec_if dec_option item [OF b] packed_field_dec [OF rd b] packed dec_return) simp_all
qed

lemma field_dec:
  assumes rd: "in_range_read rd" and b: "bounded s" and l: "layout_ok (Suc d) (dec_fields E) fs n" and i: "valid_pos (length fs - 1) i"
    and sub: "sub_runs rd d (dec_fields E) sub"
  shows "dec_ok rd s (\<lambda>s. decode_field E init sub s wt (iter_at fs a i) m)"
proof (cases "i < length fs - 1")
  case True
  then have f: "field_ok (\<lambda>p. layout_ok d (dec_fields E) (dec_fields E p)) fs n i" and c: "cur (iter_at fs a i) = fs ! i"
    using l cur_iter_at [OF layout_descriptor [OF l] True] by simp_all
  then have "dec_ok rd s (\<lambda>s. decode_static_field E init sub s wt (iter_at fs a i) m)"
    by (intro static_dec [OF rd b _ sub]) (simp add: field_ok_def del: iter_at.simps)
  then show ?thesis using field_types [OF f] c by (simp add: decode_field_def del: iter_at.simps)
next
  case False
  note d = layout_descriptor [OF l]
  have e: "i = 0" "length fs - 1 = 0" using i False by (auto simp: valid_pos_def)
  have "fs \<noteq> []" using d by (auto simp: descriptor_def)
  then have "fs ! 0 = last fs" using e by (simp add: last_conv_nth)
  then have f: "ftype (fs ! 0) = 0" using l by simp
  have c: "cur (iter_at fs a i) = fs ! 0" using pos_valid [OF d i, of a] e by (simp add: cur_def del: iter_at.simps(1))
  have "decode_field E init sub s wt (iter_at fs a i) m = Some (pb_dec_varint s (fs ! 0) (pData (iter_at fs a i)) m)" for s
    using f c by (simp add: decode_field_def decode_static_field_def PB_DECODERS_def PB_ATYPE_def PB_HTYPE_def PB_LTYPE_def Let_def del: iter_at.simps)
  then show ?thesis using scalar_dec(1) [OF rd b] by simp
qed

lemma decode_loop_dec:
  assumes rd: "in_range_read rd" and d: "descriptor fs (length fs - 1)"
    and known: "\<And>s wt j m. bounded s \<Longrightarrow> valid_pos (length fs - 1) j \<Longrightarrow> dec_ok rd s (\<lambda>s. known s wt (iter_at fs a j) m)"
    and unknown: "\<And>s t wt j rng m. bounded s \<Longrightarrow> valid_pos (length fs - 1) j \<Longrightarrow> t \<noteq> - 1 \<Longrightarrow>
      \<exists>ok s' rng'. unknown s t wt (iter_at fs a j) rng m = Some (ok, s', iter_at fs a j, rng', m) \<and>
        unknown (via rd s) t wt (iter_at fs a j) rng m = Some (ok, via rd s', iter_at fs a j, rng', m) \<and> within s s'"
  shows "bounded s \<Longrightarrow> valid_pos (length fs - 1) i \<Longrightarrow>
    decode_loop known unknown s (iter_at fs a i) seen rng m = Some (ok, s', it', seen', m') \<Longrightarrow>
    decode_loop known unknown (via rd s) (iter_at fs a i) seen rng m = Some (ok, via rd s', it', seen', m') \<and> within s s'"
proof (induction "bytes_left s" arbitrary: s i seen rng m rule: less_induct)
  case less
  let ?loop = "decode_loop known unknown"
  note unf = decode_loop.simps [of known unknown s] decode_loop.simps [of known unknown "via rd s"]
  obtain tok wt t eof s1 where tg: "pb_decode_tag s = ((tok, wt, t, eof), s1)" by (metis prod_cases3 surj_pair)
  with decode_tag_run [OF rd less.prems(1)] have tv: "pb_decode_tag (via rd s) = ((tok, wt, t, eof), via rd s1)" "within s s1"
    by (auto simp: run_ok_def)
  have b1: "bounded s1" by (rule within_bounded [OF tv(2) less.prems(1)])
  show ?case
  proof (cases "bytes_left s = 0 \<or> \<not> tok")
    case True
    with less.prems(3) tg tv show ?thesis unfolding unf by (auto split: if_splits)
  next
    case False
    then have left: "bytes_left s \<noteq> 0" and tok: tok by auto
    have lt: "bytes_left s1 < bytes_left s" using buf.decode_tag_reads [OF less.prems(1) tg] tok by blast
    obtain found j where f: "pb_field_iter_find (iter_at fs a i) t = Some (found, iter_at fs a j)" "valid_pos (length fs - 1) j"
      using find_valid [OF d less.prems(2)] by blast
    have rec: "?loop (via rd s2) (iter_at fs a j) seen2 rng2 m2 = Some (ok, via rd s', it', seen', m') \<and> within s s'"
      if "within s1 s2" "?loop s2 (iter_at fs a j) seen2 rng2 m2 = Some (ok, s', it', seen', m')" for s2 seen2 rng2 m2
      using less.hyps [OF _ within_bounded [OF that(1) b1] f(2) that(2)] within_left [OF that(1)] lt
        within_trans [OF tv(2) that(1)] by (auto intro: within_trans)
    show ?thesis
    proof (cases found)
      case True
      show ?thesis
      proof (cases "known s1 wt (iter_at fs a j) m")
        case None
        with less.prems(3) left tg tok f True show ?thesis unfolding unf by (simp add: Let_def del: iter_at.simps)
      next
        case (Some res)
        then obtain ok2 s2 m2 where k: "known s1 wt (iter_at fs a j) m = Some (ok2, s2, m2)" by (cases res) auto
        note kv = dec_okE [OF known [OF b1 f(2)] k]
        show ?thesis
        proof (cases ok2)
          case ok2: True
          with less.prems(3) left tg tok f True k
          have "?loop s2 (iter_at fs a j) (mark_seen (iter_at fs a j) seen) rng m2 = Some (ok, s', it', seen', m')"
            unfolding unf by (simp add: Let_def del: iter_at.simps)
          from rec [OF kv(2) this] kv(1) left tv(1) tok f True ok2 show ?thesis
            unfolding unf(2) by (simp add: Let_def del: iter_at.simps)
        next
          case nok: False
          with less.prems(3) left tg tok f True k kv tv show ?thesis
            unfolding unf by (auto simp: Let_def simp del: iter_at.simps intro: within_trans)
        qed
      qed
    next
      case False
      have "t \<noteq> - 1" using decoded_tag [of s] tg tok by simp
      from unknown [OF b1 f(2) this, of wt rng m] obtain ok2 s2 rng2 where
        u: "unknown s1 t wt (iter_at fs a j) rng m = Some (ok2, s2, iter_at fs a j, rng2, m)"
        "unknown (via rd s1) t wt (iter_at fs a j) rng m = Some (ok2, via rd s2, iter_at fs a j, rng2, m)" "within s1 s2" by blast
      show ?thesis
      proof (cases ok2)
        case ok2: True
        with less.prems(3) left tg tok f False u
        have "?loop s2 (iter_at fs a j) seen rng2 m = Some (ok, s', it', seen', m')"
          unfolding unf by (simp add: Let_def del: iter_at.simps)
        from rec [OF u(3) this] u(2) left tv(1) tok f False ok2 show ?thesis
          unfolding unf(2) by (simp add: Let_def del: iter_at.simps)
      next
        case nok: False
        with less.prems(3) left tg tok f False u tv show ?thesis
          unfolding unf by (auto simp: Let_def simp del: iter_at.simps intro: within_trans)
      qed
    qed
  qed
qed

lemma unknown_dec:
  assumes rd: "in_range_read rd" and b: "bounded s" and l: "layout_ok d (dec_fields E) fs n" and j: "valid_pos (length fs - 1) j"
    and t: "t \<noteq> - 1"
  shows "\<exists>ok s' rng'. decode_unknown E init sub s t wt (iter_at fs a j) rng m = Some (ok, s', iter_at fs a j, rng', m) \<and>
    decode_unknown E init sub (via rd s) t wt (iter_at fs a j) rng m = Some (ok, via rd s', iter_at fs a j, rng', m) \<and> within s s'"
proof -
  obtain x s2 where x: "pb_skip_field s wt = (x, s2)" "pb_skip_field (via rd s) wt = (x, via rd s2)" "within s s2"
    using skip_field_run [OF rd b, of wt] by (auto simp: run_ok_def)
  have "\<not> - 1 \<le> t" using t by (simp add: word_le_nat_alt not_le) (metis max_word_max not_less order_le_less word_less_nat_alt)
  with x find_extension_valid [OF l j] show ?thesis
    by (auto simp: decode_unknown_def Let_def simp del: iter_at.simps)
qed

lemma noinit_dec:
  assumes rd: "in_range_read rd"
  shows "sub_runs rd d (dec_fields E) (pb_decode_noinit d E)"
proof (induction d)
  case 0
  show ?case by (simp add: sub_runs_def)
next
  case (Suc d)
  show ?case unfolding sub_runs_def
  proof (intro allI impI)
    fix fs n s a m
    assume l: "layout_ok (Suc d) (dec_fields E) fs n" and b: "bounded s"
    let ?init = "pb_message_set_to_defaults d (dec_fields E)"
    let ?loop = "\<lambda>s. decode_loop (decode_field E ?init (pb_decode_noinit d E)) (decode_unknown E ?init (pb_decode_noinit d E)) s
      (iter_at fs a 0) [0, 0] 0 m"
    have loop: "?loop (via rd s) = Some (ok, via rd s', it', seen', m') \<and> within s s'" if "?loop s = Some (ok, s', it', seen', m')"
      for ok s' it' seen' m'
      by (rule decode_loop_dec [OF rd layout_descriptor [OF l] field_dec [OF rd _ l _ Suc.IH] unknown_dec [OF rd _ l] b valid_0 that])
    show "dec_ok rd s (\<lambda>s. pb_decode_noinit (Suc d) E s fs a m)" unfolding dec_ok_def
    proof (intro allI impI)
      fix ok s' m'
      assume res: "pb_decode_noinit (Suc d) E s fs a m = Some (ok, s', m')"
      then obtain b2 s2 it seen m2 where r: "?loop s = Some (b2, s2, it, seen, m2)"
        by (auto simp: Let_def simp del: iter_at.simps simp flip: iter_at.simps(1) split: option.splits)
      from res loop [OF r] r show "pb_decode_noinit (Suc d) E (via rd s) fs a m = Some (ok, via rd s', m') \<and> within s s'"
        by (auto simp: Let_def dec_error_def simp del: iter_at.simps simp flip: iter_at.simps(1) split: option.splits if_splits)
    qed
  qed
qed

lemma decode_dec:
  assumes "in_range_read rd" and "layout_ok d (dec_fields E) fs n" and "bounded s"
  shows "dec_ok rd s (\<lambda>s. pb_decode d E s fs a m)" and "dec_ok rd s (\<lambda>s. pb_decode_noinit d E s fs a m)"
proof -
  show n: "dec_ok rd s (\<lambda>s. pb_decode_noinit d E s fs a m)" for m
    using noinit_dec [OF assms(1), of d E] assms(2,3) unfolding sub_runs_def by blast
  show "dec_ok rd s (\<lambda>s. pb_decode d E s fs a m)" unfolding pb_decode_def by (intro dec_option n dec_return)
qed

lemma delimited_dec:
  assumes rd: "in_range_read rd" and l: "layout_ok d (dec_fields E) fs n" and b: "bounded s"
  shows "dec_ok rd s (\<lambda>s. pb_decode_delimited d E s fs a m)"
proof -
  obtain r s' where r: "pb_make_string_substream s = (r, s')" by fastforce
  note mk = make_substream_run [OF rd b r]
  show ?thesis
  proof (cases r)
    case None
    with r mk show ?thesis by (simp add: dec_ok_def pb_decode_delimited_def)
  next
    case (Some substream)
    with mk obtain s1 where v: "pb_make_string_substream (via rd s) = (Some (via rd substream), via rd s')"
      and s1: "within s s1" "bytes_left substream \<le> bytes_left s1" "substream = s1\<lparr>bytes_left := bytes_left substream\<rparr>"
        "s' = s1\<lparr>bytes_left := bytes_left s1 - bytes_left substream\<rparr>" by auto
    have b1: "bounded s1" by (rule within_bounded [OF s1(1) b])
    then have bs: "bounded substream" using buf.substream_ok [OF b1 s1(2)] s1(3) by metis
    obtain st sub' mm where st: "pb_decode d E substream fs a m = Some (st, sub', mm)"
      using buf.decode_contained [OF l bs, of a m] by (auto simp: contained_def)
    note sv = dec_okE [OF decode_dec(1) [OF rd l bs] st]
    obtain c s3 where c: "pb_close_string_substream s' sub' = (c, s3)" by fastforce
    note cl = close_substream_run [OF rd b1 s1(2,3) sv(2) s1(4) c]
    show ?thesis using r Some v st sv(1) c cl s1(1)
      by (auto simp: dec_ok_def pb_decode_delimited_def intro: within_trans)
  qed
qed

section \<open>Property\<close>

text \<open>C1: memory safety and termination of the decoder. For static descriptors that fit a struct of \<open>n\<close> bytes
  (\<open>layout_ok\<close>: no callback, extension or pointer fields, submessages nested less than \<open>d\<close> deep, less than 64
  required fields in each message and not 32, for the reason in \<open>required_check\<close>), whatever the input
  bytes and whatever the struct holds before the call, \<open>pb_decode\<close>, \<open>pb_decode_noinit\<close> and \<open>pb_decode_delimited\<close>
  return with no undefined behaviour on the way and leave every byte outside the struct as it was. They never read
  past the input, whether they accept or refuse it: \<open>rd\<close> is any callback that does what \<open>buf_read\<close> does as long
  as the bytes asked for are there and anything whatever when they are not, as C leaves it, and with each of
  them the result, the struct and the stream are the same. The stream they leave stands at a position \<open>k\<close> of the input with no
  more bytes to read than are left there, on success exactly those.\<close>

theorem pb_decode_safe:
  assumes l: "layout_ok d (dec_fields E) fs n"
    and f: "f \<in> {pb_decode d E, pb_decode_noinit d E, pb_decode_delimited d E}"
  shows "\<exists>ok s' m' k. f (pb_istream_from_buffer inp (length inp)) fs dest m = Some (ok, s', m') \<and>
    (\<forall>x. n \<le> unat (x - dest) \<longrightarrow> m' x = m x) \<and>
    (\<forall>rd. (\<forall>st c. c \<le> length st \<longrightarrow> rd st c = buf_read st c) \<longrightarrow>
      f ((pb_istream_from_buffer inp (length inp))\<lparr>in_callback := rd\<rparr>) fs dest m = Some (ok, s'\<lparr>in_callback := rd\<rparr>, m')) \<and>
    in_state s' = drop k inp \<and> k + bytes_left s' \<le> length inp \<and> (ok \<longrightarrow> k + bytes_left s' = length inp)"
proof -
  let ?s = "pb_istream_from_buffer inp (length inp)"
  have b: "bounded ?s" by (simp add: source_ok_buffer)
  have "contained (\<lambda>bs. bs) (span dest n) ?s m (f ?s fs dest m)"
    using f buf.decode_contained [OF l b] buf.delimited_contained [OF l b] buf.noinit_contained [of d E] l b
    unfolding sub_safe_def by blast
  then obtain ok s' m' where r: "f ?s fs dest m = Some (ok, s', m')" and rd: "ok \<Longrightarrow> reads (\<lambda>bs. bs) ?s s'"
    and m': "keeps (span dest n) m m'" by (auto simp: contained_def)
  have dec: "dec_ok rd ?s (\<lambda>s. f s fs dest m)" if "in_range_read rd" for rd
    using f decode_dec [OF that l b] delimited_dec [OF that l b] by blast
  have "in_range_read buf_read" by (simp add: in_range_read_def)
  from dec_okE(2) [OF dec [OF this] r] obtain k where k: "in_state s' = drop k inp" "k + bytes_left s' \<le> length inp"
    by (auto simp: within_def)
  define j where "j = (if ok then length inp - bytes_left s' else k)"
  have "in_state s' = drop j inp" "j + bytes_left s' \<le> length inp" "ok \<longrightarrow> j + bytes_left s' = length inp"
    using k reads_buffer [OF rd] by (auto simp: j_def)
  moreover have "\<forall>x. n \<le> unat (x - dest) \<longrightarrow> m' x = m x" using m' by (auto simp: keeps_def span_def)
  moreover have "f (via rd ?s) fs dest m = Some (ok, via rd s', m')" if "\<forall>st c. c \<le> length st \<longrightarrow> rd st c = buf_read st c" for rd
    by (rule dec_okE(1) [OF dec r]) (use that in \<open>simp add: in_range_read_def\<close>)
  ultimately show ?thesis using r by blast
qed

lemma pb_decode_safe_witness:
  "let E = \<lparr>dec_fields = example_env, dec_callback = \<lambda>_ s _ _ m. (False, s, m),
        dec_callback_buf = \<lambda>_ s _ _ m. (False, s, m), dec_extension = \<lambda>_ s _ _ _ m. (False, s, m)\<rparr>;
      rd = \<lambda>st c. if length st < c then (Some (replicate c 0xFF), st) else buf_read st c;
      s = pb_istream_from_buffer [0x12, 0x7F, 0x41] 3
   in \<exists>ok s' m'. pb_decode 2 E s example_message 4096 (\<lambda>_. 0xAA) = Some (ok, s', m') \<and> m' 4136 = 0xAA \<and>
        pb_decode 2 E (s\<lparr>in_callback := rd\<rparr>) example_message 4096 (\<lambda>_. 0xAA) = Some (ok, s'\<lparr>in_callback := rd\<rparr>, m')"
proof -
  let ?E = "\<lparr>dec_fields = example_env, dec_callback = \<lambda>_ s _ _ m. (False, s, m),
      dec_callback_buf = \<lambda>_ s _ _ m. (False, s, m), dec_extension = \<lambda>_ s _ _ _ m. (False, s, m)\<rparr>
    :: u8 list decode_env"
  let ?rd = "\<lambda>st c. if length st < c then (Some (replicate c 0xFF), st) else buf_read st c"
  let ?s = "pb_istream_from_buffer [0x12, 0x7F, 0x41] 3"
  have l: "layout_ok 2 (dec_fields ?E) example_message 40" using example_layout by simp
  have rd: "\<forall>st c. c \<le> length st \<longrightarrow> ?rd st c = buf_read st c" by simp
  from pb_decode_safe [OF l, of "pb_decode 2 ?E" "[0x12, 0x7F, 0x41]" 4096 "\<lambda>_. 0xAA"]
  obtain ok s' m' where s': "pb_decode 2 ?E ?s example_message 4096 (\<lambda>_. 0xAA) = Some (ok, s', m')"
    and m': "\<forall>x. 40 \<le> unat (x - 4096) \<longrightarrow> m' x = 0xAA"
    and v: "\<forall>rd. (\<forall>st c. c \<le> length st \<longrightarrow> rd st c = buf_read st c) \<longrightarrow>
      pb_decode 2 ?E (?s\<lparr>in_callback := rd\<rparr>) example_message 4096 (\<lambda>_. 0xAA) = Some (ok, s'\<lparr>in_callback := rd\<rparr>, m')"
    by (auto simp: numeral_3_eq_3)
  have "m' 4136 = 0xAA" using m' [rule_format, of 4136] by simp
  then show ?thesis unfolding Let_def using s' v [THEN spec, THEN mp, OF rd] by blast
qed

end
