(* ===== verification/Mem_Buf.thy ===== *)
theory Mem_Buf
  imports Prelude
begin

text \<open>
  Memory and string helpers of BoringSSL (crypto/mem.c, crypto/buf/buf.c).

  A pointer to bytes is the list of bytes from the pointer to the end of its object; a C string is
  such a list with a NUL in it. The allocator is a parameter: \<open>malloc n\<close> is None when it fails and
  a block of \<open>n\<close> bytes with arbitrary contents otherwise. Where the C code calls
  \<open>OPENSSL_PUT_ERROR\<close> before returning, the model returns the reason as an error value.
\<close>

type_synonym malloc_fn = "size_t \<Rightarrow> u8 list option"

definition malloc_ok :: "malloc_fn \<Rightarrow> bool" where
  "malloc_ok malloc \<longleftrightarrow> (\<forall>n blk. malloc n = Some blk \<longrightarrow> length blk = unat n)"

text \<open>An allocator that never fails, for the concrete runs.\<close>

definition zero_malloc :: malloc_fn where
  "zero_malloc n = Some (replicate (unat n) 0)"

lemma zero_malloc_ok: "malloc_ok zero_malloc"
  by (simp add: malloc_ok_def zero_malloc_def)

datatype err_reason = ERR_R_MALLOC_FAILURE

section \<open>crypto/mem.c\<close>

text \<open>\<open>OPENSSL_realloc\<close>: allocate, copy the common prefix, free the old block.\<close>

definition OPENSSL_realloc :: "malloc_fn \<Rightarrow> u8 list option \<Rightarrow> size_t \<Rightarrow> u8 list option" where
  "OPENSSL_realloc malloc orig_ptr new_size =
     (case orig_ptr of
        None \<Rightarrow> malloc new_size
      | Some old \<Rightarrow>
          (case malloc new_size of
             None \<Rightarrow> None
           | Some ret \<Rightarrow>
               (let to_copy = (if length old < unat new_size then length old else unat new_size)
                in Some (take to_copy old @ drop to_copy ret))))"

fun memcmp_loop :: "u8 \<Rightarrow> u8 list \<Rightarrow> u8 list \<Rightarrow> nat \<Rightarrow> u8" where
  "memcmp_loop x a b 0 = x"
| "memcmp_loop x a b (Suc n) = memcmp_loop (x OR (hd a XOR hd b)) (tl a) (tl b) n"

definition CRYPTO_memcmp :: "u8 list \<Rightarrow> u8 list \<Rightarrow> nat \<Rightarrow> u8" where
  "CRYPTO_memcmp a b len = memcmp_loop 0 a b len"

definition OPENSSL_hash32 :: "u8 list \<Rightarrow> nat \<Rightarrow> u32" where
  "OPENSSL_hash32 p len =
     foldl (\<lambda>h b. (h XOR ucast b) * 16777619) 2166136261 (take len p)"

fun OPENSSL_strnlen :: "u8 list \<Rightarrow> nat \<Rightarrow> nat" where
  "OPENSSL_strnlen s 0 = 0"
| "OPENSSL_strnlen s (Suc len) = (if hd s = 0 then 0 else Suc (OPENSSL_strnlen (tl s) len))"

text \<open>The C library's \<open>strlen\<close>.\<close>

definition strlen :: "u8 list \<Rightarrow> nat" where
  "strlen s = length (takeWhile (\<lambda>c. c \<noteq> 0) s)"

definition OPENSSL_strdup :: "malloc_fn \<Rightarrow> u8 list \<Rightarrow> u8 list option" where
  "OPENSSL_strdup malloc s =
     (let len = strlen s + 1 in
      case malloc (word_of_nat len) of
        None \<Rightarrow> None
      | Some ret \<Rightarrow> Some (take len s @ drop len ret))"

definition OPENSSL_tolower :: "int \<Rightarrow> int" where
  "OPENSSL_tolower c = (if 65 \<le> c \<and> c \<le> 90 then c + (97 - 65) else c)"

text \<open>The loop reads \<open>char\<close> values, which are signed on the targets of this build.\<close>

function strncasecmp_loop :: "u8 list \<Rightarrow> u8 list \<Rightarrow> nat \<Rightarrow> int" where
  "strncasecmp_loop a b n =
     (if n = 0 then 0
      else
        let aa = OPENSSL_tolower (sint (hd a)); bb = OPENSSL_tolower (sint (hd b)) in
        if aa < bb then -1 else if bb < aa then 1 else if aa = 0 then 0
        else strncasecmp_loop (tl a) (tl b) (n - 1))"
  by pat_completeness auto
termination
  by (relation "measure (\<lambda>(_, _, n). n)") auto

declare strncasecmp_loop.simps [simp del]

definition OPENSSL_strncasecmp :: "u8 list \<Rightarrow> u8 list \<Rightarrow> nat \<Rightarrow> int" where
  "OPENSSL_strncasecmp a b n = strncasecmp_loop a b n"

section \<open>crypto/buf/buf.c\<close>

fun BUF_strnlen :: "u8 list \<Rightarrow> nat \<Rightarrow> nat" where
  "BUF_strnlen str 0 = 0"
| "BUF_strnlen str (Suc max_len) = (if hd str = 0 then 0 else Suc (BUF_strnlen (tl str) max_len))"

definition BUF_strndup :: "malloc_fn \<Rightarrow> u8 list option \<Rightarrow> nat \<Rightarrow> err_reason + u8 list option" where
  "BUF_strndup malloc str n =
     (case str of
        None \<Rightarrow> Inr None
      | Some s \<Rightarrow>
          (let sz = (word_of_nat (BUF_strnlen s n) :: size_t); alloc_size = sz + 1 in
           if alloc_size < sz then Inl ERR_R_MALLOC_FAILURE
           else (case malloc alloc_size of
                   None \<Rightarrow> Inl ERR_R_MALLOC_FAILURE
                 | Some ret \<Rightarrow> Inr (Some ((take (unat sz) s @ drop (unat sz) ret)[unat sz := 0])))))"

definition BUF_strdup :: "malloc_fn \<Rightarrow> u8 list option \<Rightarrow> err_reason + u8 list option" where
  "BUF_strdup malloc str =
     (case str of None \<Rightarrow> Inr None | Some s \<Rightarrow> BUF_strndup malloc (Some s) (strlen s))"

definition BUF_memdup :: "malloc_fn \<Rightarrow> u8 list \<Rightarrow> nat \<Rightarrow> err_reason + u8 list option" where
  "BUF_memdup malloc p n =
     (if n = 0 then Inr None
      else (case malloc (word_of_nat n) of
              None \<Rightarrow> Inl ERR_R_MALLOC_FAILURE
            | Some ret \<Rightarrow> Inr (Some (take n p @ drop n ret))))"

text \<open>
  \<open>strlcpy_loop\<close> returns the bytes copied, the destination size left and the rest of the source.
\<close>

fun strlcpy_loop :: "u8 list \<Rightarrow> nat \<Rightarrow> u8 list \<times> nat \<times> u8 list" where
  "strlcpy_loop [] dst_size = ([], dst_size, [])"
| "strlcpy_loop (c # src) dst_size =
     (if 1 < dst_size \<and> c \<noteq> 0
      then (case strlcpy_loop src (dst_size - 1) of (out, left, rest) \<Rightarrow> (c # out, left, rest))
      else ([], dst_size, c # src))"

definition BUF_strlcpy :: "u8 list \<Rightarrow> u8 list \<Rightarrow> nat \<Rightarrow> nat \<times> u8 list" where
  "BUF_strlcpy dst src dst_size =
     (case strlcpy_loop src dst_size of
        (out, left, rest) \<Rightarrow>
          (length out + strlen rest,
           if left \<noteq> 0 then out @ (drop (length out) dst)[0 := 0] else out @ drop (length out) dst))"

definition BUF_strlcat :: "u8 list \<Rightarrow> u8 list \<Rightarrow> nat \<Rightarrow> nat \<times> u8 list" where
  "BUF_strlcat dst src dst_size =
     (let l = length (takeWhile (\<lambda>c. c \<noteq> 0) (take dst_size dst)) in
      case BUF_strlcpy (drop l dst) src (dst_size - l) of
        (r, d) \<Rightarrow> (l + r, take l dst @ d))"

record buf_mem =
  bm_length :: size_t
  bm_data :: "u8 list option"
  bm_max :: size_t

definition BUF_MEM_new :: "bool \<Rightarrow> err_reason + buf_mem" where
  "BUF_MEM_new alloc =
     (if alloc then Inr \<lparr>bm_length = 0, bm_data = None, bm_max = 0\<rparr> else Inl ERR_R_MALLOC_FAILURE)"

definition BUF_MEM_reserve :: "malloc_fn \<Rightarrow> buf_mem \<Rightarrow> size_t \<Rightarrow> err_reason + buf_mem" where
  "BUF_MEM_reserve malloc buf cap =
     (if cap \<le> bm_max buf then Inr buf
      else
        let n = cap + 3 in
        if n < cap then Inl ERR_R_MALLOC_FAILURE
        else
          let n = n div 3; alloc_size = n * 4 in
          if alloc_size div 4 \<noteq> n then Inl ERR_R_MALLOC_FAILURE
          else (case OPENSSL_realloc malloc (bm_data buf) alloc_size of
                  None \<Rightarrow> Inl ERR_R_MALLOC_FAILURE
                | Some new_buf \<Rightarrow> Inr (buf\<lparr>bm_data := Some new_buf, bm_max := alloc_size\<rparr>)))"

definition BUF_MEM_grow :: "malloc_fn \<Rightarrow> buf_mem \<Rightarrow> size_t \<Rightarrow> (err_reason + size_t) \<times> buf_mem" where
  "BUF_MEM_grow malloc buf len =
     (case BUF_MEM_reserve malloc buf len of
        Inl e \<Rightarrow> (Inl e, buf)
      | Inr buf \<Rightarrow>
          (let buf = (if bm_length buf < len
                      then buf\<lparr>bm_data := map_option (\<lambda>d. take (unat (bm_length buf)) d @
                                replicate (unat (len - bm_length buf)) 0 @ drop (unat len) d) (bm_data buf)\<rparr>
                      else buf)
           in (Inr len, buf\<lparr>bm_length := len\<rparr>)))"

section \<open>Properties\<close>

lemma memcmp_loop_zero:
  "n \<le> length a \<Longrightarrow> n \<le> length b \<Longrightarrow>
     memcmp_loop x a b n = 0 \<longleftrightarrow> x = 0 \<and> take n a = take n b"
proof (induction x a b n rule: memcmp_loop.induct)
  case (2 x a b n)
  then show ?case
    by (cases a; cases b) (auto simp: or_eq_0_iff xor_eq_0_word)
qed simp

lemma CRYPTO_memcmp_eq_0:
  "n \<le> length a \<Longrightarrow> n \<le> length b \<Longrightarrow> CRYPTO_memcmp a b n = 0 \<longleftrightarrow> take n a = take n b"
  by (simp add: CRYPTO_memcmp_def memcmp_loop_zero)

lemma BUF_strnlen_takeWhile:
  "n \<le> length s \<Longrightarrow> BUF_strnlen s n = length (takeWhile (\<lambda>c. c \<noteq> 0) (take n s))"
proof (induction s n rule: BUF_strnlen.induct)
  case (2 s n)
  then show ?case by (cases s) auto
qed simp

lemma BUF_strnlen_le: "BUF_strnlen s n \<le> n"
  by (induction s n rule: BUF_strnlen.induct) auto

text \<open>The state of a \<open>BUF_MEM\<close>: what it holds, and that the length stays within the allocation.\<close>

definition buf_mem_ok :: "buf_mem \<Rightarrow> bool" where
  "buf_mem_ok b \<longleftrightarrow> bm_length b \<le> bm_max b \<and>
     (case bm_data b of None \<Rightarrow> bm_max b = 0 | Some d \<Rightarrow> length d = unat (bm_max b))"

definition buf_mem_contents :: "buf_mem \<Rightarrow> u8 list" where
  "buf_mem_contents b = (case bm_data b of None \<Rightarrow> [] | Some d \<Rightarrow> take (unat (bm_length b)) d)"

lemma unat_numeral_four_64: "unat (4 :: size_t) = 4"
  by simp

lemma reserve_rounds_up:
  fixes cap :: size_t
  assumes "\<not> cap + 3 < cap" and "((cap + 3) div 3 * 4) div 4 = (cap + 3) div 3"
  shows "cap \<le> (cap + 3) div 3 * 4"
proof -
  let ?n = "(cap + 3) div 3"
  have s: "unat (cap + 3) = unat cap + 3"
    using unat_add_no_wrap [OF assms(1)] by simp
  have n: "unat ?n = (unat cap + 3) div 3" by (simp add: unat_div s)
  have "unat (?n * 4) = unat ?n * 4"
  proof (rule ccontr)
    assume *: "unat (?n * 4) \<noteq> unat ?n * 4"
    have "unat (?n * 4) = (unat ?n * 4) mod 2 ^ 64" by (simp add: unat_word_ariths)
    with * have "unat (?n * 4) < unat ?n * 4"
      by (metis le_neq_implies_less mod_less_eq_dividend)
    then have "unat (?n * 4) div 4 < unat ?n" by (simp add: less_mult_imp_div_less)
    with assms(2) show False by (metis less_irrefl unat_div unat_numeral_four_64)
  qed
  then show ?thesis using n by (simp add: word_le_nat_alt)
qed

lemma realloc_length:
  assumes "malloc_ok malloc" and "OPENSSL_realloc malloc p n = Some d"
  shows "length d = unat n"
  using assms by (auto simp: OPENSSL_realloc_def malloc_ok_def Let_def split: option.splits)

lemma realloc_prefix:
  assumes "OPENSSL_realloc malloc (Some old) n = Some d" and "k \<le> length old" and "k \<le> unat n"
  shows "take k d = take k old"
  using assms by (auto simp: OPENSSL_realloc_def Let_def min_absorb1 split: option.splits)

lemma reserve_ok:
  assumes ok: "buf_mem_ok buf" and m: "malloc_ok malloc"
    and r: "BUF_MEM_reserve malloc buf cap = Inr buf'"
  shows "buf_mem_ok buf'" and "cap \<le> bm_max buf'" and "bm_length buf' = bm_length buf"
    and "buf_mem_contents buf' = buf_mem_contents buf"
proof -
  have "buf_mem_ok buf' \<and> cap \<le> bm_max buf' \<and> bm_length buf' = bm_length buf \<and>
    buf_mem_contents buf' = buf_mem_contents buf"
  proof (cases "cap \<le> bm_max buf")
    case True
    with r ok show ?thesis by (simp add: BUF_MEM_reserve_def)
  next
    case False
    let ?a = "(cap + 3) div 3 * 4"
    from r False obtain d where nowrap: "\<not> cap + 3 < cap" "?a div 4 = (cap + 3) div 3"
      and d: "OPENSSL_realloc malloc (bm_data buf) ?a = Some d"
      and b: "buf' = buf\<lparr>bm_data := Some d, bm_max := ?a\<rparr>"
      by (auto simp: BUF_MEM_reserve_def Let_def split: if_splits option.splits)
    have cap: "cap \<le> ?a" by (rule reserve_rounds_up [OF nowrap])
    have len: "length d = unat ?a" by (rule realloc_length [OF m d])
    have "bm_length buf \<le> cap" using ok False unfolding buf_mem_ok_def by (meson le_cases order_trans)
    with cap have le: "bm_length buf \<le> ?a" by (rule order_trans [rotated])
    have "buf_mem_contents buf' = buf_mem_contents buf"
    proof (cases "bm_data buf")
      case None
      then show ?thesis using ok by (auto simp: b buf_mem_contents_def buf_mem_ok_def word_le_nat_alt)
    next
      case (Some old)
      have "take (unat (bm_length buf)) d = take (unat (bm_length buf)) old"
        by (rule realloc_prefix [OF d [unfolded Some]])
          (use ok Some le in \<open>simp_all add: buf_mem_ok_def word_le_nat_alt\<close>)
      then show ?thesis by (simp add: b buf_mem_contents_def Some)
    qed
    with b cap len le show ?thesis by (simp add: buf_mem_ok_def)
  qed
  then show "buf_mem_ok buf'" "cap \<le> bm_max buf'" "bm_length buf' = bm_length buf"
    "buf_mem_contents buf' = buf_mem_contents buf" by simp_all
qed

lemma contents_shrink:
  "unat len \<le> unat (bm_length b) \<Longrightarrow>
     buf_mem_contents (b\<lparr>bm_length := len\<rparr>) = take (unat len) (buf_mem_contents b)"
  by (simp add: buf_mem_contents_def min_absorb1 split: option.splits)

text \<open>C20: \<open>BUF_MEM_grow\<close> either fails and leaves the buffer alone, or sets the length, keeps the
  contents up to it, fills the new part with zeros and keeps the length within the allocation, for
  every allocator (one that fails, or returns dirty memory, included).\<close>
theorem BUF_MEM_grow_correct:
  assumes ok: "buf_mem_ok buf" and m: "malloc_ok malloc"
  shows "case BUF_MEM_grow malloc buf len of
      (Inl e, buf') \<Rightarrow> buf' = buf
    | (Inr n, buf') \<Rightarrow> n = len \<and> buf_mem_ok buf' \<and> bm_length buf' = len \<and>
        buf_mem_contents buf' = take (unat len)
          (buf_mem_contents buf @ replicate (unat len - unat (bm_length buf)) 0)"
proof (cases "BUF_MEM_reserve malloc buf len")
  case (Inl e)
  then show ?thesis by (simp add: BUF_MEM_grow_def)
next
  case (Inr b)
  note r = reserve_ok [OF ok m Inr]
  show ?thesis
  proof (cases "bm_length buf < len")
    case False
    then have le: "unat len \<le> unat (bm_length b)" by (simp add: r(3) word_less_nat_alt not_less)
    with r(1) have "buf_mem_ok (b\<lparr>bm_length := len\<rparr>)"
      by (auto simp: buf_mem_ok_def word_le_nat_alt split: option.splits)
    with False Inr r le contents_shrink [OF le] show ?thesis by (simp add: BUF_MEM_grow_def)
  next
    case True
    then have lt: "unat (bm_length b) < unat len" by (simp add: r(3) word_less_nat_alt)
    have "bm_data b \<noteq> None"
      using r(1,2) lt by (auto simp: buf_mem_ok_def word_le_nat_alt split: option.splits)
    then obtain d where d: "bm_data b = Some d" by blast
    have "unat len \<le> length d" using r(1,2) d by (simp add: buf_mem_ok_def word_le_nat_alt)
    moreover have "unat (len - bm_length b) = unat len - unat (bm_length b)"
      using lt by (simp add: unat_sub word_le_nat_alt)
    moreover have "buf_mem_contents buf = take (unat (bm_length b)) d"
      using r(4) d by (simp add: buf_mem_contents_def)
    ultimately show ?thesis using Inr r(1-3) lt d True
      by (simp add: BUF_MEM_grow_def buf_mem_ok_def buf_mem_contents_def [of "_\<lparr>bm_length := _\<rparr>"])
  qed
qed

theorem BUF_MEM_grow_correct_witness:
  "case BUF_MEM_grow (\<lambda>n. Some (replicate (unat n) 0xAA)) \<lparr>bm_length = 1, bm_data = Some [7, 8], bm_max = 2\<rparr> 3 of
      (Inl e, buf') \<Rightarrow> False
    | (Inr n, buf') \<Rightarrow> buf_mem_contents buf' = [7, 0, 0] \<and> bm_max buf' = 8"
proof -
  let ?m = "\<lambda>n. Some (replicate (unat n) (0xAA :: u8))" and ?b = "\<lparr>bm_length = 1, bm_data = Some [7, 8], bm_max = 2\<rparr>"
  have "buf_mem_ok ?b" "malloc_ok ?m" by (simp_all add: buf_mem_ok_def malloc_ok_def)
  note g = BUF_MEM_grow_correct [OF this, of 3]
  have "(1 :: size_t) < 3" by simp
  then obtain b where "BUF_MEM_grow ?m ?b 3 = (Inr 3, b)" and "bm_max b = 8"
    by (simp add: BUF_MEM_grow_def BUF_MEM_reserve_def OPENSSL_realloc_def Let_def)
  moreover have "replicate 2 (0 :: u8) = [0, 0]" by (simp add: numeral_2_eq_2)
  ultimately show ?thesis using g by (simp add: buf_mem_contents_def)
qed

lemma strlcpy_loop_eq:
  "strlcpy_loop src n = (let k = min (strlen src) (n - 1) in (take k src, n - k, drop k src))"
proof (induction src n rule: strlcpy_loop.induct)
  case (1 n)
  then show ?case by (simp add: strlen_def)
next
  case (2 c src n)
  show ?case
  proof (cases "1 < n \<and> c \<noteq> 0")
    case True
    then have "min (strlen (c # src)) (n - 1) = Suc (min (strlen src) (n - 1 - 1))"
      by (auto simp: strlen_def)
    with True "2.IH" show ?thesis by (simp add: Let_def)
  next
    case False
    then have "min (strlen (c # src)) (n - 1) = 0" by (auto simp: strlen_def)
    with False show ?thesis by (auto simp: Let_def)
  qed
qed

lemma strlen_drop: "k \<le> strlen s \<Longrightarrow> k + strlen (drop k s) = strlen s"
proof (induction s arbitrary: k)
  case (Cons c s)
  then show ?case by (cases k; cases "c = 0") (auto simp: strlen_def)
qed (simp add: strlen_def)

lemma drop_overwritten:
  assumes "length out = k" and "k < n"
  shows "drop n (out @ (drop k dst)[0 := x]) = drop n dst"
proof -
  obtain m where n: "n = k + Suc m" using assms(2) less_imp_Suc_add by auto
  have "drop (Suc m) (ys[0 := x]) = drop (Suc m) ys" for ys by (cases ys) simp_all
  then show ?thesis using assms(1) by (simp add: n add.commute)
qed

text \<open>C21: \<open>BUF_strlcpy\<close> returns the length of the source, writes nothing at or beyond \<open>dst_size\<close>,
  and for a non-zero \<open>dst_size\<close> leaves the longest prefix of the source that fits, terminated by NUL.\<close>
theorem BUF_strlcpy_correct:
  assumes "dst_size \<le> length dst" and "0 \<in> set src"
    and "BUF_strlcpy dst src dst_size = (r, dst')"
  shows "r = strlen src \<and> length dst' = length dst \<and> drop dst_size dst' = drop dst_size dst \<and>
    (0 < dst_size \<longrightarrow> (let k = min (strlen src) (dst_size - 1)
                      in take k dst' = take k src \<and> dst' ! k = 0))"
proof -
  let ?k = "min (strlen src) (dst_size - 1)"
  have "strlen src < length src"
    unfolding strlen_def using assms(2) by (induction src) auto
  then have len: "length (take ?k src) = ?k" by simp
  have r: "r = ?k + strlen (drop ?k src)"
    and d: "dst' = (if dst_size - ?k \<noteq> 0 then take ?k src @ (drop ?k dst)[0 := 0] else take ?k src @ drop ?k dst)"
    using assms(3) unfolding BUF_strlcpy_def strlcpy_loop_eq Let_def prod.case len
    by (simp_all only: prod.inject)
  have "r = strlen src" using r strlen_drop [of ?k src] by simp
  moreover have "length dst' = length dst" using d len assms(1) by auto
  moreover have "drop dst_size dst' = drop dst_size dst"
  proof (cases "dst_size = 0")
    case True
    then show ?thesis using d by simp
  next
    case False
    then have lt: "?k < dst_size" by linarith
    then have "dst' = take ?k src @ (drop ?k dst)[0 := 0]"
      using d by (metis less_numeral_extra(3) zero_less_diff)
    then show ?thesis using drop_overwritten [OF len lt] by simp
  qed
  moreover have "take ?k dst' = take ?k src \<and> dst' ! ?k = 0" if "0 < dst_size"
  proof -
    have lt: "?k < dst_size" using that by linarith
    then have z: "(drop ?k dst)[0 := 0] ! 0 = 0" using assms(1) by (simp add: nth_list_update)
    have "dst' = take ?k src @ (drop ?k dst)[0 := 0]"
      using d lt by (metis less_numeral_extra(3) zero_less_diff)
    with z len show ?thesis by (simp add: nth_append)
  qed
  ultimately show ?thesis by (simp add: Let_def)
qed

theorem BUF_strlcpy_correct_witness:
  "BUF_strlcpy [9, 9, 9, 9] [0x61, 0x62, 0x63, 0] 3 = (3, [0x61, 0x62, 0, 9]) \<and>
   strlen [0x61, 0x62, 0x63, 0] = 3"
proof -
  have e: "BUF_strlcpy [9, 9, 9, 9] [0x61, 0x62, 0x63, 0] 3 = (3, [0x61, 0x62, 0, 9])"
    by (simp add: BUF_strlcpy_def strlen_def)
  then show ?thesis using BUF_strlcpy_correct [OF _ _ e] by simp
qed

end
