(* ===== verification/Bytestring_Cbb.thy ===== *)
theory Bytestring_Cbb
  imports Mem_Buf
begin

text \<open>
  The byte string builder CBB of BoringSSL (crypto/bytestring/cbb.c).

  All CBB objects of one build share a \<open>cbb_buffer_st\<close> and form a chain: the top-level CBB, its
  pending child, that child's pending child, and so on. The state is the shared buffer (None once
  \<open>base\<close> is NULL) and the pending children from the outermost to the innermost; a CBB handle is its
  depth in the chain, 0 for the top-level one. Flushing or discarding a child sets the child's
  \<open>base\<close> to NULL and unlinks it, which here removes it (and what hangs below it) from the list; a
  handle deeper than the list is such a dead child, on which every operation returns 0. Two uses are
  outside the model: a handle kept from a discarded child's own child, which bytestring.h forbids,
  and the contents of memory beyond \<open>len\<close> handed out by \<open>CBB_reserve\<close>.

  The buffer pointer is the list of the \<open>cap\<close> allocated bytes; pointers into it are offsets.
\<close>

record cbb_buffer =
  cb_buf :: "u8 list"
  cb_len :: size_t
  cb_cap :: size_t
  cb_can_resize :: bool
  cb_error :: bool

record cbb_child =
  ch_offset :: size_t
  ch_pending_len_len :: u8
  ch_pending_is_asn1 :: bool

record cbb =
  cbb_base :: "cbb_buffer option"
  cbb_children :: "cbb_child list"

text \<open>Writes: \<open>poke\<close> stores bytes at an offset, \<open>be_store\<close> is the downward loop that stores the
  low bytes of a value big-endian and leaves the value shifted.\<close>

definition poke :: "nat \<Rightarrow> u8 list \<Rightarrow> u8 list \<Rightarrow> u8 list" where
  "poke off bs buf = take off buf @ bs @ drop (off + length bs) buf"

fun be_store :: "nat \<Rightarrow> 'a::len word \<Rightarrow> u8 list \<times> 'a word" where
  "be_store 0 v = ([], v)"
| "be_store (Suc n) v = (case be_store n (drop_bit 8 v) of (bs, r) \<Rightarrow> (bs @ [ucast v], r))"

definition set_error :: "cbb_buffer \<Rightarrow> cbb_buffer" where
  "set_error b = b\<lparr>cb_error := True\<rparr>"

section \<open>Creation\<close>

definition CBB_zero :: cbb where
  "CBB_zero = \<lparr>cbb_base = None, cbb_children = []\<rparr>"

text \<open>\<open>cbb_init\<close> allocates the \<open>cbb_buffer_st\<close>; \<open>alloc\<close> says whether that succeeds.\<close>

definition cbb_init :: "bool \<Rightarrow> u8 list \<Rightarrow> size_t \<Rightarrow> bool \<times> cbb" where
  "cbb_init alloc buf cap =
     (if \<not> alloc then (False, CBB_zero)
      else (True, CBB_zero\<lparr>cbb_base :=
              Some \<lparr>cb_buf = buf, cb_len = 0, cb_cap = cap, cb_can_resize = True, cb_error = False\<rparr>\<rparr>))"

definition CBB_init :: "malloc_fn \<Rightarrow> bool \<Rightarrow> size_t \<Rightarrow> bool \<times> cbb" where
  "CBB_init malloc alloc initial_capacity =
     (case malloc initial_capacity of
        None \<Rightarrow> if 0 < initial_capacity then (False, CBB_zero) else cbb_init alloc [] initial_capacity
      | Some buf \<Rightarrow> cbb_init alloc buf initial_capacity)"

definition CBB_init_fixed :: "bool \<Rightarrow> u8 list \<Rightarrow> size_t \<Rightarrow> bool \<times> cbb" where
  "CBB_init_fixed alloc buf len =
     (case cbb_init alloc buf len of
        (False, c) \<Rightarrow> (False, c)
      | (True, c) \<Rightarrow> (True, c\<lparr>cbb_base := map_option (\<lambda>b. b\<lparr>cb_can_resize := False\<rparr>) (cbb_base c)\<rparr>))"

definition CBB_cleanup :: "cbb \<Rightarrow> cbb" where
  "CBB_cleanup c = c\<lparr>cbb_base := None\<rparr>"

section \<open>The shared buffer\<close>

definition cbb_buffer_reserve :: "malloc_fn \<Rightarrow> cbb_buffer \<Rightarrow> size_t \<Rightarrow> size_t option \<times> cbb_buffer" where
  "cbb_buffer_reserve malloc base len =
     (let newlen = cb_len base + len in
      if newlen < cb_len base then (None, set_error base)
      else if cb_cap base < newlen then
        if \<not> cb_can_resize base then (None, set_error base)
        else
          let newcap = cb_cap base * 2;
              newcap = (if newcap < cb_cap base \<or> newcap < newlen then newlen else newcap)
          in (case OPENSSL_realloc malloc (Some (cb_buf base)) newcap of
                None \<Rightarrow> (None, set_error base)
              | Some newbuf \<Rightarrow> (Some (cb_len base), base\<lparr>cb_buf := newbuf, cb_cap := newcap\<rparr>))
      else (Some (cb_len base), base))"

definition cbb_buffer_add :: "malloc_fn \<Rightarrow> cbb_buffer \<Rightarrow> size_t \<Rightarrow> size_t option \<times> cbb_buffer" where
  "cbb_buffer_add malloc base len =
     (case cbb_buffer_reserve malloc base len of
        (None, b) \<Rightarrow> (None, b)
      | (Some out, b) \<Rightarrow> (Some out, b\<lparr>cb_len := cb_len b + len\<rparr>))"

definition cbb_buffer_add_u :: "malloc_fn \<Rightarrow> cbb_buffer \<Rightarrow> u32 \<Rightarrow> nat \<Rightarrow> bool \<times> cbb_buffer" where
  "cbb_buffer_add_u malloc base v len_len =
     (if len_len = 0 then (True, base)
      else (case cbb_buffer_add malloc base (word_of_nat len_len) of
              (None, b) \<Rightarrow> (False, b)
            | (Some off, b) \<Rightarrow>
                (case be_store len_len v of
                   (bs, v') \<Rightarrow>
                     (let b = b\<lparr>cb_buf := poke (unat off) bs (cb_buf b)\<rparr> in
                      if v' \<noteq> 0 then (False, set_error b) else (True, b)))))"

section \<open>Flushing\<close>

text \<open>
  The number of length bytes of a DER length, the initial length byte and the value left to write
  (\<open>CBB_flush\<close>, the chain of comparisons); None is "too large".
\<close>

definition asn1_len_len :: "size_t \<Rightarrow> (u8 \<times> u8 \<times> size_t) option" where
  "asn1_len_len len =
     (if 0xfffffffe < len then None
      else if 0xffffff < len then Some (5, 0x80 OR 4, len)
      else if 0xffff < len then Some (4, 0x80 OR 3, len)
      else if 0xff < len then Some (3, 0x80 OR 2, len)
      else if 0x7f < len then Some (2, 0x80 OR 1, len)
      else Some (1, ucast len, 0))"

text \<open>
  The part of \<open>CBB_flush\<close> for an ASN.1 child: make room by moving the contents, store the initial
  byte. The result is the buffer, the child with its new offset and pending length, and the length
  value left to write.
\<close>

definition flush_asn1 ::
    "malloc_fn \<Rightarrow> cbb_buffer \<Rightarrow> cbb_child \<Rightarrow> size_t \<Rightarrow> size_t \<Rightarrow> (cbb_child \<times> size_t) option \<times> cbb_buffer" where
  "flush_asn1 malloc base child child_start len =
     (case asn1_len_len len of
        None \<Rightarrow> (None, base)
      | Some (len_len, initial_length_byte, len') \<Rightarrow>
          (let extra_bytes = (ucast len_len :: size_t) - 1 in
           case (if len_len \<noteq> 1
                 then (case cbb_buffer_add malloc base extra_bytes of
                         (None, b) \<Rightarrow> (None, b)
                       | (Some _, b) \<Rightarrow>
                           (Some (), b\<lparr>cb_buf := poke (unat (child_start + extra_bytes))
                              (take (unat len') (drop (unat child_start) (cb_buf b))) (cb_buf b)\<rparr>))
                 else (Some (), base)) of
             (None, b) \<Rightarrow> (None, b)
           | (Some _, b) \<Rightarrow>
               (Some (child\<lparr>ch_offset := ch_offset child + 1, ch_pending_len_len := len_len - 1\<rparr>, len'),
                b\<lparr>cb_buf := poke (unat (ch_offset child)) [initial_length_byte] (cb_buf b)\<rparr>)))"

text \<open>\<open>CBB_flush\<close> on the CBB whose pending children are the list.\<close>

fun flush_children ::
    "malloc_fn \<Rightarrow> cbb_buffer \<Rightarrow> cbb_child list \<Rightarrow> bool \<times> cbb_buffer \<times> cbb_child list" where
  "flush_children malloc base [] = (\<not> cb_error base, base, [])"
| "flush_children malloc base (child # below) =
     (if cb_error base then (False, base, child # below)
      else if ch_pending_len_len child = 0 then (True, base, child # below)
      else
        let child_start = ch_offset child + ucast (ch_pending_len_len child) in
        case flush_children malloc base below of
          (ok, base, below) \<Rightarrow>
            if \<not> ok \<or> child_start < ch_offset child \<or> cb_len base < child_start
            then (False, set_error base, child # below)
            else
              let len = cb_len base - child_start in
              case (if ch_pending_is_asn1 child then flush_asn1 malloc base child child_start len
                    else (Some (child, len), base)) of
                (None, base) \<Rightarrow> (False, set_error base, child # below)
              | (Some (child, len), base) \<Rightarrow>
                  (case be_store (unat (ch_pending_len_len child)) len of
                     (bs, len) \<Rightarrow>
                       (let base = base\<lparr>cb_buf := poke (unat (ch_offset child)) bs (cb_buf base)\<rparr> in
                        if len \<noteq> 0 then (False, set_error base, child # below)
                        else (True, base, []))))"

definition CBB_flush :: "malloc_fn \<Rightarrow> nat \<Rightarrow> cbb \<Rightarrow> bool \<times> cbb" where
  "CBB_flush malloc d c =
     (case cbb_base c of
        None \<Rightarrow> (False, c)
      | Some base \<Rightarrow>
          if length (cbb_children c) < d then (False, c)
          else
            (case flush_children malloc base (drop d (cbb_children c)) of
               (ok, base, below) \<Rightarrow>
                 (ok, c\<lparr>cbb_base := Some base, cbb_children := take d (cbb_children c) @ below\<rparr>)))"

text \<open>
  The pattern \<open>!CBB_flush(cbb) || !op(cbb->base)\<close>: run \<open>op\<close> on the buffer after a successful flush.
\<close>

definition flush_then ::
    "malloc_fn \<Rightarrow> nat \<Rightarrow> (cbb_buffer \<Rightarrow> 'r option \<times> cbb_buffer) \<Rightarrow> cbb \<Rightarrow> 'r option \<times> cbb" where
  "flush_then malloc d opr c =
     (case CBB_flush malloc d c of
        (False, c) \<Rightarrow> (None, c)
      | (True, c) \<Rightarrow>
          (case cbb_base c of
             None \<Rightarrow> (None, c)
           | Some base \<Rightarrow> (case opr base of (r, base) \<Rightarrow> (r, c\<lparr>cbb_base := Some base\<rparr>))))"

text \<open>\<open>CBB_finish\<close> on the top-level CBB; \<open>want\<close>: both out-pointers are given. The result is the
  buffer's allocation and the length.\<close>

definition CBB_finish :: "malloc_fn \<Rightarrow> nat \<Rightarrow> bool \<Rightarrow> cbb \<Rightarrow> (u8 list \<times> size_t) option \<times> cbb" where
  "CBB_finish malloc d want c =
     (if d \<noteq> 0 then (None, c)
      else (case CBB_flush malloc 0 c of
              (False, c) \<Rightarrow> (None, c)
            | (True, c) \<Rightarrow>
                (case cbb_base c of
                   None \<Rightarrow> (None, c)
                 | Some base \<Rightarrow>
                     if cb_can_resize base \<and> \<not> want then (None, c)
                     else (Some (cb_buf base, cb_len base), CBB_cleanup c))))"

section \<open>Adding\<close>

definition cbb_add_length_prefixed :: "malloc_fn \<Rightarrow> nat \<Rightarrow> u8 \<Rightarrow> cbb \<Rightarrow> bool \<times> cbb" where
  "cbb_add_length_prefixed malloc d len_len c =
     (case flush_then malloc d (\<lambda>b. cbb_buffer_add malloc b (ucast len_len)) c of
        (None, c) \<Rightarrow> (False, c)
      | (Some off, c) \<Rightarrow>
          (True, c\<lparr>cbb_base := map_option
                     (\<lambda>b. b\<lparr>cb_buf := poke (unat off) (replicate (unat len_len) 0) (cb_buf b)\<rparr>) (cbb_base c),
                   cbb_children := cbb_children c @
                     [\<lparr>ch_offset = off, ch_pending_len_len = len_len, ch_pending_is_asn1 = False\<rparr>]\<rparr>))"

definition CBB_add_u8_length_prefixed :: "malloc_fn \<Rightarrow> nat \<Rightarrow> cbb \<Rightarrow> bool \<times> cbb" where
  "CBB_add_u8_length_prefixed malloc d = cbb_add_length_prefixed malloc d 1"
definition CBB_add_u16_length_prefixed :: "malloc_fn \<Rightarrow> nat \<Rightarrow> cbb \<Rightarrow> bool \<times> cbb" where
  "CBB_add_u16_length_prefixed malloc d = cbb_add_length_prefixed malloc d 2"
definition CBB_add_u24_length_prefixed :: "malloc_fn \<Rightarrow> nat \<Rightarrow> cbb \<Rightarrow> bool \<times> cbb" where
  "CBB_add_u24_length_prefixed malloc d = cbb_add_length_prefixed malloc d 3"

definition add_u :: "malloc_fn \<Rightarrow> nat \<Rightarrow> u32 \<Rightarrow> nat \<Rightarrow> cbb \<Rightarrow> bool \<times> cbb" where
  "add_u malloc d value n c =
     (case flush_then malloc d
             (\<lambda>b. case cbb_buffer_add_u malloc b value n of (ok, b) \<Rightarrow> (if ok then Some () else None, b)) c of
        (r, c) \<Rightarrow> (r \<noteq> None, c))"

definition CBB_add_u8 :: "malloc_fn \<Rightarrow> nat \<Rightarrow> u8 \<Rightarrow> cbb \<Rightarrow> bool \<times> cbb" where
  "CBB_add_u8 malloc d value = add_u malloc d (ucast value) 1"
definition CBB_add_u16 :: "malloc_fn \<Rightarrow> nat \<Rightarrow> u16 \<Rightarrow> cbb \<Rightarrow> bool \<times> cbb" where
  "CBB_add_u16 malloc d value = add_u malloc d (ucast value) 2"
definition CBB_add_u24 :: "malloc_fn \<Rightarrow> nat \<Rightarrow> u32 \<Rightarrow> cbb \<Rightarrow> bool \<times> cbb" where
  "CBB_add_u24 malloc d value = add_u malloc d value 3"
definition CBB_add_u32 :: "malloc_fn \<Rightarrow> nat \<Rightarrow> u32 \<Rightarrow> cbb \<Rightarrow> bool \<times> cbb" where
  "CBB_add_u32 malloc d value = add_u malloc d value 4"

text \<open>A handle is dead when its \<open>base\<close> is NULL: the whole build has been finished, or the child has been
  flushed. \<open>CBB_flush\<close> checks for that; \<open>CBB_add_asn1\<close> with an unsupported tag and \<open>CBB_did_write\<close> do not and
  dereference NULL, which is None here.\<close>

definition dead :: "nat \<Rightarrow> cbb \<Rightarrow> bool" where
  "dead d c \<longleftrightarrow> cbb_base c = None \<or> length (cbb_children c) < d"

definition CBB_add_asn1 :: "malloc_fn \<Rightarrow> nat \<Rightarrow> u32 \<Rightarrow> cbb \<Rightarrow> (bool \<times> cbb) option" where
  "CBB_add_asn1 malloc d tag c =
     (if 0xff < tag \<or> tag AND 0x1f = 0x1f
      then if dead d c then None else Some (False, c\<lparr>cbb_base := map_option set_error (cbb_base c)\<rparr>)
      else Some (case CBB_flush malloc d c of
              (False, c) \<Rightarrow> (False, c)
            | (True, c) \<Rightarrow>
                (case CBB_add_u8 malloc d (ucast tag) c of
                   (False, c) \<Rightarrow> (False, c)
                 | (True, c) \<Rightarrow>
                     (let off = (case cbb_base c of None \<Rightarrow> 0 | Some b \<Rightarrow> cb_len b) in
                      case CBB_add_u8 malloc d 0 c of
                        (False, c) \<Rightarrow> (False, c)
                      | (True, c) \<Rightarrow>
                          (True, c\<lparr>cbb_children := cbb_children c @
                             [\<lparr>ch_offset = off, ch_pending_len_len = 1, ch_pending_is_asn1 = True\<rparr>]\<rparr>)))))"

definition CBB_add_bytes :: "malloc_fn \<Rightarrow> nat \<Rightarrow> u8 list \<Rightarrow> cbb \<Rightarrow> bool \<times> cbb" where
  "CBB_add_bytes malloc d bs c =
     (case flush_then malloc d (\<lambda>b. cbb_buffer_add malloc b (word_of_nat (length bs))) c of
        (None, c) \<Rightarrow> (False, c)
      | (Some off, c) \<Rightarrow>
          (True, c\<lparr>cbb_base := map_option (\<lambda>b. b\<lparr>cb_buf := poke (unat off) bs (cb_buf b)\<rparr>) (cbb_base c)\<rparr>))"

definition CBB_add_space :: "malloc_fn \<Rightarrow> nat \<Rightarrow> size_t \<Rightarrow> cbb \<Rightarrow> size_t option \<times> cbb" where
  "CBB_add_space malloc d len = flush_then malloc d (\<lambda>b. cbb_buffer_add malloc b len)"

definition CBB_reserve :: "malloc_fn \<Rightarrow> nat \<Rightarrow> size_t \<Rightarrow> cbb \<Rightarrow> size_t option \<times> cbb" where
  "CBB_reserve malloc d len = flush_then malloc d (\<lambda>b. cbb_buffer_reserve malloc b len)"

definition CBB_did_write :: "nat \<Rightarrow> size_t \<Rightarrow> cbb \<Rightarrow> (bool \<times> cbb) option" where
  "CBB_did_write d len c =
     (if dead d c then None
      else
        let base = the (cbb_base c); newlen = cb_len base + len in
        if d < length (cbb_children c) \<or> newlen < cb_len base \<or> cb_cap base < newlen then Some (False, c)
        else Some (True, c\<lparr>cbb_base := Some (base\<lparr>cb_len := newlen\<rparr>)\<rparr>))"

definition CBB_discard_child :: "nat \<Rightarrow> cbb \<Rightarrow> cbb" where
  "CBB_discard_child d c =
     (if length (cbb_children c) \<le> d then c
      else c\<lparr>cbb_base := map_option (\<lambda>b. b\<lparr>cb_len := ch_offset (cbb_children c ! d)\<rparr>) (cbb_base c),
             cbb_children := take d (cbb_children c)\<rparr>)"

text \<open>The loop of \<open>CBB_add_asn1_uint64\<close> over the eight bytes, most significant first; the child CBB
  is one deeper than the handle.\<close>

fun uint64_loop :: "malloc_fn \<Rightarrow> nat \<Rightarrow> bool \<Rightarrow> u8 list \<Rightarrow> cbb \<Rightarrow> (bool \<times> bool) \<times> cbb" where
  "uint64_loop malloc d started [] c = ((True, started), c)"
| "uint64_loop malloc d started (byte # bs) c =
     (if \<not> started \<and> byte = 0 then uint64_loop malloc d started bs c
      else
        case (if \<not> started \<and> byte AND 0x80 \<noteq> 0 then CBB_add_u8 malloc d 0 c else (True, c)) of
          (False, c) \<Rightarrow> ((False, started), c)
        | (True, c) \<Rightarrow>
            (case CBB_add_u8 malloc d byte c of
               (False, c) \<Rightarrow> ((False, True), c)
             | (True, c) \<Rightarrow> uint64_loop malloc d True bs c))"

definition CBB_add_asn1_uint64 :: "malloc_fn \<Rightarrow> nat \<Rightarrow> u64 \<Rightarrow> cbb \<Rightarrow> (bool \<times> cbb) option" where
  "CBB_add_asn1_uint64 malloc d value c =
     (case CBB_add_asn1 malloc d 2 c of
        None \<Rightarrow> None
      | Some (False, c) \<Rightarrow> Some (False, c)
      | Some (True, c) \<Rightarrow>
          (case uint64_loop malloc (d + 1) False
                  (map (\<lambda>i. ucast (drop_bit (8 * (7 - i)) value AND 0xff)) [0..<8]) c of
             ((False, _), c) \<Rightarrow> Some (False, c)
           | ((True, started), c) \<Rightarrow>
               (case (if \<not> started then CBB_add_u8 malloc (d + 1) 0 c else (True, c)) of
                  (False, c) \<Rightarrow> Some (False, c)
                | (True, c) \<Rightarrow> Some (CBB_flush malloc d c))))"

section \<open>Reading the build\<close>

text \<open>\<open>CBB_data\<close> as an offset into the buffer and \<open>CBB_len\<close>, for the innermost CBB of the chain (the
  C code asserts that there is no pending child).\<close>

definition CBB_data :: "nat \<Rightarrow> cbb \<Rightarrow> size_t" where
  "CBB_data d c =
     (if d = 0 then 0
      else ch_offset (cbb_children c ! (d - 1)) + ucast (ch_pending_len_len (cbb_children c ! (d - 1))))"

definition CBB_len :: "nat \<Rightarrow> cbb \<Rightarrow> size_t" where
  "CBB_len d c = (case cbb_base c of None \<Rightarrow> 0 | Some b \<Rightarrow> cb_len b - CBB_data d c)"

section \<open>The buffer invariant\<close>

definition cbuf_ok :: "cbb_buffer \<Rightarrow> bool" where
  "cbuf_ok b \<longleftrightarrow> length (cb_buf b) = unat (cb_cap b) \<and> cb_len b \<le> cb_cap b"

definition cbytes :: "cbb_buffer \<Rightarrow> u8 list" where
  "cbytes b = take (unat (cb_len b)) (cb_buf b)"

lemma length_cbytes [simp]: "cbuf_ok b \<Longrightarrow> length (cbytes b) = unat (cb_len b)"
  by (simp add: cbuf_ok_def cbytes_def word_le_nat_alt)

lemma cbytes_room: "cbuf_ok b \<Longrightarrow> unat (cb_len b) \<le> length (cb_buf b)"
  by (simp add: cbuf_ok_def word_le_nat_alt)

lemma poke_length [simp]: "off + length bs \<le> length buf \<Longrightarrow> length (poke off bs buf) = length buf"
  by (simp add: poke_def)

lemma take_poke: "off + length bs \<le> length buf \<Longrightarrow> take (off + length bs) (poke off bs buf) = take off buf @ bs"
  by (simp add: poke_def)

lemma poke_inside: "poke (length xs) bs (xs @ ys @ zs) = xs @ bs @ zs" if "length ys = length bs"
  using that by (simp add: poke_def)

lemma take_poke_within:
  assumes "off + length bs \<le> n" and "n \<le> length buf"
  shows "take n (poke off bs buf) = poke off bs (take n buf)"
proof -
  have "drop (off + length bs) (take n buf) = take (n - (off + length bs)) (drop (off + length bs) buf)"
    by (rule drop_take)
  moreover have "off \<le> n" "length bs \<le> n - off" "n - off - length bs = n - (off + length bs)"
    using assms(1) by simp_all
  ultimately show ?thesis using assms by (simp add: poke_def min_absorb2)
qed

lemma length_be_store [simp]: "length (fst (be_store n v)) = n"
  by (induction n arbitrary: v) (auto simp: split_beta)

lemma be_store_bytes: "fst (be_store n v) = be_bytes n (unat v)"
proof (induction n arbitrary: v)
  case (Suc n)
  have "(ucast v :: u8) = word_of_nat (unat v mod 256)"
    by (rule word_eq_unatI) (simp add: unat_ucast_mod)
  then show ?case using Suc.IH [of "drop_bit 8 v"] by (simp add: split_beta unat_drop_bit_div)
qed simp

lemma be_store_left: "snd (be_store n v) = drop_bit (8 * n) v"
  by (induction n arbitrary: v) (simp_all add: split_beta add.commute)

lemma be_store_left_0: "snd (be_store n v) = 0 \<longleftrightarrow> unat v < 256 ^ n"
proof -
  have "drop_bit (8 * n) v = 0 \<longleftrightarrow> unat (drop_bit (8 * n) v) = 0" by (simp only: unat_eq_zero)
  also have "\<dots> \<longleftrightarrow> unat v < 2 ^ (8 * n)" by (simp only: unat_drop_bit_div) (simp add: div_eq_0_iff)
  finally show ?thesis by (simp add: be_store_left power_mult)
qed

lemma be_store_eq: "be_store n v = (be_bytes n (unat v), drop_bit (8 * n) v)"
  by (rule prod_eqI) (simp_all add: be_store_bytes be_store_left)

subsection \<open>Reserving and adding\<close>

lemma buffer_reserve_ok:
  assumes m: "malloc_ok malloc" and ok: "cbuf_ok b"
    and r: "cbb_buffer_reserve malloc b n = (Some off, b')"
  shows "cbuf_ok b' \<and> off = cb_len b \<and> cb_len b' = cb_len b \<and> cb_error b' = cb_error b \<and>
    cb_can_resize b' = cb_can_resize b \<and> cbytes b' = cbytes b \<and>
    unat (cb_len b) + unat n \<le> unat (cb_cap b') \<and> unat (cb_len b + n) = unat (cb_len b) + unat n"
proof -
  have nw: "\<not> cb_len b + n < cb_len b"
    using r by (auto simp: cbb_buffer_reserve_def Let_def split: if_splits)
  note sum = unat_add_no_wrap [OF nw]
  show ?thesis
  proof (cases "cb_cap b < cb_len b + n")
    case False
    then have "off = cb_len b" and "b' = b" using r nw
      by (auto simp: cbb_buffer_reserve_def Let_def)
    with False show ?thesis using ok sum by (simp add: word_less_nat_alt)
  next
    case True
    then obtain newcap buf where re: "OPENSSL_realloc malloc (Some (cb_buf b)) newcap = Some buf"
      and b': "b' = b\<lparr>cb_buf := buf, cb_cap := newcap\<rparr>" and off: "off = cb_len b"
      and ge: "cb_len b + n \<le> newcap"
      using r nw by (auto simp: cbb_buffer_reserve_def Let_def not_less split: if_splits option.splits)
    have ge': "unat (cb_len b) + unat n \<le> unat newcap" using ge sum by (simp add: word_le_nat_alt)
    have len: "length buf = unat newcap" by (rule realloc_length [OF m re])
    have "take (unat (cb_len b)) buf = take (unat (cb_len b)) (cb_buf b)"
      by (rule realloc_prefix [OF re]) (use cbytes_room [OF ok] ge' in simp_all)
    then show ?thesis using b' off len ge' sum
      by (simp add: cbuf_ok_def cbytes_def word_le_nat_alt)
  qed
qed

text \<open>Adding makes room for exactly \<open>n\<close> bytes after the present ones.\<close>

lemma buffer_add_ok:
  assumes m: "malloc_ok malloc" and ok: "cbuf_ok b"
    and r: "cbb_buffer_add malloc b n = (Some off, b')"
  shows "cbuf_ok b' \<and> off = cb_len b \<and> unat (cb_len b') = unat (cb_len b) + unat n \<and>
    cb_error b' = cb_error b \<and> cb_can_resize b' = cb_can_resize b \<and>
    take (unat (cb_len b)) (cb_buf b') = cbytes b"
proof -
  from r obtain b1 where b1: "cbb_buffer_reserve malloc b n = (Some off, b1)"
    and b': "b' = b1\<lparr>cb_len := cb_len b1 + n\<rparr>"
    by (auto simp: cbb_buffer_add_def split: prod.splits option.splits)
  from buffer_reserve_ok [OF m ok b1] b' show ?thesis
    by (auto simp: cbuf_ok_def cbytes_def word_le_nat_alt)
qed

lemma buffer_add_poke:
  assumes m: "malloc_ok malloc" and ok: "cbuf_ok b"
    and r: "cbb_buffer_add malloc b n = (Some off, b')" and n: "length bs = unat n"
  shows "cbuf_ok (b'\<lparr>cb_buf := poke (unat off) bs (cb_buf b')\<rparr>)"
    and "cbytes (b'\<lparr>cb_buf := poke (unat off) bs (cb_buf b')\<rparr>) = cbytes b @ bs"
proof -
  note a = buffer_add_ok [OF m ok r]
  have room: "unat off + length bs \<le> length (cb_buf b')" using a n cbytes_room [of b'] by simp
  show "cbuf_ok (b'\<lparr>cb_buf := poke (unat off) bs (cb_buf b')\<rparr>)"
    using a room by (simp add: cbuf_ok_def)
  show "cbytes (b'\<lparr>cb_buf := poke (unat off) bs (cb_buf b')\<rparr>) = cbytes b @ bs"
    using a take_poke [OF room] n by (simp add: cbytes_def)
qed

end
