(* ===== verification/Bytestring_Cbs.thy ===== *)
theory Bytestring_Cbs
  imports Mem_Buf
begin

text \<open>
  The byte string parser CBS of BoringSSL (crypto/bytestring/cbs.c).

  A \<open>CBS\<close> is a pointer and a length. The pointer is the list of bytes from it to the end of the
  object it points into, so advancing the pointer drops bytes and reading \<open>p[i]\<close> is \<open>p ! i\<close>; the
  object may be longer than the CBS. \<open>cbs_ok\<close>, the length stays inside the object, is what makes
  every read of the parser in bounds. A function returns its out-parameters as an option, None for
  a return value of 0 (they are then not read by the callers), and the CBS as it is left behind in
  both cases. Sums of lengths that the code tests for overflow are \<open>size_t\<close> words.
\<close>

record cbs =
  cbs_data :: "u8 list"
  cbs_len :: nat

definition cbs_ok :: "cbs \<Rightarrow> bool" where
  "cbs_ok c \<longleftrightarrow> cbs_len c \<le> length (cbs_data c)"

text \<open>The bytes a CBS denotes.\<close>

definition cbs_bytes :: "cbs \<Rightarrow> u8 list" where
  "cbs_bytes c = take (cbs_len c) (cbs_data c)"

definition CBS_ASN1_CONSTRUCTED :: u8 where "CBS_ASN1_CONSTRUCTED = 0x20"
definition CBS_ASN1_BOOLEAN :: u32 where "CBS_ASN1_BOOLEAN = 1"
definition CBS_ASN1_INTEGER :: u32 where "CBS_ASN1_INTEGER = 2"
definition CBS_ASN1_OCTETSTRING :: u32 where "CBS_ASN1_OCTETSTRING = 4"

section \<open>Fixed-size reads\<close>

definition CBS_init :: "u8 list \<Rightarrow> nat \<Rightarrow> cbs" where
  "CBS_init p len = \<lparr>cbs_data = p, cbs_len = len\<rparr>"

definition cbs_get :: "cbs \<Rightarrow> nat \<Rightarrow> u8 list option \<times> cbs" where
  "cbs_get c n =
     (if cbs_len c < n then (None, c)
      else (Some (cbs_data c), \<lparr>cbs_data = drop n (cbs_data c), cbs_len = cbs_len c - n\<rparr>))"

definition CBS_skip :: "cbs \<Rightarrow> nat \<Rightarrow> bool \<times> cbs" where
  "CBS_skip c len = (case cbs_get c len of (r, c') \<Rightarrow> (r \<noteq> None, c'))"

definition CBS_data :: "cbs \<Rightarrow> u8 list" where "CBS_data c = cbs_data c"
definition CBS_len :: "cbs \<Rightarrow> nat" where "CBS_len c = cbs_len c"

text \<open>\<open>CBS_stow\<close>: return value, new block, new length.\<close>

definition CBS_stow :: "malloc_fn \<Rightarrow> cbs \<Rightarrow> bool \<times> u8 list option \<times> nat" where
  "CBS_stow malloc c =
     (if cbs_len c = 0 then (True, None, 0)
      else (case BUF_memdup malloc (cbs_data c) (cbs_len c) of
              Inl _ \<Rightarrow> (False, None, 0)
            | Inr None \<Rightarrow> (False, None, 0)
            | Inr (Some blk) \<Rightarrow> (True, Some blk, cbs_len c)))"

definition CBS_strdup :: "malloc_fn \<Rightarrow> cbs \<Rightarrow> u8 list option" where
  "CBS_strdup malloc c =
     (case BUF_strndup malloc (Some (cbs_data c)) (cbs_len c) of Inl _ \<Rightarrow> None | Inr r \<Rightarrow> r)"

definition CBS_contains_zero_byte :: "cbs \<Rightarrow> bool" where
  "CBS_contains_zero_byte c \<longleftrightarrow> 0 \<in> set (take (cbs_len c) (cbs_data c))"

definition CBS_mem_equal :: "cbs \<Rightarrow> u8 list \<Rightarrow> nat \<Rightarrow> bool" where
  "CBS_mem_equal c p len = (if len \<noteq> cbs_len c then False else CRYPTO_memcmp (cbs_data c) p len = 0)"

definition cbs_get_u :: "cbs \<Rightarrow> nat \<Rightarrow> u32 option \<times> cbs" where
  "cbs_get_u c len =
     (case cbs_get c len of
        (None, c') \<Rightarrow> (None, c')
      | (Some p, c') \<Rightarrow> (Some (foldl (\<lambda>result b. push_bit 8 result OR ucast b) 0 (take len p)), c'))"

definition CBS_get_u8 :: "cbs \<Rightarrow> u8 option \<times> cbs" where
  "CBS_get_u8 c = (case cbs_get c 1 of (None, c') \<Rightarrow> (None, c') | (Some p, c') \<Rightarrow> (Some (p ! 0), c'))"

definition CBS_get_u16 :: "cbs \<Rightarrow> u16 option \<times> cbs" where
  "CBS_get_u16 c = (case cbs_get_u c 2 of (v, c') \<Rightarrow> (map_option ucast v, c'))"

definition CBS_get_u24 :: "cbs \<Rightarrow> u32 option \<times> cbs" where "CBS_get_u24 c = cbs_get_u c 3"
definition CBS_get_u32 :: "cbs \<Rightarrow> u32 option \<times> cbs" where "CBS_get_u32 c = cbs_get_u c 4"

definition CBS_get_last_u8 :: "cbs \<Rightarrow> u8 option \<times> cbs" where
  "CBS_get_last_u8 c =
     (if cbs_len c = 0 then (None, c)
      else (Some (cbs_data c ! (cbs_len c - 1)), c\<lparr>cbs_len := cbs_len c - 1\<rparr>))"

definition CBS_get_bytes :: "cbs \<Rightarrow> nat \<Rightarrow> cbs option \<times> cbs" where
  "CBS_get_bytes c len =
     (case cbs_get c len of (None, c') \<Rightarrow> (None, c') | (Some v, c') \<Rightarrow> (Some (CBS_init v len), c'))"

definition CBS_copy_bytes :: "cbs \<Rightarrow> nat \<Rightarrow> u8 list option \<times> cbs" where
  "CBS_copy_bytes c len =
     (case cbs_get c len of (None, c') \<Rightarrow> (None, c') | (Some v, c') \<Rightarrow> (Some (take len v), c'))"

definition cbs_get_length_prefixed :: "cbs \<Rightarrow> nat \<Rightarrow> cbs option \<times> cbs" where
  "cbs_get_length_prefixed c len_len =
     (case cbs_get_u c len_len of
        (None, c') \<Rightarrow> (None, c')
      | (Some len, c') \<Rightarrow> CBS_get_bytes c' (unat len))"

definition CBS_get_u8_length_prefixed :: "cbs \<Rightarrow> cbs option \<times> cbs" where
  "CBS_get_u8_length_prefixed c = cbs_get_length_prefixed c 1"
definition CBS_get_u16_length_prefixed :: "cbs \<Rightarrow> cbs option \<times> cbs" where
  "CBS_get_u16_length_prefixed c = cbs_get_length_prefixed c 2"
definition CBS_get_u24_length_prefixed :: "cbs \<Rightarrow> cbs option \<times> cbs" where
  "CBS_get_u24_length_prefixed c = cbs_get_length_prefixed c 3"

section \<open>ASN.1 elements\<close>

text \<open>
  \<open>cbs_get_any_asn1_element\<close>: the element with its header, the tag and the header's length. The
  parse runs on a copy \<open>header\<close>; the argument is advanced by the final \<open>CBS_get_bytes\<close> only.
\<close>

definition cbs_get_any_asn1_element :: "cbs \<Rightarrow> bool \<Rightarrow> (cbs \<times> u32 \<times> nat) option \<times> cbs" where
  "cbs_get_any_asn1_element c ber_ok =
     (case CBS_get_u8 c of
        (None, _) \<Rightarrow> (None, c)
      | (Some tag, header) \<Rightarrow>
     (case CBS_get_u8 header of
        (None, _) \<Rightarrow> (None, c)
      | (Some length_byte, header) \<Rightarrow>
        if tag AND 0x1f = 0x1f then (None, c)
        else if length_byte AND 0x80 = 0
        then (case CBS_get_bytes c (unat length_byte + 2) of
                (None, c') \<Rightarrow> (None, c')
              | (Some out, c') \<Rightarrow> (Some (out, ucast tag, 2), c'))
        else
          let num_bytes = unat (length_byte AND 0x7f) in
          if ber_ok \<and> tag AND CBS_ASN1_CONSTRUCTED \<noteq> 0 \<and> num_bytes = 0
          then (case CBS_get_bytes c 2 of
                  (None, c') \<Rightarrow> (None, c')
                | (Some out, c') \<Rightarrow> (Some (out, ucast tag, 2), c'))
          else if num_bytes = 0 \<or> 4 < num_bytes then (None, c)
          else
            (case cbs_get_u header num_bytes of
               (None, _) \<Rightarrow> (None, c)
             | (Some len32, _) \<Rightarrow>
                 if len32 < 128 then (None, c)
                 else if drop_bit ((num_bytes - 1) * 8) len32 = 0 then (None, c)
                 else
                   let len = (ucast len32 :: size_t) in
                   if len + 2 + word_of_nat num_bytes < len then (None, c)
                   else
                     let len = len + (2 + word_of_nat num_bytes) in
                     (case CBS_get_bytes c (unat len) of
                        (None, c') \<Rightarrow> (None, c')
                      | (Some out, c') \<Rightarrow> (Some (out, ucast tag, 2 + num_bytes), c')))))"

definition CBS_get_any_asn1_element :: "cbs \<Rightarrow> (cbs \<times> u32 \<times> nat) option \<times> cbs" where
  "CBS_get_any_asn1_element c = cbs_get_any_asn1_element c False"

definition CBS_get_any_ber_asn1_element :: "cbs \<Rightarrow> (cbs \<times> u32 \<times> nat) option \<times> cbs" where
  "CBS_get_any_ber_asn1_element c = cbs_get_any_asn1_element c True"

text \<open>
  \<open>CBS_get_any_asn1\<close> with \<open>out\<close> possibly null: the final \<open>CBS_skip(out, header_len)\<close> reads
  through the pointer, which is undefined behaviour for a null one.
\<close>

datatype 'a c_call = Returns 'a | Null_deref

definition CBS_get_any_asn1 :: "cbs \<Rightarrow> bool \<Rightarrow> ((cbs \<times> u32) option \<times> cbs) c_call" where
  "CBS_get_any_asn1 c out_null =
     (case CBS_get_any_asn1_element c of
        (None, c') \<Rightarrow> Returns (None, c')
      | (Some (out, out_tag, header_len), c') \<Rightarrow>
          if out_null then Null_deref
          else (case CBS_skip out header_len of
                  (False, _) \<Rightarrow> Returns (None, c')
                | (True, out') \<Rightarrow> Returns (Some (out', out_tag), c')))"

definition cbs_get_asn1 :: "cbs \<Rightarrow> u32 \<Rightarrow> bool \<Rightarrow> cbs option \<times> cbs" where
  "cbs_get_asn1 c tag_value skip_header =
     (case CBS_get_any_asn1_element c of
        (None, c') \<Rightarrow> (None, c')
      | (Some (out, tag, header_len), c') \<Rightarrow>
          if tag \<noteq> tag_value then (None, c')
          else if skip_header
          then (case CBS_skip out header_len of (False, _) \<Rightarrow> (None, c') | (True, out') \<Rightarrow> (Some out', c'))
          else (Some out, c'))"

definition CBS_get_asn1 :: "cbs \<Rightarrow> u32 \<Rightarrow> cbs option \<times> cbs" where
  "CBS_get_asn1 c tag_value = cbs_get_asn1 c tag_value True"

definition CBS_get_asn1_element :: "cbs \<Rightarrow> u32 \<Rightarrow> cbs option \<times> cbs" where
  "CBS_get_asn1_element c tag_value = cbs_get_asn1 c tag_value False"

definition CBS_peek_asn1_tag :: "cbs \<Rightarrow> u32 \<Rightarrow> bool" where
  "CBS_peek_asn1_tag c tag_value =
     (if CBS_len c < 1 then False else ucast (CBS_data c ! 0) = tag_value)"

text \<open>The accumulating loop of \<open>CBS_get_asn1_uint64\<close>: None is the "too large" return.\<close>

fun asn1_uint64_loop :: "u64 \<Rightarrow> u8 list \<Rightarrow> u64 option" where
  "asn1_uint64_loop out [] = Some out"
| "asn1_uint64_loop out (b # bs) =
     (if drop_bit 56 out \<noteq> 0 then None else asn1_uint64_loop (push_bit 8 out OR ucast b) bs)"

definition CBS_get_asn1_uint64 :: "cbs \<Rightarrow> u64 option \<times> cbs" where
  "CBS_get_asn1_uint64 c =
     (case CBS_get_asn1 c CBS_ASN1_INTEGER of
        (None, c') \<Rightarrow> (None, c')
      | (Some bytes, c') \<Rightarrow>
          (let p = CBS_data bytes; len = CBS_len bytes in
           if len = 0 then (None, c')
           else if p ! 0 AND 0x80 \<noteq> 0 then (None, c')
           else if p ! 0 = 0 \<and> 1 < len \<and> p ! 1 AND 0x80 = 0 then (None, c')
           else (asn1_uint64_loop 0 (take len p), c')))"

text \<open>Optional elements: the contents, if present, and whether they are.\<close>

definition CBS_get_optional_asn1 :: "cbs \<Rightarrow> u32 \<Rightarrow> cbs option option \<times> cbs" where
  "CBS_get_optional_asn1 c tag =
     (if CBS_peek_asn1_tag c tag
      then (case CBS_get_asn1 c tag of (None, c') \<Rightarrow> (None, c') | (Some out, c') \<Rightarrow> (Some (Some out), c'))
      else (Some None, c))"

definition CBS_get_optional_asn1_octet_string :: "cbs \<Rightarrow> u32 \<Rightarrow> (cbs \<times> bool) option \<times> cbs" where
  "CBS_get_optional_asn1_octet_string c tag =
     (case CBS_get_optional_asn1 c tag of
        (None, c') \<Rightarrow> (None, c')
      | (Some (Some child), c') \<Rightarrow>
          (case CBS_get_asn1 child CBS_ASN1_OCTETSTRING of
             (None, _) \<Rightarrow> (None, c')
           | (Some out, child') \<Rightarrow>
               if CBS_len child' \<noteq> 0 then (None, c') else (Some (out, True), c'))
      | (Some None, c') \<Rightarrow> (Some (CBS_init [] 0, False), c'))"

definition CBS_get_optional_asn1_uint64 :: "cbs \<Rightarrow> u32 \<Rightarrow> u64 \<Rightarrow> u64 option \<times> cbs" where
  "CBS_get_optional_asn1_uint64 c tag default_value =
     (case CBS_get_optional_asn1 c tag of
        (None, c') \<Rightarrow> (None, c')
      | (Some (Some child), c') \<Rightarrow>
          (case CBS_get_asn1_uint64 child of
             (None, _) \<Rightarrow> (None, c')
           | (Some out, child') \<Rightarrow>
               if CBS_len child' \<noteq> 0 then (None, c') else (Some out, c'))
      | (Some None, c') \<Rightarrow> (Some default_value, c'))"

definition CBS_get_optional_asn1_bool :: "cbs \<Rightarrow> u32 \<Rightarrow> int \<Rightarrow> int option \<times> cbs" where
  "CBS_get_optional_asn1_bool c tag default_value =
     (case CBS_get_optional_asn1 c tag of
        (None, c') \<Rightarrow> (None, c')
      | (Some (Some child), c') \<Rightarrow>
          (case CBS_get_asn1 child CBS_ASN1_BOOLEAN of
             (None, _) \<Rightarrow> (None, c')
           | (Some child2, child') \<Rightarrow>
               if CBS_len child2 \<noteq> 1 \<or> CBS_len child' \<noteq> 0 then (None, c')
               else
                 let boolean = CBS_data child2 ! 0 in
                 if boolean = 0 then (Some 0, c')
                 else if boolean = 0xff then (Some 1, c')
                 else (None, c'))
      | (Some None, c') \<Rightarrow> (Some default_value, c'))"

definition CBS_is_valid_asn1_bitstring :: "cbs \<Rightarrow> bool" where
  "CBS_is_valid_asn1_bitstring c =
     (case CBS_get_u8 c of
        (None, _) \<Rightarrow> False
      | (Some num_unused_bits, i) \<Rightarrow>
          if 7 < num_unused_bits then False
          else if num_unused_bits = 0 then True
          else (case CBS_get_last_u8 i of
                  (None, _) \<Rightarrow> False
                | (Some last_byte, _) \<Rightarrow>
                    ((ucast last_byte :: u32) AND (push_bit (unat num_unused_bits) 1 - 1)) = 0))"

definition CBS_asn1_bitstring_has_bit :: "cbs \<Rightarrow> u32 \<Rightarrow> bool" where
  "CBS_asn1_bitstring_has_bit c b =
     (if \<not> CBS_is_valid_asn1_bitstring c then False
      else
        let byte_num = drop_bit 3 b + 1; bit_num = 7 - (b AND 7) in
        unat byte_num < CBS_len c \<and>
        ((ucast (CBS_data c ! unat byte_num) :: u32) AND push_bit (unat bit_num) 1) \<noteq> 0)"

section \<open>One step of each read\<close>

definition cbs_adv :: "nat \<Rightarrow> cbs \<Rightarrow> cbs" where
  "cbs_adv n c = \<lparr>cbs_data = drop n (cbs_data c), cbs_len = cbs_len c - n\<rparr>"

lemma cbs_adv_ok [simp]: "cbs_ok c \<Longrightarrow> cbs_ok (cbs_adv n c)"
  by (auto simp: cbs_ok_def cbs_adv_def)

lemma cbs_adv_bytes [simp]: "cbs_bytes (cbs_adv n c) = drop n (cbs_bytes c)"
  by (simp add: cbs_bytes_def cbs_adv_def drop_take)

lemma cbs_adv_len [simp]: "cbs_len (cbs_adv n c) = cbs_len c - n"
  by (simp add: cbs_adv_def)

lemma cbs_adv_adv [simp]: "cbs_adv m (cbs_adv n c) = cbs_adv (n + m) c"
  by (simp add: cbs_adv_def add.commute)

lemma length_cbs_bytes [simp]: "cbs_ok c \<Longrightarrow> length (cbs_bytes c) = cbs_len c"
  by (simp add: cbs_bytes_def cbs_ok_def)

lemma CBS_init_bytes [simp]: "n \<le> cbs_len c \<Longrightarrow> cbs_bytes (CBS_init (cbs_data c) n) = take n (cbs_bytes c)"
  by (simp add: cbs_bytes_def CBS_init_def min_absorb1)

lemma CBS_init_ok [simp]: "cbs_ok c \<Longrightarrow> n \<le> cbs_len c \<Longrightarrow> cbs_ok (CBS_init (cbs_data c) n)"
  by (simp add: cbs_ok_def CBS_init_def)

lemma CBS_init_len [simp]: "cbs_len (CBS_init p n) = n"
  by (simp add: CBS_init_def)

lemma cbs_data_nth: "i < cbs_len c \<Longrightarrow> cbs_data c ! i = cbs_bytes c ! i"
  by (simp add: cbs_bytes_def)

lemma CBS_get_bytes_eq [stream_simps]:
  "CBS_get_bytes c n =
     (if n \<le> cbs_len c then (Some (CBS_init (cbs_data c) n), cbs_adv n c) else (None, c))"
  by (simp add: CBS_get_bytes_def cbs_get_def cbs_adv_def)

lemma CBS_skip_eq [stream_simps]:
  "CBS_skip c n = (if n \<le> cbs_len c then (True, cbs_adv n c) else (False, c))"
  by (simp add: CBS_skip_def cbs_get_def cbs_adv_def)

lemma CBS_get_u8_eq [stream_simps]:
  "CBS_get_u8 c = (if 0 < cbs_len c then (Some (cbs_bytes c ! 0), cbs_adv 1 c) else (None, c))"
  by (auto simp: CBS_get_u8_def cbs_get_def cbs_adv_def cbs_bytes_def)

lemma foldl_be:
  "length bs \<le> 4 \<Longrightarrow> unat (foldl (\<lambda>result b. push_bit 8 result OR ucast b) (0 :: u32) bs) = be_val bs"
proof (induction bs rule: rev_induct)
  case Nil
  then show ?case by simp
next
  case (snoc b bs)
  let ?r = "foldl (\<lambda>result b. push_bit 8 result OR ucast b) (0 :: u32) bs"
  have r: "unat ?r = be_val bs" using snoc by simp
  have "be_val bs < 256 ^ 3"
    by (rule less_le_trans [OF be_val_less power_increasing]) (use snoc.prems in simp_all)
  with r have "unat ?r * 256 < 2 ^ LENGTH(32)" by simp
  from unat_push8_or [OF this, of b] r show ?case by (simp add: be_val_append)
qed

lemma unat_be_val_u32: "length bs \<le> 4 \<Longrightarrow> unat (word_of_nat (be_val bs) :: u32) = be_val bs"
proof -
  assume "length bs \<le> 4"
  then have "be_val bs < 256 ^ 4"
    by (intro less_le_trans [OF be_val_less power_increasing]) simp_all
  then show ?thesis by (simp add: unat_of_nat)
qed

lemma cbs_get_u_eq [stream_simps]:
  "n \<le> 4 \<Longrightarrow> cbs_get_u c n =
     (if n \<le> cbs_len c then (Some (word_of_nat (be_val (take n (cbs_bytes c)))), cbs_adv n c) else (None, c))"
proof -
  assume n: "n \<le> 4"
  have "foldl (\<lambda>result b. push_bit 8 result OR ucast b) (0 :: u32) bs = word_of_nat (be_val bs)"
    if "length bs \<le> 4" for bs
    by (rule word_eq_unatI) (simp add: foldl_be [OF that] unat_be_val_u32 [OF that])
  then show ?thesis using n
    by (simp add: cbs_get_u_def cbs_get_def cbs_adv_def cbs_bytes_def min_absorb1)
qed

end
