(* ===== verification/Der_Spec.thy ===== *)
theory Der_Spec
  imports Bytestring_Cbs
begin

text \<open>
  What the CBS parser accepts, stated without the parser: the DER encoding of an element with a
  one-byte tag, and of unsigned integers.

  \<open>der_len n\<close> is the one length encoding DER allows for \<open>n\<close> contents bytes. \<open>der_header\<close> is the
  list-level reading of an element's header, an intermediate step between the code and \<open>der_len\<close>.
\<close>

definition der_len_bytes :: "nat \<Rightarrow> nat" where
  "der_len_bytes n =
     (if n < 0x80 then 0 else if n < 0x100 then 1 else if n < 0x10000 then 2
      else if n < 0x1000000 then 3 else 4)"

definition der_len :: "nat \<Rightarrow> u8 list" where
  "der_len n =
     (if n < 0x80 then [word_of_nat n]
      else word_of_nat (0x80 + der_len_bytes n) # be_bytes (der_len_bytes n) n)"

definition der_header :: "u8 list \<Rightarrow> (u8 \<times> nat \<times> nat) option" where
  "der_header bs =
     (case bs of
        t # lb # tl_bs \<Rightarrow>
          if t AND 0x1f = 0x1f then None
          else if lb AND 0x80 = 0 then Some (t, 2, unat lb)
          else
            let k = unat (lb AND 0x7f) in
            if k = 0 \<or> 4 < k \<or> length tl_bs < k then None
            else
              let n = be_val (take k tl_bs) in
              if n < 128 \<or> n < 256 ^ (k - 1) then None else Some (t, 2 + k, n)
      | _ \<Rightarrow> None)"

lemma len32_too_long:
  assumes "length bs \<le> 4" and "0 < length bs"
  shows "drop_bit ((length bs - 1) * 8) (word_of_nat (be_val bs) :: u32) = 0 \<longleftrightarrow>
    be_val bs < 256 ^ (length bs - 1)"
proof -
  let ?w = "word_of_nat (be_val bs) :: u32" and ?m = "(length bs - 1) * 8"
  have "drop_bit ?m ?w = 0 \<longleftrightarrow> unat (drop_bit ?m ?w) = 0" by (simp only: unat_eq_zero)
  also have "\<dots> \<longleftrightarrow> be_val bs div 2 ^ ?m = 0"
    by (simp only: unat_drop_bit_div unat_be_val_u32 [OF assms(1)])
  also have "\<dots> \<longleftrightarrow> be_val bs < 2 ^ ?m" by (simp add: div_eq_0_iff)
  also have "(2::nat) ^ ?m = 256 ^ (length bs - 1)" by (simp only: mult.commute [of _ 8] power_mult) simp
  finally show ?thesis .
qed

text \<open>The parser on a well-formed CBS is \<open>der_header\<close> and a length test.\<close>

lemma any_asn1_element_eq:
  assumes ok: "cbs_ok c"
  shows "CBS_get_any_asn1_element c =
    (case der_header (cbs_bytes c) of
       None \<Rightarrow> (None, c)
     | Some (t, h, n) \<Rightarrow>
         if h + n \<le> cbs_len c
         then (Some (CBS_init (cbs_data c) (h + n), ucast t, h), cbs_adv (h + n) c)
         else (None, c))"
proof -
  have l: "length (cbs_bytes c) = cbs_len c" using ok by simp
  show ?thesis
  proof (cases "\<exists>t lb tl_bs. cbs_bytes c = t # lb # tl_bs")
    case False
    then have "cbs_len c < 2" using l
      by (cases "cbs_bytes c" rule: list.exhaust; cases "tl (cbs_bytes c)") auto
    moreover have "der_header (cbs_bytes c) = None" using False
      by (auto simp: der_header_def split: list.splits)
    ultimately show ?thesis
      by (auto simp: CBS_get_any_asn1_element_def cbs_get_any_asn1_element_def stream_simps)
  next
    case True
    then obtain t lb tl_bs where b: "cbs_bytes c = t # lb # tl_bs" by blast
    with l have len: "cbs_len c = 2 + length tl_bs" by simp
    obtain k where kd: "unat (lb AND 0x7f) = k" by blast
    have u: "cbs_get_u (cbs_adv 2 c) k = (if k \<le> length tl_bs
        then (Some (word_of_nat (be_val (take k tl_bs))), cbs_adv (2 + k) c) else (None, cbs_adv 2 c))"
      if "k \<le> 4" using that by (simp add: cbs_get_u_eq b len)
    have small: "unat (word_of_nat (be_val (take k tl_bs)) :: u32) = be_val (take k tl_bs)"
      if "k \<le> 4" using that by (intro unat_be_val_u32) simp
    have nowrap: "unat ((ucast (w :: u32) :: size_t) + (2 + word_of_nat k)) = 2 + k + unat w" if "k \<le> 4" for w
    proof -
      have "unat w < 2 ^ 32" using unat_less_two_power [of w] by simp
      then show ?thesis using that
        by (simp add: unat_word_ariths unat_ucast_mod unat_of_nat)
    qed
    have nolt: "\<not> (ucast (w :: u32) :: size_t) + 2 + word_of_nat k < ucast w" if "k \<le> 4" for w
    proof -
      have "unat ((ucast w :: size_t) + 2 + word_of_nat k) = 2 + k + unat w"
        using nowrap [OF that, of w] by (simp add: add.assoc)
      moreover have "unat (ucast w :: size_t) = unat w"
        using unat_less_two_power [of w] by (simp add: unat_ucast_mod)
      ultimately show ?thesis by (simp add: word_less_nat_alt)
    qed
    show ?thesis
    proof (cases "t AND 0x1f = 0x1f \<or> lb AND 0x80 = 0 \<or> k = 0 \<or> 4 < k \<or> length tl_bs < k")
      case True
      then show ?thesis using len u b
        by (auto simp: CBS_get_any_asn1_element_def cbs_get_any_asn1_element_def stream_simps
          der_header_def Let_def kd)
    next
      case False
      then have k: "k \<le> 4" "0 < k" "k \<le> length tl_bs" by auto
      let ?n = "be_val (take k tl_bs)"
      have lt: "(word_of_nat ?n :: u32) < 128 \<longleftrightarrow> ?n < 128"
        using small [OF k(1)] by (simp add: word_less_nat_alt)
      have tl: "drop_bit ((k - 1) * 8) (word_of_nat ?n :: u32) = 0 \<longleftrightarrow> ?n < 256 ^ (k - 1)"
        using len32_too_long [of "take k tl_bs"] k by (simp add: min_absorb2)
      show ?thesis using False len u [OF k(1)] b k lt tl nolt [OF k(1)] nowrap [OF k(1)] small [OF k(1)]
        by (simp add: CBS_get_any_asn1_element_def cbs_get_any_asn1_element_def stream_simps
          der_header_def Let_def kd)
    qed
  qed
qed

section \<open>Headers\<close>

lemma der_len_bytes_bounds:
  assumes "128 \<le> n" and "n < 2 ^ 32"
  shows "0 < der_len_bytes n" "der_len_bytes n \<le> 4" "n < 256 ^ der_len_bytes n"
    "256 ^ (der_len_bytes n - 1) \<le> n \<or> der_len_bytes n = 1"
  using assms by (auto simp: der_len_bytes_def)

lemma der_len_bytes_unique:
  assumes "128 \<le> n" and "0 < k" and "k \<le> 4" and "n < 256 ^ k" and "256 ^ (k - 1) \<le> n"
  shows "der_len_bytes n = k"
proof -
  have "k = 1 \<or> k = 2 \<or> k = 3 \<or> k = 4" using assms(2,3) by auto
  then show ?thesis using assms by (auto simp: der_len_bytes_def)
qed

lemma length_der_len: "length (der_len n) = 1 + der_len_bytes n"
  by (simp add: der_len_def der_len_bytes_def)

lemma der_header_iff:
  "der_header bs = Some (t, h, n) \<longleftrightarrow>
     (\<exists>rest. bs = t # der_len n @ rest) \<and> t AND 0x1f \<noteq> 0x1f \<and> n < 2 ^ 32 \<and> h = 2 + der_len_bytes n"
proof
  assume a: "der_header bs = Some (t, h, n)"
  then obtain lb tl_bs where bs: "bs = t # lb # tl_bs" and t: "t AND 0x1f \<noteq> 0x1f"
    by (auto simp: der_header_def Let_def split: list.splits if_splits)
  show "(\<exists>rest. bs = t # der_len n @ rest) \<and> t AND 0x1f \<noteq> 0x1f \<and> n < 2 ^ 32 \<and> h = 2 + der_len_bytes n"
  proof (cases "lb AND 0x80 = 0")
    case True
    with a bs t have "n = unat lb" "h = 2" by (auto simp: der_header_def)
    moreover have "unat lb < 128" using True by (simp add: bit7_iff)
    ultimately show ?thesis using bs t
      by (simp add: der_len_def der_len_bytes_def)
  next
    case False
    obtain k where kd: "unat (lb AND 0x7f) = k" by blast
    from a bs t False kd have k: "0 < k" "k \<le> 4" "k \<le> length tl_bs"
      and n: "n = be_val (take k tl_bs)" "128 \<le> n" "256 ^ (k - 1) \<le> n" and h: "h = 2 + k"
      by (auto simp: der_header_def Let_def split: if_splits)
    have "n < 256 ^ k" using be_val_less [of "take k tl_bs"] k n by (simp add: min_absorb2)
    with n k have d: "der_len_bytes n = k" by (intro der_len_bytes_unique)
    have lb: "lb = word_of_nat (0x80 + k)"
    proof (rule word_eq_unatI)
      have "128 \<le> unat lb" using False by (simp add: bit7_iff not_less)
      moreover have "unat lb mod 128 = k" using kd by (simp add: unat_and_7F)
      moreover have "unat lb div 128 = 1" using \<open>128 \<le> unat lb\<close> unat_u8_lt [of lb]
        by (intro div_nat_eqI) simp_all
      ultimately have "unat lb = 128 + k" by (metis mult.right_neutral mult_div_mod_eq)
      then show "unat lb = unat (word_of_nat (0x80 + k) :: u8)" using k(2)
        by (simp only: unat_of_nat_u8) simp
    qed
    have "be_bytes k n = take k tl_bs"
      using be_bytes_be_val [of "take k tl_bs"] k n(1) by (simp add: min_absorb2)
    then have "bs = t # der_len n @ drop k tl_bs"
      using bs lb d n(2) by (simp add: der_len_def)
    moreover have "n < 2 ^ 32" using \<open>n < 256 ^ k\<close> k(2)
      by (intro less_le_trans [of n "256 ^ k" "2 ^ 32"]) (use power_increasing [of k 4 "256::nat"] in simp_all)
    ultimately show ?thesis using t h d by blast
  qed
next
  assume a: "(\<exists>rest. bs = t # der_len n @ rest) \<and> t AND 0x1f \<noteq> 0x1f \<and> n < 2 ^ 32 \<and> h = 2 + der_len_bytes n"
  then obtain rest where bs: "bs = t # der_len n @ rest" and t: "t AND 0x1f \<noteq> 0x1f"
    and n: "n < 2 ^ 32" and h: "h = 2 + der_len_bytes n" by blast
  show "der_header bs = Some (t, h, n)"
  proof (cases "n < 128")
    case True
    then show ?thesis using bs t h
      by (simp add: der_header_def der_len_def der_len_bytes_def bit7_iff)
  next
    case False
    obtain k where kd: "der_len_bytes n = k" by blast
    note b = der_len_bytes_bounds [of n, unfolded kd]
    have k: "0 < k" "k \<le> 4" "n < 256 ^ k" "256 ^ (k - 1) \<le> n" using b False n by auto
    have "unat (word_of_nat (128 + k) :: u8) = 128 + k" using k(2) by (simp only: unat_of_nat_u8) simp
    then have "(word_of_nat (128 + k) :: u8) AND 0x80 \<noteq> 0" and "unat ((word_of_nat (128 + k) :: u8) AND 0x7f) = k"
      using k(2) by (simp_all add: bit7_iff unat_and_7F)
    moreover have "be_val (be_bytes k n) = n" using k(3) by (simp add: be_val_be_bytes)
    ultimately show ?thesis using bs t h k False kd
      by (simp add: der_header_def der_len_def Let_def not_less del: of_nat_add)
  qed
qed

text \<open>C9: \<open>CBS_get_any_asn1_element\<close> accepts exactly the DER elements with a one-byte tag and a
  contents length below \<open>2^32\<close>: it succeeds if and only if the bytes start with a tag that is not the
  multi-byte form, the one DER length encoding of some \<open>n\<close> and at least \<open>n\<close> more bytes. It then
  returns that element, its tag and header length, and advances over it; otherwise the CBS is left
  untouched.\<close>
theorem get_any_asn1_element_der:
  assumes ok: "cbs_ok c"
  shows "(CBS_get_any_asn1_element c = (Some (out, tg, hl), c') \<longleftrightarrow>
      (\<exists>t contents rest. cbs_bytes c = t # der_len (length contents) @ contents @ rest \<and>
        t AND 0x1f \<noteq> 0x1f \<and> length contents < 2 ^ 32 \<and> tg = ucast t \<and>
        hl = 2 + der_len_bytes (length contents) \<and>
        out = CBS_init (cbs_data c) (hl + length contents) \<and> c' = cbs_adv (hl + length contents) c)) \<and>
    (fst (CBS_get_any_asn1_element c) = None \<longrightarrow> snd (CBS_get_any_asn1_element c) = c)"
proof
  show "fst (CBS_get_any_asn1_element c) = None \<longrightarrow> snd (CBS_get_any_asn1_element c) = c"
    by (auto simp: any_asn1_element_eq [OF ok] split: option.splits prod.splits if_splits)
  have l: "length (cbs_bytes c) = cbs_len c" using ok by simp
  show "CBS_get_any_asn1_element c = (Some (out, tg, hl), c') \<longleftrightarrow>
      (\<exists>t contents rest. cbs_bytes c = t # der_len (length contents) @ contents @ rest \<and>
        t AND 0x1f \<noteq> 0x1f \<and> length contents < 2 ^ 32 \<and> tg = ucast t \<and>
        hl = 2 + der_len_bytes (length contents) \<and>
        out = CBS_init (cbs_data c) (hl + length contents) \<and> c' = cbs_adv (hl + length contents) c)"
    (is "?L \<longleftrightarrow> ?R")
  proof
    assume ?L
    then obtain t n where h: "der_header (cbs_bytes c) = Some (t, hl, n)" and le: "hl + n \<le> cbs_len c"
      and r: "out = CBS_init (cbs_data c) (hl + n)" "tg = ucast t" "c' = cbs_adv (hl + n) c"
      by (auto simp: any_asn1_element_eq [OF ok] split: option.splits prod.splits if_splits)
    from h obtain rest where b: "cbs_bytes c = t # der_len n @ rest" and t: "t AND 0x1f \<noteq> 0x1f"
      "n < 2 ^ 32" "hl = 2 + der_len_bytes n" by (auto simp: der_header_iff)
    have "n \<le> length rest" using le l b t(3) by (simp add: length_der_len)
    then have "cbs_bytes c = t # der_len (length (take n rest)) @ take n rest @ drop n rest \<and>
      length (take n rest) = n" using b by (simp add: min_absorb2)
    with r t show ?R by metis
  next
    assume ?R
    then obtain t contents rest where b: "cbs_bytes c = t # der_len (length contents) @ contents @ rest"
      and t: "t AND 0x1f \<noteq> 0x1f" "length contents < 2 ^ 32" "tg = ucast t"
        "hl = 2 + der_len_bytes (length contents)"
      and r: "out = CBS_init (cbs_data c) (hl + length contents)" "c' = cbs_adv (hl + length contents) c"
      by blast
    have "der_header (cbs_bytes c) = Some (t, hl, length contents)"
      unfolding der_header_iff using b t by auto
    moreover have "hl + length contents \<le> cbs_len c"
      using b t(4) l by (simp add: length_der_len)
    ultimately show ?L using r t(3) by (simp add: any_asn1_element_eq [OF ok])
  qed
qed

theorem get_any_asn1_element_der_witness:
  "CBS_get_any_asn1_element (CBS_init [0x04, 0x02, 0xAA, 0xBB, 0xCC] 5) =
     (Some (CBS_init [0x04, 0x02, 0xAA, 0xBB, 0xCC] 4, 4, 2), CBS_init [0xCC] 1)"
proof -
  let ?c = "CBS_init [0x04, 0x02, 0xAA, 0xBB, 0xCC] 5"
  have ok: "cbs_ok ?c" by (simp add: cbs_ok_def CBS_init_def)
  have "\<exists>t contents rest. cbs_bytes ?c = t # der_len (length contents) @ contents @ rest \<and>
      t AND 0x1f \<noteq> 0x1f \<and> length contents < 2 ^ 32 \<and> (4 :: u32) = ucast t \<and>
      2 = 2 + der_len_bytes (length contents) \<and>
      CBS_init [0x04, 0x02, 0xAA, 0xBB, 0xCC] 4 = CBS_init (cbs_data ?c) (2 + length contents) \<and>
      CBS_init [0xCC] 1 = cbs_adv (2 + length contents) ?c"
    by (rule exI [of _ 4], rule exI [of _ "[0xAA, 0xBB]"], rule exI [of _ "[0xCC]"])
      (simp add: cbs_bytes_def CBS_init_def cbs_adv_def der_len_def der_len_bytes_def)
  then show ?thesis
    using get_any_asn1_element_der [OF ok, THEN conjunct1, THEN iffD2] by blast
qed

section \<open>Elements with a given tag\<close>

lemma CBS_get_asn1_iff:
  assumes ok: "cbs_ok c"
  shows "CBS_get_asn1 c tag_value = (Some out, c') \<longleftrightarrow>
    (\<exists>t contents rest. cbs_bytes c = t # der_len (length contents) @ contents @ rest \<and>
      t AND 0x1f \<noteq> 0x1f \<and> length contents < 2 ^ 32 \<and> tag_value = ucast t \<and>
      out = cbs_adv (2 + der_len_bytes (length contents))
              (CBS_init (cbs_data c) (2 + der_len_bytes (length contents) + length contents)) \<and>
      c' = cbs_adv (2 + der_len_bytes (length contents) + length contents) c)" (is "_ \<longleftrightarrow> ?R")
proof -
  have l: "length (cbs_bytes c) = cbs_len c" using ok by simp
  have "CBS_get_asn1 c tag_value = (Some out, c') \<longleftrightarrow>
    (\<exists>t h n. der_header (cbs_bytes c) = Some (t, h, n) \<and> h + n \<le> cbs_len c \<and> ucast t = tag_value \<and>
       out = cbs_adv h (CBS_init (cbs_data c) (h + n)) \<and> c' = cbs_adv (h + n) c)"
    by (auto simp: CBS_get_asn1_def cbs_get_asn1_def any_asn1_element_eq [OF ok] stream_simps
      split: option.splits prod.splits if_splits)
  also have "\<dots> \<longleftrightarrow> ?R"
  proof
    assume "\<exists>t h n. der_header (cbs_bytes c) = Some (t, h, n) \<and> h + n \<le> cbs_len c \<and> ucast t = tag_value \<and>
       out = cbs_adv h (CBS_init (cbs_data c) (h + n)) \<and> c' = cbs_adv (h + n) c"
    then obtain t n rest where b: "cbs_bytes c = t # der_len n @ rest" and t: "t AND 0x1f \<noteq> 0x1f"
      "n < 2 ^ 32" "ucast t = tag_value" and le: "2 + der_len_bytes n + n \<le> cbs_len c"
      and r: "out = cbs_adv (2 + der_len_bytes n) (CBS_init (cbs_data c) (2 + der_len_bytes n + n))"
        "c' = cbs_adv (2 + der_len_bytes n + n) c" by (auto simp: der_header_iff)
    have "n \<le> length rest" using le l b by (simp add: length_der_len)
    then have "cbs_bytes c = t # der_len (length (take n rest)) @ take n rest @ drop n rest \<and>
      length (take n rest) = n" using b by (simp add: min_absorb2)
    with r t show ?R by metis
  next
    assume ?R
    then obtain t contents rest where b: "cbs_bytes c = t # der_len (length contents) @ contents @ rest"
      and t: "t AND 0x1f \<noteq> 0x1f" "length contents < 2 ^ 32" "tag_value = ucast t"
      and r: "out = cbs_adv (2 + der_len_bytes (length contents))
              (CBS_init (cbs_data c) (2 + der_len_bytes (length contents) + length contents))"
        "c' = cbs_adv (2 + der_len_bytes (length contents) + length contents) c" by blast
    have "der_header (cbs_bytes c) = Some (t, 2 + der_len_bytes (length contents), length contents)"
      unfolding der_header_iff using b t by auto
    moreover have "2 + der_len_bytes (length contents) + length contents \<le> cbs_len c"
      using b l by (simp add: length_der_len)
    ultimately show "\<exists>t h n. der_header (cbs_bytes c) = Some (t, h, n) \<and> h + n \<le> cbs_len c \<and>
       ucast t = tag_value \<and> out = cbs_adv h (CBS_init (cbs_data c) (h + n)) \<and> c' = cbs_adv (h + n) c"
      using r t(3) by blast
  qed
  finally show ?thesis .
qed

lemma CBS_get_asn1_contents:
  assumes ok: "cbs_ok c" and "CBS_get_asn1 c tag_value = (Some out, c')"
  shows "\<exists>t rest. cbs_bytes c = t # der_len (cbs_len out) @ cbs_bytes out @ rest \<and> cbs_bytes c' = rest \<and>
    ucast t = tag_value" and "cbs_ok out" and "cbs_ok c'" and "length (cbs_bytes out) = cbs_len out"
proof -
  from assms obtain t contents rest where b: "cbs_bytes c = t # der_len (length contents) @ contents @ rest"
    and t: "tag_value = ucast t"
    and out: "out = cbs_adv (2 + der_len_bytes (length contents))
       (CBS_init (cbs_data c) (2 + der_len_bytes (length contents) + length contents))"
    and c': "c' = cbs_adv (2 + der_len_bytes (length contents) + length contents) c"
    unfolding CBS_get_asn1_iff [OF ok] by blast
  have le: "2 + der_len_bytes (length contents) + length contents \<le> cbs_len c"
    using length_cbs_bytes [OF ok] b by (simp add: length_der_len)
  have eq: "t # der_len (length contents) @ contents @ rest = (t # der_len (length contents)) @ contents @ rest"
    by simp
  have h: "length (t # der_len (length contents)) = 2 + der_len_bytes (length contents)"
    by (simp add: length_der_len)
  have "cbs_bytes out = drop (length (t # der_len (length contents)))
      (take (length (t # der_len (length contents)) + length contents)
        ((t # der_len (length contents)) @ contents @ rest))"
    by (simp only: out cbs_adv_bytes CBS_init_bytes [OF le] b eq h)
  then have "cbs_bytes out = contents" by simp
  moreover have "cbs_len out = length contents" by (simp add: out)
  moreover have "cbs_bytes c' = rest"
    unfolding c' cbs_adv_bytes b eq h [symmetric] by simp
  ultimately show "\<exists>t rest. cbs_bytes c = t # der_len (cbs_len out) @ cbs_bytes out @ rest \<and>
    cbs_bytes c' = rest \<and> ucast t = tag_value" using b t by auto
  show "cbs_ok out" using le ok by (simp add: out)
  then show "length (cbs_bytes out) = cbs_len out" by simp
  show "cbs_ok c'" using ok by (simp add: c')
qed

end
