(* ===== verification/Cbb_Spec.thy ===== *)
theory Cbb_Spec
  imports Bytestring_Cbb Der_Spec
begin

text \<open>
  What a CBB build promises: flushing computes, on the bytes written so far, the function
  \<open>closed\<close>, which replaces the length placeholder of every pending child by the length of what was
  written after it, innermost child first. The lemmas relate \<open>flush_children\<close> to \<open>closed\<close>; the
  properties describe a chain of children by the bytes written to each, and read builds back with
  the CBS parser.
\<close>

section \<open>The abstract flush\<close>

definition length_header :: "bool \<Rightarrow> nat \<Rightarrow> nat \<Rightarrow> u8 list" where
  "length_header asn1 k n = (if asn1 then der_len n else be_bytes k n)"

definition header_fits :: "bool \<Rightarrow> nat \<Rightarrow> nat \<Rightarrow> bool" where
  "header_fits asn1 k n \<longleftrightarrow> (if asn1 then n \<le> 0xfffffffe else n < 256 ^ k)"

abbreviation ch_k :: "cbb_child \<Rightarrow> nat" where
  "ch_k ch \<equiv> unat (ch_pending_len_len ch)"

abbreviation ch_start :: "cbb_child \<Rightarrow> nat" where
  "ch_start ch \<equiv> unat (ch_offset ch) + ch_k ch"

fun closed :: "u8 list \<Rightarrow> cbb_child list \<Rightarrow> u8 list" where
  "closed bs [] = bs"
| "closed bs (ch # below) =
     (let bs1 = closed bs below; body = drop (ch_start ch) bs1
      in take (unat (ch_offset ch)) bs1 @
         length_header (ch_pending_is_asn1 ch) (ch_k ch) (length body) @ body)"

fun lengths_fit :: "u8 list \<Rightarrow> cbb_child list \<Rightarrow> bool" where
  "lengths_fit bs [] \<longleftrightarrow> True"
| "lengths_fit bs (ch # below) \<longleftrightarrow>
     lengths_fit bs below \<and>
     header_fits (ch_pending_is_asn1 ch) (ch_k ch) (length (closed bs below) - ch_start ch)"

text \<open>The layout of a chain: every placeholder is non-empty and inside the bytes written, a child
  lies inside its parent's contents, and an ASN.1 placeholder is one byte.\<close>

fun chain_ok :: "nat \<Rightarrow> nat \<Rightarrow> cbb_child list \<Rightarrow> bool" where
  "chain_ok lo n [] \<longleftrightarrow> lo \<le> n"
| "chain_ok lo n (ch # below) \<longleftrightarrow>
     lo \<le> unat (ch_offset ch) \<and> 0 < ch_k ch \<and> (ch_pending_is_asn1 ch \<longrightarrow> ch_k ch = 1) \<and>
     chain_ok (ch_start ch) n below"

lemma chain_ok_le: "chain_ok lo n chs \<Longrightarrow> lo \<le> n"
  by (induction chs arbitrary: lo) fastforce+

lemma der_len_not_Nil: "0 < length (der_len n)"
  by (simp add: der_len_def)

lemma closed_prefix:
  "chain_ok lo (length bs) chs \<Longrightarrow> take lo (closed bs chs) = take lo bs \<and> length bs \<le> length (closed bs chs)"
proof (induction chs arbitrary: lo)
  case (Cons ch chs)
  then have IH: "take (ch_start ch) (closed bs chs) = take (ch_start ch) bs" "length bs \<le> length (closed bs chs)"
    and le: "lo \<le> unat (ch_offset ch)" "ch_start ch \<le> length bs"
    by (auto dest: chain_ok_le)
  have "take lo (closed bs chs) = take lo (take (ch_start ch) (closed bs chs))" using le by (simp add: min_absorb1)
  also have "\<dots> = take lo bs" unfolding IH(1) using le by (simp add: min_absorb1)
  finally have "take lo (closed bs chs) = take lo bs" .
  moreover have "ch_k ch \<le> length (length_header (ch_pending_is_asn1 ch) (ch_k ch) n)" for n
    using Cons.prems der_len_not_Nil [of n] by (auto simp: length_header_def Suc_le_eq)
  note this [of "length (closed bs chs) - ch_start ch"]
  ultimately show ?case using IH(2) le
    by (simp add: Let_def min_absorb1 min_absorb2)
qed simp

section \<open>Closing one child\<close>

lemma asn1_len_len_None: "asn1_len_len n = None \<longleftrightarrow> \<not> header_fits True k (unat n)"
  by (simp add: asn1_len_len_def header_fits_def word_less_nat_alt)

lemma asn1_len_len_Some:
  assumes "asn1_len_len n = Some (ll, ilb, n')"
  shows "der_len (unat n) = ilb # be_bytes (unat ll - 1) (unat n')" and "unat n' < 256 ^ (unat ll - 1)"
    and "1 \<le> unat ll" and "unat ll \<le> 5" and "ll \<noteq> 1 \<Longrightarrow> n' = n" and "unat n \<le> 0xfffffffe"
proof -
  have b: "be_bytes 0 (unat n') = []" by simp
  have u: "(ucast n :: u8) = word_of_nat (unat n)" by simp
  consider "unat n \<le> 0x7f" | "0x7f < unat n" "unat n \<le> 0xff" | "0xff < unat n" "unat n \<le> 0xffff"
    | "0xffff < unat n" "unat n \<le> 0xffffff" | "0xffffff < unat n" "unat n \<le> 0xfffffffe"
    using assms by (fastforce simp: asn1_len_len_def word_less_nat_alt split: if_splits)
  then show "der_len (unat n) = ilb # be_bytes (unat ll - 1) (unat n')" "unat n' < 256 ^ (unat ll - 1)"
    "1 \<le> unat ll" "unat ll \<le> 5" "ll \<noteq> 1 \<Longrightarrow> n' = n" "unat n \<le> 0xfffffffe"
    using assms
    by (cases; auto simp: asn1_len_len_def der_len_def der_len_bytes_def word_less_nat_alt u
        simp del: of_nat_unat)+
qed


lemma poke_at: "length P = n \<Longrightarrow> length X = length bs \<Longrightarrow> poke n bs (P @ X @ R) = P @ bs @ R"
  by (auto simp: poke_def)

lemma split_at_placeholder:
  assumes "cbuf_ok b" and "off + k \<le> unat (cb_len b)"
  obtains P X B R where "cb_buf b = P @ X @ B @ R" and "length P = off" and "length X = k"
    and "cbytes b = P @ X @ B" and "B = drop (off + k) (cbytes b)" and "P = take off (cbytes b)"
proof -
  let ?c = "cbytes b"
  have c: "?c = take off ?c @ take k (drop off ?c) @ drop (off + k) ?c"
    by (metis add.commute append_take_drop_id drop_drop)
  have "cb_buf b = ?c @ drop (unat (cb_len b)) (cb_buf b)" by (simp add: cbytes_def)
  then have "cb_buf b = take off ?c @ take k (drop off ?c) @ drop (off + k) ?c @ drop (unat (cb_len b)) (cb_buf b)"
    by (metis append.assoc c)
  then show thesis
    by (rule that [OF _ _ _ c refl refl]) (use assms in simp_all)
qed

lemma close_fixed:
  assumes ok: "cbuf_ok b" and k: "off + k \<le> unat (cb_len b)" and len: "length bs = k"
  shows "cbuf_ok (b\<lparr>cb_buf := poke off bs (cb_buf b)\<rparr>)"
    and "cbytes (b\<lparr>cb_buf := poke off bs (cb_buf b)\<rparr>) = take off (cbytes b) @ bs @ drop (off + k) (cbytes b)"
proof -
  have room: "off + length bs \<le> length (cb_buf b)" using cbytes_room [OF ok] k len by simp
  then show "cbuf_ok (b\<lparr>cb_buf := poke off bs (cb_buf b)\<rparr>)" using ok by (simp add: cbuf_ok_def)
  show "cbytes (b\<lparr>cb_buf := poke off bs (cb_buf b)\<rparr>) = take off (cbytes b) @ bs @ drop (off + k) (cbytes b)"
    using take_poke_within [of off bs "unat (cb_len b)" "cb_buf b"] cbytes_room [OF ok] k len
    by (simp add: cbytes_def poke_def)
qed

text \<open>Moving the contents to the right makes room for a longer DER length.\<close>

lemma close_moved:
  assumes m: "malloc_ok malloc" and ok: "cbuf_ok b" and off: "off + 1 \<le> unat (cb_len b)"
    and add: "cbb_buffer_add malloc b extra = (Some z, b1)"
    and n: "n = unat (cb_len b) - (off + 1)" and hdr: "length hdr = unat extra"
    and b2: "cb_buf b2 = poke (off + 1) hdr (poke off [x]
              (poke (off + 1 + unat extra) (take n (drop (off + 1) (cb_buf b1))) (cb_buf b1)))"
    and rest: "cb_len b2 = cb_len b1" "cb_cap b2 = cb_cap b1"
  shows "cbuf_ok b2 \<and> cbytes b2 = take off (cbytes b) @ (x # hdr) @ drop (off + 1) (cbytes b)"
proof -
  note a = buffer_add_ok [OF m ok add]
  obtain P X B where PXB: "length P = off" "length X = 1" "cbytes b = P @ X @ B"
      "B = drop (off + 1) (cbytes b)" "P = take off (cbytes b)"
    using split_at_placeholder [OF ok off] by metis
  have nB: "length B = n" using PXB(4) ok n by simp
  have ln: "unat (cb_len b) = off + 1 + n" using n off by simp
  obtain E R where E: "cb_buf b1 = P @ X @ B @ E @ R" "length E = unat extra"
  proof (rule that)
    let ?E = "drop (unat (cb_len b)) (take (unat (cb_len b1)) (cb_buf b1))"
    have "take (unat (cb_len b1)) (cb_buf b1) = take (unat (cb_len b)) (take (unat (cb_len b1)) (cb_buf b1)) @ ?E"
      by (rule append_take_drop_id [symmetric])
    also have "take (unat (cb_len b)) (take (unat (cb_len b1)) (cb_buf b1)) = cbytes b" using a by (simp add: min_absorb1)
    finally show "cb_buf b1 = P @ X @ B @ ?E @ drop (unat (cb_len b1)) (cb_buf b1)" using PXB(3)
      by (metis append.assoc append_take_drop_id)
    show "length ?E = unat extra" using a cbytes_room [of b1] by (simp add: min_absorb2)
  qed
  have tk: "take n (drop (off + 1) (cb_buf b1)) = B" unfolding E(1) using PXB(1,2) nB by simp
  obtain Y Z where YZ: "B @ E = Y @ Z" and lenY: "length Y = unat extra" and lenZ: "length Z = length B"
  proof (rule that)
    show "B @ E = take (unat extra) (B @ E) @ drop (unat extra) (B @ E)" by (rule append_take_drop_id [symmetric])
  qed (simp_all add: E(2))
  have b1: "cb_buf b1 = (P @ X @ Y) @ Z @ R" using E(1) YZ by (metis append.assoc)
  have "length (P @ X @ Y) = off + 1 + unat extra" using PXB(1,2) lenY by simp
  then have "poke (off + 1 + unat extra) B (cb_buf b1) = (P @ X @ Y) @ B @ R"
    unfolding b1 by (rule poke_at) (rule lenZ)
  then have "poke (off + 1 + unat extra) B (cb_buf b1) = P @ X @ Y @ B @ R" by (simp only: append.assoc)
  moreover have "poke off [x] (P @ X @ Y @ B @ R) = P @ [x] @ Y @ B @ R"
    by (rule poke_at) (use PXB(1,2) in simp_all)
  moreover have "poke (off + 1) hdr ((P @ [x]) @ Y @ B @ R) = (P @ [x]) @ hdr @ B @ R"
    by (rule poke_at) (use PXB(1,2) lenY hdr in simp_all)
  ultimately have buf: "cb_buf b2 = (P @ (x # hdr) @ B) @ R" unfolding b2 tk by simp
  have l1: "unat (cb_len b1) = off + 1 + n + unat extra" using a ln by simp
  have "length (cb_buf b2) = length (cb_buf b1)"
    unfolding buf using arg_cong [OF E(1), of length] PXB(1,2) nB E(2) hdr by simp
  moreover have "take (unat (cb_len b2)) (cb_buf b2) = P @ (x # hdr) @ B"
    unfolding buf rest(1) using PXB(1,2) nB l1 hdr by simp
  ultimately show ?thesis using a rest PXB(4,5) by (simp add: cbuf_ok_def cbytes_def)
qed


lemma flush_asn1_ok:
  assumes m: "malloc_ok malloc" and ok: "cbuf_ok b"
    and off: "unat (ch_offset ch) + 1 \<le> unat (cb_len b)" and cs: "unat cs = unat (ch_offset ch) + 1"
    and r: "flush_asn1 malloc b ch cs (cb_len b - cs) = (Some (ch', len'), b')"
    and b2: "b2 = b'\<lparr>cb_buf := poke (unat (ch_offset ch')) (be_bytes (ch_k ch') (unat len')) (cb_buf b')\<rparr>"
  shows "cbuf_ok b2 \<and> cb_error b2 = cb_error b \<and> cb_can_resize b2 = cb_can_resize b \<and>
    cbytes b2 = take (unat (ch_offset ch)) (cbytes b) @
      der_len (unat (cb_len b) - unat cs) @ drop (unat cs) (cbytes b) \<and>
    unat (cb_len b) - unat cs \<le> 0xfffffffe \<and> unat len' < 256 ^ ch_k ch'"
proof -
  let ?off = "unat (ch_offset ch)"
  have n: "unat (cb_len b - cs) = unat (cb_len b) - unat cs" using off cs
    by (simp add: unat_sub word_le_nat_alt)
  obtain ll ilb where L: "asn1_len_len (cb_len b - cs) = Some (ll, ilb, len')"
    using r by (auto simp: flush_asn1_def Let_def split: option.splits prod.splits if_splits)
  note D = asn1_len_len_Some [OF L, unfolded n]
  have ch': "ch' = ch\<lparr>ch_offset := ch_offset ch + 1, ch_pending_len_len := ll - 1\<rparr>"
    using r L by (auto simp: flush_asn1_def Let_def split: option.splits prod.splits if_splits)
  have k': "ch_k ch' = unat ll - 1" using D(3) unfolding ch' by (simp add: unat_sub word_le_nat_alt)
  have cs1: "cs = ch_offset ch + 1"
    using cs off unat_less_two_power [of "cb_len b"] by (intro word_eq_unatI) (simp add: unat_word_ariths)
  then have off': "unat (ch_offset ch') = ?off + 1" using cs unfolding ch' by simp
  show ?thesis
  proof (cases "ll = 1")
    case True
    then have b': "b' = b\<lparr>cb_buf := poke ?off [ilb] (cb_buf b)\<rparr>"
      using r L by (auto simp: flush_asn1_def Let_def)
    have "poke n [] xs = xs" for n and xs :: "u8 list" by (simp add: poke_def)
    then have "b2 = b\<lparr>cb_buf := poke ?off [ilb] (cb_buf b)\<rparr>" using b2 b' k' True by simp
    with close_fixed [OF ok off, of "[ilb]"] D True show ?thesis using cs k' by simp
  next
    case False
    then obtain z b1 where add: "cbb_buffer_add malloc b (ucast ll - 1) = (Some z, b1)"
      and b': "b' = b1\<lparr>cb_buf := poke ?off [ilb] (poke (unat (cs + (ucast ll - 1)))
        (take (unat len') (drop (unat cs) (cb_buf b1))) (cb_buf b1))\<rparr>"
      using r L by (auto simp: flush_asn1_def Let_def split: option.splits prod.splits)
    note ull = unat_ucast_u8_size [of ll]
    then have "(1 :: size_t) \<le> ucast ll" using D(3) by (simp add: word_le_nat_alt)
    from unat_sub [OF this] ull have ex: "unat ((ucast ll :: size_t) - 1) = unat ll - 1" by simp
    have lt: "unat (cb_len b) + (unat ll - 1) < 2 ^ 64"
      using buffer_add_ok [OF m ok add] unat_less_two_power [of "cb_len b1"] ex by simp
    have "unat (cs + (ucast ll - 1)) = ?off + 1 + unat ((ucast ll :: size_t) - 1)"
      using lt ex cs off by (simp add: unat_word_ariths)
    note pos = this
    have len: "unat len' = unat (cb_len b) - (?off + 1)" using D(5) False n cs by simp
    have "cbuf_ok b2 \<and> cbytes b2 = take ?off (cbytes b) @ (ilb # be_bytes (ch_k ch') (unat len')) @ drop (?off + 1) (cbytes b)"
      by (rule close_moved [OF m ok off add len]) (simp_all add: b2 b' off' cs k' ex pos)
    with D k' cs show ?thesis using buffer_add_ok [OF m ok add] b2 b' by simp
  qed
qed

theorem flush_children_closed:
  assumes m: "malloc_ok malloc"
  shows "cbuf_ok b \<Longrightarrow> chain_ok lo (unat (cb_len b)) chs \<Longrightarrow> flush_children malloc b chs = (True, b', chs') \<Longrightarrow>
    chs' = [] \<and> cbuf_ok b' \<and> \<not> cb_error b' \<and> cb_can_resize b' = cb_can_resize b \<and>
    cbytes b' = closed (cbytes b) chs \<and> lengths_fit (cbytes b) chs"
proof (induction chs arbitrary: b b' chs' lo)
  case Nil
  then show ?case by auto
next
  case (Cons ch below)
  let ?off = "unat (ch_offset ch)"
  have k0: "ch_pending_len_len ch \<noteq> 0" using Cons.prems(2) by auto
  obtain cs where cs: "cs = ch_offset ch + ucast (ch_pending_len_len ch)" by blast
  obtain b1 below1 where f: "flush_children malloc b below = (True, b1, below1)"
    and nw: "\<not> cs < ch_offset ch" and le: "\<not> cb_len b1 < cs"
    using Cons.prems(3) k0 unfolding cs
    by (auto simp: Let_def split: prod.splits if_splits)
  have I: "below1 = []" "cbuf_ok b1" "\<not> cb_error b1" "cb_can_resize b1 = cb_can_resize b"
    "cbytes b1 = closed (cbytes b) below" "lengths_fit (cbytes b) below"
    using Cons.IH [OF Cons.prems(1) _ f] Cons.prems(2) by auto
  have ucs: "unat cs = ch_start ch"
    using unat_add_no_wrap [OF nw [unfolded cs]] unfolding cs by (simp only: unat_ucast_u8_size)
  have le': "ch_start ch \<le> unat (cb_len b1)" using le ucs by (simp add: word_le_nat_alt not_less)
  have n: "unat (cb_len b1 - cs) = unat (cb_len b1) - ch_start ch"
    using le ucs by (simp add: unat_sub not_less)
  have lb: "length (closed (cbytes b) below) = unat (cb_len b1)"
    using I(2,5) by (metis length_cbytes)
  show ?case
  proof (cases "ch_pending_is_asn1 ch")
    case False
    let ?b2 = "b1\<lparr>cb_buf := poke ?off (be_bytes (ch_k ch) (unat (cb_len b1 - cs))) (cb_buf b1)\<rparr>"
    have r: "chs' = []" "b' = ?b2" and fit: "drop_bit (8 * ch_k ch) (cb_len b1 - cs) = 0"
      using Cons.prems(3) k0 f nw le False unfolding cs [symmetric]
      by (auto simp: Let_def be_store_eq I(1) cs [symmetric] split: if_splits)
    have "unat (cb_len b1 - cs) < 256 ^ ch_k ch" using fit be_store_left_0 [of "ch_k ch" "cb_len b1 - cs"]
      by (simp add: be_store_left)
    then have hf: "header_fits False (ch_k ch) (unat (cb_len b1) - ch_start ch)"
      using n by (simp add: header_fits_def)
    note c = close_fixed [OF I(2) le', of "be_bytes (ch_k ch) (unat (cb_len b1 - cs))"]
    show ?thesis unfolding r using c I hf False n lb by (simp add: length_header_def Let_def)
  next
    case True
    then have k1: "ch_k ch = 1" using Cons.prems(2) by simp
    obtain ch' len' b2 where fa: "flush_asn1 malloc b1 ch cs (cb_len b1 - cs) = (Some (ch', len'), b2)"
      and r: "chs' = []" "b' = b2\<lparr>cb_buf := poke (unat (ch_offset ch')) (be_bytes (ch_k ch') (unat len')) (cb_buf b2)\<rparr>"
      using Cons.prems(3) k0 f nw le True unfolding cs [symmetric]
      by (auto simp: Let_def be_store_eq I(1) cs [symmetric] split: if_splits prod.splits option.splits)
    have "unat (ch_offset ch) + 1 \<le> unat (cb_len b1)" "unat cs = unat (ch_offset ch) + 1"
      using le' ucs k1 by simp_all
    note c = flush_asn1_ok [OF m I(2) this fa r(2)]
    show ?thesis using c I True ucs k1 lb r(1) by (simp add: length_header_def header_fits_def Let_def)
  qed
qed


section \<open>When flushing succeeds\<close>

definition malloc_total :: "malloc_fn \<Rightarrow> bool" where
  "malloc_total malloc \<longleftrightarrow> (\<forall>n. malloc n \<noteq> None)"

lemma buffer_add_succeeds:
  assumes t: "malloc_total malloc" and res: "cb_can_resize b" and fit: "unat (cb_len b) + unat n < 2 ^ 64"
  obtains b' where "cbb_buffer_add malloc b n = (Some (cb_len b), b')"
proof -
  have "unat (cb_len b + n) = unat (cb_len b) + unat n" using fit by (simp add: unat_word_ariths)
  then have "\<not> cb_len b + n < cb_len b" by (simp add: word_less_nat_alt)
  moreover have nn: "(OPENSSL_realloc malloc (Some buf) cap = None) = False" for buf cap
    using t by (auto simp: OPENSSL_realloc_def malloc_total_def Let_def split: option.splits)
  ultimately have "fst (cbb_buffer_add malloc b n) = Some (cb_len b)" using res
    by (simp add: cbb_buffer_add_def cbb_buffer_reserve_def Let_def nn split: option.splits)
  then show thesis by (cases "cbb_buffer_add malloc b n") (rule that, simp)
qed

lemma length_closed_le:
  "chain_ok lo (length bs) chs \<Longrightarrow> length (closed bs chs) \<le> length bs + 4 * length chs"
proof (induction chs arbitrary: lo)
  case (Cons ch chs)
  then have "length (closed bs chs) \<le> length bs + 4 * length chs" "ch_start ch \<le> length (closed bs chs)"
    using closed_prefix [of "ch_start ch" bs chs] chain_ok_le [of "ch_start ch" "length bs" chs] by auto
  moreover have "length (der_len n) \<le> 5" for n by (simp add: der_len_def der_len_bytes_def)
  note this [of "length (closed bs chs) - ch_start ch"]
  ultimately show ?case using Cons.prems by (auto simp: Let_def length_header_def)
qed simp

lemma flush_asn1_succeeds:
  assumes t: "malloc_total malloc" and res: "cb_can_resize b" and room: "unat (cb_len b) + 4 < 2 ^ 64"
    and fit: "unat n \<le> 0xfffffffe"
  shows "fst (flush_asn1 malloc b ch cs n) \<noteq> None"
proof -
  obtain ll ilb n' where L: "asn1_len_len n = Some (ll, ilb, n')"
    using asn1_len_len_None [of n] fit by (cases "asn1_len_len n") (auto simp: header_fits_def)
  have ll: "1 \<le> unat ll" "unat ll \<le> 5" using asn1_len_len_Some [OF L] by simp_all
  have "(1 :: size_t) \<le> ucast ll" using ll(1) by (simp only: word_le_nat_alt unat_ucast_u8_size) simp
  then have "unat ((ucast ll :: size_t) - 1) \<le> 4"
    using ll(2) unat_ucast_u8_size [of ll] by (simp only: unat_sub) simp
  then have "unat (cb_len b) + unat ((ucast ll :: size_t) - 1) < 2 ^ 64" using room by linarith
  from buffer_add_succeeds [OF t res this]
  obtain b' where "cbb_buffer_add malloc b (ucast ll - 1) = (Some (cb_len b), b')" .
  then show ?thesis using L by (simp add: flush_asn1_def Let_def)
qed

theorem flush_children_complete:
  assumes m: "malloc_ok malloc" and t: "malloc_total malloc"
  shows "cbuf_ok b \<Longrightarrow> chain_ok lo (unat (cb_len b)) chs \<Longrightarrow> \<not> cb_error b \<Longrightarrow> cb_can_resize b \<Longrightarrow>
    unat (cb_len b) + 4 * length chs < 2 ^ 64 \<Longrightarrow> lengths_fit (cbytes b) chs \<Longrightarrow>
    fst (flush_children malloc b chs)"
proof (induction chs arbitrary: lo)
  case (Cons ch below)
  have k0: "ch_pending_len_len ch \<noteq> 0" using Cons.prems(2) by auto
  have ch: "chain_ok (ch_start ch) (unat (cb_len b)) below" using Cons.prems(2) by simp
  obtain b1 below1 where f: "flush_children malloc b below = (True, b1, below1)"
    using Cons.IH [OF Cons.prems(1) ch Cons.prems(3,4)] Cons.prems(5,6)
    by (cases "flush_children malloc b below") auto
  have I: "below1 = []" "cbuf_ok b1" "\<not> cb_error b1" "cb_can_resize b1"
    "cbytes b1 = closed (cbytes b) below"
    using flush_children_closed [OF m Cons.prems(1) ch f] Cons.prems(4) by auto
  obtain cs where cs: "cs = ch_offset ch + ucast (ch_pending_len_len ch)" by blast
  have l1: "unat (cb_len b1) = length (closed (cbytes b) below)" using I(2,5) by (metis length_cbytes)
  have le: "ch_start ch \<le> unat (cb_len b)" using chain_ok_le [OF ch] .
  have chb: "chain_ok (ch_start ch) (length (cbytes b)) below" using ch Cons.prems(1) by simp
  have le1: "unat (cb_len b) \<le> unat (cb_len b1)" using closed_prefix [OF chb] l1 Cons.prems(1) by simp
  have room: "unat (cb_len b1) + 4 < 2 ^ 64"
    using length_closed_le [OF chb] l1 Cons.prems(1,5) by simp
  have ucs: "unat cs = ch_start ch" unfolding cs using le unat_less_two_power [of "cb_len b"]
    by (simp add: unat_word_ariths unat_ucast_u8_size)
  have ok: "\<not> cs < ch_offset ch" "\<not> cb_len b1 < cs" using ucs le le1 by (simp_all add: word_less_nat_alt)
  have n: "unat (cb_len b1 - cs) = length (closed (cbytes b) below) - ch_start ch"
    using ok ucs l1 by (simp add: unat_sub not_less)
  show ?case
  proof (cases "ch_pending_is_asn1 ch")
    case False
    then have "unat (cb_len b1 - cs) < 256 ^ ch_k ch" using Cons.prems(6) n by (simp add: header_fits_def)
    then have "drop_bit (8 * ch_k ch) (cb_len b1 - cs) = 0"
      using be_store_left_0 [of "ch_k ch" "cb_len b1 - cs"] by (simp add: be_store_left)
    then show ?thesis using False f ok k0 Cons.prems(3) I unfolding cs
      by (simp add: Let_def be_store_eq)
  next
    case True
    then have "unat (cb_len b1 - cs) \<le> 0xfffffffe" using Cons.prems(6) n by (simp add: header_fits_def)
    from flush_asn1_succeeds [OF t I(4) room this, of ch cs]
    obtain ch' n' b2 where fa: "flush_asn1 malloc b1 ch cs (cb_len b1 - cs) = (Some (ch', n'), b2)"
      by (cases "flush_asn1 malloc b1 ch cs (cb_len b1 - cs)") auto
    have k1: "ch_k ch = 1" using True Cons.prems(2) by simp
    have "unat n' < 256 ^ ch_k ch'"
      using flush_asn1_ok [OF m I(2) _ _ fa refl] le le1 ucs k1 by simp
    then have "drop_bit (8 * ch_k ch') n' = 0"
      using be_store_left_0 [of "ch_k ch'" n'] by (simp add: be_store_left)
    then show ?thesis using True f ok k0 Cons.prems(3) I fa unfolding cs
      by (simp add: Let_def be_store_eq)
  qed
qed simp

end
