(* ===== verification/Cbb_Ops.thy ===== *)
theory Cbb_Ops
  imports Cbb_Spec
begin

text \<open>
  CBB builds as a refinement. The abstract builder is the list of bytes written so far and the
  chain of pending children; its operations are list operations. \<open>run_op\<close> runs one C call, and
  every call that returns 1 is simulated by \<open>abs_op\<close>; a call that returns 0 poisons the build.
\<close>

datatype cbb_op =
    Op_bytes "u8 list"
  | Op_u u32 nat
  | Op_prefixed u8
  | Op_asn1 u32
  | Op_flush

fun run_op :: "malloc_fn \<Rightarrow> nat \<times> cbb_op \<Rightarrow> cbb \<Rightarrow> (bool \<times> cbb) option" where
  "run_op malloc (d, Op_bytes bs) c = Some (CBB_add_bytes malloc d bs c)"
| "run_op malloc (d, Op_u v n) c = Some (add_u malloc d v n c)"
| "run_op malloc (d, Op_prefixed k) c = Some (cbb_add_length_prefixed malloc d k c)"
| "run_op malloc (d, Op_asn1 tag) c = CBB_add_asn1 malloc d tag c"
| "run_op malloc (d, Op_flush) c = Some (CBB_flush malloc d c)"

text \<open>A script of calls, whatever they return; the result says whether all of them returned 1, and is None when
  one of them is undefined.\<close>

fun run_ops :: "malloc_fn \<Rightarrow> (nat \<times> cbb_op) list \<Rightarrow> cbb \<Rightarrow> (bool \<times> cbb) option" where
  "run_ops malloc [] c = Some (True, c)"
| "run_ops malloc (x # xs) c =
     (case run_op malloc x c of
        None \<Rightarrow> None
      | Some (ok, c) \<Rightarrow> map_option (map_prod ((\<and>) ok) id) (run_ops malloc xs c))"

text \<open>The sizes the C callers use: at most 255 bytes of a value, a prefix of at least one byte and
  bytes that exist in memory.\<close>

fun op_ok :: "nat \<times> cbb_op \<Rightarrow> bool" where
  "op_ok (d, Op_bytes bs) \<longleftrightarrow> length bs < 2 ^ 64"
| "op_ok (d, Op_u v n) \<longleftrightarrow> n \<le> 4"
| "op_ok (d, Op_prefixed k) \<longleftrightarrow> k \<noteq> 0"
| "op_ok (d, Op_asn1 tag) \<longleftrightarrow> True"
| "op_ok (d, Op_flush) \<longleftrightarrow> True"

type_synonym abs_builder = "u8 list \<times> cbb_child list"

fun abs_flush :: "nat \<Rightarrow> abs_builder \<Rightarrow> abs_builder" where
  "abs_flush d (bs, chs) = (closed bs (drop d chs), take d chs)"

definition pending :: "nat \<Rightarrow> u8 \<Rightarrow> bool \<Rightarrow> cbb_child" where
  "pending off k asn1 = \<lparr>ch_offset = word_of_nat off, ch_pending_len_len = k, ch_pending_is_asn1 = asn1\<rparr>"

fun abs_op :: "nat \<times> cbb_op \<Rightarrow> abs_builder \<Rightarrow> abs_builder" where
  "abs_op (d, Op_bytes xs) s = (case abs_flush d s of (bs, chs) \<Rightarrow> (bs @ xs, chs))"
| "abs_op (d, Op_u v n) s = (case abs_flush d s of (bs, chs) \<Rightarrow> (bs @ be_bytes n (unat v), chs))"
| "abs_op (d, Op_prefixed k) s = (case abs_flush d s of (bs, chs) \<Rightarrow>
     (bs @ replicate (unat k) 0, chs @ [pending (length bs) k False]))"
| "abs_op (d, Op_asn1 tag) s = (case abs_flush d s of (bs, chs) \<Rightarrow>
     (bs @ [ucast tag, 0], chs @ [pending (length bs + 1) 1 True]))"
| "abs_op (d, Op_flush) s = abs_flush d s"

fun abs_ops :: "(nat \<times> cbb_op) list \<Rightarrow> abs_builder \<Rightarrow> abs_builder" where
  "abs_ops [] s = s"
| "abs_ops (x # xs) s = abs_ops xs (abs_op x s)"

text \<open>The invariant of a live build and its abstraction.\<close>

definition cbb_inv :: "cbb \<Rightarrow> bool" where
  "cbb_inv c = (case cbb_base c of None \<Rightarrow> False
     | Some b \<Rightarrow> cbuf_ok b \<and> chain_ok 0 (unat (cb_len b)) (cbb_children c))"

definition abs_of :: "cbb \<Rightarrow> abs_builder" where
  "abs_of c = (case cbb_base c of None \<Rightarrow> ([], []) | Some b \<Rightarrow> (cbytes b, cbb_children c))"

lemma cbb_inv_Some: "cbb_inv c \<Longrightarrow> \<exists>b. cbb_base c = Some b \<and> cbuf_ok b \<and> chain_ok 0 (unat (cb_len b)) (cbb_children c)"
  by (auto simp: cbb_inv_def split: option.splits)

lemma chain_ok_take: "chain_ok lo n chs \<Longrightarrow> chain_ok lo n (take d chs)"
  by (induction chs arbitrary: lo d) (auto simp: take_Cons dest: chain_ok_le split: nat.splits)

lemma chain_ok_drop: "chain_ok lo n chs \<Longrightarrow> \<exists>lo'\<le>n. chain_ok lo' n (drop d chs)"
proof (induction chs arbitrary: lo d)
  case (Cons ch chs)
  then show ?case by (cases d) (auto dest: chain_ok_le)
qed auto

lemma chain_ok_more: "chain_ok lo n chs \<Longrightarrow> n \<le> n' \<Longrightarrow> chain_ok lo n' chs"
  by (induction chs arbitrary: lo) auto

lemma chain_ok_snoc:
  "chain_ok lo n chs \<Longrightarrow> n < 2 ^ 64 \<Longrightarrow> k \<noteq> 0 \<Longrightarrow> (asn1 \<Longrightarrow> k = 1) \<Longrightarrow> n + unat k \<le> n' \<Longrightarrow>
    chain_ok lo n' (chs @ [pending n k asn1])"
  by (induction chs arbitrary: lo)
    (auto simp: pending_def unat_of_nat word_neq_0_conv unat_gt_0)


section \<open>Simulation of one call\<close>

lemma flush_refines:
  assumes m: "malloc_ok malloc" and inv: "cbb_inv c" and r: "CBB_flush malloc d c = (True, c')"
  obtains b' where "cbb_base c' = Some b'" and "\<not> cb_error b'" and "cbb_inv c'"
    and "abs_of c' = abs_flush d (abs_of c)" and "d \<le> length (cbb_children c)"
proof -
  obtain b where b: "cbb_base c = Some b" and ok: "cbuf_ok b"
    and ch: "chain_ok 0 (unat (cb_len b)) (cbb_children c)"
    using cbb_inv_Some [OF inv] by blast
  have d: "d \<le> length (cbb_children c)" using r b by (auto simp: CBB_flush_def split: if_splits)
  obtain b' below where f: "flush_children malloc b (drop d (cbb_children c)) = (True, b', below)"
    and c': "c' = c\<lparr>cbb_base := Some b', cbb_children := take d (cbb_children c) @ below\<rparr>"
    using r b d by (auto simp: CBB_flush_def split: prod.splits)
  obtain lo where lo: "chain_ok lo (unat (cb_len b)) (drop d (cbb_children c))"
    using chain_ok_drop [OF ch] by blast
  have R: "below = []" "cbuf_ok b'" "\<not> cb_error b'" "cbytes b' = closed (cbytes b) (drop d (cbb_children c))"
    using flush_children_closed [OF m ok lo f] by simp_all
  have "unat (cb_len b) \<le> unat (cb_len b')"
    using closed_prefix [of lo "cbytes b" "drop d (cbb_children c)"] R lo ok by (metis length_cbytes)
  then have "cbb_inv c'" using R ch unfolding c'
    by (auto simp: cbb_inv_def intro: chain_ok_take chain_ok_more)
  moreover have "abs_of c' = abs_flush d (abs_of c)" using R b unfolding c' by (simp add: abs_of_def)
  ultimately show thesis using that R c' d by simp
qed

lemma flush_then_Some:
  assumes "flush_then malloc d opr c = (Some r, c')"
  obtains c1 b1 b2 where "CBB_flush malloc d c = (True, c1)" and "cbb_base c1 = Some b1"
    and "opr b1 = (Some r, b2)" and "c' = c1\<lparr>cbb_base := Some b2\<rparr>"
  using assms by (auto simp: flush_then_def split: prod.splits bool.splits option.splits)

lemma append_refines:
  assumes inv: "cbb_inv c" and b: "cbb_base c = Some b" and ok: "cbuf_ok b2" and a: "cbytes b2 = cbytes b @ xs"
  shows "cbb_inv (c\<lparr>cbb_base := Some b2\<rparr>)"
    and "abs_of (c\<lparr>cbb_base := Some b2\<rparr>) = (fst (abs_of c) @ xs, snd (abs_of c))"
proof -
  have ok1: "cbuf_ok b" "chain_ok 0 (unat (cb_len b)) (cbb_children c)" using cbb_inv_Some [OF inv] b by auto
  have "unat (cb_len b2) = unat (cb_len b) + length xs"
    using arg_cong [OF a, of length] ok ok1 by simp
  then show "cbb_inv (c\<lparr>cbb_base := Some b2\<rparr>)" using ok ok1 by (auto simp: cbb_inv_def intro: chain_ok_more)
  show "abs_of (c\<lparr>cbb_base := Some b2\<rparr>) = (fst (abs_of c) @ xs, snd (abs_of c))"
    using a b by (simp add: abs_of_def)
qed

lemma abs_of_base: "cbb_base c = Some b \<Longrightarrow> abs_of c = (cbytes b, cbb_children c)"
  by (simp add: abs_of_def)

lemma add_bytes_refines:
  assumes m: "malloc_ok malloc" and inv: "cbb_inv c" and n: "length xs < 2 ^ 64"
    and r: "CBB_add_bytes malloc d xs c = (True, c')"
  shows "cbb_inv c' \<and> abs_of c' = abs_op (d, Op_bytes xs) (abs_of c)"
proof -
  obtain off c0 where f: "flush_then malloc d (\<lambda>b. cbb_buffer_add malloc b (word_of_nat (length xs))) c = (Some off, c0)"
    and c': "c' = c0\<lparr>cbb_base := map_option (\<lambda>b. b\<lparr>cb_buf := poke (unat off) xs (cb_buf b)\<rparr>) (cbb_base c0)\<rparr>"
    using r by (auto simp: CBB_add_bytes_def split: prod.splits option.splits)
  from flush_then_Some [OF f] obtain c1 b1 b2 where fl: "CBB_flush malloc d c = (True, c1)"
    and b1: "cbb_base c1 = Some b1" and add: "cbb_buffer_add malloc b1 (word_of_nat (length xs)) = (Some off, b2)"
    and c0: "c0 = c1\<lparr>cbb_base := Some b2\<rparr>" by blast
  from flush_refines [OF m inv fl] have i1: "cbb_inv c1" and a1: "abs_of c1 = abs_flush d (abs_of c)" by blast+
  have ok: "cbuf_ok b1" using cbb_inv_Some [OF i1] b1 by auto
  have "length xs = unat (word_of_nat (length xs) :: size_t)" using n by (simp add: unat_of_nat)
  note p = buffer_add_poke [OF m ok add this]
  have "c' = c1\<lparr>cbb_base := Some (b2\<lparr>cb_buf := poke (unat off) xs (cb_buf b2)\<rparr>)\<rparr>" unfolding c' c0 by simp
  with append_refines [OF i1 b1 p] a1 show ?thesis by (simp add: split_beta)
qed

lemma buffer_add_u_refines:
  assumes m: "malloc_ok malloc" and ok: "cbuf_ok b" and n: "n \<le> 4"
    and r: "cbb_buffer_add_u malloc b v n = (True, b')"
  shows "cbuf_ok b' \<and> cbytes b' = cbytes b @ be_bytes n (unat v) \<and> cb_error b' = cb_error b"
proof (cases "n = 0")
  case True
  then show ?thesis using r ok by (simp add: cbb_buffer_add_u_def)
next
  case False
  then obtain off b1 where add: "cbb_buffer_add malloc b (word_of_nat n) = (Some off, b1)"
    and b': "b' = b1\<lparr>cb_buf := poke (unat off) (be_bytes n (unat v)) (cb_buf b1)\<rparr>"
    using r by (auto simp: cbb_buffer_add_u_def Let_def be_store_eq split: prod.splits option.splits if_splits)
  have "length (be_bytes n (unat v)) = unat (word_of_nat n :: size_t)" using n by (simp add: unat_of_nat)
  note p = buffer_add_poke [OF m ok add this]
  show ?thesis using p buffer_add_ok [OF m ok add] unfolding b' by simp
qed

lemma add_u_refines:
  assumes m: "malloc_ok malloc" and inv: "cbb_inv c" and n: "n \<le> 4"
    and r: "add_u malloc d v n c = (True, c')"
  shows "cbb_inv c' \<and> abs_of c' = abs_op (d, Op_u v n) (abs_of c)"
proof -
  let ?opr = "\<lambda>b. case cbb_buffer_add_u malloc b v n of (ok, b) \<Rightarrow> (if ok then Some () else None, b)"
  obtain u where f: "flush_then malloc d ?opr c = (Some u, c')"
    using r by (auto simp: add_u_def split: prod.splits)
  from flush_then_Some [OF f] obtain c1 b1 b2 where fl: "CBB_flush malloc d c = (True, c1)"
    and b1: "cbb_base c1 = Some b1" and add: "?opr b1 = (Some u, b2)"
    and c': "c' = c1\<lparr>cbb_base := Some b2\<rparr>" by blast
  from flush_refines [OF m inv fl] have i1: "cbb_inv c1" and a1: "abs_of c1 = abs_flush d (abs_of c)" by blast+
  have ok: "cbuf_ok b1" using cbb_inv_Some [OF i1] b1 by auto
  have "cbb_buffer_add_u malloc b1 v n = (True, b2)" using add by (auto split: prod.splits if_splits)
  with buffer_add_u_refines [OF m ok n] have p: "cbuf_ok b2" "cbytes b2 = cbytes b1 @ be_bytes n (unat v)" by blast+
  from append_refines [OF i1 b1 p] a1 show ?thesis unfolding c' by (simp add: split_beta)
qed


lemma inv_len: "cbb_inv c \<Longrightarrow> cbb_base c = Some b \<Longrightarrow> length (fst (abs_of c)) = unat (cb_len b)"
  using cbb_inv_Some by (fastforce simp: abs_of_def)

lemma push_child:
  assumes inv: "cbb_inv c" and a: "abs_of c = (bs @ xs, chs)" and k: "k \<noteq> 0" "asn1 \<Longrightarrow> k = 1"
    and chs: "chain_ok 0 n chs" and n: "length bs \<le> n" "n + unat k \<le> length (bs @ xs)"
    and new: "new = pending n k asn1"
  shows "cbb_inv (c\<lparr>cbb_children := cbb_children c @ [new]\<rparr>)"
    and "abs_of (c\<lparr>cbb_children := cbb_children c @ [new]\<rparr>) = (bs @ xs, chs @ [new])"
proof -
  obtain b where b: "cbb_base c = Some b" "cbuf_ok b" using cbb_inv_Some [OF inv] by blast
  have ab: "cbytes b = bs @ xs" "cbb_children c = chs" using a b by (simp_all add: abs_of_def)
  have l: "unat (cb_len b) = length (bs @ xs)" using inv_len [OF inv b(1)] a by simp
  have "n < 2 ^ 64" using n l unat_less_two_power [of "cb_len b"] by simp
  with chain_ok_snoc [OF chs this k] n l
  have "chain_ok 0 (unat (cb_len b)) (chs @ [new])" unfolding new by simp
  then show "cbb_inv (c\<lparr>cbb_children := cbb_children c @ [new]\<rparr>)" using b ab by (simp add: cbb_inv_def)
  show "abs_of (c\<lparr>cbb_children := cbb_children c @ [new]\<rparr>) = (bs @ xs, chs @ [new])"
    using b ab by (simp add: abs_of_def)
qed

lemma prefixed_refines:
  assumes m: "malloc_ok malloc" and inv: "cbb_inv c" and k: "k \<noteq> 0"
    and r: "cbb_add_length_prefixed malloc d k c = (True, c')"
  shows "cbb_inv c' \<and> abs_of c' = abs_op (d, Op_prefixed k) (abs_of c)"
proof -
  obtain off c0 where f: "flush_then malloc d (\<lambda>b. cbb_buffer_add malloc b (ucast k)) c = (Some off, c0)"
    and c': "c' = c0\<lparr>cbb_base := map_option (\<lambda>b. b\<lparr>cb_buf := poke (unat off) (replicate (unat k) 0) (cb_buf b)\<rparr>) (cbb_base c0),
       cbb_children := cbb_children c0 @ [\<lparr>ch_offset = off, ch_pending_len_len = k, ch_pending_is_asn1 = False\<rparr>]\<rparr>"
    using r by (auto simp: cbb_add_length_prefixed_def split: prod.splits option.splits)
  from flush_then_Some [OF f] obtain c1 b1 b2 where fl: "CBB_flush malloc d c = (True, c1)"
    and b1: "cbb_base c1 = Some b1" and add: "cbb_buffer_add malloc b1 (ucast k) = (Some off, b2)"
    and c0: "c0 = c1\<lparr>cbb_base := Some b2\<rparr>" by blast
  from flush_refines [OF m inv fl] have i1: "cbb_inv c1" and a1: "abs_of c1 = abs_flush d (abs_of c)" by blast+
  have ok: "cbuf_ok b1" and ch: "chain_ok 0 (unat (cb_len b1)) (cbb_children c1)"
    using cbb_inv_Some [OF i1] b1 by auto
  have "length (replicate (unat k) (0 :: u8)) = unat (ucast k :: size_t)" by (simp add: unat_ucast_u8_size)
  note p = buffer_add_poke [OF m ok add this]
  let ?b3 = "b2\<lparr>cb_buf := poke (unat off) (replicate (unat k) 0) (cb_buf b2)\<rparr>"
  note ap = append_refines [OF i1 b1 p]
  have off: "off = cb_len b1" using buffer_add_ok [OF m ok add] by simp
  have l: "length (cbytes b1) = unat (cb_len b1)" using ok by simp
  have new: "\<lparr>ch_offset = off, ch_pending_len_len = k, ch_pending_is_asn1 = False\<rparr> = pending (unat (cb_len b1)) k False"
    by (simp add: pending_def off)
  note pc = push_child [OF ap(1) ap(2) [unfolded abs_of_base [OF b1] fst_conv snd_conv] k _ ch _ _ new]
  have "c' = (c1\<lparr>cbb_base := Some ?b3\<rparr>)\<lparr>cbb_children := cbb_children (c1\<lparr>cbb_base := Some ?b3\<rparr>) @
      [\<lparr>ch_offset = off, ch_pending_len_len = k, ch_pending_is_asn1 = False\<rparr>]\<rparr>" unfolding c' c0 by simp
  with pc l a1 show ?thesis using abs_of_base [OF b1] new by (simp add: split_beta flip: a1)
qed

lemma abs_flush_idem: "abs_flush d (abs_flush d s) = abs_flush d s"
  by (cases s) simp

lemma add_asn1_True:
  assumes r: "CBB_add_asn1 malloc d tag c = Some (True, c')"
  shows "\<exists>c1 c2 c3. CBB_flush malloc d c = (True, c1) \<and> CBB_add_u8 malloc d (ucast tag) c1 = (True, c2) \<and>
    CBB_add_u8 malloc d 0 c2 = (True, c3) \<and> c' = c3\<lparr>cbb_children := cbb_children c3 @
       [\<lparr>ch_offset = (case cbb_base c2 of None \<Rightarrow> 0 | Some b \<Rightarrow> cb_len b), ch_pending_len_len = 1, ch_pending_is_asn1 = True\<rparr>]\<rparr>"
proof -
  obtain ok1 c1 where f1: "CBB_flush malloc d c = (ok1, c1)" by fastforce
  obtain ok2 c2 where f2: "CBB_add_u8 malloc d (ucast tag) c1 = (ok2, c2)" by fastforce
  obtain ok3 c3 where f3: "CBB_add_u8 malloc d 0 c2 = (ok3, c3)" by fastforce
  have tag: "\<not> (0xff < tag \<or> tag AND 0x1f = 0x1f)"
  proof
    assume bad: "0xff < tag \<or> tag AND 0x1f = 0x1f"
    from r show False unfolding CBB_add_asn1_def if_P [OF bad] by (simp split: if_split_asm)
  qed
  show ?thesis
    using r f1 f2 f3 unfolding CBB_add_asn1_def Let_def if_not_P [OF tag] by (cases ok1; cases ok2; cases ok3) simp_all
qed

lemma asn1_refines:
  assumes m: "malloc_ok malloc" and inv: "cbb_inv c"
    and r: "CBB_add_asn1 malloc d tag c = Some (True, c')"
  shows "cbb_inv c' \<and> abs_of c' = abs_op (d, Op_asn1 tag) (abs_of c)"
proof -
  obtain c1 c2 c3 where fl: "CBB_flush malloc d c = (True, c1)"
    and u1: "CBB_add_u8 malloc d (ucast tag) c1 = (True, c2)" and u2: "CBB_add_u8 malloc d 0 c2 = (True, c3)"
    and c': "c' = c3\<lparr>cbb_children := cbb_children c3 @
       [\<lparr>ch_offset = (case cbb_base c2 of None \<Rightarrow> 0 | Some b \<Rightarrow> cb_len b), ch_pending_len_len = 1, ch_pending_is_asn1 = True\<rparr>]\<rparr>"
    using add_asn1_True [OF r] by (elim exE conjE)
  from flush_refines [OF m inv fl] have i1: "cbb_inv c1" and a1: "abs_of c1 = abs_flush d (abs_of c)" by blast+
  have "cbb_inv c2 \<and> abs_of c2 = abs_op (d, Op_u (ucast (ucast tag :: u8)) 1) (abs_of c1)"
    by (rule add_u_refines [OF m i1]) (use u1 in \<open>simp_all add: CBB_add_u8_def\<close>)
  then have i2: "cbb_inv c2" and a2: "abs_of c2 = abs_op (d, Op_u (ucast (ucast tag :: u8)) 1) (abs_of c1)" by blast+
  have "cbb_inv c3 \<and> abs_of c3 = abs_op (d, Op_u (ucast (0 :: u8)) 1) (abs_of c2)"
    by (rule add_u_refines [OF m i2]) (use u2 in \<open>simp_all add: CBB_add_u8_def\<close>)
  then have i3: "cbb_inv c3" and a3: "abs_of c3 = abs_op (d, Op_u (ucast (0 :: u8)) 1) (abs_of c2)" by blast+
  obtain bs chs where s1: "abs_of c1 = (bs, chs)" by fastforce
  then have idem: "abs_flush d (bs, chs) = (bs, chs)" using a1 abs_flush_idem by metis
  have dd: "take d chs = chs" "closed xs (drop d chs) = xs" for xs
  proof -
    show "take d chs = chs" using idem by simp
    then have "drop d chs = []" by (metis append_take_drop_id append_self_conv)
    then show "closed xs (drop d chs) = xs" by simp
  qed
  have "(word_of_nat (unat tag mod 256) :: u8) = ucast tag"
    by (rule word_eq_unatI) (simp add: unat_ucast_mod unat_of_nat)
  then have t: "be_bytes 1 (unat (ucast (ucast tag :: u8) :: u32)) = [ucast tag]"
    by (simp add: unat_ucast_mod)
  have z: "be_bytes 1 (unat (ucast (0 :: u8) :: u32)) = [0]" by simp
  have s2: "abs_of c2 = (bs @ [ucast tag], chs)" using a2 s1 idem t by simp
  have s3: "abs_of c3 = ((bs @ [ucast tag]) @ [0], chs)" using a3 s2 z dd by simp
  obtain b2 where b2: "cbb_base c2 = Some b2" and ok2: "chain_ok 0 (unat (cb_len b2)) chs"
    using cbb_inv_Some [OF i2] s2 by (auto simp: abs_of_def)
  have l2: "unat (cb_len b2) = Suc (length bs)" using inv_len [OF i2 b2] s2 by simp
  have new: "\<lparr>ch_offset = (case cbb_base c2 of None \<Rightarrow> 0 | Some b \<Rightarrow> cb_len b), ch_pending_len_len = 1,
      ch_pending_is_asn1 = True\<rparr> = pending (unat (cb_len b2)) 1 True"
    using b2 by (simp add: pending_def)
  note pc = push_child [OF i3 s3 _ _ ok2 _ _ new]
  show ?thesis unfolding c' using pc l2 s1 a1 [symmetric] new by simp
qed


lemma run_op_refines:
  assumes m: "malloc_ok malloc" and inv: "cbb_inv c" and ok: "op_ok x" and r: "run_op malloc x c = Some (True, c')"
  shows "cbb_inv c' \<and> abs_of c' = abs_op x (abs_of c)"
proof -
  obtain d p where x: "x = (d, p)" by fastforce
  show ?thesis
  proof (cases p)
    case (Op_bytes bs)
    then show ?thesis using add_bytes_refines [OF m inv] ok r x by simp
  next
    case (Op_u v n)
    then show ?thesis using add_u_refines [OF m inv] ok r x by simp
  next
    case (Op_prefixed k)
    then show ?thesis using prefixed_refines [OF m inv] ok r x by simp
  next
    case (Op_asn1 tag)
    then show ?thesis using asn1_refines [OF m inv] ok r x by simp
  next
    case Op_flush
    with r x have "CBB_flush malloc d c = (True, c')" by simp
    from flush_refines [OF m inv this] show ?thesis unfolding x Op_flush abs_op.simps by blast
  qed
qed

lemma run_ops_refines:
  assumes m: "malloc_ok malloc"
  shows "cbb_inv c \<Longrightarrow> list_all op_ok xs \<Longrightarrow> run_ops malloc xs c = Some (True, c') \<Longrightarrow>
    cbb_inv c' \<and> abs_of c' = abs_ops xs (abs_of c)"
proof (induction xs arbitrary: c)
  case (Cons x xs)
  then obtain c1 where r: "run_op malloc x c = Some (True, c1)" and rs: "run_ops malloc xs c1 = Some (True, c')"
    by (auto split: prod.splits option.splits)
  have "cbb_inv c1 \<and> abs_of c1 = abs_op x (abs_of c)"
    using run_op_refines [OF m Cons.prems(1) _ r] Cons.prems(2) by simp
  with Cons.IH [of c1] Cons.prems(2) rs show ?case by simp
qed simp

lemma CBB_init_inv:
  assumes m: "malloc_ok malloc" and r: "CBB_init malloc alloc n = (True, c)"
  shows "cbb_inv c \<and> abs_of c = ([], [])"
proof -
  have ok: "malloc n = Some blk \<Longrightarrow> length blk = unat n" for blk using m by (simp add: malloc_ok_def)
  show ?thesis
    using r by (auto simp: CBB_init_def cbb_init_def CBB_zero_def cbb_inv_def cbuf_ok_def abs_of_def
        cbytes_def word_gt_0 ok split: option.splits if_splits)
qed

lemma CBB_finish_refines:
  assumes m: "malloc_ok malloc" and inv: "cbb_inv c" and r: "CBB_finish malloc 0 want c = (Some (buf, len), c')"
  shows "take (unat len) buf = closed (fst (abs_of c)) (cbb_children c) \<and> unat len \<le> length buf \<and> cbb_base c' = None"
proof -
  obtain c1 b1 where fl: "CBB_flush malloc 0 c = (True, c1)" and b1: "cbb_base c1 = Some b1"
    and e: "buf = cb_buf b1" "len = cb_len b1" "c' = CBB_cleanup c1"
    using r by (auto simp: CBB_finish_def split: prod.splits bool.splits option.splits if_splits)
  from flush_refines [OF m inv fl] have i1: "cbb_inv c1" and a1: "abs_of c1 = abs_flush 0 (abs_of c)" by blast+
  obtain b where b: "cbb_base c = Some b" using cbb_inv_Some [OF inv] by blast
  have "cbytes b1 = closed (fst (abs_of c)) (cbb_children c)"
    using a1 abs_of_base [OF b1] abs_of_base [OF b] by simp
  moreover have "cbuf_ok b1" using cbb_inv_Some [OF i1] b1 by auto
  ultimately show ?thesis using e cbytes_room [of b1] by (simp add: cbytes_def CBB_cleanup_def)
qed

section \<open>Errors are sticky\<close>

definition errored :: "cbb \<Rightarrow> bool" where
  "errored c = (case cbb_base c of None \<Rightarrow> False | Some b \<Rightarrow> cb_error b)"

lemma errored_simp: "errored c \<longleftrightarrow> (\<exists>b. cbb_base c = Some b \<and> cb_error b)"
  by (auto simp: errored_def split: option.splits)

lemma flush_children_error: "cb_error b \<Longrightarrow> flush_children malloc b chs = (False, b, chs)"
  by (cases chs) simp_all

lemma flush_errored: "errored c \<Longrightarrow> CBB_flush malloc d c = (False, c)"
  by (auto simp: errored_simp CBB_flush_def flush_children_error)

lemma flush_children_False: "flush_children malloc b chs = (False, b', chs') \<Longrightarrow> cb_error b'"
  by (induction chs arbitrary: b b' chs')
    (auto simp: Let_def set_error_def be_store_eq split: prod.splits option.splits if_splits)

lemma flush_False:
  "CBB_flush malloc d c = (False, c') \<Longrightarrow> cbb_base c = Some b \<Longrightarrow> d \<le> length (cbb_children c) \<Longrightarrow> errored c'"
  by (auto simp: CBB_flush_def errored_simp split: prod.splits dest: flush_children_False)

lemma flush_True_live:
  "CBB_flush malloc d c = (True, c') \<Longrightarrow>
    (\<exists>b. cbb_base c' = Some b) \<and> d \<le> length (cbb_children c')"
  by (auto simp: CBB_flush_def split: option.splits prod.splits if_splits)

lemma buffer_add_None: "cbb_buffer_add malloc b n = (None, b') \<Longrightarrow> cb_error b'"
  by (auto simp: cbb_buffer_add_def cbb_buffer_reserve_def set_error_def Let_def
      split: prod.splits option.splits if_splits)

lemma buffer_add_u_False: "cbb_buffer_add_u malloc b v n = (False, b') \<Longrightarrow> cb_error b'"
  by (auto simp: cbb_buffer_add_u_def set_error_def Let_def be_store_eq
      split: prod.splits option.splits if_splits dest: buffer_add_None)

lemma flush_then_errored: "errored c \<Longrightarrow> flush_then malloc d opr c = (None, c)"
  by (simp add: flush_errored flush_then_def)

lemma flush_then_None:
  assumes r: "flush_then malloc d opr c = (None, c')" and b: "cbb_base c = Some b"
    and d: "d \<le> length (cbb_children c)" and opr: "\<And>b b'. opr b = (None, b') \<Longrightarrow> cb_error b'"
  shows "errored c'"
proof (cases "CBB_flush malloc d c")
  case (Pair ok c1)
  show ?thesis
  proof (cases ok)
    case True
    with flush_True_live [of malloc d c c1] Pair obtain b1 where b1: "cbb_base c1 = Some b1" by auto
    obtain b2 where "opr b1 = (None, b2)" "c' = c1\<lparr>cbb_base := Some b2\<rparr>"
      using r Pair True b1 by (auto simp: flush_then_def split: prod.splits)
    then show ?thesis using opr by (simp add: errored_simp)
  next
    case False
    with r Pair have "c' = c1" by (simp add: flush_then_def)
    with False Pair flush_False [of malloc d c c1 b] b d show ?thesis by simp
  qed
qed

lemma flush_then_live:
  "flush_then malloc d opr c = (Some r, c') \<Longrightarrow> (\<exists>b. cbb_base c' = Some b) \<and> d \<le> length (cbb_children c')"
  by (erule flush_then_Some) (auto dest: flush_True_live)

text \<open>Once the error is set every call returns 0 and changes nothing, unless it is undefined.\<close>

fun op_defined :: "nat \<times> cbb_op \<Rightarrow> cbb \<Rightarrow> bool" where
  "op_defined (d, Op_asn1 tag) c \<longleftrightarrow> \<not> (0xff < tag \<or> tag AND 0x1f = 0x1f) \<or> \<not> dead d c"
| "op_defined _ c \<longleftrightarrow> True"

lemma run_op_errored:
  assumes e: "errored c"
  shows "run_op malloc x c = (if op_defined x c then Some (False, c) else None)"
proof -
  obtain d p where x: "x = (d, p)" by fastforce
  obtain b where b: "cbb_base c = Some b" "cb_error b" using e by (auto simp: errored_simp)
  then have same: "c\<lparr>cbb_base := map_option set_error (cbb_base c)\<rparr> = c" by (simp add: set_error_def)
  show ?thesis
  proof (cases p)
    case (Op_asn1 tag)
    show ?thesis unfolding x Op_asn1 run_op.simps op_defined.simps CBB_add_asn1_def same by (simp add: flush_errored [OF e])
  qed (simp_all add: x flush_then_errored [OF e] flush_errored [OF e] CBB_add_bytes_def cbb_add_length_prefixed_def add_u_def)
qed

lemma unit_not_Some: "(r :: unit option) \<noteq> Some u \<longleftrightarrow> r = None"
  by (cases r) auto

lemma add_u_False:
  "add_u malloc d v n c = (False, c') \<Longrightarrow> cbb_base c = Some b \<Longrightarrow> d \<le> length (cbb_children c) \<Longrightarrow> errored c'"
  by (rule flush_then_None [of malloc d "\<lambda>b. case cbb_buffer_add_u malloc b v n of (ok, b) \<Rightarrow> (if ok then Some () else None, b)" c])
    (auto simp: add_u_def unit_not_Some split: prod.splits if_splits dest: buffer_add_u_False)

lemma add_u_live:
  "add_u malloc d v n c = (True, c') \<Longrightarrow> (\<exists>b. cbb_base c' = Some b) \<and> d \<le> length (cbb_children c')"
  by (auto simp: add_u_def split: prod.splits dest: flush_then_live)

lemma add_u8_False:
  "CBB_add_u8 malloc d v c = (False, c') \<Longrightarrow> (\<exists>b. cbb_base c = Some b) \<and> d \<le> length (cbb_children c) \<Longrightarrow> errored c'"
  using add_u_False [of malloc d "ucast v" 1 c c'] unfolding CBB_add_u8_def by blast

lemma add_u8_live:
  "CBB_add_u8 malloc d v c = (True, c') \<Longrightarrow> (\<exists>b. cbb_base c' = Some b) \<and> d \<le> length (cbb_children c')"
  unfolding CBB_add_u8_def by (rule add_u_live)

lemma add_asn1_False:
  assumes b: "cbb_base c = Some b" and d: "d \<le> length (cbb_children c)"
    and r: "CBB_add_asn1 malloc d tag c = Some (False, c')"
  shows "errored c'"
proof -
  obtain ok1 c1 where f1: "CBB_flush malloc d c = (ok1, c1)" by fastforce
  obtain ok2 c2 where f2: "CBB_add_u8 malloc d (ucast tag) c1 = (ok2, c2)" by fastforce
  obtain ok3 c3 where f3: "CBB_add_u8 malloc d 0 c2 = (ok3, c3)" by fastforce
  consider (tag) "0xff < tag \<or> tag AND 0x1f = 0x1f" | (flush) "\<not> (0xff < tag \<or> tag AND 0x1f = 0x1f)" "\<not> ok1"
    | (u1) "\<not> (0xff < tag \<or> tag AND 0x1f = 0x1f)" ok1 "\<not> ok2" | (u2) "\<not> (0xff < tag \<or> tag AND 0x1f = 0x1f)" ok1 ok2
    by blast
  then show ?thesis
  proof cases
    case tag
    from r have "c' = c\<lparr>cbb_base := map_option set_error (cbb_base c)\<rparr>"
      unfolding CBB_add_asn1_def if_P [OF tag] by (simp split: if_split_asm)
    then show ?thesis using b by (simp add: errored_simp set_error_def)
  next
    case flush
    then have "c' = c1" using r f1 unfolding CBB_add_asn1_def by (simp add: Let_def)
    then show ?thesis using flush_False [of malloc d c c1 b] f1 flush b d by simp
  next
    case u1
    then have "c' = c2" using r f1 f2 unfolding CBB_add_asn1_def by (simp add: Let_def)
    then show ?thesis using add_u8_False [of malloc d "ucast tag" c1 c2] flush_True_live [of malloc d c c1] f1 f2 u1
      by simp
  next
    case u2
    then have "\<not> ok3" "c' = c3" using r f1 f2 f3 unfolding CBB_add_asn1_def
      by (simp_all only: if_False prod.case bool.case Let_def, cases ok3; simp)+
    then show ?thesis using add_u8_False [of malloc d 0 c2 c3] add_u8_live [of malloc d "ucast tag" c1 c2] f2 f3 u2
      by simp
  qed
qed

lemma run_op_False:
  assumes b: "cbb_base c = Some b" and d: "d \<le> length (cbb_children c)"
    and r: "run_op malloc (d, p) c = Some (False, c')"
  shows "errored c'"
proof (cases p)
  case (Op_bytes bs)
  then have "flush_then malloc d (\<lambda>b. cbb_buffer_add malloc b (word_of_nat (length bs))) c = (None, c')"
    using r by (auto simp: CBB_add_bytes_def split: prod.splits option.splits)
  from flush_then_None [OF this b d] show ?thesis by (auto dest: buffer_add_None)
next
  case (Op_prefixed k)
  then have "flush_then malloc d (\<lambda>b. cbb_buffer_add malloc b (ucast k)) c = (None, c')"
    using r by (auto simp: cbb_add_length_prefixed_def split: prod.splits option.splits)
  from flush_then_None [OF this b d] show ?thesis by (auto dest: buffer_add_None)
qed (use r b d in \<open>auto dest: flush_False add_u_False add_asn1_False\<close>)

lemma run_ops_errored:
  "errored c \<Longrightarrow> run_ops malloc xs c = (if list_all (\<lambda>x. op_defined x c) xs then Some (xs = [], c) else None)"
  by (induction xs) (simp_all add: run_op_errored)

section \<open>Properties\<close>

text \<open>C5: a whole build, from \<open>CBB_init\<close> through any script of calls that all return 1 (bytes,
  big-endian integers, length-prefixed children, ASN.1 children, flushes, on any CBB of the chain)
  to \<open>CBB_finish\<close>, yields exactly the bytes the abstract builder computes, and the length returned
  lies inside the allocation.\<close>

theorem cbb_build_refines:
  assumes "malloc_ok malloc" and "CBB_init malloc alloc cap = (True, c0)"
    and "list_all op_ok xs" and "run_ops malloc xs c0 = Some (True, c1)"
    and "CBB_finish malloc 0 want c1 = (Some (buf, len), c2)"
  shows "take (unat len) buf = fst (abs_flush 0 (abs_ops xs ([], []))) \<and> unat len \<le> length buf \<and>
    cbb_base c2 = None"
proof -
  have i: "cbb_inv c0 \<and> abs_of c0 = ([], [])" by (rule CBB_init_inv [OF assms(1,2)])
  have r: "cbb_inv c1 \<and> abs_of c1 = abs_ops xs ([], [])"
    using run_ops_refines [OF assms(1) _ assms(3,4)] i by simp
  obtain b where "cbb_base c1 = Some b" using cbb_inv_Some r by blast
  then have s: "abs_ops xs ([], []) = (cbytes b, cbb_children c1)" using r abs_of_base by metis
  then have "fst (abs_of c1) = cbytes b" using r by simp
  then show ?thesis using CBB_finish_refines [OF assms(1) _ assms(5)] r s by simp
qed

lemma cbb_build_refines_witness:
  "let m = \<lambda>n. Some (replicate (unat n) 0);
       r = the (run_ops m [(0, Op_u 0x30 1), (0, Op_prefixed 2), (1, Op_bytes [7, 8])] (snd (CBB_init m True 4)));
       f = fst (CBB_finish m 0 True (snd r))
   in take (unat (snd (the f))) (fst (the f)) = [0x30, 0, 2, 7, 8]"
proof -
  let ?m = "\<lambda>n. Some (replicate (unat n) 0)"
  let ?xs = "[(0, Op_u 0x30 1), (0, Op_prefixed 2), (1, Op_bytes [7, 8])]"
  let ?r = "the (run_ops ?m ?xs (snd (CBB_init ?m True 4)))"
  have "malloc_ok ?m" by (simp add: malloc_ok_def)
  moreover have "CBB_init ?m True 4 = (True, snd (CBB_init ?m True 4))" by code_simp
  moreover have "list_all op_ok ?xs" by simp
  moreover have "run_ops ?m ?xs (snd (CBB_init ?m True 4)) = Some (True, snd ?r)" by code_simp
  moreover have "CBB_finish ?m 0 True (snd ?r) =
      (Some (the (fst (CBB_finish ?m 0 True (snd ?r)))), snd (CBB_finish ?m 0 True (snd ?r)))" by code_simp
  ultimately have "take (unat (snd (the (fst (CBB_finish ?m 0 True (snd ?r)))))) (fst (the (fst (CBB_finish ?m 0 True (snd ?r)))))
      = fst (abs_flush 0 (abs_ops ?xs ([], [])))"
    using cbb_build_refines [of ?m True 4 "snd (CBB_init ?m True 4)" ?xs "snd ?r" True
       "fst (the (fst (CBB_finish ?m 0 True (snd ?r))))" "snd (the (fst (CBB_finish ?m 0 True (snd ?r))))"]
    by simp
  moreover have "fst (abs_flush 0 (abs_ops ?xs ([], []))) = [0x30, 0, 2, 7, 8]" by code_simp
  ultimately show ?thesis by (simp add: Let_def)
qed


text \<open>C8: a call that returns 0 on a live CBB poisons the build for good: every later call (of the kinds in
  \<open>cbb_op\<close>, on any handle) returns 0 and changes nothing, and \<open>CBB_finish\<close> returns no result. The later
  script goes on after calls that fail. The only exception is a call that is undefined: \<open>CBB_add_asn1\<close> with an
  unsupported tag on a dead handle dereferences NULL, so a script with such a call has no result.\<close>

theorem cbb_error_sticky:
  assumes "cbb_base c = Some b" and "d \<le> length (cbb_children c)"
    and "run_op malloc (d, p) c = Some (False, c')"
  shows "run_ops malloc xs c' = (if list_all (\<lambda>x. op_defined x c') xs then Some (xs = [], c') else None) \<and>
    fst (CBB_finish malloc 0 want c') = None"
proof -
  have e: "errored c'" by (rule run_op_False [OF assms])
  show ?thesis using run_ops_errored [OF e] flush_errored [OF e] by (simp add: CBB_finish_def)
qed

lemma cbb_error_sticky_witness:
  "let m = (\<lambda>n. None); c = snd (CBB_init_fixed True [0, 0] 2); c' = snd (the (run_op m (0, Op_bytes [1, 2, 3]) c)) in
   run_op m (0, Op_bytes [1, 2, 3]) c = Some (False, c') \<and>
   run_ops m [(0, Op_bytes [5]), (1, Op_asn1 0x30), (0, Op_asn1 0x1f)] c' = Some (False, c') \<and>
   run_ops m [(0, Op_bytes [5]), (1, Op_asn1 0x1f)] c' = None \<and>
   fst (CBB_finish m 0 True c') = None"
proof -
  let ?m = "\<lambda>n :: size_t. None :: u8 list option"
  let ?c = "snd (CBB_init_fixed True [0, 0] 2)"
  let ?c' = "snd (the (run_op ?m (0, Op_bytes [1, 2, 3]) ?c))"
  have b: "cbb_base ?c = Some \<lparr>cb_buf = [0, 0], cb_len = 0, cb_cap = 2, cb_can_resize = False, cb_error = False\<rparr>"
    by code_simp
  have d: "0 \<le> length (cbb_children ?c)" by simp
  have r: "run_op ?m (0, Op_bytes [1, 2, 3]) ?c = Some (False, ?c')" by code_simp
  note s = cbb_error_sticky [OF b d r]
  have "list_all (\<lambda>x. op_defined x ?c') [(0, Op_bytes [5]), (1, Op_asn1 0x30), (0, Op_asn1 0x1f)]"
    "\<not> list_all (\<lambda>x. op_defined x ?c') [(0, Op_bytes [5]), (1, Op_asn1 0x1f)]" by code_simp+
  then show ?thesis unfolding Let_def
    using r s [of "[(0, Op_bytes [5]), (1, Op_asn1 0x30), (0, Op_asn1 0x1f)]" True] s [of "[(0, Op_bytes [5]), (1, Op_asn1 0x1f)]" True]
    by (intro conjI) (simp_all only: if_True if_False list.distinct)
qed

end
