(* ===== verification/Der_Uint.thy ===== *)
theory Der_Uint
  imports Der_Spec
begin

text \<open>
  DER unsigned integers: what \<open>CBS_get_asn1_uint64\<close> accepts and returns, the optional elements
  built on it, and what happens with the NULL out-parameters that bytestring.h allows.
\<close>

definition der_uint :: "u8 list \<Rightarrow> nat \<Rightarrow> bool" where
  "der_uint bs n \<longleftrightarrow> bs \<noteq> [] \<and> unat (hd bs) < 128 \<and>
     \<not> (hd bs = 0 \<and> 1 < length bs \<and> unat (bs ! 1) < 128) \<and> be_val bs = n"

lemma uint64_loop_value:
  "asn1_uint64_loop out bs =
    (if unat out * 256 ^ length bs + be_val bs < 2 ^ 64 then Some (word_of_nat (unat out * 256 ^ length bs + be_val bs))
     else None)"
proof (induction bs arbitrary: out)
  case Nil
  then show ?case using unat_less_two_power [of out] by simp
next
  case (Cons b bs)
  show ?case
  proof (cases "drop_bit 56 out = 0")
    case False
    then have "unat (drop_bit 56 out) \<noteq> 0" by (simp only: unat_eq_zero) simp
    then have "2 ^ 56 \<le> unat out" by (simp only: unat_drop_bit_div div_eq_0_iff) simp
    then have "2 ^ 56 * 256 ^ Suc (length bs) \<le> unat out * 256 ^ Suc (length bs)" by (rule mult_right_mono) simp
    moreover have "(2 :: nat) ^ 64 \<le> 2 ^ 56 * 256 ^ Suc (length bs)" by simp
    ultimately have "2 ^ 64 \<le> unat out * 256 ^ Suc (length bs)" by linarith
    then have "\<not> unat out * 256 ^ length (b # bs) + be_val (b # bs) < 2 ^ 64" by simp
    with False show ?thesis by simp
  next
    case True
    then have "unat (drop_bit 56 out) = 0" by (simp only: unat_eq_zero)
    then have "unat out < 2 ^ 56" by (simp only: unat_drop_bit_div div_eq_0_iff) simp
    then have "unat (push_bit 8 out OR ucast b) = unat out * 256 + unat b"
      by (intro unat_push8_or) simp_all
    then show ?thesis using True Cons.IH [of "push_bit 8 out OR ucast b"]
      by (simp add: algebra_simps)
  qed
qed

lemma CBS_get_asn1_Some:
  assumes ok: "cbs_ok c" and r: "CBS_get_asn1 c tg = (Some out, c')"
  shows "\<exists>t rest. cbs_bytes c = t # der_len (length (cbs_bytes out)) @ cbs_bytes out @ rest \<and> ucast t = tg \<and>
      t AND 0x1f \<noteq> 0x1f \<and> length (cbs_bytes out) < 2 ^ 32 \<and> cbs_ok out \<and>
      c' = cbs_adv (2 + der_len_bytes (length (cbs_bytes out)) + length (cbs_bytes out)) c"
proof -
  from r obtain t contents rest where b: "cbs_bytes c = t # der_len (length contents) @ contents @ rest"
    and t: "tg = ucast t" "t AND 0x1f \<noteq> 0x1f" "length contents < 2 ^ 32"
    and out: "out = cbs_adv (2 + der_len_bytes (length contents))
       (CBS_init (cbs_data c) (2 + der_len_bytes (length contents) + length contents))"
    and c': "c' = cbs_adv (2 + der_len_bytes (length contents) + length contents) c"
    unfolding CBS_get_asn1_iff [OF ok] by blast
  have len: "cbs_len out = length contents" by (simp add: out)
  obtain t2 rest2 where b2: "cbs_bytes c = t2 # der_len (cbs_len out) @ cbs_bytes out @ rest2"
    using CBS_get_asn1_contents(1) [OF ok r] by blast
  have ok2: "cbs_ok out" and l2: "length (cbs_bytes out) = length contents"
    using CBS_get_asn1_contents(2,4) [OF ok r] len by simp_all
  have "cbs_bytes out = contents" using b b2 l2 len by simp
  with b t c' ok2 show ?thesis by auto
qed

lemma CBS_get_asn1_accepts:
  assumes ok: "cbs_ok c" and b: "cbs_bytes c = t # der_len (length bs) @ bs @ rest"
    and t: "t AND 0x1f \<noteq> 0x1f" "length bs < 2 ^ 32"
  shows "\<exists>out. CBS_get_asn1 c (ucast t) = (Some out, cbs_adv (2 + der_len_bytes (length bs) + length bs) c) \<and>
    cbs_bytes out = bs \<and> cbs_ok out"
proof -
  let ?out = "cbs_adv (2 + der_len_bytes (length bs)) (CBS_init (cbs_data c) (2 + der_len_bytes (length bs) + length bs))"
  have r: "CBS_get_asn1 c (ucast t) = (Some ?out, cbs_adv (2 + der_len_bytes (length bs) + length bs) c)"
    unfolding CBS_get_asn1_iff [OF ok] using b t by blast
  have "cbs_len ?out = length bs" by simp
  moreover obtain t2 rest2 where "cbs_bytes c = t2 # der_len (cbs_len ?out) @ cbs_bytes ?out @ rest2"
    using CBS_get_asn1_contents(1) [OF ok r] by blast
  ultimately have "cbs_bytes ?out = bs" using CBS_get_asn1_contents(4) [OF ok r] b by simp
  then show ?thesis using r CBS_get_asn1_contents(2) [OF ok r] by blast
qed

lemma uint64_contents:
  assumes r: "CBS_get_asn1 c CBS_ASN1_INTEGER = (Some out, c')" and ok: "cbs_ok out"
  shows "CBS_get_asn1_uint64 c = (Some v, c'') \<longleftrightarrow> der_uint (cbs_bytes out) (unat v) \<and> c'' = c'"
proof -
  let ?bs = "cbs_bytes out"
  have l: "length ?bs = cbs_len out" using ok by simp
  have tk: "take (cbs_len out) (cbs_data out) = ?bs" by (simp add: cbs_bytes_def)
  have v: "asn1_uint64_loop 0 ?bs = Some v \<longleftrightarrow> be_val ?bs = unat v"
    using unat_less_two_power [of v] by (auto simp: uint64_loop_value unat_of_nat)
  show ?thesis
  proof (cases "?bs")
    case Nil
    then show ?thesis using r l by (simp add: CBS_get_asn1_uint64_def CBS_len_def der_uint_def Let_def)
  next
    case (Cons b bs)
    then have p0: "cbs_data out ! 0 = b" using l cbs_data_nth [of 0 out] by simp
    have p1: "cbs_data out ! 1 = ?bs ! 1" if "1 < cbs_len out" using that by (rule cbs_data_nth)
    have len: "cbs_len out = Suc (length bs)" using l Cons by simp
    show ?thesis using r v tk p0 p1 Cons len
      by (auto simp: CBS_get_asn1_uint64_def CBS_len_def CBS_data_def der_uint_def Let_def bit7_iff
          split: if_splits)
  qed
qed

text \<open>C10: \<open>CBS_get_asn1_uint64\<close> accepts exactly the minimal DER encodings of the non-negative
  integers below \<open>2^64\<close> (tag INTEGER, the DER length, at least one contents byte, no sign bit, no
  superfluous leading zero), returns that integer and stands behind the element.\<close>

theorem get_asn1_uint64_der:
  assumes ok: "cbs_ok c"
  shows "CBS_get_asn1_uint64 c = (Some v, c') \<longleftrightarrow>
    (\<exists>bs rest. cbs_bytes c = 2 # der_len (length bs) @ bs @ rest \<and> length bs < 2 ^ 32 \<and> der_uint bs (unat v) \<and>
       c' = cbs_adv (2 + der_len_bytes (length bs) + length bs) c)" (is "?L \<longleftrightarrow> ?R")
proof
  assume L: ?L
  then obtain out where r: "CBS_get_asn1 c CBS_ASN1_INTEGER = (Some out, c')"
    by (auto simp: CBS_get_asn1_uint64_def Let_def split: prod.splits option.splits if_splits)
  from CBS_get_asn1_Some [OF ok r] obtain t rest
    where b: "cbs_bytes c = t # der_len (length (cbs_bytes out)) @ cbs_bytes out @ rest"
    and t: "(ucast t :: u32) = CBS_ASN1_INTEGER" and n: "length (cbs_bytes out) < 2 ^ 32" and o: "cbs_ok out"
    and c': "c' = cbs_adv (2 + der_len_bytes (length (cbs_bytes out)) + length (cbs_bytes out)) c" by blast
  have "t = 2"
    using arg_cong [OF t, of unat] by (intro word_eq_unatI) (simp add: CBS_ASN1_INTEGER_def unat_ucast_u8_u32)
  moreover have "der_uint (cbs_bytes out) (unat v)" by (rule uint64_contents [OF r o, THEN iffD1, OF L, THEN conjunct1])
  ultimately show ?R using b n c' by blast
next
  assume ?R
  then obtain bs rest where b: "cbs_bytes c = 2 # der_len (length bs) @ bs @ rest" and n: "length bs < 2 ^ 32"
    and d: "der_uint bs (unat v)" and c': "c' = cbs_adv (2 + der_len_bytes (length bs) + length bs) c" by blast
  have t: "(2 :: u8) AND 0x1f \<noteq> 0x1f" by simp
  from CBS_get_asn1_accepts [OF ok b t n] obtain out
    where r: "CBS_get_asn1 c CBS_ASN1_INTEGER = (Some out, c')" and o: "cbs_bytes out = bs" "cbs_ok out"
    using c' by (auto simp: CBS_ASN1_INTEGER_def)
  show ?L by (rule uint64_contents [OF r o(2), THEN iffD2]) (use o(1) d in simp)
qed

lemma get_asn1_uint64_der_witness:
  "CBS_get_asn1_uint64 (CBS_init [2, 2, 0, 0x80, 9] 5) = (Some 128, cbs_adv 4 (CBS_init [2, 2, 0, 0x80, 9] 5))"
proof -
  let ?c = "CBS_init [2, 2, 0, 0x80, 9] 5"
  have ok: "cbs_ok ?c" by (simp add: cbs_ok_def CBS_init_def)
  have "cbs_bytes ?c = 2 # der_len (length [0, 0x80]) @ [0, 0x80] @ [9] \<and> length [0, 0x80 :: u8] < 2 ^ 32 \<and>
      der_uint [0, 0x80] (unat (128 :: u64)) \<and>
      cbs_adv 4 ?c = cbs_adv (2 + der_len_bytes (length [0, 0x80 :: u8]) + length [0, 0x80 :: u8]) ?c"
    by (simp add: cbs_bytes_def CBS_init_def der_len_def der_len_bytes_def der_uint_def)
  then show ?thesis using get_asn1_uint64_der [OF ok, THEN iffD2] by blast
qed


text \<open>C28: bytestring.h allows the out-parameter of \<open>CBS_get_any_asn1\<close> to be NULL, but the code
  then skips the header of the element through that NULL pointer: whenever there is an element to
  read, the call with a NULL \<open>out\<close> dereferences it.\<close>

theorem get_any_asn1_null_out:
  assumes "cbs_ok c" and "cbs_bytes c = t # der_len (length bs) @ bs @ rest"
    and "t AND 0x1f \<noteq> 0x1f" and "length bs < 2 ^ 32"
  shows "CBS_get_any_asn1 c True = Null_deref"
proof -
  have "der_header (cbs_bytes c) = Some (t, 2 + der_len_bytes (length bs), length bs)"
    using assms by (auto simp: der_header_iff)
  moreover have "2 + der_len_bytes (length bs) + length bs \<le> cbs_len c"
    using length_cbs_bytes [OF assms(1)] assms(2) by (simp add: length_der_len)
  ultimately show ?thesis
    by (simp add: CBS_get_any_asn1_def any_asn1_element_eq [OF assms(1)])
qed

lemma get_any_asn1_null_out_witness: "CBS_get_any_asn1 (CBS_init [4, 1, 9] 3) True = Null_deref"
  by (rule get_any_asn1_null_out [of _ 4 "[9]" "[]"])
    (simp_all add: cbs_ok_def cbs_bytes_def CBS_init_def der_len_def)

end
