(* ===== verification/Cbb_Roundtrip.thy ===== *)
theory Cbb_Roundtrip
  imports Cbb_Ops Der_Uint
begin

text \<open>
  Nested length prefixes, when a flush succeeds, and reading builds back with the CBS parser.
\<close>

section \<open>Nested children\<close>

text \<open>A chain of children by what was written to each: whether it is ASN.1, the number of length
  bytes, and the bytes written to it before its own child was opened.\<close>

type_synonym frame = "bool \<times> nat \<times> u8 list"

fun frames_at :: "nat \<Rightarrow> frame list \<Rightarrow> cbb_child list" where
  "frames_at off [] = []"
| "frames_at off ((a, k, seg) # fs) = pending off (word_of_nat k) a # frames_at (off + k + length seg) fs"

fun open_bytes :: "frame list \<Rightarrow> u8 list" where
  "open_bytes [] = []"
| "open_bytes ((a, k, seg) # fs) = replicate k 0 @ seg @ open_bytes fs"

fun closed_bytes :: "frame list \<Rightarrow> u8 list" where
  "closed_bytes [] = []"
| "closed_bytes ((a, k, seg) # fs) =
     (let body = seg @ closed_bytes fs in length_header a k (length body) @ body)"

fun frame_ok :: "frame \<Rightarrow> bool" where
  "frame_ok (a, k, seg) \<longleftrightarrow> 0 < k \<and> k < 256 \<and> (a \<longrightarrow> k = 1)"

lemma closed_frames:
  "length pre + length (open_bytes fs) < 2 ^ 64 \<Longrightarrow> list_all frame_ok fs \<Longrightarrow>
    closed (pre @ open_bytes fs) (frames_at (length pre) fs) = pre @ closed_bytes fs"
proof (induction fs arbitrary: pre)
  case (Cons f fs)
  obtain a k seg where f: "f = (a, k, seg)" by (cases f)
  let ?pre = "pre @ replicate k 0 @ seg"
  have k: "k < 256" using Cons.prems(2) f by simp
  have IH: "closed (?pre @ open_bytes fs) (frames_at (length ?pre) fs) = ?pre @ closed_bytes fs"
    by (rule Cons.IH) (use Cons.prems f in auto)
  have off: "unat (word_of_nat (length pre) :: size_t) = length pre"
    using Cons.prems(1) by (simp add: unat_of_nat)
  have "unat (word_of_nat k :: u8) = k" using k by simp
  with off IH show ?case by (simp add: f pending_def Let_def add.assoc)
qed simp

text \<open>C6: flushing a chain of nested children replaces every placeholder by the length of
  everything inside that child (the DER length encoding for an ASN.1 child, \<open>k\<close> big-endian bytes for
  a length prefix of \<open>k\<close> bytes), inner lengths before outer ones, and leaves the bytes before the
  chain and all contents unchanged.\<close>

theorem cbb_flush_nested:
  assumes "malloc_ok malloc" and "cbb_inv c" and "CBB_flush malloc d c = (True, c')"
    and "abs_of c = (pre @ open_bytes fs, chs @ frames_at (length pre) fs)" and "length chs = d"
    and "list_all frame_ok fs"
  shows "abs_of c' = (pre @ closed_bytes fs, chs) \<and> cbb_inv c'"
proof -
  obtain b where b: "cbb_base c = Some b" using cbb_inv_Some [OF assms(2)] by blast
  have "length (fst (abs_of c)) = unat (cb_len b)" by (rule inv_len [OF assms(2) b])
  then have "length pre + length (open_bytes fs) < 2 ^ 64"
    using unat_less_two_power [of "cb_len b"] assms(4) by simp
  from closed_frames [OF this assms(6)] flush_refines [OF assms(1-3)] assms(4,5)
  show ?thesis by (metis abs_flush.simps append_eq_conv_conj)
qed

lemma cbb_flush_nested_witness:
  "let m = zero_malloc; c = snd (the (run_ops m [(0, Op_u 0x16 1), (0, Op_prefixed 2), (1, Op_bytes [1]), (1, Op_asn1 0x30), (2, Op_bytes [5, 6])]
                 (snd (CBB_init m True 4))))
   in abs_of (snd (CBB_flush m 0 c)) = ([0x16, 0, 5, 1, 0x30, 2, 5, 6], [])"
proof -
  let ?m = zero_malloc
  let ?xs = "[(0, Op_u 0x16 1), (0, Op_prefixed 2), (1, Op_bytes [1]), (1, Op_asn1 0x30), (2, Op_bytes [5, 6])]"
  let ?start = "snd (CBB_init ?m True 4)"
  let ?c = "snd (the (run_ops ?m ?xs ?start))"
  let ?fs = "[(False, 2, [1, 0x30]), (True, 1, [5, 6])]"
  have m: "malloc_ok ?m" by (rule zero_malloc_ok)
  have i0: "CBB_init ?m True 4 = (True, ?start)"
    by code_simp
  have r: "run_ops ?m ?xs ?start = Some (True, ?c)" by code_simp
  have ops: "list_all op_ok ?xs" by simp
  have inv: "cbb_inv ?c"
    by (rule run_ops_refines [OF m CBB_init_inv [OF m i0, THEN conjunct1] ops r, THEN conjunct1])
  have fl: "CBB_flush ?m 0 ?c = (True, snd (CBB_flush ?m 0 ?c))" by code_simp
  have a: "abs_of ?c = ([0x16] @ open_bytes ?fs, [] @ frames_at (length [0x16 :: u8]) ?fs)" by code_simp
  have "list_all frame_ok ?fs" by simp
  from cbb_flush_nested [OF m inv fl a _ this]
  have "abs_of (snd (CBB_flush ?m 0 ?c)) = ([0x16] @ closed_bytes ?fs, [])" by simp
  moreover have "[0x16] @ closed_bytes ?fs = [0x16, 0, 5, 1, 0x30, 2, 5, 6]" by code_simp
  ultimately show ?thesis unfolding Let_def by metis
qed

text \<open>C7: on a growing buffer that is not poisoned, with an allocator that does not fail and
  below the end of the address space, a flush returns 1 if and only if every length fits into its
  placeholder (\<open>256^k\<close> for a prefix of \<open>k\<close> bytes, \<open>0xfffffffe\<close> for an ASN.1 child).\<close>

theorem cbb_flush_succeeds_iff:
  assumes "malloc_ok malloc" and "malloc_total malloc" and "cbb_inv c" and "cbb_base c = Some b"
    and "\<not> cb_error b" and "cb_can_resize b" and "d \<le> length (cbb_children c)"
    and "unat (cb_len b) + 4 * length (cbb_children c) < 2 ^ 64"
  shows "fst (CBB_flush malloc d c) = lengths_fit (cbytes b) (drop d (cbb_children c))"
proof -
  have ok: "cbuf_ok b" "chain_ok 0 (unat (cb_len b)) (cbb_children c)"
    using cbb_inv_Some [OF assms(3)] assms(4) by auto
  obtain lo where lo: "chain_ok lo (unat (cb_len b)) (drop d (cbb_children c))"
    using chain_ok_drop [OF ok(2)] by blast
  have e: "fst (CBB_flush malloc d c) = fst (flush_children malloc b (drop d (cbb_children c)))"
    using assms(4,7) by (simp add: CBB_flush_def split_beta)
  have "unat (cb_len b) + 4 * length (drop d (cbb_children c)) < 2 ^ 64"
  proof -
    have "length (drop d (cbb_children c)) \<le> length (cbb_children c)" by simp
    then show ?thesis using assms(8) by linarith
  qed
  note c = flush_children_complete [OF assms(1,2) ok(1) lo assms(5,6) this]
  show ?thesis
  proof (cases "fst (flush_children malloc b (drop d (cbb_children c)))")
    case True
    then have "flush_children malloc b (drop d (cbb_children c)) =
      (True, snd (flush_children malloc b (drop d (cbb_children c))))" by (metis prod.collapse)
    then obtain b' chs' where "flush_children malloc b (drop d (cbb_children c)) = (True, b', chs')"
      by (metis prod.collapse)
    from flush_children_closed [OF assms(1) ok(1) lo this] True e show ?thesis by simp
  next
    case False
    then show ?thesis using c e by auto
  qed
qed

lemma cbb_flush_succeeds_iff_witness:
  "let m = zero_malloc; c = snd (the (run_ops m [(0, Op_asn1 0x30), (1, Op_bytes [5, 6])] (snd (CBB_init m True 4))))
   in fst (CBB_flush m 0 c)"
proof -
  let ?m = zero_malloc
  let ?xs = "[(0, Op_asn1 0x30), (1, Op_bytes [5, 6])]"
  let ?start = "snd (CBB_init ?m True 4)"
  let ?c = "snd (the (run_ops ?m ?xs ?start))"
  let ?b = "the (cbb_base ?c)"
  have m: "malloc_ok ?m" "malloc_total ?m" by (simp_all add: zero_malloc_ok malloc_total_def zero_malloc_def)
  have i0: "CBB_init ?m True 4 = (True, ?start)"
    by code_simp
  have r: "run_ops ?m ?xs ?start = Some (True, ?c)" by code_simp
  have ops: "list_all op_ok ?xs" by simp
  have inv: "cbb_inv ?c"
    by (rule run_ops_refines [OF m(1) CBB_init_inv [OF m(1) i0, THEN conjunct1] ops r, THEN conjunct1])
  have b: "cbb_base ?c = Some ?b" by code_simp
  have e: "\<not> cb_error ?b" by code_simp
  have s: "cb_can_resize ?b" by code_simp
  have z: "(0 :: nat) \<le> length (cbb_children ?c)" by simp
  have n: "unat (cb_len ?b) + 4 * length (cbb_children ?c) = 8" by code_simp
  have f: "lengths_fit (cbytes ?b) (drop 0 (cbb_children ?c))"
  proof -
    have "cbytes ?b = [0x30, 0, 5, 6]" by code_simp
    moreover have "drop 0 (cbb_children ?c) = [pending 1 1 True]" by code_simp
    ultimately show ?thesis by (simp only:) (simp add: pending_def header_fits_def)
  qed
  have l: "unat (cb_len ?b) + 4 * length (cbb_children ?c) < 2 ^ 64" unfolding n by simp
  have "fst (CBB_flush ?m 0 ?c)"
    unfolding cbb_flush_succeeds_iff [OF m inv b e s z l] by (rule f)
  then show ?thesis unfolding Let_def .
qed


section \<open>Reading a build back\<close>

lemma and_1F: "unat ((x :: 'a::len word) AND 0x1f) = unat x mod 32" if "5 \<le> LENGTH('a)"
proof -
  have "(0x1f :: 'a word) = mask 5" by (simp add: mask_eq_exp_minus_1)
  then have "x AND 0x1f = take_bit 5 x" by (simp only: word_and_mask_take_bit)
  then show ?thesis by (simp add: unat_take_bit_mod)
qed

lemma tag_byte:
  assumes "\<not> (0xff < tag \<or> tag AND 0x1f = 0x1f)"
  shows "(ucast (ucast (tag :: u32) :: u8) :: u32) = tag" and "(ucast tag :: u8) AND 0x1f \<noteq> 0x1f"
proof -
  have le: "unat tag < 256" using assms by (simp add: word_less_nat_alt)
  then have u: "unat (ucast tag :: u8) = unat tag" by (simp add: unat_ucast_mod)
  then show "(ucast (ucast (tag :: u32) :: u8) :: u32) = tag"
    by (intro word_eq_unatI) (simp only: unat_ucast_u8_u32)
  show "(ucast tag :: u8) AND 0x1f \<noteq> 0x1f"
  proof
    assume "(ucast tag :: u8) AND 0x1f = 0x1f"
    then have "unat ((ucast tag :: u8) AND 0x1f) = 31" by simp
    then have "unat tag mod 32 = 31" using and_1F [of "ucast tag :: u8"] u by simp
    then have "unat (tag AND 0x1f) = unat (0x1f :: u32)" using and_1F [of tag] by simp
    then have "tag AND 0x1f = 0x1f" by (rule word_eq_unatI)
    then show False using assms by simp
  qed
qed

text \<open>The finished bytes as a CBS.\<close>

lemma finished_cbs:
  assumes "take (unat len) buf = xs" and "unat len \<le> length buf"
  shows "cbs_ok (CBS_init buf (unat len))" and "cbs_bytes (CBS_init buf (unat len)) = xs"
    and "cbs_len (CBS_init buf (unat len)) = length xs"
  using assms by (auto simp: cbs_ok_def CBS_init_def cbs_bytes_def)

lemma finish_one_asn1:
  assumes m: "malloc_ok malloc" and inv: "cbb_inv c" and a: "abs_of c = (t # 0 # body, [pending 1 1 True])"
    and r: "CBB_finish malloc 0 want c = (Some (buf, len), c')"
  shows "take (unat len) buf = t # der_len (length body) @ body" and "unat len \<le> length buf"
    and "length body \<le> 0xfffffffe"
proof -
  obtain b where b: "cbb_base c = Some b" and ok: "cbuf_ok b" using cbb_inv_Some [OF inv] by blast
  have ch: "cbb_children c = [pending 1 1 True]" and bb: "cbytes b = t # 0 # body"
    using a abs_of_base [OF b] by simp_all
  have p: "ch_start (pending 1 1 True) = 2" "unat (ch_offset (pending 1 1 True)) = 1"
    "ch_pending_is_asn1 (pending 1 1 True)" by (simp_all add: pending_def)
  show "take (unat len) buf = t # der_len (length body) @ body" "unat len \<le> length buf"
    using CBB_finish_refines [OF m inv r] a ch p by (simp_all add: Let_def length_header_def)
  obtain c1 where fl: "CBB_flush malloc 0 c = (True, c1)"
    using r by (auto simp: CBB_finish_def split: prod.splits bool.splits)
  then obtain b' chs' where f: "flush_children malloc b (cbb_children c) = (True, b', chs')"
    using b by (auto simp: CBB_flush_def split: prod.splits)
  have "chain_ok 0 (unat (cb_len b)) (cbb_children c)" using cbb_inv_Some [OF inv] b by auto
  from flush_children_closed [OF m ok this f] ch bb p
  show "length body \<le> 0xfffffffe" by (simp add: header_fits_def)
qed

text \<open>C11: an ASN.1 element built with \<open>CBB_add_asn1\<close> and \<open>CBB_add_bytes\<close> is read back by
  \<open>CBS_get_asn1\<close> with the same tag: the contents are the bytes added and nothing is left.\<close>

theorem cbb_asn1_roundtrip:
  assumes "malloc_ok malloc" and "CBB_init malloc alloc cap = (True, c0)"
    and "CBB_add_asn1 malloc 0 tag c0 = Some (True, c1)" and "CBB_add_bytes malloc 1 body c1 = (True, c2)"
    and "length body < 2 ^ 64" and "CBB_finish malloc 0 want c2 = (Some (buf, len), c3)"
  shows "\<exists>out rest. CBS_get_asn1 (CBS_init buf (unat len)) tag = (Some out, rest) \<and>
    cbs_bytes out = body \<and> cbs_len rest = 0"
proof -
  have i0: "cbb_inv c0" "abs_of c0 = ([], [])" using CBB_init_inv [OF assms(1,2)] by auto
  have i1: "cbb_inv c1" "abs_of c1 = abs_op (0, Op_asn1 tag) (abs_of c0)"
    using asn1_refines [OF assms(1) i0(1) assms(3)] by auto
  have i2: "cbb_inv c2" "abs_of c2 = abs_op (1, Op_bytes body) (abs_of c1)"
    using add_bytes_refines [OF assms(1) i1(1) assms(5,4)] by auto
  have "abs_of c2 = (ucast tag # 0 # body, [pending 1 1 True])" using i0(2) i1(2) i2(2) by simp
  note f = finish_one_asn1 [OF assms(1) i2(1) this assms(6)]
  have tag: "\<not> (0xff < tag \<or> tag AND 0x1f = 0x1f)" using assms(3) by (auto simp: CBB_add_asn1_def split: if_splits)
  note t = tag_byte [OF tag]
  note c = finished_cbs [OF f(1,2)]
  have "cbs_bytes (CBS_init buf (unat len)) = ucast tag # der_len (length body) @ body @ []" using c(2) by simp
  from CBS_get_asn1_accepts [OF c(1) this t(2)] f(3) t(1) c(3)
  show ?thesis by (auto simp: length_der_len)
qed

lemma cbb_asn1_roundtrip_witness:
  "let c1 = snd (the (CBB_add_asn1 zero_malloc 0 0x30 (snd (CBB_init zero_malloc True 0))));
       c2 = snd (CBB_add_bytes zero_malloc 1 [1, 2, 3] c1);
       f = the (fst (CBB_finish zero_malloc 0 True c2))
   in \<exists>out rest. CBS_get_asn1 (CBS_init (fst f) (unat (snd f))) 0x30 = (Some out, rest) \<and>
     cbs_bytes out = [1, 2, 3] \<and> cbs_len rest = 0"
proof -
  let ?start = "snd (CBB_init zero_malloc True 0)"
  let ?child = "snd (the (CBB_add_asn1 zero_malloc 0 0x30 ?start))"
  let ?full = "snd (CBB_add_bytes zero_malloc 1 [1, 2, 3] ?child)"
  let ?fin = "CBB_finish zero_malloc 0 True ?full"
  have "CBB_init zero_malloc True 0 = (True, ?start)" by code_simp
  moreover have "CBB_add_asn1 zero_malloc 0 0x30 ?start = Some (True, ?child)" by code_simp
  moreover have "CBB_add_bytes zero_malloc 1 [1, 2, 3] ?child = (True, ?full)" by code_simp
  moreover have "length [1, 2, 3 :: u8] < 2 ^ 64" by simp
  moreover have "?fin = (Some (fst (the (fst ?fin)), snd (the (fst ?fin))), snd ?fin)" by code_simp
  ultimately show ?thesis unfolding Let_def
    by (rule cbb_asn1_roundtrip [OF zero_malloc_ok])
qed


section \<open>Unsigned integers\<close>

definition uint_digits :: "u8 list \<Rightarrow> u8 list" where
  "uint_digits bs = (case dropWhile (\<lambda>x. x = 0) bs of [] \<Rightarrow> []
     | x # xs \<Rightarrow> (if x AND 0x80 \<noteq> 0 then 0 # x # xs else x # xs))"

definition uint_contents :: "u8 list \<Rightarrow> u8 list" where
  "uint_contents bs = (if dropWhile (\<lambda>x. x = 0) bs = [] then [0] else uint_digits bs)"

lemma be_val_dropWhile: "be_val (dropWhile (\<lambda>x. x = 0) bs) = be_val bs"
  by (induction bs) auto

lemma uint_contents_der: "der_uint (uint_contents bs) (be_val bs)"
proof (cases "dropWhile (\<lambda>x. x = 0) bs")
  case Nil
  have "be_val bs = 0" unfolding be_val_dropWhile [of bs, symmetric] Nil by simp
  then show ?thesis using Nil by (simp add: uint_contents_def der_uint_def)
next
  case (Cons x xs)
  then have "x \<noteq> 0" using hd_dropWhile [of "\<lambda>x. x = 0" bs] by simp
  then show ?thesis using Cons be_val_dropWhile [of bs] bit7_iff [of x]
    by (auto simp: uint_contents_def uint_digits_def der_uint_def)
qed

lemma length_uint_contents: "length (uint_contents bs) \<le> Suc (length bs)"
  using length_dropWhile_le [of "\<lambda>x. x = 0" bs]
  by (auto simp: uint_contents_def uint_digits_def split: list.splits)

lemma be_bytes_map: "be_bytes n x = map (\<lambda>i. word_of_nat (x div 256 ^ (n - 1 - i) mod 256)) [0..<n]"
proof (induction n arbitrary: x)
  case (Suc n)
  have "x div 256 div 256 ^ (n - 1 - i) = x div 256 ^ (n - i)" if "i < n" for i
  proof -
    obtain k where "n - i = Suc k" "n - 1 - i = k" using \<open>i < n\<close> by (cases "n - i") auto
    then show ?thesis by (simp only: div_mult2_eq [symmetric] power_Suc)
  qed
  then show ?case using Suc.IH [of "x div 256"] by simp
qed simp

lemma value_bytes: "map (\<lambda>i. ucast (drop_bit (8 * (7 - i)) (v :: u64) AND 0xff)) [0..<8] = be_bytes 8 (unat v)"
proof -
  have "(ucast (drop_bit (8 * (7 - i)) v AND 0xff) :: u8) = word_of_nat (unat v div 256 ^ (8 - 1 - i) mod 256)" for i
  proof (rule word_eq_unatI)
    have "(2 :: nat) ^ (8 * (7 - i)) = 256 ^ (7 - i)" by (simp add: power_mult)
    then show "unat (ucast (drop_bit (8 * (7 - i)) v AND 0xff) :: u8) =
        unat (word_of_nat (unat v div 256 ^ (8 - 1 - i) mod 256) :: u8)"
      by (simp only: and_FF_take_bit unat_ucast_mod unat_take_bit_mod unat_drop_bit_div unat_of_nat_u8) simp
  qed
  then show ?thesis by (simp only: be_bytes_map)
qed

lemma add_u8_leaf:
  assumes m: "malloc_ok malloc" and inv: "cbb_inv c" and a: "abs_of c = (b, chs)" and d: "length chs = d"
    and r: "CBB_add_u8 malloc d v c = (True, c')"
  shows "cbb_inv c'" and "abs_of c' = (b @ [v], chs)"
proof -
  have "unat (ucast v :: u32) mod 256 = unat v" by (simp only: unat_ucast_u8_u32) simp
  then have v: "be_bytes 1 (unat (ucast v :: u32)) = [v]" by (simp add: unat_ucast_u8_u32)
  have "cbb_inv c' \<and> abs_of c' = abs_op (d, Op_u (ucast v) 1) (abs_of c)"
    by (rule add_u_refines [OF m inv]) (use r in \<open>simp_all add: CBB_add_u8_def\<close>)
  then show "cbb_inv c'" "abs_of c' = (b @ [v], chs)" using a d v by simp_all
qed

lemma uint64_loop_refines:
  assumes m: "malloc_ok malloc"
  shows "cbb_inv c \<Longrightarrow> abs_of c = (b, chs) \<Longrightarrow> length chs = d \<Longrightarrow>
    uint64_loop malloc d st bs c = ((True, st'), c') \<Longrightarrow>
    cbb_inv c' \<and> abs_of c' = (b @ (if st then bs else uint_digits bs), chs) \<and>
    st' = (st \<or> dropWhile (\<lambda>x. x = 0) bs \<noteq> [])"
proof (induction bs arbitrary: c b st)
  case Nil
  then show ?case by (auto simp: uint_digits_def)
next
  case (Cons x xs)
  show ?case
  proof (cases "\<not> st \<and> x = 0")
    case True
    then show ?thesis using Cons.IH [OF Cons.prems(1-3), of st] Cons.prems(4)
      by (simp add: uint_digits_def)
  next
    case False
    let ?pad = "\<not> st \<and> x AND 0x80 \<noteq> 0"
    obtain c1 c2 where p: "(if ?pad then CBB_add_u8 malloc d 0 c else (True, c)) = (True, c1)"
      and x: "CBB_add_u8 malloc d x c1 = (True, c2)"
      and l: "uint64_loop malloc d True xs c2 = ((True, st'), c')"
      using Cons.prems(4) False by (auto split: prod.splits bool.splits if_splits)
    have i1: "cbb_inv c1" "abs_of c1 = (b @ (if ?pad then [0] else []), chs)"
      using p add_u8_leaf [OF m Cons.prems(1-3), of 0 c1] Cons.prems(1,2) by (auto split: if_splits)
    note i2 = add_u8_leaf [OF m i1 Cons.prems(3) x]
    from Cons.IH [OF i2 Cons.prems(3) l] False show ?thesis by (auto simp: uint_digits_def)
  qed
qed

lemma uint64_refines:
  assumes m: "malloc_ok malloc" and inv: "cbb_inv c" and r: "CBB_add_asn1_uint64 malloc 0 v c = Some (True, c')"
    and a: "abs_of c = ([], [])"
  shows "cbb_inv c'" and "abs_of c' = ([2] @ der_len (length (uint_contents (be_bytes 8 (unat v)))) @
      uint_contents (be_bytes 8 (unat v)), [])"
proof -
  let ?bs = "be_bytes 8 (unat v)"
  obtain c1 c2 c3 st where f1: "CBB_add_asn1 malloc 0 2 c = Some (True, c1)"
    and f2: "uint64_loop malloc (0 + 1) False ?bs c1 = ((True, st), c2)"
    and f3: "(if \<not> st then CBB_add_u8 malloc (0 + 1) 0 c2 else (True, c2)) = (True, c3)"
    and f4: "CBB_flush malloc 0 c3 = (True, c')"
    using r unfolding CBB_add_asn1_uint64_def value_bytes by (auto split: option.splits prod.splits bool.splits)
  have i1: "cbb_inv c1" "abs_of c1 = ([2, 0], [pending 1 1 True])"
    using asn1_refines [OF m inv f1] a by auto
  have len: "length [pending 1 1 True] = 0 + 1" by simp
  have i2: "cbb_inv c2" "abs_of c2 = ([2, 0] @ uint_digits ?bs, [pending 1 1 True])"
    "st = (dropWhile (\<lambda>x. x = 0) ?bs \<noteq> [])"
    using uint64_loop_refines [OF m i1 len f2] by auto
  have i3: "cbb_inv c3" "abs_of c3 = ([2, 0] @ uint_contents ?bs, [pending 1 1 True])"
    using f3 i2 add_u8_leaf [OF m i2(1,2) len, of 0 c3]
    by (auto simp: uint_contents_def uint_digits_def simp del: dropWhile_eq_Nil_conv split: if_splits)
  from flush_refines [OF m i3(1) f4] have i4: "cbb_inv c'" "abs_of c' = abs_flush 0 (abs_of c3)" by blast+
  have p: "ch_start (pending 1 1 True) = 2" "unat (ch_offset (pending 1 1 True)) = 1"
    "ch_pending_is_asn1 (pending 1 1 True)" by (simp_all add: pending_def)
  show "cbb_inv c'" by (rule i4(1))
  show "abs_of c' = ([2] @ der_len (length (uint_contents ?bs)) @ uint_contents ?bs, [])"
    using i4(2) i3(2) p by (simp add: Let_def length_header_def numeral_2_eq_2)
qed

text \<open>C12: every 64-bit integer written with \<open>CBB_add_asn1_uint64\<close> is read back by
  \<open>CBS_get_asn1_uint64\<close>, and the integer is all there is.\<close>

theorem cbb_uint64_roundtrip:
  assumes "malloc_ok malloc" and "CBB_init malloc alloc cap = (True, c0)"
    and "CBB_add_asn1_uint64 malloc 0 v c0 = Some (True, c1)"
    and "CBB_finish malloc 0 want c1 = (Some (buf, len), c2)"
  shows "fst (CBS_get_asn1_uint64 (CBS_init buf (unat len))) = Some v \<and>
    cbs_len (snd (CBS_get_asn1_uint64 (CBS_init buf (unat len)))) = 0"
proof -
  let ?K = "uint_contents (be_bytes 8 (unat v))"
  have i0: "cbb_inv c0" "abs_of c0 = ([], [])" using CBB_init_inv [OF assms(1,2)] by auto
  note i1 = uint64_refines [OF assms(1) i0(1) assms(3) i0(2)]
  obtain b where b: "cbb_base c1 = Some b" using cbb_inv_Some [OF i1(1)] by blast
  have "take (unat len) buf = [2] @ der_len (length ?K) @ ?K" "unat len \<le> length buf"
    using CBB_finish_refines [OF assms(1) i1(1) assms(4)] i1(2) abs_of_base [OF b] by auto
  note c = finished_cbs [OF this]
  have "be_val (be_bytes 8 (unat v)) = unat v"
    using unat_less_two_power [of v] by (simp add: be_val_be_bytes)
  then have d: "der_uint ?K (unat v)" using uint_contents_der [of "be_bytes 8 (unat v)"] by simp
  have "length ?K \<le> 9" using length_uint_contents [of "be_bytes 8 (unat v)"] by simp
  then have n: "length ?K < 2 ^ 32" by simp
  have by1: "cbs_bytes (CBS_init buf (unat len)) = 2 # der_len (length ?K) @ ?K @ []" using c(2) by simp
  from CBS_get_asn1_accepts [OF c(1) by1 _ n]
  obtain out where r: "CBS_get_asn1 (CBS_init buf (unat len)) CBS_ASN1_INTEGER =
      (Some out, cbs_adv (2 + der_len_bytes (length ?K) + length ?K) (CBS_init buf (unat len)))"
    and o: "cbs_bytes out = ?K" "cbs_ok out"
    by (auto simp: CBS_ASN1_INTEGER_def)
  have "CBS_get_asn1_uint64 (CBS_init buf (unat len)) =
      (Some v, cbs_adv (2 + der_len_bytes (length ?K) + length ?K) (CBS_init buf (unat len)))"
    by (rule uint64_contents [OF r o(2), THEN iffD2]) (use o(1) d in simp)
  then show ?thesis using c(3) by (simp add: length_der_len)
qed

lemma cbb_uint64_roundtrip_witness:
  "let c1 = snd (the (CBB_add_asn1_uint64 zero_malloc 0 40000 (snd (CBB_init zero_malloc True 16))));
       f = the (fst (CBB_finish zero_malloc 0 True c1))
   in fst (CBS_get_asn1_uint64 (CBS_init (fst f) (unat (snd f)))) = Some 40000 \<and>
      cbs_len (snd (CBS_get_asn1_uint64 (CBS_init (fst f) (unat (snd f))))) = 0"
proof -
  let ?start = "snd (CBB_init zero_malloc True 16)"
  let ?full = "snd (the (CBB_add_asn1_uint64 zero_malloc 0 40000 ?start))"
  let ?fin = "CBB_finish zero_malloc 0 True ?full"
  have "CBB_init zero_malloc True 16 = (True, ?start)" by code_simp
  moreover have "CBB_add_asn1_uint64 zero_malloc 0 40000 ?start = Some (True, ?full)" by code_simp
  moreover have "?fin = (Some (fst (the (fst ?fin)), snd (the (fst ?fin))), snd ?fin)" by code_simp
  ultimately show ?thesis unfolding Let_def
    by (rule cbb_uint64_roundtrip [OF zero_malloc_ok])
qed

end
