(* ===== verification/Constant_Time.thy ===== *)
theory Constant_Time
  imports Prelude
begin

text \<open>
  The branch-free comparisons and selections of BoringSSL (crypto/internal.h, the
  \<open>constant_time_*\<close> functions). \<open>crypto_word_t\<close> is 64 bits wide on the target. Each function
  computes a mask by word arithmetic; the lemmas say which comparison the mask stands for.
\<close>

type_synonym crypto_word_t = "64 word"

definition constant_time_msb_w :: "crypto_word_t \<Rightarrow> crypto_word_t" where
  "constant_time_msb_w a = 0 - drop_bit 63 a"

definition constant_time_lt_w :: "crypto_word_t \<Rightarrow> crypto_word_t \<Rightarrow> crypto_word_t" where
  "constant_time_lt_w a b = constant_time_msb_w (a XOR ((a XOR b) OR ((a - b) XOR a)))"

definition constant_time_lt_8 :: "crypto_word_t \<Rightarrow> crypto_word_t \<Rightarrow> u8" where
  "constant_time_lt_8 a b = ucast (constant_time_lt_w a b)"

definition constant_time_ge_w :: "crypto_word_t \<Rightarrow> crypto_word_t \<Rightarrow> crypto_word_t" where
  "constant_time_ge_w a b = NOT (constant_time_lt_w a b)"

definition constant_time_ge_8 :: "crypto_word_t \<Rightarrow> crypto_word_t \<Rightarrow> u8" where
  "constant_time_ge_8 a b = ucast (constant_time_ge_w a b)"

definition constant_time_is_zero_w :: "crypto_word_t \<Rightarrow> crypto_word_t" where
  "constant_time_is_zero_w a = constant_time_msb_w (NOT a AND (a - 1))"

definition constant_time_is_zero_8 :: "crypto_word_t \<Rightarrow> u8" where
  "constant_time_is_zero_8 a = ucast (constant_time_is_zero_w a)"

definition constant_time_eq_w :: "crypto_word_t \<Rightarrow> crypto_word_t \<Rightarrow> crypto_word_t" where
  "constant_time_eq_w a b = constant_time_is_zero_w (a XOR b)"

definition constant_time_eq_8 :: "crypto_word_t \<Rightarrow> crypto_word_t \<Rightarrow> u8" where
  "constant_time_eq_8 a b = ucast (constant_time_eq_w a b)"

definition constant_time_select_w :: "crypto_word_t \<Rightarrow> crypto_word_t \<Rightarrow> crypto_word_t \<Rightarrow> crypto_word_t" where
  "constant_time_select_w msk a b = (msk AND a) OR (NOT msk AND b)"

text \<open>\<open>constant_time_select_8\<close>: the three bytes are promoted to words.\<close>

definition constant_time_select_8 :: "u8 \<Rightarrow> u8 \<Rightarrow> u8 \<Rightarrow> u8" where
  "constant_time_select_8 msk a b = ucast (constant_time_select_w (ucast msk) (ucast a) (ucast b))"

section \<open>What the masks stand for\<close>

lemma bit_63_iff: "bit (w :: crypto_word_t) 63 \<longleftrightarrow> 2 ^ 63 \<le> unat w"
proof -
  have lt: "unat w < 2 ^ 64" using unat_less_two_power [of w] by simp
  have "bit w 63 \<longleftrightarrow> bit (unat w) 63" by (simp add: bit_unsigned_iff)
  also have "\<dots> \<longleftrightarrow> odd (unat w div 2 ^ 63)" by (rule bit_iff_odd)
  also have "\<dots> \<longleftrightarrow> 2 ^ 63 \<le> unat w"
  proof (cases "2 ^ 63 \<le> unat w")
    case True
    then have "unat w div 2 ^ 63 = 1" using lt by (intro div_nat_eqI) simp_all
    then show ?thesis using True by simp
  next
    case False
    then have "unat w div 2 ^ 63 = 0" by simp
    then show ?thesis using False by simp
  qed
  finally show ?thesis .
qed

lemma msb_w_eq: "constant_time_msb_w a = (if bit a 63 then - 1 else 0)"
proof -
  have "bit (drop_bit 63 a) n \<longleftrightarrow> n = 0 \<and> bit a 63" for n
    by (cases n) (auto simp: bit_drop_bit_eq dest: bit_imp_le_length)
  then have "drop_bit 63 a = (if bit a 63 then 1 else 0)"
    by (intro bit_word_eqI) (auto simp: bit_1_iff)
  then show ?thesis by (simp add: constant_time_msb_w_def)
qed

lemma unat_sub_wrap: "unat ((a :: crypto_word_t) - b) = (if b \<le> a then unat a - unat b else 2 ^ 64 + unat a - unat b)"
  using unat_less_two_power [of a] unat_less_two_power [of b]
  by (simp add: unat_sub_if' word_le_nat_alt) linarith

lemma lt_w_eq: "constant_time_lt_w a b = (if a < b then - 1 else 0)"
proof -
  have "unat a < 2 ^ 64" "unat b < 2 ^ 64" using unat_less_two_power [of a] unat_less_two_power [of b] by simp_all
  then have "(2 ^ 63 \<le> unat a) \<noteq> (((2 ^ 63 \<le> unat a) \<noteq> (2 ^ 63 \<le> unat b)) \<or>
      ((2 ^ 63 \<le> unat (a - b)) \<noteq> (2 ^ 63 \<le> unat a))) \<longleftrightarrow> a < b"
    by (auto simp: unat_sub_wrap word_less_nat_alt word_le_nat_alt)
  then have "bit (a XOR ((a XOR b) OR ((a - b) XOR a))) 63 \<longleftrightarrow> a < b"
    by (simp only: bit_xor_iff bit_or_iff) (simp only: bit_63_iff)
  then show ?thesis by (simp add: constant_time_lt_w_def msb_w_eq)
qed

lemma is_zero_w_eq: "constant_time_is_zero_w a = (if a = 0 then - 1 else 0)"
proof -
  have "bit (NOT a AND (a - 1)) 63 \<longleftrightarrow> a = 0"
  proof (cases "a = 0")
    case True
    then show ?thesis by (simp add: bit_simps)
  next
    case False
    then have "0 < unat a" by (simp add: unat_gt_0)
    then have "1 \<le> a" by (simp add: word_le_nat_alt)
    then have "unat (a - 1) < unat a" using \<open>0 < unat a\<close> by (simp add: unat_sub)
    then have "\<not> (\<not> 2 ^ 63 \<le> unat a \<and> 2 ^ 63 \<le> unat (a - 1))" by linarith
    then show ?thesis using False
      by (simp only: bit_and_iff bit_not_iff) (auto simp: bit_63_iff)
  qed
  then show ?thesis by (simp add: constant_time_is_zero_w_def msb_w_eq)
qed

lemma eq_w_eq: "constant_time_eq_w a b = (if a = b then - 1 else 0)"
  by (auto simp: constant_time_eq_w_def is_zero_w_eq xor_eq_0_word)

lemma select_w_eq: "constant_time_select_w (- 1) a b = a" "constant_time_select_w 0 a b = b"
  by (simp_all add: constant_time_select_w_def)

lemma ucast_minus_1: "(ucast (- 1 :: crypto_word_t) :: u8) = - 1"
  by (rule bit_word_eqI) (simp add: bit_simps)

lemma eq_8_eq: "constant_time_eq_8 a b = (if a = b then - 1 else 0)"
  by (simp add: constant_time_eq_8_def eq_w_eq ucast_minus_1)

lemma select_8_eq: "constant_time_select_8 (if P then - 1 else 0) a b = (if P then a else b)"
  by (cases P; simp add: constant_time_select_8_def constant_time_select_w_def; rule bit_word_eqI;
      auto simp: bit_simps)

text \<open>C25: the constant-time primitives compute what they are named for, on all inputs: an all-ones
  mask exactly when the comparison holds, zero otherwise, and a selection by such a mask is the
  conditional expression.\<close>

theorem constant_time_correct:
  "constant_time_lt_w a b = (if a < b then - 1 else 0) \<and>
   constant_time_ge_w a b = (if b \<le> a then - 1 else 0) \<and>
   constant_time_eq_w a b = (if a = b then - 1 else 0) \<and>
   constant_time_is_zero_w a = (if a = 0 then - 1 else 0) \<and>
   constant_time_lt_8 a b = (if a < b then - 1 else 0) \<and>
   constant_time_ge_8 a b = (if b \<le> a then - 1 else 0) \<and>
   constant_time_eq_8 a b = (if a = b then - 1 else 0) \<and>
   constant_time_select_w (constant_time_lt_w a b) x y = (if a < b then x else y) \<and>
   constant_time_select_8 (constant_time_eq_8 a b) p q = (if a = b then p else q)"
  by (auto simp: lt_w_eq eq_w_eq is_zero_w_eq eq_8_eq constant_time_ge_w_def constant_time_lt_8_def
      constant_time_ge_8_def select_w_eq ucast_minus_1 select_8_eq [of True, simplified]
      select_8_eq [of False, simplified])

end
