(* ===== verification/Base64.thy ===== *)
theory Base64
  imports Constant_Time
begin

text \<open>
  Base64 of BoringSSL (crypto/base64/base64.c): the constant-time character maps, the block
  encoder and decoder, and the streaming encoder and decoder over an \<open>EVP_ENCODE_CTX\<close>.

  Functions that write through \<open>out\<close> return the bytes written; for the streaming functions these are
  the \<open>*out_len\<close> bytes the caller may read. \<open>data\<close> is the 48-byte array of the context, of which
  \<open>data_used\<close> bytes are valid.
\<close>

section \<open>Characters\<close>

definition constant_time_lt_args_8 :: "u8 \<Rightarrow> u8 \<Rightarrow> u8" where
  "constant_time_lt_args_8 a b = ucast (constant_time_msb_w (ucast a - ucast b))"

definition constant_time_in_range_8 :: "u8 \<Rightarrow> u8 \<Rightarrow> u8 \<Rightarrow> u8" where
  "constant_time_in_range_8 a mn mx = constant_time_lt_args_8 (a - mn) (mx - mn + 1)"

definition conv_bin2ascii :: "u8 \<Rightarrow> u8" where
  "conv_bin2ascii a =
     (let a = a AND 0x3f;
          ret = constant_time_select_8 (constant_time_eq_8 (ucast a) 62) 43 47;
          ret = constant_time_select_8 (constant_time_lt_args_8 a 62) (a - 52 + 48) ret;
          ret = constant_time_select_8 (constant_time_lt_args_8 a 52) (a - 26 + 97) ret
      in constant_time_select_8 (constant_time_lt_args_8 a 26) (a + 65) ret)"

definition base64_ascii_to_bin :: "u8 \<Rightarrow> u8" where
  "base64_ascii_to_bin a =
     (let is_upper = constant_time_in_range_8 a 65 90;
          is_lower = constant_time_in_range_8 a 97 122;
          is_digit = constant_time_in_range_8 a 48 57;
          is_plus = constant_time_eq_8 (ucast a) 43;
          is_slash = constant_time_eq_8 (ucast a) 47;
          is_equals = constant_time_eq_8 (ucast a) 61;
          ret = 0xff;
          ret = constant_time_select_8 is_upper (a - 65) ret;
          ret = constant_time_select_8 is_lower (a - 97 + 26) ret;
          ret = constant_time_select_8 is_digit (a - 48 + 52) ret;
          ret = constant_time_select_8 is_plus 62 ret;
          ret = constant_time_select_8 is_slash 63 ret
      in constant_time_select_8 is_equals 0 ret)"

section \<open>Block encoding\<close>

definition EVP_EncodedLength :: "size_t \<Rightarrow> size_t option" where
  "EVP_EncodedLength len =
     (if len + 2 < len then None
      else let len = (len + 2) div 3 in
        if drop_bit 2 (push_bit 2 len) \<noteq> len then None
        else let len = push_bit 2 len in
          if len + 1 < len then None else Some (len + 1))"

fun encode_loop :: "u8 list \<Rightarrow> u8 list" where
  "encode_loop [] = []"
| "encode_loop [a] =
     (let l = push_bit 16 (ucast a :: u32)
      in [conv_bin2ascii (ucast (drop_bit 18 l)), conv_bin2ascii (ucast (drop_bit 12 l)), 61, 61])"
| "encode_loop [a, b] =
     (let l = push_bit 16 (ucast a :: u32) OR push_bit 8 (ucast b)
      in [conv_bin2ascii (ucast (drop_bit 18 l)), conv_bin2ascii (ucast (drop_bit 12 l)),
          conv_bin2ascii (ucast (drop_bit 6 l)), 61])"
| "encode_loop (a # b # c # rest) =
     (let l = push_bit 16 (ucast a :: u32) OR push_bit 8 (ucast b) OR ucast c
      in [conv_bin2ascii (ucast (drop_bit 18 l)), conv_bin2ascii (ucast (drop_bit 12 l)),
          conv_bin2ascii (ucast (drop_bit 6 l)), conv_bin2ascii (ucast l)] @ encode_loop rest)"

text \<open>The characters with the terminating NUL, and the returned length.\<close>

definition EVP_EncodeBlock :: "u8 list \<Rightarrow> u8 list \<times> nat" where
  "EVP_EncodeBlock src = (let dst = encode_loop src in (dst @ [0], length dst))"

section \<open>Block decoding\<close>

definition EVP_DecodedLength :: "size_t \<Rightarrow> size_t option" where
  "EVP_DecodedLength len = (if len mod 4 \<noteq> 0 then None else Some (len div 4 * 3))"

text \<open>\<open>base64_decode_quad\<close>: the \<open>out_num_bytes\<close> bytes written, None for an error.\<close>

definition base64_decode_quad :: "u8 \<Rightarrow> u8 \<Rightarrow> u8 \<Rightarrow> u8 \<Rightarrow> u8 list option" where
  "base64_decode_quad in0 in1 in2 in3 =
     (let a = base64_ascii_to_bin in0; b = base64_ascii_to_bin in1;
          c = base64_ascii_to_bin in2; d = base64_ascii_to_bin in3 in
      if a = 0xff \<or> b = 0xff \<or> c = 0xff \<or> d = 0xff then None
      else
        let v = push_bit 18 (ucast a :: u32) OR push_bit 12 (ucast b) OR push_bit 6 (ucast c) OR ucast d;
            padding_pattern = (of_bool (in0 = 61) * 8 + of_bool (in1 = 61) * 4 +
              of_bool (in2 = 61) * 2 + of_bool (in3 = 61) :: nat)
        in if padding_pattern = 0 then Some [ucast (drop_bit 16 v), ucast (drop_bit 8 v), ucast v]
           else if padding_pattern = 1 then Some [ucast (drop_bit 16 v), ucast (drop_bit 8 v)]
           else if padding_pattern = 3 then Some [ucast (drop_bit 16 v)]
           else None)"

text \<open>The loop of \<open>EVP_DecodeBase64\<close>; the input has a multiple of four characters.\<close>

fun decode_base64_loop :: "u8 list \<Rightarrow> u8 list option" where
  "decode_base64_loop (a # b # c # d # rest) =
     (case base64_decode_quad a b c d of
        None \<Rightarrow> None
      | Some out \<Rightarrow>
          if length out \<noteq> 3 \<and> rest \<noteq> [] then None
          else (case decode_base64_loop rest of None \<Rightarrow> None | Some out' \<Rightarrow> Some (out @ out')))"
| "decode_base64_loop _ = Some []"

definition EVP_DecodeBase64 :: "size_t \<Rightarrow> u8 list \<Rightarrow> u8 list option" where
  "EVP_DecodeBase64 max_out inp =
     (let in_len = word_of_nat (length inp) in
      if in_len mod 4 \<noteq> 0 then None
      else (case EVP_DecodedLength in_len of
              None \<Rightarrow> None
            | Some max_len \<Rightarrow> if max_out < max_len then None else decode_base64_loop inp))"

definition is_space_tab :: "u8 \<Rightarrow> bool" where
  "is_space_tab c \<longleftrightarrow> c = 32 \<or> c = 9"

definition is_space_nl :: "u8 \<Rightarrow> bool" where
  "is_space_nl c \<longleftrightarrow> c = 32 \<or> c = 9 \<or> c = 13 \<or> c = 10"

text \<open>\<open>EVP_DecodeBlock\<close>: trims, decodes, and pads the result to a multiple of three with NULs; None
  is the return value -1.\<close>

definition EVP_DecodeBlock :: "u8 list \<Rightarrow> u8 list option" where
  "EVP_DecodeBlock src =
     (let src = dropWhile is_space_tab src;
          src = rev (dropWhile is_space_nl (rev src))
      in case EVP_DecodedLength (word_of_nat (length src)) of
           None \<Rightarrow> None
         | Some dst_len \<Rightarrow>
             if 0x7fffffff < dst_len then None
             else (case EVP_DecodeBase64 dst_len src of
                     None \<Rightarrow> None
                   | Some dst \<Rightarrow> Some (dst @ replicate ((3 - length dst mod 3) mod 3) 0)))"

section \<open>Streaming\<close>

record evp_encode_ctx =
  ec_data_used :: nat
  ec_data :: "u8 list"
  eof_seen :: bool
  error_encountered :: bool

definition EVP_EncodeInit :: evp_encode_ctx where
  "EVP_EncodeInit = \<lparr>ec_data_used = 0, ec_data = replicate 48 0, eof_seen = False, error_encountered = False\<rparr>"

definition EVP_DecodeInit :: evp_encode_ctx where
  "EVP_DecodeInit = \<lparr>ec_data_used = 0, ec_data = replicate 48 0, eof_seen = False, error_encountered = False\<rparr>"

text \<open>\<open>memcpy(&ctx->data[used], src, n)\<close>\<close>

definition put_data :: "nat \<Rightarrow> u8 list \<Rightarrow> u8 list \<Rightarrow> u8 list" where
  "put_data used src data = take used data @ src @ drop (used + length src) data"

text \<open>The while loop of \<open>EVP_EncodeUpdate\<close>: None is the return on an overflow of \<open>total\<close>.\<close>

function encode_blocks :: "size_t \<Rightarrow> u8 list \<Rightarrow> u8 list \<Rightarrow> (size_t \<times> u8 list \<times> u8 list) option" where
  "encode_blocks tot out inp =
     (if length inp < 48 then Some (tot, out, inp)
      else (case EVP_EncodeBlock (take 48 inp) of
              (dst, encoded) \<Rightarrow>
                if tot + word_of_nat encoded + 1 < tot then None
                else encode_blocks (tot + word_of_nat encoded + 1) (out @ take encoded dst @ [10]) (drop 48 inp)))"
  by pat_completeness auto
termination by (relation "measure (\<lambda>(_, _, inp). length inp)") auto

declare encode_blocks.simps [simp del]

definition EVP_EncodeUpdate :: "evp_encode_ctx \<Rightarrow> u8 list \<Rightarrow> u8 list \<times> evp_encode_ctx" where
  "EVP_EncodeUpdate ctx inp =
     (if inp = [] then ([], ctx)
      else if length inp < 48 - ec_data_used ctx
      then ([], ctx\<lparr>ec_data := put_data (ec_data_used ctx) inp (ec_data ctx),
                   ec_data_used := ec_data_used ctx + length inp\<rparr>)
      else
        let (tot, out, inp, ctx) =
          (if ec_data_used ctx \<noteq> 0 then
             let todo = 48 - ec_data_used ctx;
                 ctx = ctx\<lparr>ec_data := put_data (ec_data_used ctx) (take todo inp) (ec_data ctx)\<rparr>;
                 (dst, encoded) = EVP_EncodeBlock (ec_data ctx)
             in (word_of_nat encoded + 1, take encoded dst @ [10], drop todo inp, ctx\<lparr>ec_data_used := 0\<rparr>)
           else (0, [], inp, ctx))
        in (case encode_blocks tot out inp of
              None \<Rightarrow> ([], ctx)
            | Some (tot, out, inp) \<Rightarrow>
                (if 0x7fffffff < tot then [] else out,
                 ctx\<lparr>ec_data := (if inp \<noteq> [] then put_data 0 inp (ec_data ctx) else ec_data ctx),
                     ec_data_used := length inp\<rparr>)))"

definition EVP_EncodeFinal :: "evp_encode_ctx \<Rightarrow> u8 list \<times> evp_encode_ctx" where
  "EVP_EncodeFinal ctx =
     (if ec_data_used ctx = 0 then ([], ctx)
      else (case EVP_EncodeBlock (take (ec_data_used ctx) (ec_data ctx)) of
              (dst, encoded) \<Rightarrow> (take encoded dst @ [10], ctx\<lparr>ec_data_used := 0\<rparr>)))"

text \<open>The loop of \<open>EVP_DecodeUpdate\<close>; the flag tells an error return.\<close>

fun decode_update_loop :: "evp_encode_ctx \<Rightarrow> u8 list \<Rightarrow> u8 list \<Rightarrow> bool \<times> u8 list \<times> evp_encode_ctx" where
  "decode_update_loop ctx out [] = (True, out, ctx)"
| "decode_update_loop ctx out (c # cs) =
     (if is_space_nl c then decode_update_loop ctx out cs
      else if eof_seen ctx then (False, out, ctx\<lparr>error_encountered := True\<rparr>)
      else
        let ctx = ctx\<lparr>ec_data := (ec_data ctx)[ec_data_used ctx := c], ec_data_used := ec_data_used ctx + 1\<rparr> in
        if ec_data_used ctx = 4 then
          (case base64_decode_quad (ec_data ctx ! 0) (ec_data ctx ! 1) (ec_data ctx ! 2) (ec_data ctx ! 3) of
             None \<Rightarrow> (False, out, ctx\<lparr>error_encountered := True\<rparr>)
           | Some bytes \<Rightarrow>
               decode_update_loop
                 (ctx\<lparr>ec_data_used := 0, eof_seen := eof_seen ctx \<or> length bytes < 3\<rparr>) (out @ bytes) cs)
        else decode_update_loop ctx out cs)"

definition EVP_DecodeUpdate :: "evp_encode_ctx \<Rightarrow> u8 list \<Rightarrow> int \<times> u8 list \<times> evp_encode_ctx" where
  "EVP_DecodeUpdate ctx inp =
     (if error_encountered ctx then (-1, [], ctx)
      else (case decode_update_loop ctx [] inp of
              (False, _, ctx) \<Rightarrow> (-1, [], ctx)
            | (True, out, ctx) \<Rightarrow>
                if 0x7fffffff < length out then (-1, [], ctx\<lparr>error_encountered := True\<rparr>)
                else (if eof_seen ctx then 0 else 1, out, ctx)))"

definition EVP_DecodeFinal :: "evp_encode_ctx \<Rightarrow> int" where
  "EVP_DecodeFinal ctx = (if error_encountered ctx \<or> ec_data_used ctx \<noteq> 0 then -1 else 1)"

end
