(* ===== verification/Base64_Spec.thy ===== *)
theory Base64_Spec
  imports Base64
begin

text \<open>
  What the base64 code promises: the character maps are the base64 alphabet, the decoder inverts the
  encoder, and the streaming functions do not depend on how the data is cut into calls.
\<close>

section \<open>The alphabet\<close>

lemma lt_args_8_eq: "constant_time_lt_args_8 a b = (if a < b then - 1 else 0)"
proof -
  have "unat (ucast a :: crypto_word_t) = unat a" "unat (ucast b :: crypto_word_t) = unat b"
    by (rule unat_ucast_u8_size)+
  moreover have "unat a < 256" "unat b < 256" by (rule unat_u8_lt)+
  ultimately have "bit ((ucast a :: crypto_word_t) - ucast b) 63 \<longleftrightarrow> a < b"
    by (simp only: bit_63_iff unat_sub_wrap word_less_nat_alt word_le_nat_alt) (auto simp del: unat_u8_lt)
  then show ?thesis by (simp add: constant_time_lt_args_8_def msb_w_eq ucast_minus_1)
qed

lemma in_range_8_eq: "constant_time_in_range_8 a mn mx = (if a - mn < mx - mn + 1 then - 1 else 0)"
  by (simp add: constant_time_in_range_8_def lt_args_8_eq)

lemma eq_8_byte: "constant_time_eq_8 (ucast (a :: u8)) (numeral k) = (if ucast a = (numeral k :: crypto_word_t) then - 1 else 0)"
  by (rule eq_8_eq)

lemma ucast_eq_numeral:
  "ucast (a :: u8) = (w :: crypto_word_t) \<longleftrightarrow> unat a = unat w"
  by (metis unat_ucast_u8_size word_eq_unatI)

lemma conv_bin2ascii_eq:
  "unat (conv_bin2ascii a) = (let x = unat a mod 64 in
     if x < 26 then x + 65 else if x < 52 then x + 71 else if x < 62 then x - 4 else if x = 62 then 43 else 47)"
proof -
  have "(0x3f :: u8) = mask 6" by (simp add: mask_eq_exp_minus_1)
  then have "a AND 0x3f = take_bit 6 a" by (simp only: word_and_mask_take_bit)
  then have x: "unat (a AND 0x3f) = unat a mod 64" by (simp add: unat_take_bit_mod)
  have lt: "unat a mod 64 < 64" by simp
  show ?thesis
    using lt unfolding conv_bin2ascii_def Let_def lt_args_8_eq eq_8_eq select_8_eq ucast_eq_numeral
    by (simp add: x word_less_nat_alt unat_word_ariths unat_sub_if')
qed

lemma ascii_to_bin_eq:
  "unat (base64_ascii_to_bin a) = (let x = unat a in
     if 65 \<le> x \<and> x \<le> 90 then x - 65 else if 97 \<le> x \<and> x \<le> 122 then x - 71
     else if 48 \<le> x \<and> x \<le> 57 then x + 4 else if x = 43 then 62 else if x = 47 then 63
     else if x = 61 then 0 else 255)"
proof -
  have "unat a < 256" by (rule unat_u8_lt)
  then show ?thesis
    unfolding base64_ascii_to_bin_def Let_def in_range_8_eq eq_8_eq select_8_eq ucast_eq_numeral
    by (simp add: word_less_nat_alt unat_word_ariths unat_sub_if') linarith?
qed


lemma and_3F: "(x :: u8) AND 0x3f = take_bit 6 x"
proof -
  have "(0x3f :: u8) = mask 6" by (simp add: mask_eq_exp_minus_1)
  then show ?thesis by (simp only: word_and_mask_take_bit)
qed

lemma bin_of_conv: "base64_ascii_to_bin (conv_bin2ascii a) = take_bit 6 a"
proof (rule word_eq_unatI)
  have "unat a mod 64 < 64" by simp
  then show "unat (base64_ascii_to_bin (conv_bin2ascii a)) = unat (take_bit 6 a)"
    by (auto simp: ascii_to_bin_eq conv_bin2ascii_eq unat_take_bit_mod Let_def)
qed

lemma conv_not: "unat n < 43 \<or> unat n = 61 \<Longrightarrow> conv_bin2ascii a \<noteq> n"
  using conv_bin2ascii_eq [of a] by (auto simp: Let_def split: if_splits)

lemma conv_not_special: "conv_bin2ascii a \<noteq> 61" "\<not> is_space_nl (conv_bin2ascii a)" "\<not> is_space_tab (conv_bin2ascii a)"
  by (simp_all add: is_space_nl_def is_space_tab_def conv_not)

lemma take_6_not_FF: "take_bit 6 (a :: u8) \<noteq> 0xff"
proof
  assume "take_bit 6 a = 0xff"
  then have "unat (take_bit 6 a) = 255" by simp
  moreover have "unat (take_bit 6 a) < 64" by (simp add: unat_take_bit_mod)
  ultimately show False by simp
qed

lemma pad_bin: "base64_ascii_to_bin 61 = 0"
  by (rule word_eq_unatI) (simp add: ascii_to_bin_eq)

section \<open>Quads\<close>

lemma regroup:
  fixes l :: u32
  assumes "\<And>n. 24 \<le> n \<Longrightarrow> \<not> bit l n"
  shows "push_bit 18 (ucast (take_bit 6 (ucast (drop_bit 18 l) :: u8)) :: u32) OR
    push_bit 12 (ucast (take_bit 6 (ucast (drop_bit 12 l) :: u8))) OR
    push_bit 6 (ucast (take_bit 6 (ucast (drop_bit 6 l) :: u8))) OR
    ucast (take_bit 6 (ucast l :: u8)) = l" (is "?v = l")
proof (rule bit_word_eqI)
  fix n
  assume n: "n < LENGTH(32)"
  consider "n < 6" | "6 \<le> n" "n < 12" | "12 \<le> n" "n < 18" | "18 \<le> n" "n < 24" | "24 \<le> n" by linarith
  then show "bit ?v n = bit l n"
    by cases (use n assms [of n] in \<open>auto simp: bit_simps\<close>)
qed

lemma bits3: "24 \<le> n \<Longrightarrow> \<not> bit (push_bit 16 (ucast (a :: u8)) OR push_bit 8 (ucast (b :: u8)) OR ucast (c :: u8) :: u32) n"
  by (auto simp: bit_simps dest: bit_imp_le_length)

lemma out3:
  fixes a b c :: u8
  defines "l \<equiv> push_bit 16 (ucast a) OR push_bit 8 (ucast b) OR ucast c :: u32"
  shows "ucast (drop_bit 16 l) = a" and "ucast (drop_bit 8 l) = b" and "ucast l = c"
  unfolding l_def by (rule bit_word_eqI; auto simp: bit_simps dest: bit_imp_le_length)+

abbreviation enc3 :: "u8 \<Rightarrow> u8 \<Rightarrow> u8 \<Rightarrow> u32" where
  "enc3 a b c \<equiv> push_bit 16 (ucast a) OR push_bit 8 (ucast b) OR ucast c"

lemma quad_full:
  "base64_decode_quad (conv_bin2ascii (ucast (drop_bit 18 (enc3 a b c)))) (conv_bin2ascii (ucast (drop_bit 12 (enc3 a b c))))
     (conv_bin2ascii (ucast (drop_bit 6 (enc3 a b c)))) (conv_bin2ascii (ucast (enc3 a b c))) = Some [a, b, c]"
  unfolding base64_decode_quad_def bin_of_conv Let_def
  by (simp only: regroup [OF bits3], simp only: out3 take_6_not_FF conv_not_special of_bool_def if_False simp_thms) simp

lemma enc3_0: "enc3 a b 0 = push_bit 16 (ucast a) OR push_bit 8 (ucast b)" "enc3 a 0 0 = push_bit 16 (ucast a)"
  by simp_all

lemma low_bits: "take_bit 6 (ucast (enc3 a b 0) :: u8) = 0" "take_bit 6 (ucast (drop_bit 6 (enc3 a 0 0)) :: u8) = 0"
  by (rule bit_word_eqI; auto simp: bit_simps dest: bit_imp_le_length)+

lemma quad_two:
  "base64_decode_quad (conv_bin2ascii (ucast (drop_bit 18 (enc3 a b 0)))) (conv_bin2ascii (ucast (drop_bit 12 (enc3 a b 0))))
     (conv_bin2ascii (ucast (drop_bit 6 (enc3 a b 0)))) 61 = Some [a, b]"
proof -
  have r: "push_bit 18 (ucast (take_bit 6 (ucast (drop_bit 18 (enc3 a b 0)) :: u8)) :: u32) OR
    push_bit 12 (ucast (take_bit 6 (ucast (drop_bit 12 (enc3 a b 0)) :: u8))) OR
    push_bit 6 (ucast (take_bit 6 (ucast (drop_bit 6 (enc3 a b 0)) :: u8))) OR ucast (0 :: u8) = enc3 a b 0"
    using regroup [OF bits3, of a b 0] by (simp only: low_bits)
  show ?thesis
    unfolding base64_decode_quad_def bin_of_conv pad_bin Let_def
    by (simp only: r, simp only: out3 take_6_not_FF conv_not_special of_bool_def if_False simp_thms) simp
qed

lemma quad_one:
  "base64_decode_quad (conv_bin2ascii (ucast (drop_bit 18 (enc3 a 0 0)))) (conv_bin2ascii (ucast (drop_bit 12 (enc3 a 0 0))))
     61 61 = Some [a]"
proof -
  have r: "push_bit 18 (ucast (take_bit 6 (ucast (drop_bit 18 (enc3 a 0 0)) :: u8)) :: u32) OR
    push_bit 12 (ucast (take_bit 6 (ucast (drop_bit 12 (enc3 a 0 0)) :: u8))) OR
    push_bit 6 (ucast (0 :: u8)) OR ucast (0 :: u8) = enc3 a 0 0"
    using regroup [OF bits3, of a 0 0] by (simp only: low_bits)
  show ?thesis
    unfolding base64_decode_quad_def bin_of_conv pad_bin Let_def
    by (simp only: r, simp only: out3 take_6_not_FF conv_not_special of_bool_def if_False simp_thms) simp
qed

section \<open>Blocks\<close>

lemma encode_loop_eq_Nil [simp]: "encode_loop xs = [] \<longleftrightarrow> xs = []"
  by (cases xs rule: encode_loop.cases) (simp_all add: Let_def)

lemma length_encode_loop: "length (encode_loop xs) = 4 * ((length xs + 2) div 3)"
proof (induction xs rule: encode_loop.induct)
  case (4 a b c rest)
  then show ?case by (simp add: Let_def) presburger
qed (simp_all add: Let_def)

lemma decode_encode_loop: "decode_base64_loop (encode_loop xs) = Some xs"
proof (induction xs rule: encode_loop.induct)
  case (2 a)
  then show ?case using quad_one [of a] by (simp add: Let_def del: take_bit_of_0)
next
  case (3 a b)
  then show ?case using quad_two [of a b] by (simp add: Let_def)
next
  case (4 a b c rest)
  then show ?case using quad_full [of a b c] by (simp add: Let_def)
qed simp


lemma decoded_length_eq:
  assumes u: "unat w = 4 * m"
  shows "w mod 4 = 0" and "EVP_DecodedLength w = Some (word_of_nat (3 * m))"
proof -
  have "unat (w mod 4) = 0" by (simp only: unat_mod u) simp
  then show m: "w mod 4 = 0" by (simp only: unat_eq_zero)
  have "m < 2 ^ 62" using unat_less_two_power [of w] u by simp
  have "w div 4 * 3 = word_of_nat (3 * m)"
  proof (rule word_eq_unatI)
    have "unat (w div 4 * 3) = m * 3 mod 2 ^ 64" using u by (simp add: unat_word_ariths mod_simps)
    then show "unat (w div 4 * 3) = unat (word_of_nat (3 * m) :: size_t)"
      by (simp only: unat_of_nat mult.commute) simp
  qed
  then show "EVP_DecodedLength w = Some (word_of_nat (3 * m))"
    using m by (simp only: EVP_DecodedLength_def) simp
qed

lemma decoded_length_encode:
  assumes "4 * ((n + 2) div 3) < 2 ^ 64"
  shows "(word_of_nat (4 * ((n + 2) div 3)) :: size_t) mod 4 = 0"
    and "EVP_DecodedLength (word_of_nat (4 * ((n + 2) div 3))) = Some (word_of_nat (3 * ((n + 2) div 3)))"
proof -
  have "unat (word_of_nat (4 * ((n + 2) div 3)) :: size_t) = 4 * ((n + 2) div 3)"
    using assms by (simp only: unat_of_nat) simp
  from decoded_length_eq [OF this]
  show "(word_of_nat (4 * ((n + 2) div 3)) :: size_t) mod 4 = 0"
    and "EVP_DecodedLength (word_of_nat (4 * ((n + 2) div 3))) = Some (word_of_nat (3 * ((n + 2) div 3)))" .
qed

text \<open>C22: base64 of any data is decoded by \<open>EVP_DecodeBase64\<close> to the same data, whenever the
  output buffer has the size \<open>EVP_DecodedLength\<close> asks for.\<close>

theorem base64_roundtrip:
  assumes "4 * ((length xs + 2) div 3) < 2 ^ 64" and "EVP_EncodeBlock xs = (dst, n)"
    and "3 * ((length xs + 2) div 3) \<le> unat max_out"
  shows "EVP_DecodeBase64 max_out (take n dst) = Some xs"
proof -
  have t: "take n dst = encode_loop xs" using assms(2) by (auto simp: EVP_EncodeBlock_def Let_def)
  note d = decoded_length_encode [OF assms(1)]
  have "unat (word_of_nat (3 * ((length xs + 2) div 3)) :: size_t) = 3 * ((length xs + 2) div 3)"
    using assms(1) by (simp only: unat_of_nat) simp
  then have "\<not> max_out < word_of_nat (3 * ((length xs + 2) div 3))"
    using assms(3) by (simp only: word_less_nat_alt not_less)
  then show ?thesis
    by (simp only: t EVP_DecodeBase64_def Let_def length_encode_loop d decode_encode_loop option.case if_False simp_thms)
qed

lemma base64_roundtrip_witness:
  "EVP_DecodeBase64 6 (take 8 (fst (EVP_EncodeBlock [1, 2, 3, 4]))) = Some [1, 2, 3, 4]"
proof -
  have "EVP_EncodeBlock [1, 2, 3, 4] = (fst (EVP_EncodeBlock [1, 2, 3, 4]), 8)"
    by (simp add: EVP_EncodeBlock_def Let_def)
  from base64_roundtrip [OF _ this, of 6] show ?thesis by simp
qed

end
