(* ===== verification/Base64_Stream.thy ===== *)
theory Base64_Stream
  imports Base64_Spec
begin

text \<open>
  The streaming base64 functions. The encoder's output is the base64 of the data cut into lines of
  48 bytes, however the data arrives; the decoder's output does not depend on the cuts either, and
  the two together give back the data.
\<close>

section \<open>Encoding\<close>

function wrapped :: "u8 list \<Rightarrow> u8 list" where
  "wrapped xs = (if length xs < 48 then [] else encode_loop (take 48 xs) @ [10] @ wrapped (drop 48 xs))"
  by pat_completeness auto
termination by (relation "measure length") auto

declare wrapped.simps [simp del]

function leftover :: "u8 list \<Rightarrow> u8 list" where
  "leftover xs = (if length xs < 48 then xs else leftover (drop 48 xs))"
  by pat_completeness auto
termination by (relation "measure length") auto

declare leftover.simps [simp del]

lemma wrapped_less [simp]: "length xs < 48 \<Longrightarrow> wrapped xs = []"
  and leftover_less [simp]: "length xs < 48 \<Longrightarrow> leftover xs = xs"
  by (simp_all add: wrapped.simps leftover.simps)

lemma wrapped_more: "48 \<le> length xs \<Longrightarrow> wrapped xs = encode_loop (take 48 xs) @ [10] @ wrapped (drop 48 xs)"
  and leftover_more: "48 \<le> length xs \<Longrightarrow> leftover xs = leftover (drop 48 xs)"
  by (subst wrapped.simps, simp) (subst leftover.simps, simp)

lemma length_leftover: "length (leftover xs) < 48"
proof (induction xs rule: leftover.induct)
  case (1 xs)
  then show ?case by (cases "length xs < 48") (simp_all add: leftover_more)
qed

lemma wrapped_append: "wrapped (xs @ ys) = wrapped xs @ wrapped (leftover xs @ ys)"
  and leftover_append: "leftover (xs @ ys) = leftover (leftover xs @ ys)"
proof -
  have "wrapped (xs @ ys) = wrapped xs @ wrapped (leftover xs @ ys) \<and> leftover (xs @ ys) = leftover (leftover xs @ ys)"
  proof (induction xs rule: leftover.induct)
    case (1 xs)
    show ?case
    proof (cases "length xs < 48")
      case False
      then show ?thesis using 1
        by (simp add: wrapped_more [of xs] wrapped_more [of "xs @ ys"] leftover_more [of xs] leftover_more [of "xs @ ys"])
    qed simp
  qed
  then show "wrapped (xs @ ys) = wrapped xs @ wrapped (leftover xs @ ys)"
    and "leftover (xs @ ys) = leftover (leftover xs @ ys)" by blast+
qed

definition base64_lines :: "u8 list \<Rightarrow> u8 list" where
  "base64_lines xs = wrapped xs @ (if leftover xs = [] then [] else encode_loop (leftover xs) @ [10])"

lemma length_wrapped: "length (wrapped xs) \<le> 65 * (length xs div 48)"
proof (induction xs rule: wrapped.induct)
  case (1 xs)
  show ?case
  proof (cases "length xs < 48")
    case False
    then have "length xs div 48 = Suc ((length xs - 48) div 48)" by (simp add: le_div_geq)
    moreover have "length (encode_loop (take 48 xs)) = 64" using False by (simp add: length_encode_loop min_absorb2)
    ultimately show ?thesis using 1 False by (simp add: wrapped_more)
  qed simp
qed

text \<open>The loop of the encoder, as long as the length it counts stays below \<open>2^64\<close>.\<close>

lemma encode_blocks_eq:
  "length inp < 2 ^ 32 \<Longrightarrow> unat tot + 65 * (length inp div 48) < 2 ^ 40 \<Longrightarrow>
    \<exists>tot'. encode_blocks tot out inp = Some (tot', out @ wrapped inp, leftover inp) \<and>
      unat tot' = unat tot + length (wrapped inp)"
proof (induction tot out inp rule: encode_blocks.induct)
  case (1 tot out inp)
  show ?case
  proof (cases "length inp < 48")
    case True
    then show ?thesis by (simp add: encode_blocks.simps)
  next
    case False
    have e: "length (encode_loop (take 48 inp)) = 64" using False by (simp add: length_encode_loop min_absorb2)
    have b: "EVP_EncodeBlock (take 48 inp) = (encode_loop (take 48 inp) @ [0], 64)"
      by (simp add: EVP_EncodeBlock_def Let_def e)
    have d: "length inp div 48 = Suc ((length inp - 48) div 48)" using False by (simp add: le_div_geq)
    have u: "unat (tot + word_of_nat 64 + 1) = unat tot + 65"
      using 1(3) by (simp add: unat_word_ariths)
    have nw: "\<not> tot + word_of_nat 64 + 1 < tot" by (simp only: word_less_nat_alt u)
    have lim: "unat (tot + word_of_nat 64 + 1) + 65 * (length (drop 48 inp) div 48) < 2 ^ 40"
      unfolding u using 1(3) d by simp
    have small: "length (drop 48 inp) < 2 ^ 32" using 1(2) by simp
    from 1(1) [OF False b [symmetric] nw small lim]
    obtain tot' where r: "encode_blocks (tot + word_of_nat 64 + 1)
        (out @ take 64 (encode_loop (take 48 inp) @ [0]) @ [10]) (drop 48 inp) =
      Some (tot', (out @ take 64 (encode_loop (take 48 inp) @ [0]) @ [10]) @ wrapped (drop 48 inp), leftover (drop 48 inp))"
      and t: "unat tot' = unat tot + 65 + length (wrapped (drop 48 inp))" unfolding u by auto
    have "encode_blocks tot out inp = Some (tot', out @ wrapped inp, leftover inp)"
      using False e nw r by (subst encode_blocks.simps)
        (simp add: b wrapped_more leftover_more del: of_nat_numeral)
    moreover have "unat tot' = unat tot + length (wrapped inp)" using t False e by (simp add: wrapped_more)
    ultimately show ?thesis by blast
  qed
qed

definition enc_ok :: "evp_encode_ctx \<Rightarrow> bool" where
  "enc_ok ctx \<longleftrightarrow> ec_data_used ctx < 48 \<and> length (ec_data ctx) = 48"

definition held :: "evp_encode_ctx \<Rightarrow> u8 list" where
  "held ctx = take (ec_data_used ctx) (ec_data ctx)"

lemma put_data_length: "used + length src \<le> length data \<Longrightarrow> length (put_data used src data) = length data"
  by (simp add: put_data_def)

lemma take_put_data:
  "used + length src \<le> length data \<Longrightarrow> take (used + length src) (put_data used src data) = take used data @ src"
  by (simp add: put_data_def)


lemma EVP_EncodeUpdate_eq:
  assumes ok: "enc_ok ctx" and inp: "length inp < 2 ^ 30"
  shows "fst (EVP_EncodeUpdate ctx inp) = wrapped (held ctx @ inp)"
    and "held (snd (EVP_EncodeUpdate ctx inp)) = leftover (held ctx @ inp)"
    and "enc_ok (snd (EVP_EncodeUpdate ctx inp))"
proof -
  let ?u = "ec_data_used ctx"
  have u: "?u < 48" and l: "length (ec_data ctx) = 48" using ok by (auto simp: enc_ok_def)
  have lh: "length (held ctx) = ?u" using u l by (simp add: held_def)
  have "fst (EVP_EncodeUpdate ctx inp) = wrapped (held ctx @ inp) \<and>
    held (snd (EVP_EncodeUpdate ctx inp)) = leftover (held ctx @ inp) \<and> enc_ok (snd (EVP_EncodeUpdate ctx inp))"
  proof (cases "inp = [] \<or> length inp < 48 - ?u")
    case True
    then have less: "length (held ctx @ inp) < 48" using lh u by auto
    show ?thesis
    proof (cases "inp = []")
      case True
      then show ?thesis using less ok by (simp add: EVP_EncodeUpdate_def)
    next
      case False
      then have i: "length inp < 48 - ?u" using True by simp
      have "take (?u + length inp) (put_data ?u inp (ec_data ctx)) = held ctx @ inp"
        unfolding held_def by (rule take_put_data) (use i l in simp)
      then show ?thesis using False i less u l
        by (simp add: EVP_EncodeUpdate_def held_def enc_ok_def put_data_length)
    qed
  next
    case False
    then have ne: "inp \<noteq> []" and ge: "48 - ?u \<le> length inp" by auto
    have fin: "fst (if 0x7fffffff < tot' then [] else out', ctx'\<lparr>ec_data := d, ec_data_used := length r\<rparr>) = out'"
      if "unat tot' < 0x7fffffff" for tot' :: size_t and out' :: "u8 list" and ctx' :: evp_encode_ctx and d r :: "u8 list"
      using that by (simp add: word_less_nat_alt)
    have upd: "held (ctx'\<lparr>ec_data := (if r \<noteq> [] then put_data 0 r (ec_data ctx') else ec_data ctx'), ec_data_used := length r\<rparr>) = r"
        "enc_ok (ctx'\<lparr>ec_data := (if r \<noteq> [] then put_data 0 r (ec_data ctx') else ec_data ctx'), ec_data_used := length r\<rparr>)"
      if "length r < 48" "length (ec_data ctx') = 48" for r and ctx' :: evp_encode_ctx
      using that take_put_data [of 0 r "ec_data ctx'"] put_data_length [of 0 r "ec_data ctx'"]
      by (auto simp: held_def enc_ok_def)
    show ?thesis
    proof (cases "?u = 0")
      case True
      then have h: "held ctx = []" by (simp add: held_def)
      have "\<exists>tot'. encode_blocks 0 [] inp = Some (tot', [] @ wrapped inp, leftover inp) \<and>
          unat tot' = unat (0 :: size_t) + length (wrapped inp)"
        by (rule encode_blocks_eq) (use inp in simp_all)
      then obtain tot' where r: "encode_blocks 0 [] inp = Some (tot', wrapped inp, leftover inp)"
        and t: "unat tot' = length (wrapped inp)" by auto
      have "unat tot' < 0x7fffffff" using t length_wrapped [of inp] inp by simp
      then have "\<not> 0x7fffffff < tot'" by (simp add: word_less_nat_alt)
      then show ?thesis using True ne ge r h upd [OF length_leftover l] by (simp add: EVP_EncodeUpdate_def)
    next
      case False
      let ?todo = "48 - ?u"
      let ?blk = "held ctx @ take ?todo inp" and ?rest = "drop ?todo inp"
      have lb: "length ?blk = 48" using lh u ge by simp
      have put: "put_data ?u (take ?todo inp) (ec_data ctx) = ?blk"
        using l u ge by (simp add: put_data_def held_def)
      have e: "length (encode_loop ?blk) = 64" by (simp add: length_encode_loop lb del: length_append)
      have enc: "EVP_EncodeBlock ?blk = (encode_loop ?blk @ [0], 64)"
        by (simp add: EVP_EncodeBlock_def Let_def e)
      have split: "wrapped (held ctx @ inp) = encode_loop ?blk @ [10] @ wrapped ?rest"
          "leftover (held ctx @ inp) = leftover ?rest"
      proof -
        have eq: "held ctx @ inp = ?blk @ ?rest" by simp
        have "take 48 (?blk @ ?rest) = ?blk" "drop 48 (?blk @ ?rest) = ?rest" using lb lh by simp_all
        then show "wrapped (held ctx @ inp) = encode_loop ?blk @ [10] @ wrapped ?rest"
          "leftover (held ctx @ inp) = leftover ?rest"
          unfolding eq using wrapped_more [of "?blk @ ?rest"] leftover_more [of "?blk @ ?rest"] lb by simp_all
      qed
      have "\<exists>tot'. encode_blocks 65 (encode_loop ?blk @ [10]) ?rest =
          Some (tot', (encode_loop ?blk @ [10]) @ wrapped ?rest, leftover ?rest) \<and>
          unat tot' = unat (65 :: size_t) + length (wrapped ?rest)"
        by (rule encode_blocks_eq) (use inp in simp_all)
      then obtain tot' where r: "encode_blocks 65 (encode_loop ?blk @ [10]) ?rest =
          Some (tot', (encode_loop ?blk @ [10]) @ wrapped ?rest, leftover ?rest)"
        and t: "unat tot' = 65 + length (wrapped ?rest)" by auto
      have "unat tot' < 0x7fffffff" using t length_wrapped [of ?rest] inp by simp
      then have nt: "\<not> 0x7fffffff < tot'" by (simp add: word_less_nat_alt)
      let ?mid = "ctx\<lparr>ec_data := ?blk, ec_data_used := 0\<rparr>"
      have lm: "length (ec_data ?mid) = 48" and dm: "ec_data ?mid = ?blk" using lb by simp_all
      have E: "EVP_EncodeUpdate ctx inp = (wrapped (held ctx @ inp),
          (ctx\<lparr>ec_data := ?blk, ec_data_used := 0\<rparr>)\<lparr>
            ec_data := (if leftover ?rest \<noteq> [] then put_data 0 (leftover ?rest) ?blk else ?blk),
            ec_data_used := length (leftover ?rest)\<rparr>)"
        using False ne ge nt e unfolding EVP_EncodeUpdate_def split
        by (simp add: Let_def put enc r del: append_assoc length_append)
      show ?thesis unfolding E fst_conv snd_conv split(2)
        using upd [OF length_leftover lm, of ?rest, unfolded dm] by (intro conjI refl)
    qed
  qed
  then show "fst (EVP_EncodeUpdate ctx inp) = wrapped (held ctx @ inp)"
    and "held (snd (EVP_EncodeUpdate ctx inp)) = leftover (held ctx @ inp)"
    and "enc_ok (snd (EVP_EncodeUpdate ctx inp))" by blast+
qed


text \<open>A whole run of the encoder over a list of calls.\<close>

fun encode_stream :: "evp_encode_ctx \<Rightarrow> u8 list list \<Rightarrow> u8 list" where
  "encode_stream ctx [] = fst (EVP_EncodeFinal ctx)"
| "encode_stream ctx (inp # inps) =
     (case EVP_EncodeUpdate ctx inp of (out, ctx) \<Rightarrow> out @ encode_stream ctx inps)"

lemma encode_final_eq: "enc_ok ctx \<Longrightarrow> fst (EVP_EncodeFinal ctx) = base64_lines (held ctx)"
proof -
  assume ok: "enc_ok ctx"
  then have "length (held ctx) = ec_data_used ctx" by (simp add: enc_ok_def held_def)
  then show ?thesis using ok
    by (auto simp: EVP_EncodeFinal_def base64_lines_def EVP_EncodeBlock_def Let_def enc_ok_def held_def)
qed

lemma encode_stream_eq:
  "enc_ok ctx \<Longrightarrow> list_all (\<lambda>x. length x < 2 ^ 30) inps \<Longrightarrow>
    encode_stream ctx inps = base64_lines (held ctx @ concat inps)"
proof (induction inps arbitrary: ctx)
  case Nil
  then show ?case by (simp add: encode_final_eq)
next
  case (Cons inp inps)
  then have inp: "length inp < 2 ^ 30" by simp
  note E = EVP_EncodeUpdate_eq [OF Cons.prems(1) inp]
  have "encode_stream ctx (inp # inps) =
      wrapped (held ctx @ inp) @ base64_lines (leftover (held ctx @ inp) @ concat inps)"
    using Cons.IH [OF E(3)] Cons.prems(2) E(1,2) by (simp add: split_beta)
  also have "\<dots> = base64_lines ((held ctx @ inp) @ concat inps)"
    unfolding base64_lines_def using wrapped_append [of "held ctx @ inp" "concat inps"]
      leftover_append [of "held ctx @ inp" "concat inps"] by simp
  finally show ?case by simp
qed

text \<open>C23: the streaming encoder: however the data is cut into \<open>EVP_EncodeUpdate\<close> calls (of less than
  \<open>2^30\<close> bytes each, so that no \<open>int\<close> length overflows), the outputs of all calls together with
  \<open>EVP_EncodeFinal\<close> are the base64 of the whole data in lines of 48 bytes.\<close>

theorem base64_encode_stream:
  assumes "list_all (\<lambda>x. length x < 2 ^ 30) inps"
  shows "encode_stream EVP_EncodeInit inps = base64_lines (concat inps)"
proof -
  have "enc_ok EVP_EncodeInit" "held EVP_EncodeInit = []"
    by (simp_all add: enc_ok_def held_def EVP_EncodeInit_def)
  then show ?thesis using encode_stream_eq assms by simp
qed

lemma base64_encode_stream_witness:
  "encode_stream EVP_EncodeInit [[1], [], replicate 50 7] = base64_lines (1 # replicate 50 7)"
  using base64_encode_stream [of "[[1], [], replicate 50 7]"] by simp

section \<open>Decoding\<close>

lemma decode_loop_out:
  "decode_update_loop ctx out xs =
    (case decode_update_loop ctx [] xs of (ok, o', ctx') \<Rightarrow> (ok, out @ o', ctx'))"
proof (induction xs arbitrary: ctx out)
  case (Cons c cs)
  let ?ctx = "ctx\<lparr>ec_data := (ec_data ctx)[ec_data_used ctx := c], ec_data_used := ec_data_used ctx + 1\<rparr>"
  let ?quad = "base64_decode_quad (ec_data ?ctx ! 0) (ec_data ?ctx ! 1) (ec_data ?ctx ! 2) (ec_data ?ctx ! 3)"
  consider "is_space_nl c" | "\<not> is_space_nl c" "eof_seen ctx"
    | "\<not> is_space_nl c" "\<not> eof_seen ctx" "ec_data_used ctx \<noteq> 3"
    | "\<not> is_space_nl c" "\<not> eof_seen ctx" "ec_data_used ctx = 3" by blast
  then show ?case
  proof cases
    case 1
    then show ?thesis using Cons.IH [of ctx out] by simp
  next
    case 3
    then show ?thesis using Cons.IH [of ?ctx out] by (simp add: Let_def)
  next
    case 4
    show ?thesis
    proof (cases ?quad)
      case None
      then show ?thesis using 4 by (simp add: Let_def)
    next
      case (Some bytes)
      let ?next = "?ctx\<lparr>ec_data_used := 0, eof_seen := eof_seen ?ctx \<or> length bytes < 3\<rparr>"
      show ?thesis using 4 Some Cons.IH [of ?next "out @ bytes"] Cons.IH [of ?next bytes]
        by (simp add: Let_def split_beta)
    qed
  qed simp
qed simp

lemma decode_loop_append:
  "decode_update_loop ctx out (xs @ ys) =
    (case decode_update_loop ctx out xs of
       (True, out', ctx') \<Rightarrow> decode_update_loop ctx' out' ys
     | (False, out', ctx') \<Rightarrow> (False, out', ctx'))"
  by (induction ctx out xs rule: decode_update_loop.induct) (auto simp: Let_def split: option.splits)


definition dec_ready :: "evp_encode_ctx \<Rightarrow> bool" where
  "dec_ready ctx \<longleftrightarrow> ec_data_used ctx = 0 \<and> length (ec_data ctx) = 48 \<and> \<not> eof_seen ctx \<and> \<not> error_encountered ctx"

text \<open>Four characters of the alphabet, on a context that holds none.\<close>

lemma decode_loop_quad:
  assumes r: "dec_ready ctx" and sp: "\<not> is_space_nl a" "\<not> is_space_nl b" "\<not> is_space_nl c" "\<not> is_space_nl d"
    and q: "base64_decode_quad a b c d = Some bytes" and len: "length bytes \<le> 3"
  shows "\<exists>ctx'. decode_update_loop ctx out (a # b # c # d # rest) = decode_update_loop ctx' (out @ bytes) rest \<and>
    ec_data_used ctx' = 0 \<and> length (ec_data ctx') = 48 \<and> \<not> error_encountered ctx' \<and>
    eof_seen ctx' = (length bytes < 3)"
proof -
  have u: "ec_data_used ctx = 0" and l: "length (ec_data ctx) = 48" and e: "\<not> eof_seen ctx" "\<not> error_encountered ctx"
    using r by (auto simp: dec_ready_def)
  let ?data = "(ec_data ctx)[0 := a, 1 := b, 2 := c, 3 := d]"
  have d: "?data ! 0 = a" "?data ! 1 = b" "?data ! 2 = c" "?data ! 3 = d" using l by simp_all
  have "decode_update_loop ctx out (a # b # c # d # rest) =
    decode_update_loop (ctx\<lparr>ec_data := ?data, ec_data_used := 0, eof_seen := length bytes < 3\<rparr>) (out @ bytes) rest"
    using sp u e q d by (simp add: Let_def numeral_2_eq_2 numeral_3_eq_3)
  then show ?thesis using l e by (intro exI conjI) (assumption | simp)+
qed

lemma decode_loop_block:
  assumes "dec_ready ctx"
  shows "\<exists>ctx'. decode_update_loop ctx out (encode_loop xs @ rest) = decode_update_loop ctx' (out @ xs) rest \<and>
    ec_data_used ctx' = 0 \<and> length (ec_data ctx') = 48 \<and> \<not> error_encountered ctx' \<and>
    (length xs mod 3 = 0 \<longrightarrow> dec_ready ctx')"
  using assms
proof (induction xs arbitrary: ctx out rule: encode_loop.induct)
  case 1
  then show ?case by (intro exI [of _ ctx]) (simp add: dec_ready_def)
next
  case (2 a)
  note q = quad_one [of a, unfolded enc3_0]
  have "\<not> is_space_nl 61" by (simp add: is_space_nl_def)
  from decode_loop_quad [OF 2 conv_not_special(2) conv_not_special(2) this this q, of out rest]
  show ?case unfolding encode_loop.simps Let_def append.simps
    by (simp del: decode_update_loop.simps) blast
next
  case (3 a b)
  note q = quad_two [of a b, unfolded enc3_0]
  have "\<not> is_space_nl 61" by (simp add: is_space_nl_def)
  from decode_loop_quad [OF 3 conv_not_special(2) conv_not_special(2) conv_not_special(2) this q, of out rest]
  show ?case unfolding encode_loop.simps Let_def append.simps
    by (simp del: decode_update_loop.simps) blast
next
  case (4 a b c xs)
  from decode_loop_quad [OF 4(2) conv_not_special(2) conv_not_special(2) conv_not_special(2) conv_not_special(2)
      quad_full [of a b c], of out "encode_loop xs @ rest"]
  obtain ctx1 where c1: "decode_update_loop ctx out (encode_loop (a # b # c # xs) @ rest) =
      decode_update_loop ctx1 (out @ [a, b, c]) (encode_loop xs @ rest)" and r1: "dec_ready ctx1"
    unfolding encode_loop.simps Let_def append.simps dec_ready_def
    by (simp del: decode_update_loop.simps) blast
  have m: "length (a # b # c # xs) mod 3 = length xs mod 3" by simp
  from 4(1) [OF refl r1, of "out @ [a, b, c]"] show ?case unfolding c1 m by simp
qed

lemma decode_loop_wrapped:
  "dec_ready ctx \<Longrightarrow> \<exists>ctx'. decode_update_loop ctx out (wrapped xs @ rest) =
     decode_update_loop ctx' (out @ take (length xs - length (leftover xs)) xs) rest \<and> dec_ready ctx'"
proof (induction xs arbitrary: ctx out rule: wrapped.induct)
  case (1 xs)
  show ?case
  proof (cases "length xs < 48")
    case True
    then show ?thesis using 1(2) by auto
  next
    case False
    have m: "length (take 48 xs) mod 3 = 0" using False by (simp add: min_absorb2)
    from decode_loop_block [OF 1(2), of out "take 48 xs" "[10] @ wrapped (drop 48 xs) @ rest"] m
    obtain ctx1 where c1: "decode_update_loop ctx out (encode_loop (take 48 xs) @ [10] @ wrapped (drop 48 xs) @ rest) =
        decode_update_loop ctx1 (out @ take 48 xs) ([10] @ wrapped (drop 48 xs) @ rest)" and r1: "dec_ready ctx1"
      by blast
    have nl: "decode_update_loop ctx1 o' ([10] @ ys) = decode_update_loop ctx1 o' ys" for o' ys
      by (simp add: is_space_nl_def)
    have ll: "length (leftover (drop 48 xs)) \<le> length xs - 48"
    proof -
      have "length (leftover ys) \<le> length ys" for ys
        by (induction ys rule: leftover.induct) (metis diff_le_self leftover.simps length_drop order.trans order_refl)
      from this [of "drop 48 xs"] show ?thesis by simp
    qed
    have t: "take 48 xs @ take (length (drop 48 xs) - length (leftover (drop 48 xs))) (drop 48 xs) =
        take (length xs - length (leftover xs)) xs"
    proof -
      have "length xs - length (leftover xs) = 48 + (length (drop 48 xs) - length (leftover (drop 48 xs)))"
        using False ll by (simp add: leftover_more)
      then show ?thesis by (simp only: take_add)
    qed
    from 1(1) [OF False r1, of "out @ take 48 xs"]
    show ?thesis using False t by (simp add: wrapped_more c1 [simplified] nl [simplified])
  qed
qed


lemma leftover_suffix: "take (length xs - length (leftover xs)) xs @ leftover xs = xs"
proof -
  have "\<exists>ys. xs = ys @ leftover xs"
  proof (induction xs rule: leftover.induct)
    case (1 xs)
    show ?case
    proof (cases "length xs < 48")
      case False
      then obtain ys where "drop 48 xs = ys @ leftover (drop 48 xs)" using 1 by blast
      then have "xs = (take 48 xs @ ys) @ leftover xs" using False
        by (metis append.assoc append_take_drop_id leftover_more not_less)
      then show ?thesis by blast
    qed simp
  qed
  then obtain ys where ys: "xs = ys @ leftover xs" by blast
  then have "length xs - length (leftover xs) = length ys" by (metis add_diff_cancel_right' length_append)
  then show ?thesis using ys by (metis append_eq_conv_conj)
qed

lemma decode_loop_lines:
  assumes r: "dec_ready ctx"
  shows "\<exists>ctx'. decode_update_loop ctx [] (base64_lines xs) = (True, xs, ctx') \<and>
    ec_data_used ctx' = 0 \<and> \<not> error_encountered ctx'"
proof -
  let ?tl = "if leftover xs = [] then [] else encode_loop (leftover xs) @ [10]"
  let ?done = "take (length xs - length (leftover xs)) xs"
  from decode_loop_wrapped [OF r, of "[]" xs ?tl]
  obtain ctx1 where c1: "decode_update_loop ctx [] (base64_lines xs) = decode_update_loop ctx1 ?done ?tl"
    and r1: "dec_ready ctx1" unfolding base64_lines_def by auto
  show ?thesis
  proof (cases "leftover xs = []")
    case True
    then have "?done = xs" using leftover_suffix [of xs] by simp
    then show ?thesis using c1 r1 True by (simp add: dec_ready_def)
  next
    case False
    from decode_loop_block [OF r1, of ?done "leftover xs" "[10]"]
    obtain ctx2 where "decode_update_loop ctx1 ?done (encode_loop (leftover xs) @ [10]) =
        decode_update_loop ctx2 (?done @ leftover xs) [10]"
      and c2: "ec_data_used ctx2 = 0" "\<not> error_encountered ctx2" by blast
    then have "decode_update_loop ctx [] (base64_lines xs) = decode_update_loop ctx2 xs [10]"
      using c1 False leftover_suffix [of xs] by simp
    moreover have "decode_update_loop ctx2 xs [10] = (True, xs, ctx2)" by (simp add: is_space_nl_def)
    ultimately show ?thesis using c2 by auto
  qed
qed

fun decode_stream :: "evp_encode_ctx \<Rightarrow> u8 list list \<Rightarrow> u8 list option" where
  "decode_stream ctx [] = (if EVP_DecodeFinal ctx = 1 then Some [] else None)"
| "decode_stream ctx (inp # inps) =
     (case EVP_DecodeUpdate ctx inp of
        (ret, out, ctx) \<Rightarrow>
          if ret = -1 then None
          else (case decode_stream ctx inps of None \<Rightarrow> None | Some out' \<Rightarrow> Some (out @ out')))"

lemma decode_loop_error:
  "decode_update_loop ctx out xs = (True, out', ctx') \<Longrightarrow> error_encountered ctx' = error_encountered ctx"
  by (induction ctx out xs rule: decode_update_loop.induct)
    (auto simp: Let_def split: if_splits option.splits)

lemma decode_stream_eq:
  "decode_update_loop ctx [] (concat inps) = (True, out, ctx') \<Longrightarrow> \<not> error_encountered ctx \<Longrightarrow>
    ec_data_used ctx' = 0 \<Longrightarrow> length out \<le> 0x7fffffff \<Longrightarrow> decode_stream ctx inps = Some out"
proof (induction inps arbitrary: ctx out)
  case Nil
  then show ?case by (auto simp: EVP_DecodeFinal_def)
next
  case (Cons inp inps)
  obtain ok out1 ctx1 where l1: "decode_update_loop ctx [] inp = (ok, out1, ctx1)" by (metis prod_cases3)
  have ok and l2: "decode_update_loop ctx1 out1 (concat inps) = (True, out, ctx')"
    using Cons.prems(1) l1 by (auto simp: decode_loop_append split: bool.splits)
  obtain out2 where l3: "decode_update_loop ctx1 [] (concat inps) = (True, out2, ctx')" and o: "out = out1 @ out2"
    using l2 unfolding decode_loop_out [of ctx1 out1] by (auto split: prod.splits)
  have e: "\<not> error_encountered ctx1" using decode_loop_error [of ctx "[]" inp out1 ctx1] l1 \<open>ok\<close> Cons.prems(2) by simp
  have "decode_stream ctx1 inps = Some out2"
    by (rule Cons.IH [OF l3 e Cons.prems(3)]) (use Cons.prems(4) o in simp)
  moreover have "length out1 \<le> 0x7fffffff" using Cons.prems(4) o by simp
  ultimately show ?case using l1 \<open>ok\<close> Cons.prems(2) o by (simp add: EVP_DecodeUpdate_def)
qed

text \<open>C24: streaming round trip: the output of a streaming encoder run, cut in any way into
  \<open>EVP_DecodeUpdate\<close> calls, is decoded without an error to the data the encoder was given,
  and \<open>EVP_DecodeFinal\<close> returns 1.\<close>

theorem base64_stream_roundtrip:
  assumes "list_all (\<lambda>x. length x < 2 ^ 30) inps" and "length (concat inps) \<le> 0x7fffffff"
    and "concat pieces = encode_stream EVP_EncodeInit inps"
  shows "decode_stream EVP_DecodeInit pieces = Some (concat inps)"
proof -
  have ok: "enc_ok EVP_EncodeInit" "held EVP_EncodeInit = []" and r: "dec_ready EVP_DecodeInit"
    by (simp_all add: enc_ok_def held_def EVP_EncodeInit_def dec_ready_def EVP_DecodeInit_def)
  have "concat pieces = base64_lines (concat inps)" using encode_stream_eq [OF ok(1) assms(1)] ok(2) assms(3) by simp
  with decode_loop_lines [OF r, of "concat inps"]
  obtain ctx' where "decode_update_loop EVP_DecodeInit [] (concat pieces) = (True, concat inps, ctx')"
    and "ec_data_used ctx' = 0" by auto
  then show ?thesis using decode_stream_eq r assms(2) by (simp add: dec_ready_def)
qed

lemma base64_stream_roundtrip_witness:
  "decode_stream EVP_DecodeInit [take 3 (encode_stream EVP_EncodeInit [[1, 2], [3, 4]]),
     drop 3 (encode_stream EVP_EncodeInit [[1, 2], [3, 4]])] = Some [1, 2, 3, 4]"
proof -
  have "concat [take 3 (encode_stream EVP_EncodeInit [[1, 2], [3, 4]]),
     drop 3 (encode_stream EVP_EncodeInit [[1, 2], [3, 4]])] = encode_stream EVP_EncodeInit [[1, 2], [3, 4]]"
    by (simp del: encode_stream.simps)
  from base64_stream_roundtrip [OF _ _ this] show ?thesis
    by (simp del: encode_stream.simps decode_stream.simps)
qed

end
