(* ===== verification/Bio_Pair.thy ===== *)
theory Bio_Pair
  imports Mem_Buf
begin

text \<open>
  BIO pairs of BoringSSL (crypto/bio/pair.c, with \<open>BIO_read\<close> and \<open>BIO_write\<close> of crypto/bio/bio.c):
  two connected BIOs, each with a ring buffer that it writes and its peer reads.

  BIOs live in a world that maps identities to BIOs; \<open>peer\<close> is the identity of the other BIO. The
  \<open>bio_bio_st\<close> behind \<open>bio->ptr\<close> is part of the BIO (\<open>BIO_new\<close> hands out no BIO without one). Sizes
  are those of allocated objects, so sums of two of them do not wrap and are natural numbers. A
  return value of -1 comes with a retry flag or the error \<open>BIO_R_BROKEN_PIPE\<close>.
\<close>

record bio_bio_st =
  bb_peer :: "nat option"
  bb_closed :: bool
  bb_len :: nat
  bb_offset :: nat
  bb_size :: nat
  bb_buf :: "u8 list option"
  bb_request :: nat

datatype bio_retry = No_retry | Retry_read | Retry_write

record bio =
  bio_init :: bool
  bio_shutdown :: int
  bio_retry_flags :: bio_retry
  bio_num_read :: size_t
  bio_num_write :: size_t
  bio_ptr :: bio_bio_st

type_synonym bio_world = "nat \<Rightarrow> bio"

definition set_ptr :: "nat \<Rightarrow> bio_bio_st \<Rightarrow> bio_world \<Rightarrow> bio_world" where
  "set_ptr i b w = w(i := (w i)\<lparr>bio_ptr := b\<rparr>)"

definition set_retry :: "nat \<Rightarrow> bio_retry \<Rightarrow> bio_world \<Rightarrow> bio_world" where
  "set_retry i r w = w(i := (w i)\<lparr>bio_retry_flags := r\<rparr>)"

section \<open>Creation and destruction\<close>

definition bio_new :: bio_bio_st where
  "bio_new = \<lparr>bb_peer = None, bb_closed = False, bb_len = 0, bb_offset = 0, bb_size = 17 * 1024,
     bb_buf = None, bb_request = 0\<rparr>"

definition bio_destroy_pair :: "nat \<Rightarrow> bio_world \<Rightarrow> bio_world" where
  "bio_destroy_pair i w =
     (case bb_peer (bio_ptr (w i)) of
        None \<Rightarrow> w
      | Some j \<Rightarrow>
          (let w = w(j := (w j)\<lparr>bio_init := False,
                   bio_ptr := (bio_ptr (w j))\<lparr>bb_peer := None, bb_len := 0, bb_offset := 0\<rparr>\<rparr>)
           in w(i := (w i)\<lparr>bio_init := False,
                   bio_ptr := (bio_ptr (w i))\<lparr>bb_peer := None, bb_len := 0, bb_offset := 0\<rparr>\<rparr>)))"

text \<open>\<open>bio_free\<close> leaves the pair first; the structure it releases is unreachable from then on.\<close>

definition bio_free :: "nat option \<Rightarrow> bio_world \<Rightarrow> bool \<times> bio_world" where
  "bio_free bio w =
     (case bio of
        None \<Rightarrow> (False, w)
      | Some i \<Rightarrow> (True, if bb_peer (bio_ptr (w i)) \<noteq> None then bio_destroy_pair i w else w))"

definition bio_make_pair :: "malloc_fn \<Rightarrow> nat \<Rightarrow> nat \<Rightarrow> nat \<Rightarrow> nat \<Rightarrow> bio_world \<Rightarrow> bool \<times> bio_world" where
  "bio_make_pair malloc i1 i2 writebuf1_len writebuf2_len w =
     (if bb_peer (bio_ptr (w i1)) \<noteq> None \<or> bb_peer (bio_ptr (w i2)) \<noteq> None then (False, w)
      else
        let alloc = (\<lambda>i writebuf_len w.
              let b = bio_ptr (w i) in
              if bb_buf b = None then
                let sz = (if writebuf_len \<noteq> 0 then writebuf_len else bb_size b) in
                case malloc (word_of_nat sz) of
                  None \<Rightarrow> (False, set_ptr i (b\<lparr>bb_size := sz\<rparr>) w)
                | Some blk \<Rightarrow>
                    (True, set_ptr i (b\<lparr>bb_size := sz, bb_buf := Some blk, bb_len := 0, bb_offset := 0\<rparr>) w)
              else (True, w))
        in case alloc i1 writebuf1_len w of
             (False, w) \<Rightarrow> (False, w)
           | (True, w) \<Rightarrow>
               (case alloc i2 writebuf2_len w of
                  (False, w) \<Rightarrow> (False, w)
                | (True, w) \<Rightarrow>
                    (let w = set_ptr i1 ((bio_ptr (w i1))\<lparr>bb_peer := Some i2, bb_closed := False, bb_request := 0\<rparr>) w;
                         w = set_ptr i2 ((bio_ptr (w i2))\<lparr>bb_peer := Some i1, bb_closed := False, bb_request := 0\<rparr>) w
                     in (True, w(i1 := (w i1)\<lparr>bio_init := True\<rparr>, i2 := (w i2)\<lparr>bio_init := True\<rparr>)))))"

text \<open>\<open>BIO_new_bio_pair\<close> for two fresh identities; \<open>ok1\<close> and \<open>ok2\<close> say whether \<open>BIO_new\<close> succeeded.\<close>

definition fresh_bio :: bio where
  "fresh_bio = \<lparr>bio_init = False, bio_shutdown = 1, bio_retry_flags = No_retry, bio_num_read = 0,
     bio_num_write = 0, bio_ptr = bio_new\<rparr>"

definition BIO_new_bio_pair ::
    "malloc_fn \<Rightarrow> bool \<Rightarrow> bool \<Rightarrow> nat \<Rightarrow> nat \<Rightarrow> nat \<Rightarrow> nat \<Rightarrow> bio_world \<Rightarrow> bool \<times> bio_world" where
  "BIO_new_bio_pair malloc ok1 ok2 i1 i2 writebuf1_len writebuf2_len w =
     (if \<not> ok1 \<or> \<not> ok2 then (False, w)
      else bio_make_pair malloc i1 i2 writebuf1_len writebuf2_len (w(i1 := fresh_bio, i2 := fresh_bio)))"

section \<open>Reading\<close>

text \<open>The do-while loop of \<open>bio_read\<close>: None would be a loop that does not end.\<close>

partial_function (option) ring_read ::
    "bio_bio_st \<Rightarrow> u8 list \<Rightarrow> nat \<Rightarrow> u8 list \<Rightarrow> (u8 list \<times> bio_bio_st) option" where
  "ring_read b buf rest out =
     (let chunk = (if bb_offset b + rest \<le> bb_size b then rest else bb_size b - bb_offset b);
          out = out @ take chunk (drop (bb_offset b) buf);
          b = b\<lparr>bb_len := bb_len b - chunk\<rparr>;
          b = (if bb_len b \<noteq> 0 then
                 (let off = bb_offset b + chunk in b\<lparr>bb_offset := if off = bb_size b then 0 else off\<rparr>)
               else b\<lparr>bb_offset := 0\<rparr>);
          rest = rest - chunk
      in if rest = 0 then Some (out, b) else ring_read b buf rest out)"

text \<open>The result: the return value (None for a loop that does not end), the bytes written to \<open>buf\<close>.
  A null destination is \<open>buf_null\<close>.\<close>

definition bio_read :: "nat \<Rightarrow> bool \<Rightarrow> nat \<Rightarrow> bio_world \<Rightarrow> (int \<times> u8 list \<times> bio_world) option" where
  "bio_read i buf_null want w =
     (let w = set_retry i No_retry w in
      if \<not> bio_init (w i) then Some (0, [], w)
      else case bb_peer (bio_ptr (w i)) of
        None \<Rightarrow> Some (0, [], w)
      | Some j \<Rightarrow>
          (let peer_b = (bio_ptr (w j))\<lparr>bb_request := 0\<rparr>;
               w = set_ptr j peer_b w
           in if buf_null \<or> want = 0 then Some (0, [], w)
              else if bb_len peer_b = 0 then
                if bb_closed peer_b then Some (0, [], w)
                else Some (-1, [], set_ptr j
                       (peer_b\<lparr>bb_request := if want \<le> bb_size peer_b then want else bb_size peer_b\<rparr>)
                       (set_retry i Retry_read w))
              else
                let sz = (if bb_len peer_b < want then bb_len peer_b else want) in
                (case ring_read peer_b (the (bb_buf peer_b)) sz [] of
                   None \<Rightarrow> None
                 | Some (out, peer_b) \<Rightarrow> Some (int sz, out, set_ptr j peer_b w))))"

section \<open>Writing\<close>

partial_function (option) ring_write :: "bio_bio_st \<Rightarrow> u8 list \<Rightarrow> u8 list \<Rightarrow> (u8 list \<times> bio_bio_st) option" where
  "ring_write b ring bs =
     (let rest = length bs;
          write_offset = bb_offset b + bb_len b;
          write_offset = (if bb_size b \<le> write_offset then write_offset - bb_size b else write_offset);
          chunk = (if write_offset + rest \<le> bb_size b then rest else bb_size b - write_offset);
          ring = take write_offset ring @ take chunk bs @ drop (write_offset + chunk) ring;
          b = b\<lparr>bb_len := bb_len b + chunk\<rparr>
      in if rest - chunk = 0 then Some (ring, b) else ring_write b ring (drop chunk bs))"

definition bio_write :: "nat \<Rightarrow> bool \<Rightarrow> u8 list \<Rightarrow> bio_world \<Rightarrow> (int \<times> bio_world) option" where
  "bio_write i buf_null bs w =
     (let w = set_retry i No_retry w in
      if \<not> bio_init (w i) \<or> buf_null \<or> bs = [] then Some (0, w)
      else
        let b = (bio_ptr (w i))\<lparr>bb_request := 0\<rparr>;
            w = set_ptr i b w
        in if bb_closed b then Some (-1, w)
           else if bb_len b = bb_size b then Some (-1, set_retry i Retry_write w)
           else
             let num = (if bb_size b - bb_len b < length bs then bb_size b - bb_len b else length bs) in
             (case ring_write b (the (bb_buf b)) (take num bs) of
                None \<Rightarrow> None
              | Some (ring, b) \<Rightarrow> Some (int num, set_ptr i (b\<lparr>bb_buf := Some ring\<rparr>) w)))"

section \<open>Control\<close>

datatype bio_cmd =
    BIO_C_GET_WRITE_BUF_SIZE | BIO_C_GET_WRITE_GUARANTEE | BIO_C_GET_READ_REQUEST
  | BIO_C_RESET_READ_REQUEST | BIO_C_SHUTDOWN_WR | BIO_CTRL_GET_CLOSE | BIO_CTRL_SET_CLOSE int
  | BIO_CTRL_PENDING | BIO_CTRL_WPENDING | BIO_CTRL_FLUSH | BIO_CTRL_EOF "nat option" | Other_cmd

definition bio_ctrl :: "nat \<Rightarrow> bio_cmd \<Rightarrow> bio_world \<Rightarrow> int \<times> bio_world" where
  "bio_ctrl i cmd w =
     (let b = bio_ptr (w i) in
      case cmd of
        BIO_C_GET_WRITE_BUF_SIZE \<Rightarrow> (int (bb_size b), w)
      | BIO_C_GET_WRITE_GUARANTEE \<Rightarrow>
          (if bb_peer b = None \<or> bb_closed b then 0 else int (bb_size b) - int (bb_len b), w)
      | BIO_C_GET_READ_REQUEST \<Rightarrow> (int (bb_request b), w)
      | BIO_C_RESET_READ_REQUEST \<Rightarrow> (1, set_ptr i (b\<lparr>bb_request := 0\<rparr>) w)
      | BIO_C_SHUTDOWN_WR \<Rightarrow> (1, set_ptr i (b\<lparr>bb_closed := True\<rparr>) w)
      | BIO_CTRL_GET_CLOSE \<Rightarrow> (bio_shutdown (w i), w)
      | BIO_CTRL_SET_CLOSE num \<Rightarrow> (1, w(i := (w i)\<lparr>bio_shutdown := num\<rparr>))
      | BIO_CTRL_PENDING \<Rightarrow> ((case bb_peer b of None \<Rightarrow> 0 | Some j \<Rightarrow> int (bb_len (bio_ptr (w j)))), w)
      | BIO_CTRL_WPENDING \<Rightarrow> ((if bb_buf b = None then 0 else int (bb_len b)), w)
      | BIO_CTRL_FLUSH \<Rightarrow> (1, w)
      | BIO_CTRL_EOF other \<Rightarrow>
          ((case other of
              None \<Rightarrow> 1
            | Some j \<Rightarrow> of_bool (bb_len (bio_ptr (w j)) = 0 \<and> bb_closed (bio_ptr (w j)))), w)
      | Other_cmd \<Rightarrow> (0, w))"

definition BIO_ctrl_get_read_request :: "nat \<Rightarrow> bio_world \<Rightarrow> int" where
  "BIO_ctrl_get_read_request i w = fst (bio_ctrl i BIO_C_GET_READ_REQUEST w)"

definition BIO_ctrl_get_write_guarantee :: "nat \<Rightarrow> bio_world \<Rightarrow> int" where
  "BIO_ctrl_get_write_guarantee i w = fst (bio_ctrl i BIO_C_GET_WRITE_GUARANTEE w)"

definition BIO_shutdown_wr :: "nat \<Rightarrow> bio_world \<Rightarrow> int \<times> bio_world" where
  "BIO_shutdown_wr i = bio_ctrl i BIO_C_SHUTDOWN_WR"

section \<open>The generic entry points\<close>

definition BIO_read :: "nat \<Rightarrow> int \<Rightarrow> bio_world \<Rightarrow> (int \<times> u8 list \<times> bio_world) option" where
  "BIO_read i len w =
     (if \<not> bio_init (w i) then Some (-2, [], w)
      else if len \<le> 0 then Some (0, [], w)
      else (case bio_read i False (nat len) w of
              None \<Rightarrow> None
            | Some (ret, out, w) \<Rightarrow>
                Some (ret, out,
                  if 0 < ret then w(i := (w i)\<lparr>bio_num_read := bio_num_read (w i) + word_of_int ret\<rparr>) else w)))"

definition BIO_write :: "nat \<Rightarrow> u8 list \<Rightarrow> bio_world \<Rightarrow> (int \<times> bio_world) option" where
  "BIO_write i inp w =
     (if \<not> bio_init (w i) then Some (-2, w)
      else if inp = [] then Some (0, w)
      else (case bio_write i False inp w of
              None \<Rightarrow> None
            | Some (ret, w) \<Rightarrow>
                Some (ret,
                  if 0 < ret then w(i := (w i)\<lparr>bio_num_write := bio_num_write (w i) + word_of_int ret\<rparr>) else w)))"

end
