(* ===== verification/Bio_Pair_Spec.thy ===== *)
theory Bio_Pair_Spec
  imports Bio_Pair
begin

text \<open>
  A BIO pair is two FIFO byte queues. The ring buffer of a BIO holds the queue \<open>contents\<close>; the loops
  of \<open>bio_read\<close> and \<open>bio_write\<close> take from its front and append to its back. The locale
  \<open>byte_pipe\<close> states that contract for any reader and writer of a shared state, derives that what is
  read is always a prefix of what was written, and is interpreted on both directions of a pair.
\<close>

section \<open>The ring buffer\<close>

definition ring_contents :: "nat \<Rightarrow> nat \<Rightarrow> u8 list \<Rightarrow> u8 list" where
  "ring_contents off len buf = take len (drop off buf @ take off buf)"

definition ring_ok :: "bio_bio_st \<Rightarrow> u8 list \<Rightarrow> bool" where
  "ring_ok b buf \<longleftrightarrow> length buf = bb_size b \<and> bb_len b \<le> bb_size b \<and> bb_offset b < bb_size b"

abbreviation contents_of :: "bio_bio_st \<Rightarrow> u8 list \<Rightarrow> u8 list" where
  "contents_of b buf \<equiv> ring_contents (bb_offset b) (bb_len b) buf"

lemma length_contents: "ring_ok b buf \<Longrightarrow> length (contents_of b buf) = bb_len b"
  by (auto simp: ring_ok_def ring_contents_def)

lemma contents_advance:
  assumes "off + n \<le> length buf" and "n \<le> len" and "len \<le> length buf"
  shows "take n (ring_contents off len buf) = take n (drop off buf)"
    and "drop n (ring_contents off len buf) = ring_contents (if off + n = length buf then 0 else off + n) (len - n) buf"
proof -
  show "take n (ring_contents off len buf) = take n (drop off buf)"
    using assms by (simp add: ring_contents_def min_absorb1)
  have "drop n (ring_contents off len buf) = take (len - n) (drop (off + n) buf @ take off buf)"
    using assms by (simp add: ring_contents_def drop_take add.commute)
  also have "\<dots> = ring_contents (if off + n = length buf then 0 else off + n) (len - n) buf"
  proof (cases "off + n = length buf")
    case True
    then show ?thesis using assms by (simp add: ring_contents_def min_absorb1)
  next
    case False
    have "len - n \<le> length (drop (off + n) buf @ take off buf)" using assms by simp
    moreover have "take (off + n) buf = take off buf @ take n (drop off buf)" by (rule take_add)
    ultimately show ?thesis using False by (simp add: ring_contents_def)
  qed
  finally show "drop n (ring_contents off len buf) =
    ring_contents (if off + n = length buf then 0 else off + n) (len - n) buf" .
qed

text \<open>The state after \<open>n\<close> bytes were taken from the front.\<close>

definition ring_taken :: "nat \<Rightarrow> bio_bio_st \<Rightarrow> bio_bio_st \<Rightarrow> bool" where
  "ring_taken n b b' \<longleftrightarrow> bb_len b' = bb_len b - n \<and> bb_size b' = bb_size b \<and> bb_buf b' = bb_buf b \<and>
     bb_peer b' = bb_peer b \<and> bb_closed b' = bb_closed b \<and> bb_request b' = bb_request b"

lemma ring_read_straight:
  assumes ok: "ring_ok b buf" and n: "n \<le> bb_len b" and fits: "bb_offset b + n \<le> bb_size b"
  shows "\<exists>b'. ring_read b buf n out = Some (out @ take n (contents_of b buf), b') \<and> ring_ok b' buf \<and>
    contents_of b' buf = drop n (contents_of b buf) \<and> ring_taken n b b'"
proof -
  have l: "length buf = bb_size b" "bb_len b \<le> length buf" "bb_offset b < bb_size b" using ok by (auto simp: ring_ok_def)
  let ?off = "if bb_len b = n then 0 else if bb_offset b + n = bb_size b then 0 else bb_offset b + n"
  let ?b = "b\<lparr>bb_len := bb_len b - n, bb_offset := ?off\<rparr>"
  have c: "take n (contents_of b buf) = take n (drop (bb_offset b) buf)"
    "drop n (contents_of b buf) =
      ring_contents (if bb_offset b + n = length buf then 0 else bb_offset b + n) (bb_len b - n) buf"
    using contents_advance [of "bb_offset b" n buf "bb_len b"] fits n l by simp_all
  have "ring_read b buf n out = Some (out @ take n (drop (bb_offset b) buf), ?b)"
    using fits n by (subst ring_read.simps) (auto simp: Let_def)
  moreover have "contents_of ?b buf = drop n (contents_of b buf)"
    unfolding c(2) using l n by (auto simp: ring_contents_def)
  moreover have "ring_ok ?b buf" using ok fits by (auto simp: ring_ok_def)
  ultimately show ?thesis unfolding c(1) by (intro exI [of _ ?b]) (simp add: ring_taken_def)
qed

lemma ring_read_ok:
  assumes ok: "ring_ok b buf" and n: "n \<le> bb_len b"
  shows "\<exists>b'. ring_read b buf n [] = Some (take n (contents_of b buf), b') \<and> ring_ok b' buf \<and>
    contents_of b' buf = drop n (contents_of b buf) \<and> ring_taken n b b'"
proof (cases "bb_offset b + n \<le> bb_size b")
  case True
  from ring_read_straight [OF ok n True, of "[]"] show ?thesis by simp
next
  case False
  have l: "length buf = bb_size b" "bb_len b \<le> length buf" "bb_offset b < bb_size b" using ok by (auto simp: ring_ok_def)
  let ?c = "bb_size b - bb_offset b"
  let ?b = "b\<lparr>bb_len := bb_len b - ?c, bb_offset := 0\<rparr>"
  have cn: "?c < n" "0 < ?c" using False l by simp_all
  have st: "take ?c (contents_of b buf) = take ?c (drop (bb_offset b) buf)"
    "drop ?c (contents_of b buf) = contents_of ?b buf"
    using contents_advance [of "bb_offset b" ?c buf "bb_len b"] l n cn by auto
  have "bb_len b - ?c \<noteq> 0" using n cn by simp
  then have step: "ring_read b buf n [] = ring_read ?b buf (n - ?c) (take ?c (drop (bb_offset b) buf))"
    using False cn l by (subst ring_read.simps) (simp add: Let_def)
  have ok1: "ring_ok ?b buf" using ok l by (auto simp: ring_ok_def)
  have n1: "n - ?c \<le> bb_len ?b" using n by simp
  have f1: "bb_offset ?b + (n - ?c) \<le> bb_size ?b" using n l by simp
  from ring_read_straight [OF ok1 n1 f1, of "take ?c (drop (bb_offset b) buf)"]
  obtain b' where b': "ring_read ?b buf (n - ?c) (take ?c (drop (bb_offset b) buf)) =
      Some (take ?c (drop (bb_offset b) buf) @ take (n - ?c) (contents_of ?b buf), b')"
    "ring_ok b' buf" "contents_of b' buf = drop (n - ?c) (contents_of ?b buf)" "ring_taken (n - ?c) ?b b'"
    by blast
  have "take ?c (drop (bb_offset b) buf) @ take (n - ?c) (contents_of ?b buf) = take n (contents_of b buf)"
    unfolding st [symmetric] using cn by (metis le_add_diff_inverse less_imp_le take_add)
  moreover have "drop (n - ?c) (contents_of ?b buf) = drop n (contents_of b buf)"
    unfolding st(2) [symmetric] using cn by simp
  moreover have "ring_taken n b b'" using b'(4) cn by (auto simp: ring_taken_def)
  ultimately show ?thesis using b' step by auto
qed

text \<open>The state after \<open>n\<close> bytes were appended.\<close>

lemma ring_write_straight:
  assumes ok: "ring_ok b buf" and n: "bb_len b + length bs \<le> bb_size b" and ne: "bs \<noteq> []"
    and wo: "wo = (if bb_size b \<le> bb_offset b + bb_len b then bb_offset b + bb_len b - bb_size b else bb_offset b + bb_len b)"
    and fits: "wo + length bs \<le> bb_size b"
  shows "\<exists>ring. ring_write b buf bs = Some (ring, b\<lparr>bb_len := bb_len b + length bs\<rparr>) \<and>
    ring_ok (b\<lparr>bb_len := bb_len b + length bs\<rparr>) ring \<and>
    contents_of (b\<lparr>bb_len := bb_len b + length bs\<rparr>) ring = contents_of b buf @ bs"
proof -
  let ?off = "bb_offset b" and ?len = "bb_len b" and ?n = "length bs"
  have l: "length buf = bb_size b" "?len \<le> length buf" "?off < length buf" using ok by (auto simp: ring_ok_def)
  let ?ring = "take wo buf @ bs @ drop (wo + ?n) buf"
  have "ring_write b buf bs = Some (?ring, b\<lparr>bb_len := ?len + ?n\<rparr>)"
    using fits by (subst ring_write.simps) (simp add: Let_def wo)
  moreover have "ring_contents ?off (?len + ?n) ?ring = ring_contents ?off ?len buf @ bs"
  proof (cases "bb_size b \<le> ?off + ?len")
    case False
    then have w: "wo = ?off + ?len" using wo by simp
    have "drop ?off ?ring = take ?len (drop ?off buf) @ bs @ drop (wo + ?n) buf"
      using l w False by (simp add: drop_take)
    then show ?thesis using False l by (simp add: ring_contents_def min_absorb2)
  next
    case True
    then have w: "wo = ?off + ?len - length buf" "wo + ?n \<le> ?off" using wo l n by simp_all
    have "drop ?off ?ring = drop ?off buf" using w l by simp
    moreover have "take ?off ?ring = take wo buf @ bs @ take (?off - wo - ?n) (drop (wo + ?n) buf)"
      using w l by (simp add: min_absorb1)
    moreover have "take ?len (drop ?off buf @ take ?off buf) = drop ?off buf @ take wo buf"
      using w l True by (simp add: min_absorb1 add.commute)
    ultimately show ?thesis using w l True by (simp add: ring_contents_def)
  qed
  moreover have "ring_ok (b\<lparr>bb_len := ?len + ?n\<rparr>) ?ring" using l n fits by (auto simp: ring_ok_def)
  ultimately show ?thesis by (intro exI [of _ ?ring]) simp
qed

lemma ring_write_ok:
  assumes ok: "ring_ok b buf" and n: "bb_len b + length bs \<le> bb_size b" and ne: "bs \<noteq> []"
  shows "\<exists>ring. ring_write b buf bs = Some (ring, b\<lparr>bb_len := bb_len b + length bs\<rparr>) \<and>
    ring_ok (b\<lparr>bb_len := bb_len b + length bs\<rparr>) ring \<and>
    contents_of (b\<lparr>bb_len := bb_len b + length bs\<rparr>) ring = contents_of b buf @ bs"
proof -
  let ?off = "bb_offset b" and ?len = "bb_len b"
  let ?wo = "if bb_size b \<le> ?off + ?len then ?off + ?len - bb_size b else ?off + ?len"
  show ?thesis
  proof (cases "?wo + length bs \<le> bb_size b")
    case True
    from ring_write_straight [OF ok n ne refl True] show ?thesis .
  next
    case False
    have l: "length buf = bb_size b" "?len \<le> length buf" "?off < length buf" using ok by (auto simp: ring_ok_def)
    have wo: "?wo = ?off + ?len" "?off + ?len < bb_size b" using False n l by (auto split: if_splits)
    let ?c = "bb_size b - (?off + ?len)"
    have c: "0 < ?c" "?c < length bs" using wo False by auto
    let ?b1 = "b\<lparr>bb_len := ?len + ?c\<rparr>" and ?bs1 = "take ?c bs"
    have lc: "length ?bs1 = ?c" using c by simp
    have n1: "bb_len b + length ?bs1 \<le> bb_size b" using lc wo by simp
    have f1: "?wo + length ?bs1 \<le> bb_size b" using lc wo by simp
    have ne1: "?bs1 \<noteq> []" using c by auto
    from ring_write_straight [OF ok n1 ne1 refl f1] lc
    obtain ring where r1: "ring_ok ?b1 ring" "contents_of ?b1 ring = contents_of b buf @ ?bs1"
      and w1: "ring_write b buf ?bs1 = Some (ring, ?b1)" by auto
    have ring: "ring = take (?off + ?len) buf @ ?bs1 @ drop (?off + ?len + ?c) buf"
      using w1 lc f1 wo by (subst (asm) ring_write.simps) (simp add: Let_def)
    have step: "ring_write b buf bs = ring_write ?b1 ring (drop ?c bs)"
      using c wo False by (subst ring_write.simps) (simp add: Let_def ring)
    have n2: "bb_len ?b1 + length (drop ?c bs) \<le> bb_size ?b1" using n c by simp
    have ne2: "drop ?c bs \<noteq> []" using c by auto
    have f2: "0 + length (drop ?c bs) \<le> bb_size ?b1" using n by simp
    have wo2: "0 = (if bb_size ?b1 \<le> bb_offset ?b1 + bb_len ?b1 then bb_offset ?b1 + bb_len ?b1 - bb_size ?b1
        else bb_offset ?b1 + bb_len ?b1)" using wo by simp
    from ring_write_straight [OF r1(1) n2 ne2 wo2 f2] step r1(2) c show ?thesis by (auto simp: add.commute)
  qed
qed


section \<open>One call on a pair\<close>

definition bio_ring :: "nat \<Rightarrow> bio_world \<Rightarrow> u8 list" where
  "bio_ring i w = (case bb_buf (bio_ptr (w i)) of None \<Rightarrow> [] | Some buf \<Rightarrow> contents_of (bio_ptr (w i)) buf)"

definition end_ok :: "nat \<Rightarrow> nat \<Rightarrow> bio_world \<Rightarrow> bool" where
  "end_ok i j w \<longleftrightarrow> bio_init (w i) \<and> bb_peer (bio_ptr (w i)) = Some j \<and>
     (case bb_buf (bio_ptr (w i)) of None \<Rightarrow> False | Some buf \<Rightarrow> ring_ok (bio_ptr (w i)) buf)"

definition pair_ok :: "nat \<Rightarrow> nat \<Rightarrow> bio_world \<Rightarrow> bool" where
  "pair_ok i j w \<longleftrightarrow> i \<noteq> j \<and> end_ok i j w \<and> end_ok j i w"

lemma end_ok_ring:
  assumes "end_ok i j w"
  obtains buf where "bb_buf (bio_ptr (w i)) = Some buf" and "ring_ok (bio_ptr (w i)) buf"
    and "bio_ring i w = contents_of (bio_ptr (w i)) buf" and "length (bio_ring i w) = bb_len (bio_ptr (w i))"
  using assms length_contents by (auto simp: end_ok_def bio_ring_def split: option.splits)

text \<open>What \<open>BIO_write\<close> returns: everything that fits, -1 on a full or closed ring.\<close>

definition write_result :: "nat \<Rightarrow> u8 list \<Rightarrow> bio_world \<Rightarrow> int" where
  "write_result i bs w =
     (let b = bio_ptr (w i); room = bb_size b - length (bio_ring i w) in
      if bs = [] then 0 else if bb_closed b \<or> room = 0 then -1 else int (min (length bs) room))"

definition read_result :: "nat \<Rightarrow> int \<Rightarrow> bio_world \<Rightarrow> int" where
  "read_result j n w =
     (if n \<le> 0 then 0 else if bio_ring j w = [] then if bb_closed (bio_ptr (w j)) then 0 else -1
      else min n (int (length (bio_ring j w))))"

definition unchanged_end :: "nat \<Rightarrow> bio_world \<Rightarrow> bio_world \<Rightarrow> bool" where
  "unchanged_end j w w' \<longleftrightarrow> bb_len (bio_ptr (w' j)) = bb_len (bio_ptr (w j)) \<and>
     bb_offset (bio_ptr (w' j)) = bb_offset (bio_ptr (w j)) \<and> bb_size (bio_ptr (w' j)) = bb_size (bio_ptr (w j)) \<and>
     bb_buf (bio_ptr (w' j)) = bb_buf (bio_ptr (w j)) \<and> bb_peer (bio_ptr (w' j)) = bb_peer (bio_ptr (w j)) \<and>
     bio_init (w' j) = bio_init (w j)"

lemma unchanged_end_ok: "unchanged_end j w w' \<Longrightarrow> end_ok j i w \<Longrightarrow> end_ok j i w' \<and> bio_ring j w' = bio_ring j w"
  by (auto simp: unchanged_end_def end_ok_def bio_ring_def ring_ok_def split: option.splits)

lemma BIO_write_ok:
  assumes p: "end_ok i j w" and ij: "i \<noteq> j"
  shows "\<exists>w'. BIO_write i bs w = Some (write_result i bs w, w') \<and> end_ok i j w' \<and> unchanged_end j w w' \<and>
    bio_ring i w' = bio_ring i w @ take (nat (write_result i bs w)) bs"
proof -
  obtain buf where buf: "bb_buf (bio_ptr (w i)) = Some buf" and ok: "ring_ok (bio_ptr (w i)) buf"
    and c: "bio_ring i w = contents_of (bio_ptr (w i)) buf" and l: "length (bio_ring i w) = bb_len (bio_ptr (w i))"
    by (rule end_ok_ring [OF p])
  let ?b = "bio_ptr (w i)"
  have init: "bio_init (w i)" "bb_peer ?b = Some j" and le: "bb_len ?b \<le> bb_size ?b"
    using p ok by (auto simp: end_ok_def ring_ok_def)
  show ?thesis
  proof (cases "bs = [] \<or> bb_closed ?b \<or> bb_len ?b = bb_size ?b")
    case True
    then show ?thesis using init buf ok l ij p
      by (auto simp: BIO_write_def bio_write_def write_result_def Let_def set_ptr_def set_retry_def
          end_ok_def bio_ring_def unchanged_end_def ring_ok_def)
  next
    case False
    let ?b0 = "?b\<lparr>bb_request := 0\<rparr>"
    obtain num where num: "num = (if bb_size ?b - bb_len ?b < length bs then bb_size ?b - bb_len ?b else length bs)" by blast
    have n: "num \<le> length bs" "0 < num" "bb_len ?b + num \<le> bb_size ?b" using False le unfolding num by auto
    have ok0: "ring_ok ?b0 buf" using ok by (simp add: ring_ok_def)
    have lt: "length (take num bs) = num" using n by simp
    have room: "bb_len ?b0 + length (take num bs) \<le> bb_size ?b0" unfolding lt using n by simp
    have ne: "take num bs \<noteq> []" using n lt by auto
    from ring_write_ok [OF ok0 room ne] obtain ring where
      r: "ring_write ?b0 buf (take num bs) = Some (ring, ?b0\<lparr>bb_len := bb_len ?b0 + length (take num bs)\<rparr>)"
        "ring_ok (?b0\<lparr>bb_len := bb_len ?b0 + length (take num bs)\<rparr>) ring"
        "contents_of (?b0\<lparr>bb_len := bb_len ?b0 + length (take num bs)\<rparr>) ring = contents_of ?b0 buf @ take num bs"
      by blast
    have wr: "write_result i bs w = int num" using False n l unfolding num by (auto simp: write_result_def Let_def min_def)
    let ?w1 = "set_ptr i (?b0\<lparr>bb_len := bb_len ?b0 + length (take num bs), bb_buf := Some ring\<rparr>)
        (set_ptr i ?b0 (set_retry i No_retry w))"
    let ?w' = "?w1(i := (?w1 i)\<lparr>bio_num_write := bio_num_write (?w1 i) + word_of_int (int num)\<rparr>)"
    have "bio_write i False bs w = Some (int num, ?w1)"
      using False init r(1) buf
      by (cases "bb_size ?b - bb_len ?b < length bs") (simp_all add: bio_write_def Let_def set_ptr_def set_retry_def num)
    then have "BIO_write i bs w = Some (int num, ?w')" using False init n
      by (simp add: BIO_write_def)
    moreover have "end_ok i j ?w'" using init r(2) by (simp add: end_ok_def set_ptr_def set_retry_def ring_ok_def)
    moreover have "bio_ring i ?w' = bio_ring i w @ take num bs"
      using r(3) c by (simp add: bio_ring_def set_ptr_def set_retry_def)
    moreover have "unchanged_end j w ?w'" using ij by (simp add: unchanged_end_def set_ptr_def set_retry_def)
    ultimately show ?thesis unfolding wr by (intro exI [of _ ?w']) simp
  qed
qed

lemma BIO_read_ok:
  assumes p: "end_ok i j w" "end_ok j i w" and ij: "i \<noteq> j"
  shows "\<exists>out w'. BIO_read i n w = Some (read_result j n w, out, w') \<and> end_ok j i w' \<and> unchanged_end i w w' \<and>
    out = take (nat (read_result j n w)) (bio_ring j w) \<and> bio_ring j w' = drop (nat (read_result j n w)) (bio_ring j w)"
proof -
  obtain buf where buf: "bb_buf (bio_ptr (w j)) = Some buf" and ok: "ring_ok (bio_ptr (w j)) buf"
    and c: "bio_ring j w = contents_of (bio_ptr (w j)) buf" and l: "length (bio_ring j w) = bb_len (bio_ptr (w j))"
    by (rule end_ok_ring [OF p(2)])
  let ?b = "bio_ptr (w j)"
  have init: "bio_init (w i)" "bb_peer (bio_ptr (w i)) = Some j" "bio_init (w j)" "bb_peer ?b = Some i"
    using p by (auto simp: end_ok_def)
  have empty: "bio_ring j w = [] \<longleftrightarrow> bb_len ?b = 0" using l by auto
  show ?thesis
  proof (cases "n \<le> 0 \<or> bb_len ?b = 0")
    case True
    then show ?thesis using init buf ok ij p empty
      by (auto simp: BIO_read_def bio_read_def read_result_def Let_def set_ptr_def set_retry_def
          end_ok_def bio_ring_def unchanged_end_def ring_ok_def)
  next
    case False
    let ?b0 = "?b\<lparr>bb_request := 0\<rparr>"
    obtain num where num: "num = (if bb_len ?b < nat n then bb_len ?b else nat n)" by blast
    have n: "num \<le> bb_len ?b0" "0 < num" using False unfolding num by auto
    have ok0: "ring_ok ?b0 buf" using ok by (simp add: ring_ok_def)
    from ring_read_ok [OF ok0 n(1)] obtain b' where
      r: "ring_read ?b0 buf num [] = Some (take num (contents_of ?b0 buf), b')" "ring_ok b' buf"
        "contents_of b' buf = drop num (contents_of ?b0 buf)" "ring_taken num ?b0 b'" by blast
    have rr: "read_result j n w = int num" using False l empty unfolding num by (auto simp: read_result_def min_def)
    let ?w1 = "set_ptr j b' (set_ptr j ?b0 (set_retry i No_retry w))"
    let ?w' = "?w1(i := (?w1 i)\<lparr>bio_num_read := bio_num_read (?w1 i) + word_of_int (int num)\<rparr>)"
    have "bio_read i False (nat n) w = Some (int num, take num (contents_of ?b0 buf), ?w1)"
      using False init r(1) buf ij
      by (cases "bb_len ?b < nat n") (simp_all add: bio_read_def Let_def set_ptr_def set_retry_def num)
    then have "BIO_read i n w = Some (int num, take num (contents_of ?b0 buf), ?w')" using False init n
      by (simp add: BIO_read_def)
    moreover have "end_ok j i ?w'" using init r(2,4) buf ij
      by (simp add: end_ok_def set_ptr_def set_retry_def ring_taken_def)
    moreover have "bio_ring j ?w' = drop num (bio_ring j w)"
      using r(3,4) c buf ij by (simp add: bio_ring_def set_ptr_def set_retry_def ring_taken_def)
    moreover have "unchanged_end i w ?w'" using ij by (simp add: unchanged_end_def set_ptr_def set_retry_def)
    ultimately show ?thesis unfolding rr using c by (intro exI [of _ ?w'] exI [of _ "take num (contents_of ?b0 buf)"]) simp
  qed
qed


section \<open>The contract of a byte pipe\<close>

datatype 'o pipe_event = Put "u8 list" | Get int | Elsewhere 'o

text \<open>A run of events: the bytes accepted by the writer and the bytes delivered to the reader.\<close>

fun pipe_run ::
    "('s \<Rightarrow> u8 list \<Rightarrow> u8 list \<times> 's) \<Rightarrow> ('s \<Rightarrow> int \<Rightarrow> u8 list \<times> 's) \<Rightarrow> ('s \<Rightarrow> 'o \<Rightarrow> 's) \<Rightarrow>
     's \<Rightarrow> 'o pipe_event list \<Rightarrow> u8 list \<times> u8 list \<times> 's" where
  "pipe_run put get other s [] = ([], [], s)"
| "pipe_run put get other s (Put bs # evs) =
     (case put s bs of (acc, s) \<Rightarrow> (case pipe_run put get other s evs of (a, d, s) \<Rightarrow> (acc @ a, d, s)))"
| "pipe_run put get other s (Get n # evs) =
     (case get s n of (del, s) \<Rightarrow> (case pipe_run put get other s evs of (a, d, s) \<Rightarrow> (a, del @ d, s)))"
| "pipe_run put get other s (Elsewhere e # evs) = pipe_run put get other (other s e) evs"

locale byte_pipe =
  fixes inv :: "'s \<Rightarrow> bool"
    and queue :: "'s \<Rightarrow> u8 list"
    and put :: "'s \<Rightarrow> u8 list \<Rightarrow> u8 list \<times> 's"
    and get :: "'s \<Rightarrow> int \<Rightarrow> u8 list \<times> 's"
    and other :: "'s \<Rightarrow> 'o \<Rightarrow> 's"
  assumes put_law: "inv s \<Longrightarrow> put s bs = (acc, s') \<Longrightarrow> inv s' \<and> queue s' = queue s @ acc"
    and get_law: "inv s \<Longrightarrow> get s n = (del, s') \<Longrightarrow> inv s' \<and> queue s = del @ queue s'"
    and other_law: "inv s \<Longrightarrow> inv (other s e) \<and> queue (other s e) = queue s"
begin

lemma run_fifo:
  "inv s \<Longrightarrow> pipe_run put get other s evs = (acc, del, s') \<Longrightarrow> inv s' \<and> queue s @ acc = del @ queue s'"
proof (induction evs arbitrary: s acc del)
  case Nil
  then show ?case by simp
next
  case (Cons e evs)
  show ?case
  proof (cases e)
    case (Put bs)
    obtain acc1 s1 where p: "put s bs = (acc1, s1)" by fastforce
    obtain acc2 where r: "pipe_run put get other s1 evs = (acc2, del, s')" and acc: "acc = acc1 @ acc2"
      using Cons.prems(2) Put p by (auto split: prod.splits)
    have "inv s1 \<and> queue s1 = queue s @ acc1" by (rule put_law [OF Cons.prems(1) p])
    with Cons.IH [OF _ r] acc show ?thesis by simp
  next
    case (Get n)
    obtain del1 s1 where g: "get s n = (del1, s1)" by fastforce
    obtain del2 where r: "pipe_run put get other s1 evs = (acc, del2, s')" and del: "del = del1 @ del2"
      using Cons.prems(2) Get g by (auto split: prod.splits)
    have "inv s1 \<and> queue s = del1 @ queue s1" by (rule get_law [OF Cons.prems(1) g])
    with Cons.IH [OF _ r] del show ?thesis by simp
  next
    case (Elsewhere x)
    with Cons.prems(2) have "pipe_run put get other (other s x) evs = (acc, del, s')" by simp
    with Cons.IH [of "other s x"] other_law [OF Cons.prems(1), of x] show ?thesis by simp
  qed
qed

lemma delivered_prefix:
  "inv s \<Longrightarrow> queue s = [] \<Longrightarrow> pipe_run put get other s evs = (acc, del, s') \<Longrightarrow> take (length del) acc = del"
  using run_fifo [of s evs acc del s'] by simp

end

section \<open>Both directions of a BIO pair\<close>

definition bio_put :: "nat \<Rightarrow> bio_world \<Rightarrow> u8 list \<Rightarrow> u8 list \<times> bio_world" where
  "bio_put i w bs = (case BIO_write i bs w of None \<Rightarrow> ([], w) | Some (ret, w') \<Rightarrow> (take (nat ret) bs, w'))"

definition bio_get :: "nat \<Rightarrow> bio_world \<Rightarrow> int \<Rightarrow> u8 list \<times> bio_world" where
  "bio_get j w n = (case BIO_read j n w of None \<Rightarrow> ([], w) | Some (_, out, w') \<Rightarrow> (out, w'))"

text \<open>Everything else that happens to a pair: traffic in the other direction, control calls on
  either BIO.\<close>

datatype elsewhere = Back_write "u8 list" | Back_read int | Ctrl bool bio_cmd

fun bio_other :: "nat \<Rightarrow> nat \<Rightarrow> bio_world \<Rightarrow> elsewhere \<Rightarrow> bio_world" where
  "bio_other i j w (Back_write bs) = snd (bio_put j w bs)"
| "bio_other i j w (Back_read n) = snd (bio_get i w n)"
| "bio_other i j w (Ctrl first cmd) = snd (bio_ctrl (if first then i else j) cmd w)"

lemma unchanged_end_refl: "unchanged_end i w w"
  by (simp add: unchanged_end_def)

lemma bio_ctrl_unchanged: "unchanged_end i w (snd (bio_ctrl k cmd w))"
  by (cases cmd) (auto simp: bio_ctrl_def Let_def unchanged_end_def set_ptr_def)

lemma bio_put_ok:
  assumes "pair_ok i j w" and "bio_put i w bs = (acc, w')"
  shows "pair_ok i j w' \<and> bio_ring i w' = bio_ring i w @ acc \<and> bio_ring j w' = bio_ring j w"
proof -
  have p: "end_ok i j w" "i \<noteq> j" "end_ok j i w" using assms(1) by (auto simp: pair_ok_def)
  from BIO_write_ok [OF p(1,2), of bs] assms(2) unchanged_end_ok [OF _ p(3)] p(2) show ?thesis
    by (auto simp: bio_put_def pair_ok_def)
qed

lemma bio_get_ok:
  assumes "pair_ok i j w" and "bio_get j w n = (del, w')"
  shows "pair_ok i j w' \<and> bio_ring i w = del @ bio_ring i w' \<and> bio_ring j w' = bio_ring j w"
proof -
  have p: "end_ok j i w" "end_ok i j w" "j \<noteq> i" using assms(1) by (auto simp: pair_ok_def)
  from BIO_read_ok [OF p, of n] obtain out w1 where r: "BIO_read j n w = Some (read_result i n w, out, w1)"
    and e: "end_ok i j w1" "unchanged_end j w w1"
    and o: "out = take (nat (read_result i n w)) (bio_ring i w)"
      "bio_ring i w1 = drop (nat (read_result i n w)) (bio_ring i w)" by blast
  have "del = out" "w' = w1" using r assms(2) by (auto simp: bio_get_def)
  moreover have "bio_ring i w = out @ bio_ring i w1" unfolding o by simp
  ultimately show ?thesis using e unchanged_end_ok [OF e(2) p(1)] p(3) by (simp add: pair_ok_def)
qed

lemma pair_ok_sym: "pair_ok i j w \<longleftrightarrow> pair_ok j i w"
  by (auto simp: pair_ok_def)

lemma bio_other_ok:
  assumes "pair_ok i j w"
  shows "pair_ok i j (bio_other i j w e) \<and> bio_ring i (bio_other i j w e) = bio_ring i w"
proof (cases e)
  case (Back_write bs)
  then show ?thesis using bio_put_ok [of j i w bs "fst (bio_put j w bs)" "snd (bio_put j w bs)"] assms
    by (simp add: pair_ok_sym [of i j])
next
  case (Back_read n)
  then show ?thesis using bio_get_ok [of j i w n "fst (bio_get i w n)" "snd (bio_get i w n)"] assms
    by (simp add: pair_ok_sym [of i j])
next
  case (Ctrl first cmd)
  then show ?thesis using assms unchanged_end_ok bio_ctrl_unchanged by (metis bio_other.simps(3) pair_ok_def)
qed

interpretation bio_pair: byte_pipe "pair_ok i j" "bio_ring i" "bio_put i" "bio_get j" "bio_other i j"
  for i j :: nat
  by unfold_locales (auto dest: bio_put_ok bio_get_ok simp: bio_other_ok)

section \<open>Properties\<close>

lemma make_pair_ok:
  assumes m: "malloc_ok malloc" and ij: "i \<noteq> j" and sz: "n1 < 2 ^ 64" "n2 < 2 ^ 64"
    and r: "BIO_new_bio_pair malloc ok1 ok2 i j n1 n2 w = (True, w')"
  shows "pair_ok i j w'" and "bio_ring i w' = []" and "bio_ring j w' = []"
    and "bb_size (bio_ptr (w' i)) = (if n1 = 0 then 17408 else n1)"
    and "bb_size (bio_ptr (w' j)) = (if n2 = 0 then 17408 else n2)"
    and "\<not> bb_closed (bio_ptr (w' i))" and "\<not> bb_closed (bio_ptr (w' j))"
proof -
  let ?s1 = "if n1 \<noteq> 0 then n1 else 17408" and ?s2 = "if n2 \<noteq> 0 then n2 else 17408"
  obtain blk1 blk2 where a: "malloc (word_of_nat ?s1) = Some blk1" "malloc (word_of_nat ?s2) = Some blk2"
    and w': "w' = w(i := fresh_bio\<lparr>bio_init := True, bio_ptr := bio_new\<lparr>bb_size := ?s1, bb_buf := Some blk1, bb_peer := Some j\<rparr>\<rparr>,
                    j := fresh_bio\<lparr>bio_init := True, bio_ptr := bio_new\<lparr>bb_size := ?s2, bb_buf := Some blk2, bb_peer := Some i\<rparr>\<rparr>)"
    using r ij
    by (auto simp: BIO_new_bio_pair_def bio_make_pair_def Let_def fresh_bio_def bio_new_def set_ptr_def fun_upd_twist
        split: if_splits option.splits)
  have "length blk1 = ?s1" "length blk2 = ?s2" using m a sz
    by (auto simp: malloc_ok_def unat_of_nat split: if_splits)
  moreover have "0 < ?s1" "0 < ?s2" by auto
  ultimately show "pair_ok i j w'" "bio_ring i w' = []" "bio_ring j w' = []"
    "bb_size (bio_ptr (w' i)) = (if n1 = 0 then 17408 else n1)"
    "bb_size (bio_ptr (w' j)) = (if n2 = 0 then 17408 else n2)"
    "\<not> bb_closed (bio_ptr (w' i))" "\<not> bb_closed (bio_ptr (w' j))"
    unfolding w' using ij by (auto simp: pair_ok_def end_ok_def bio_ring_def ring_ok_def ring_contents_def bio_new_def fresh_bio_def)
qed

text \<open>C26: a fresh BIO pair is a FIFO: whatever calls are made on the two BIOs (writes and reads of
  any sizes in both directions, control commands), the bytes read from one BIO are, in order, a
  prefix of the bytes written to the other, and what is missing is still in the ring.\<close>

theorem bio_pair_fifo:
  assumes "malloc_ok malloc" and "i \<noteq> j" and "n1 < 2 ^ 64" and "n2 < 2 ^ 64"
    and "BIO_new_bio_pair malloc ok1 ok2 i j n1 n2 w = (True, w0)"
    and "pipe_run (bio_put i) (bio_get j) (bio_other i j) w0 evs = (accepted, delivered, w1)"
  shows "accepted = delivered @ bio_ring i w1 \<and> take (length delivered) accepted = delivered \<and> pair_ok i j w1"
proof -
  note p = make_pair_ok [OF assms(1-5)]
  from bio_pair.run_fifo [OF p(1) assms(6)] bio_pair.delivered_prefix [OF p(1,2) assms(6)] p(2)
  show ?thesis by simp
qed

lemma bio_pair_fifo_witness:
  "let w = snd (BIO_new_bio_pair zero_malloc True True 0 1 4 4 (\<lambda>_. fresh_bio));
       r = pipe_run (bio_put 0) (bio_get 1) (bio_other 0 1) w [Put [1, 2, 3, 4, 5], Get 3, Put [6, 7], Get 9]
   in fst r = fst (snd r) @ bio_ring 0 (snd (snd r))"
proof -
  let ?w = "snd (BIO_new_bio_pair zero_malloc True True 0 1 4 4 (\<lambda>_. fresh_bio))"
  let ?r = "pipe_run (bio_put 0) (bio_get 1) (bio_other 0 1) ?w [Put [1, 2, 3, 4, 5], Get 3, Put [6, 7], Get 9]"
  have "fst (BIO_new_bio_pair zero_malloc True True 0 1 4 4 (\<lambda>_. fresh_bio))"
    by (simp add: BIO_new_bio_pair_def bio_make_pair_def fresh_bio_def bio_new_def zero_malloc_def set_ptr_def Let_def)
  then have w: "BIO_new_bio_pair zero_malloc True True 0 1 4 4 (\<lambda>_. fresh_bio) = (True, ?w)"
    by (metis prod.collapse)
  have r: "?r = (fst ?r, fst (snd ?r), snd (snd ?r))" by (simp only: prod.collapse)
  show ?thesis unfolding Let_def
    by (rule bio_pair_fifo [OF zero_malloc_ok _ _ _ w r, THEN conjunct1]) simp_all
qed

lemma fresh_pair_ok: "pair_ok 0 1 (snd (BIO_new_bio_pair zero_malloc True True 0 1 4 4 (\<lambda>_. fresh_bio)))"
proof -
  have "fst (BIO_new_bio_pair zero_malloc True True 0 1 4 4 (\<lambda>_. fresh_bio))"
    by (simp add: BIO_new_bio_pair_def bio_make_pair_def fresh_bio_def bio_new_def zero_malloc_def set_ptr_def Let_def)
  then have w: "BIO_new_bio_pair zero_malloc True True 0 1 4 4 (\<lambda>_. fresh_bio) =
      (True, snd (BIO_new_bio_pair zero_malloc True True 0 1 4 4 (\<lambda>_. fresh_bio)))"
    by (metis prod.collapse)
  show ?thesis by (rule make_pair_ok(1) [OF zero_malloc_ok _ _ _ w]) simp_all
qed

text \<open>C27: \<open>BIO_write\<close> and \<open>BIO_read\<close> on a pair always return, and return what bio.h promises: a write
  accepts exactly the bytes \<open>BIO_ctrl_get_write_guarantee\<close> announced (or all, if there are
  fewer), -1 if that is none; a read delivers what is there, 0 on an empty ring whose writer has
  shut down and -1 on an empty ring otherwise.\<close>

theorem bio_pair_results:
  assumes "pair_ok i j w"
  shows "(\<exists>w'. BIO_write i bs w =
       Some (if bs = [] then 0 else if BIO_ctrl_get_write_guarantee i w = 0 then -1
             else min (int (length bs)) (BIO_ctrl_get_write_guarantee i w), w')) \<and>
    (\<exists>out w'. BIO_read j n w =
       Some (if n \<le> 0 then 0 else if bio_ring i w = [] then if bb_closed (bio_ptr (w i)) then 0 else -1
             else min n (int (length (bio_ring i w))), out, w') \<and>
       out = take (nat (min n (int (length (bio_ring i w))))) (bio_ring i w))"
proof -
  have p: "end_ok i j w" "i \<noteq> j" "end_ok j i w" using assms by (auto simp: pair_ok_def)
  obtain buf where b: "ring_ok (bio_ptr (w i)) buf" and l: "length (bio_ring i w) = bb_len (bio_ptr (w i))"
    by (rule end_ok_ring [OF p(1)])
  have "BIO_ctrl_get_write_guarantee i w =
      (if bb_closed (bio_ptr (w i)) then 0 else int (bb_size (bio_ptr (w i)) - length (bio_ring i w)))"
    using p(1) b l by (auto simp: BIO_ctrl_get_write_guarantee_def bio_ctrl_def Let_def end_ok_def ring_ok_def)
  then have wr: "write_result i bs w = (if bs = [] then 0 else if BIO_ctrl_get_write_guarantee i w = 0 then -1
             else min (int (length bs)) (BIO_ctrl_get_write_guarantee i w))"
    by (auto simp: write_result_def Let_def min_def)
  have rr: "take (nat (read_result i n w)) (bio_ring i w) = take (nat (min n (int (length (bio_ring i w))))) (bio_ring i w)"
    by (auto simp: read_result_def min_def)
  from BIO_write_ok [OF p(1,2), of bs] BIO_read_ok [OF p(3,1) p(2) [symmetric], of n] wr rr show ?thesis
    unfolding read_result_def by auto
qed


lemma bio_pair_results_witness:
  "\<exists>out w'. BIO_read 1 5 (snd (BIO_new_bio_pair zero_malloc True True 0 1 4 4 (\<lambda>_. fresh_bio))) = Some (-1, out, w')"
proof -
  let ?w = "snd (BIO_new_bio_pair zero_malloc True True 0 1 4 4 (\<lambda>_. fresh_bio))"
  have "bio_ring 0 ?w = [] \<and> \<not> bb_closed (bio_ptr (?w 0))"
    by (simp add: BIO_new_bio_pair_def bio_make_pair_def fresh_bio_def bio_new_def zero_malloc_def set_ptr_def Let_def
        bio_ring_def ring_contents_def)
  with bio_pair_results [OF fresh_pair_ok, THEN conjunct2, of 5] show ?thesis by auto
qed

end
