(* ===== verification/Lhash.thy ===== *)
theory Lhash
  imports Mem_Buf
begin

text \<open>
  The hash table of BoringSSL (crypto/lhash/lhash.c): an array of chains with cached hash values,
  resized when the average chain length leaves its bounds.

  Elements are opaque, so they are a type parameter; the hash and comparison callbacks are fields of
  the table, as in C. A pointer into the array or into a chain (the result of
  \<open>get_next_ptr_and_hash\<close>) is a bucket number and a position in its chain, the position behind the
  last item being the NULL pointer there. \<open>alloc\<close> says which allocations of a bucket array succeed in one
  call. The callbacks of \<open>lh_doall\<close> may look up, insert and delete elements of the table they are called from.
\<close>

record 'd lhash_item =
  it_data :: 'd
  it_hash :: u32

record 'd lhash =
  num_items :: size_t
  buckets :: "'d lhash_item list list"
  num_buckets :: size_t
  callback_depth :: u32
  lh_comp :: "'d \<Rightarrow> 'd \<Rightarrow> int"
  lh_hash :: "'d \<Rightarrow> u32"

definition kMinNumBuckets :: size_t where "kMinNumBuckets = 16"
definition kMaxAverageChainLength :: size_t where "kMaxAverageChainLength = 2"
definition kMinAverageChainLength :: size_t where "kMinAverageChainLength = 1"

definition lh_new :: "bool \<Rightarrow> bool \<Rightarrow> ('d \<Rightarrow> u32) \<Rightarrow> ('d \<Rightarrow> 'd \<Rightarrow> int) \<Rightarrow> 'd lhash option" where
  "lh_new alloc_lh alloc_buckets hsh cmp =
     (if \<not> alloc_lh \<or> \<not> alloc_buckets then None
      else Some \<lparr>num_items = 0, buckets = replicate (unat kMinNumBuckets) [], num_buckets = kMinNumBuckets,
                 callback_depth = 0, lh_comp = cmp, lh_hash = hsh\<rparr>)"

definition lh_num_items :: "'d lhash \<Rightarrow> size_t" where
  "lh_num_items lh = num_items lh"

text \<open>The position in the chain of the item equal to \<open>data\<close>.\<close>

fun chain_pos :: "('d \<Rightarrow> 'd \<Rightarrow> int) \<Rightarrow> 'd lhash_item list \<Rightarrow> 'd \<Rightarrow> nat" where
  "chain_pos cmp [] data = 0"
| "chain_pos cmp (cur # chain) data = (if cmp (it_data cur) data = 0 then 0 else Suc (chain_pos cmp chain data))"

definition get_next_ptr_and_hash :: "'d lhash \<Rightarrow> 'd \<Rightarrow> nat \<times> nat \<times> u32" where
  "get_next_ptr_and_hash lh data =
     (let hsh = lh_hash lh data;
          i = unat (ucast hsh mod num_buckets lh)
      in (i, chain_pos (lh_comp lh) (buckets lh ! i) data, hsh))"

definition lh_retrieve :: "'d lhash \<Rightarrow> 'd \<Rightarrow> 'd option" where
  "lh_retrieve lh data =
     (case get_next_ptr_and_hash lh data of
        (i, p, _) \<Rightarrow> if p = length (buckets lh ! i) then None else Some (it_data (buckets lh ! i ! p)))"

fun rebucket_chain :: "size_t \<Rightarrow> 'd lhash_item list \<Rightarrow> 'd lhash_item list list \<Rightarrow> 'd lhash_item list list" where
  "rebucket_chain n [] new_buckets = new_buckets"
| "rebucket_chain n (cur # chain) new_buckets =
     (let new_bucket = unat (ucast (it_hash cur) mod n)
      in rebucket_chain n chain (new_buckets[new_bucket := cur # new_buckets ! new_bucket]))"

definition lh_rebucket :: "(size_t \<Rightarrow> bool) \<Rightarrow> 'd lhash \<Rightarrow> size_t \<Rightarrow> 'd lhash" where
  "lh_rebucket alloc lh new_num_buckets =
     (let alloc_size = 8 * new_num_buckets in
      if alloc_size div 8 \<noteq> new_num_buckets then lh
      else if \<not> alloc alloc_size then lh
      else lh\<lparr>num_buckets := new_num_buckets,
             buckets := fold (rebucket_chain new_num_buckets) (buckets lh)
                          (replicate (unat new_num_buckets) [])\<rparr>)"

definition lh_maybe_resize :: "(size_t \<Rightarrow> bool) \<Rightarrow> 'd lhash \<Rightarrow> 'd lhash" where
  "lh_maybe_resize alloc lh =
     (if 0 < callback_depth lh then lh
      else
        let avg_chain_length = num_items lh div num_buckets lh in
        if kMaxAverageChainLength < avg_chain_length then
          let new_num_buckets = num_buckets lh * 2 in
          if num_buckets lh < new_num_buckets then lh_rebucket alloc lh new_num_buckets else lh
        else if avg_chain_length < kMinAverageChainLength \<and> kMinNumBuckets < num_buckets lh then
          let new_num_buckets = num_buckets lh div 2;
              new_num_buckets = (if new_num_buckets < kMinNumBuckets then kMinNumBuckets else new_num_buckets)
          in lh_rebucket alloc lh new_num_buckets
        else lh)"

text \<open>\<open>lh_insert\<close>: the old element and whether it succeeded; \<open>alloc_item\<close> is the allocation of the
  item.\<close>

definition lh_insert :: "(size_t \<Rightarrow> bool) \<Rightarrow> bool \<Rightarrow> 'd lhash \<Rightarrow> 'd \<Rightarrow> (bool \<times> 'd option) \<times> 'd lhash" where
  "lh_insert alloc alloc_item lh data =
     (case get_next_ptr_and_hash lh data of
        (i, p, hsh) \<Rightarrow>
          (let chain = buckets lh ! i in
           if p \<noteq> length chain then
             ((True, Some (it_data (chain ! p))),
              lh\<lparr>buckets := (buckets lh)[i := chain[p := (chain ! p)\<lparr>it_data := data\<rparr>]]\<rparr>)
           else if \<not> alloc_item then ((False, None), lh)
           else ((True, None),
                 lh_maybe_resize alloc
                   (lh\<lparr>buckets := (buckets lh)[i := chain @ [\<lparr>it_data = data, it_hash = hsh\<rparr>]],
                       num_items := num_items lh + 1\<rparr>))))"

definition lh_delete :: "(size_t \<Rightarrow> bool) \<Rightarrow> 'd lhash \<Rightarrow> 'd \<Rightarrow> 'd option \<times> 'd lhash" where
  "lh_delete alloc lh data =
     (case get_next_ptr_and_hash lh data of
        (i, p, _) \<Rightarrow>
          (let chain = buckets lh ! i in
           if p = length chain then (None, lh)
           else (Some (it_data (chain ! p)),
                 lh_maybe_resize alloc
                   (lh\<lparr>buckets := (buckets lh)[i := take p chain @ drop (Suc p) chain],
                       num_items := num_items lh - 1\<rparr>))))"

section \<open>Iteration\<close>

text \<open>The callback of an iteration gets an element, the lookup function of the table and its own state; it
  returns its new state and the insertions and deletions it makes, in order. (Their results are functions of the
  lookups and of the allocations, so a callback that uses them is such a function too.)\<close>

datatype 'd table_call = Tc_insert "size_t \<Rightarrow> bool" bool 'd | Tc_delete "size_t \<Rightarrow> bool" 'd

type_synonym ('d, 's) doall_fn = "'d \<Rightarrow> ('d \<Rightarrow> 'd option) \<Rightarrow> 's \<Rightarrow> 's \<times> 'd table_call list"

text \<open>A pointer of the iteration to an item of the table is the data pointer of the item, None the NULL pointer.
  The item after the one with data \<open>d\<close> in its chain (\<open>cur->next\<close>):\<close>

definition first_item :: "'d lhash_item list \<Rightarrow> 'd option" where
  "first_item chain = (case chain of [] \<Rightarrow> None | x # _ \<Rightarrow> Some (it_data x))"

definition next_item :: "'d lhash \<Rightarrow> 'd \<Rightarrow> 'd option" where
  "next_item lh d =
     (case find (list_ex (\<lambda>x. it_data x = d)) (buckets lh) of
        None \<Rightarrow> None
      | Some chain \<Rightarrow> first_item (tl (dropWhile (\<lambda>x. it_data x \<noteq> d) chain)))"

text \<open>The calls of a callback while \<open>nxt\<close> is held: an insertion of an equal element changes the data of the item;
  a deletion of the item frees it, and the iteration, which reads it next, is undefined (None).\<close>

fun run_calls :: "'d table_call list \<Rightarrow> 'd lhash \<Rightarrow> 'd option \<Rightarrow> ('d lhash \<times> 'd option) option" where
  "run_calls [] lh nxt = Some (lh, nxt)"
| "run_calls (Tc_insert alloc alloc_item d # calls) lh nxt =
     (case lh_insert alloc alloc_item lh d of
        ((_, old), lh) \<Rightarrow> run_calls calls lh (if old \<noteq> None \<and> old = nxt then Some d else nxt))"
| "run_calls (Tc_delete alloc d # calls) lh nxt =
     (case lh_delete alloc lh d of
        (old, lh) \<Rightarrow> if old \<noteq> None \<and> old = nxt then None else run_calls calls lh nxt)"

text \<open>The inner and the outer loop. A callback can keep them running for ever: None is also that.\<close>

partial_function (option) doall_chain :: "('d, 's) doall_fn \<Rightarrow> 'd option \<Rightarrow> 'd lhash \<Rightarrow> 's \<Rightarrow> ('d lhash \<times> 's) option" where
  [code]: "doall_chain f cur lh s =
     (case cur of
        None \<Rightarrow> Some (lh, s)
      | Some d \<Rightarrow>
          (let nxt = next_item lh d in
           case f d (lh_retrieve lh) s of
             (s, calls) \<Rightarrow> Option.bind (run_calls calls lh nxt) (\<lambda>(lh, nxt). doall_chain f nxt lh s)))"

partial_function (option) doall_buckets :: "('d, 's) doall_fn \<Rightarrow> nat \<Rightarrow> 'd lhash \<Rightarrow> 's \<Rightarrow> ('d lhash \<times> 's) option" where
  [code]: "doall_buckets f i lh s =
     (if unat (num_buckets lh) \<le> i then Some (lh, s)
      else Option.bind (doall_chain f (first_item (buckets lh ! i)) lh s)
             (\<lambda>(lh, s). doall_buckets f (Suc i) lh s))"

definition lh_doall_internal :: "(size_t \<Rightarrow> bool) \<Rightarrow> 'd lhash option \<Rightarrow> ('d, 's) doall_fn option \<Rightarrow>
    ('d \<Rightarrow> 'a \<Rightarrow> ('d \<Rightarrow> 'd option) \<Rightarrow> 's \<Rightarrow> 's \<times> 'd table_call list) option \<Rightarrow> 'a option \<Rightarrow> 's \<Rightarrow> ('d lhash option \<times> 's) option" where
  "lh_doall_internal alloc lh no_arg_func arg_func arg s =
     (case lh of
        None \<Rightarrow> Some (None, s)
      | Some lh \<Rightarrow>
          (let lh = (if callback_depth lh < - 1 then lh\<lparr>callback_depth := callback_depth lh + 1\<rparr> else lh);
               f = (\<lambda>d. case arg_func of Some g \<Rightarrow> g d (the arg) | None \<Rightarrow> the no_arg_func d)
           in Option.bind (doall_buckets f 0 lh s) (\<lambda>(lh, s).
             let lh = (if callback_depth lh < - 1 then lh\<lparr>callback_depth := callback_depth lh - 1\<rparr> else lh)
             in Some (Some (lh_maybe_resize alloc lh), s))))"

definition lh_doall :: "(size_t \<Rightarrow> bool) \<Rightarrow> 'd lhash option \<Rightarrow> ('d, 's) doall_fn \<Rightarrow> 's \<Rightarrow> ('d lhash option \<times> 's) option" where
  "lh_doall alloc lh func s =
     lh_doall_internal alloc lh (Some func)
       (None :: ('d \<Rightarrow> unit \<Rightarrow> ('d \<Rightarrow> 'd option) \<Rightarrow> 's \<Rightarrow> 's \<times> 'd table_call list) option) None s"

definition lh_doall_arg :: "(size_t \<Rightarrow> bool) \<Rightarrow> 'd lhash option \<Rightarrow>
    ('d \<Rightarrow> 'a \<Rightarrow> ('d \<Rightarrow> 'd option) \<Rightarrow> 's \<Rightarrow> 's \<times> 'd table_call list) \<Rightarrow> 'a \<Rightarrow> 's \<Rightarrow> ('d lhash option \<times> 's) option" where
  "lh_doall_arg alloc lh func arg s = lh_doall_internal alloc lh None (Some func) (Some arg) s"

definition lh_strhash :: "u8 list option \<Rightarrow> u32" where
  "lh_strhash c = (case c of None \<Rightarrow> 0 | Some s \<Rightarrow> OPENSSL_hash32 s (strlen s))"

end
