(* ===== verification/Lhash_Spec.thy ===== *)
theory Lhash_Spec
  imports Lhash "HOL-Library.Multiset"
begin

text \<open>
  The hash table is a finite map from keys to the element equal to them. \<open>lh_ok\<close> is the table's
  invariant; the locale \<open>keyed_store\<close> is the map interface, whose client lemma says that every
  script of operations behaves like the same script on an abstract map.
\<close>

section \<open>Invariant\<close>

definition lh_law :: "('d \<Rightarrow> 'd \<Rightarrow> int) \<Rightarrow> ('d \<Rightarrow> u32) \<Rightarrow> bool" where
  "lh_law cmp hsh \<longleftrightarrow> (\<forall>a. cmp a a = 0) \<and> (\<forall>a b. cmp a b = 0 \<longrightarrow> cmp b a = 0) \<and>
     (\<forall>a b c. cmp a b = 0 \<longrightarrow> cmp b c = 0 \<longrightarrow> cmp a c = 0) \<and> (\<forall>a b. cmp a b = 0 \<longrightarrow> hsh a = hsh b)"

lemma law_refl: "lh_law cmp hsh \<Longrightarrow> cmp a a = 0"
  and law_sym: "lh_law cmp hsh \<Longrightarrow> cmp a b = 0 \<Longrightarrow> cmp b a = 0"
  and law_trans: "lh_law cmp hsh \<Longrightarrow> cmp a b = 0 \<Longrightarrow> cmp b c = 0 \<Longrightarrow> cmp a c = 0"
  and law_hash: "lh_law cmp hsh \<Longrightarrow> cmp a b = 0 \<Longrightarrow> hsh a = hsh b"
  unfolding lh_law_def by blast+

definition items :: "'d lhash \<Rightarrow> 'd lhash_item list" where
  "items lh = concat (buckets lh)"

definition differ :: "('d \<Rightarrow> 'd \<Rightarrow> int) \<Rightarrow> 'd lhash_item \<Rightarrow> 'd lhash_item \<Rightarrow> bool" where
  "differ cmp x y \<longleftrightarrow> cmp (it_data x) (it_data y) \<noteq> 0 \<and> cmp (it_data y) (it_data x) \<noteq> 0"

definition in_place :: "size_t \<Rightarrow> 'd lhash_item list list \<Rightarrow> bool" where
  "in_place n bs \<longleftrightarrow> length bs = unat n \<and> (\<forall>i<length bs. \<forall>x\<in>set (bs ! i). unat (ucast (it_hash x) mod n) = i)"

definition lh_ok :: "'d lhash \<Rightarrow> bool" where
  "lh_ok lh \<longleftrightarrow> lh_law (lh_comp lh) (lh_hash lh) \<and> kMinNumBuckets \<le> num_buckets lh \<and>
     in_place (num_buckets lh) (buckets lh) \<and> (\<forall>x\<in>set (items lh). it_hash x = lh_hash lh (it_data x)) \<and>
     sorted_wrt (differ (lh_comp lh)) (items lh) \<and> num_items lh = word_of_nat (length (items lh))"

lemma pos_buckets: "lh_ok lh \<Longrightarrow> 0 < unat (num_buckets lh)"
  by (auto simp: lh_ok_def kMinNumBuckets_def word_le_nat_alt)

lemma sorted_wrt_perm:
  assumes sym: "\<And>x y. R x y \<Longrightarrow> R y x"
  shows "mset xs = mset ys \<Longrightarrow> sorted_wrt R xs \<Longrightarrow> sorted_wrt R ys"
proof (induction ys arbitrary: xs)
  case (Cons y ys)
  then have "y \<in> set xs" by (metis list.set_intros(1) mset_eq_setD)
  then obtain as bs where xs: "xs = as @ y # bs" by (metis split_list)
  then have "mset (as @ bs) = mset ys" using Cons.prems(1) by simp
  moreover have "sorted_wrt R (as @ bs)" using Cons.prems(2) unfolding xs by (auto simp: sorted_wrt_append)
  ultimately have "sorted_wrt R ys" by (rule Cons.IH)
  moreover have "\<forall>z\<in>set (as @ bs). R y z" using Cons.prems(2) sym unfolding xs by (auto simp: sorted_wrt_append)
  moreover have "set (as @ bs) = set ys" using \<open>mset (as @ bs) = mset ys\<close> by (rule mset_eq_setD)
  ultimately show ?case by simp
qed simp

lemma differ_sym: "differ cmp x y \<Longrightarrow> differ cmp y x"
  by (auto simp: differ_def)

lemma nth_set_concat: "i < length bs \<Longrightarrow> x \<in> set (bs ! i) \<Longrightarrow> x \<in> set (concat bs)"
  by (auto intro: nth_mem)

lemma mset_concat_update:
  "i < length bs \<Longrightarrow> mset (concat (bs[i := c])) + mset (bs ! i) = mset (concat bs) + mset c"
proof (induction bs arbitrary: i)
  case (Cons b bs)
  then show ?case by (cases i) auto
qed simp

section \<open>Lookup\<close>

lemma chain_pos_le: "chain_pos cmp chain k \<le> length chain"
  by (induction chain) auto

lemma chain_pos_found: "chain_pos cmp chain k < length chain \<Longrightarrow> cmp (it_data (chain ! chain_pos cmp chain k)) k = 0"
  by (induction chain) (auto split: if_splits)

lemma chain_pos_none: "chain_pos cmp chain k = length chain \<longleftrightarrow> (\<forall>x\<in>set chain. cmp (it_data x) k \<noteq> 0)"
  by (induction chain) auto

definition bucket_of :: "'d lhash \<Rightarrow> 'd \<Rightarrow> nat" where
  "bucket_of lh k = unat (ucast (lh_hash lh k) mod num_buckets lh)"

lemma next_ptr_eq:
  "get_next_ptr_and_hash lh k =
     (bucket_of lh k, chain_pos (lh_comp lh) (buckets lh ! bucket_of lh k) k, lh_hash lh k)"
  by (simp add: get_next_ptr_and_hash_def bucket_of_def Let_def)

lemma bucket_of_lt: "lh_ok lh \<Longrightarrow> bucket_of lh k < length (buckets lh)"
  using pos_buckets [of lh] by (simp add: bucket_of_def lh_ok_def in_place_def unat_mod)

lemma item_in_bucket:
  assumes ok: "lh_ok lh" and x: "x \<in> set (items lh)" and k: "lh_comp lh (it_data x) k = 0"
  shows "x \<in> set (buckets lh ! bucket_of lh k)"
proof -
  obtain c where c: "c \<in> set (buckets lh)" "x \<in> set c" using x by (auto simp: items_def)
  then obtain i where i: "i < length (buckets lh)" "x \<in> set (buckets lh ! i)"
    by (auto simp: in_set_conv_nth [of c])
  have law: "lh_law (lh_comp lh) (lh_hash lh)" using ok by (simp add: lh_ok_def)
  have "it_hash x = lh_hash lh (it_data x)" using ok x by (simp add: lh_ok_def)
  moreover have "lh_hash lh (it_data x) = lh_hash lh k" by (rule law_hash [OF law k])
  moreover have "unat (ucast (it_hash x) mod num_buckets lh) = i" using ok i by (auto simp: lh_ok_def in_place_def)
  ultimately show ?thesis using i by (simp add: bucket_of_def)
qed

lemma retrieve_Some:
  assumes ok: "lh_ok lh"
  shows "lh_retrieve lh k = Some d \<longleftrightarrow> (\<exists>x\<in>set (items lh). it_data x = d \<and> lh_comp lh d k = 0)"
proof -
  let ?c = "buckets lh ! bucket_of lh k" and ?cmp = "lh_comp lh"
  let ?p = "chain_pos ?cmp ?c k"
  have law: "lh_law ?cmp (lh_hash lh)" and sw: "sorted_wrt (differ ?cmp) (items lh)" using ok by (auto simp: lh_ok_def)
  have r: "lh_retrieve lh k = (if ?p = length ?c then None else Some (it_data (?c ! ?p)))"
    by (simp add: lh_retrieve_def next_ptr_eq)
  have sub: "x \<in> set ?c \<Longrightarrow> x \<in> set (items lh)" for x
    unfolding items_def by (rule nth_set_concat [OF bucket_of_lt [OF ok]])
  show ?thesis
  proof
    assume "lh_retrieve lh k = Some d"
    then have p: "?p < length ?c" and d: "it_data (?c ! ?p) = d"
      using r chain_pos_le [of ?cmp ?c k] by (auto split: if_splits)
    have "?c ! ?p \<in> set (items lh)" using sub nth_mem [OF p] by blast
    then show "\<exists>x\<in>set (items lh). it_data x = d \<and> ?cmp d k = 0"
      using d chain_pos_found [OF p] by blast
  next
    assume "\<exists>x\<in>set (items lh). it_data x = d \<and> ?cmp d k = 0"
    then obtain x where x: "x \<in> set (items lh)" "it_data x = d" "?cmp d k = 0" by blast
    then have xc: "x \<in> set ?c" using item_in_bucket [OF ok, of x k] by simp
    then have ne: "?p \<noteq> length ?c" using chain_pos_none [of ?cmp ?c k] x by auto
    then have p: "?p < length ?c" using chain_pos_le [of ?cmp ?c k] by simp
    let ?y = "?c ! ?p"
    have y: "?y \<in> set (items lh)" using sub nth_mem [OF p] by blast
    have "?cmp (it_data ?y) k = 0" by (rule chain_pos_found [OF p])
    then have "?cmp (it_data ?y) (it_data x) = 0" using x(2,3)
      by (metis law_sym [OF law] law_trans [OF law])
    moreover have "a = b \<or> differ ?cmp a b" if ab: "a \<in> set (items lh)" "b \<in> set (items lh)" for a b
    proof -
      obtain m n where mn: "m < length (items lh)" "n < length (items lh)" "items lh ! m = a" "items lh ! n = b"
        using ab(1) [unfolded in_set_conv_nth] ab(2) [unfolded in_set_conv_nth] by blast
      show ?thesis
      proof (cases m n rule: linorder_cases)
        case less
        then show ?thesis using sorted_wrt_nth_less [OF sw less mn(2)] mn by simp
      next
        case greater
        then show ?thesis using sorted_wrt_nth_less [OF sw greater mn(1)] mn differ_sym by metis
      qed (use mn in simp)
    qed
    note this [OF y x(1)]
    ultimately have "?y = x" by (auto simp: differ_def)
    then show "lh_retrieve lh k = Some d" using r ne x by simp
  qed
qed

lemma retrieve_eqI:
  assumes "lh_ok lh" and "\<And>d. m = Some d \<longleftrightarrow> (\<exists>x\<in>set (items lh). it_data x = d \<and> lh_comp lh d k = 0)"
  shows "lh_retrieve lh k = m"
  using assms retrieve_Some [OF assms(1), of k] by (metis option.exhaust)


section \<open>Resizing\<close>

lemma in_place_replicate: "in_place n (replicate (unat n) [])"
  by (simp add: in_place_def)

lemma rebucket_chain_ok:
  assumes n: "0 < unat n"
  shows "in_place n nb \<Longrightarrow> in_place n (rebucket_chain n chain nb) \<and>
    mset (concat (rebucket_chain n chain nb)) = mset chain + mset (concat nb)"
proof (induction chain arbitrary: nb)
  case (Cons cur chain)
  let ?b = "unat (ucast (it_hash cur) mod n)"
  let ?nb = "nb[?b := cur # nb ! ?b]"
  have b: "?b < length nb" using n Cons.prems by (simp add: unat_mod in_place_def)
  have "in_place n ?nb" using Cons.prems b by (auto simp: in_place_def nth_list_update)
  moreover have "mset (concat ?nb) = add_mset cur (mset (concat nb))"
    using mset_concat_update [OF b, of "cur # nb ! ?b"] by simp
  ultimately show ?case using Cons.IH [of ?nb] by (simp add: Let_def)
qed simp

lemma rebucket_ok:
  assumes n: "0 < unat n"
  shows "in_place n nb \<Longrightarrow> in_place n (fold (rebucket_chain n) bs nb) \<and>
    mset (concat (fold (rebucket_chain n) bs nb)) = mset (concat bs) + mset (concat nb)"
  by (induction bs arbitrary: nb) (simp_all add: rebucket_chain_ok [OF n])

text \<open>Two tables with the same items, callbacks and count.\<close>

definition same_items :: "'d lhash \<Rightarrow> 'd lhash \<Rightarrow> bool" where
  "same_items lh lh' \<longleftrightarrow> mset (items lh') = mset (items lh) \<and> lh_comp lh' = lh_comp lh \<and> lh_hash lh' = lh_hash lh"

lemma lh_rebucket_ok:
  assumes ok: "lh_ok lh" and n: "kMinNumBuckets \<le> n"
  shows "lh_ok (lh_rebucket alloc lh n) \<and> same_items lh (lh_rebucket alloc lh n)"
proof (cases "8 * n div 8 \<noteq> n \<or> \<not> alloc (8 * n)")
  case True
  then have "lh_rebucket alloc lh n = lh" by (auto simp: lh_rebucket_def Let_def)
  then show ?thesis using ok by (simp add: same_items_def)
next
  case False
  let ?bs = "fold (rebucket_chain n) (buckets lh) (replicate (unat n) [])"
  have lh': "lh_rebucket alloc lh n = lh\<lparr>num_buckets := n, buckets := ?bs\<rparr>"
    using False by (simp add: lh_rebucket_def Let_def)
  have "0 < unat n" using n by (auto simp: kMinNumBuckets_def word_le_nat_alt)
  from rebucket_ok [OF this in_place_replicate, of "buckets lh"]
  have ip: "in_place n ?bs" and ms: "mset (concat ?bs) = mset (items lh)" by (simp_all add: items_def)
  have "sorted_wrt (differ (lh_comp lh)) (concat ?bs)"
    using sorted_wrt_perm [of "differ (lh_comp lh)" "items lh" "concat ?bs"] differ_sym ms ok
    by (metis lh_ok_def)
  moreover have "set (concat ?bs) = set (items lh)" "length (concat ?bs) = length (items lh)"
    using ms mset_eq_setD mset_eq_length by blast+
  ultimately show ?thesis using ok n ip ms unfolding lh' by (simp add: lh_ok_def same_items_def items_def)
qed

lemma lh_ok_num_buckets_div2: "\<not> (if n div 2 < kMinNumBuckets then kMinNumBuckets else n div 2) < kMinNumBuckets"
  by simp

lemma lh_maybe_resize_ok:
  assumes ok: "lh_ok lh"
  shows "lh_ok (lh_maybe_resize alloc lh) \<and> same_items lh (lh_maybe_resize alloc lh)"
proof -
  have refl: "lh_ok lh \<and> same_items lh lh" using ok by (simp add: same_items_def)
  have up: "kMinNumBuckets \<le> num_buckets lh * 2" if "num_buckets lh < num_buckets lh * 2"
    using that ok by (auto simp: lh_ok_def)
  show ?thesis
    unfolding lh_maybe_resize_def Let_def
    using refl up lh_rebucket_ok [OF ok] by (auto simp: not_less)
qed

lemma retrieve_same_items:
  assumes "lh_ok lh" and "lh_ok lh'" and "same_items lh lh'"
  shows "lh_retrieve lh' = lh_retrieve lh"
proof
  fix k
  have "set (items lh') = set (items lh)" and "lh_comp lh' = lh_comp lh"
    using assms(3) mset_eq_setD by (auto simp: same_items_def)
  then show "lh_retrieve lh' k = lh_retrieve lh k"
    by (intro retrieve_eqI assms) (simp add: retrieve_Some [OF assms(1)])
qed

section \<open>Insertion and deletion\<close>

text \<open>One bucket is replaced: what has to hold of its new chain.\<close>

lemma update_bucket_ok:
  assumes ok: "lh_ok lh" and i: "i < length (buckets lh)"
    and pl: "\<forall>x\<in>set c. unat (ucast (it_hash x) mod num_buckets lh) = i \<and> it_hash x = lh_hash lh (it_data x)"
    and sw: "sorted_wrt (differ (lh_comp lh)) (concat ((buckets lh)[i := c]))"
    and n: "n = word_of_nat (length (concat ((buckets lh)[i := c])))"
  shows "lh_ok (lh\<lparr>buckets := (buckets lh)[i := c], num_items := n\<rparr>)"
proof -
  have "in_place (num_buckets lh) ((buckets lh)[i := c])"
    using ok i pl by (auto simp: lh_ok_def in_place_def nth_list_update)
  moreover have "x \<in> set c \<or> x \<in> set (items lh)" if "x \<in> set (concat ((buckets lh)[i := c]))" for x
    using that set_update_subset_insert [of "buckets lh" i c] by (auto simp: items_def)
  then have "\<forall>x\<in>set (concat ((buckets lh)[i := c])). it_hash x = lh_hash lh (it_data x)"
    using ok pl by (auto simp: lh_ok_def)
  ultimately show ?thesis using ok sw n by (simp add: lh_ok_def items_def)
qed

lemma concat_update:
  "i < length bs \<Longrightarrow> concat (bs[i := c]) = concat (take i bs) @ c @ concat (drop (Suc i) bs)"
  by (simp add: upd_conv_take_nth_drop)

lemma sorted_wrt_middle:
  assumes sym: "\<And>x y. R x y \<Longrightarrow> R y x"
  shows "sorted_wrt R (as @ y # bs) \<longleftrightarrow> sorted_wrt R (as @ bs) \<and> (\<forall>z\<in>set (as @ bs). R y z)"
  using sym by (auto simp: sorted_wrt_append)

lemma differ_cong:
  assumes "lh_law cmp hsh" and "cmp (it_data x) (it_data y) = 0" and "differ cmp x z"
  shows "differ cmp y z"
  using assms(2,3) law_sym [OF assms(1)] law_trans [OF assms(1)] unfolding differ_def by blast

text \<open>What an update of the items does to lookups: \<open>d\<close> is the key that changes and \<open>new\<close> the item
  put in its place, if any.\<close>

lemma retrieve_update:
  assumes ok: "lh_ok lh" and ok': "lh_ok lh'" and cmp: "lh_comp lh' = lh_comp lh"
    and set: "\<And>x. x \<in> set (items lh') \<longleftrightarrow> x \<in> set (items lh) \<and> lh_comp lh (it_data x) d \<noteq> 0 \<or> new = Some x"
    and new: "\<And>x. new = Some x \<Longrightarrow> it_data x = d"
  shows "lh_retrieve lh' k = (if lh_comp lh d k = 0 then map_option it_data new else lh_retrieve lh k)"
proof (rule retrieve_eqI [OF ok'])
  fix e
  have law: "lh_law (lh_comp lh) (lh_hash lh)" using ok by (simp add: lh_ok_def)
  have keep: "lh_comp lh (it_data x) d \<noteq> 0" if "lh_comp lh (it_data x) k = 0" "lh_comp lh d k \<noteq> 0" for x
    using that by (metis law_sym [OF law] law_trans [OF law])
  have drop: "lh_comp lh (it_data x) d = 0" if "lh_comp lh (it_data x) k = 0" "lh_comp lh d k = 0" for x
    using that by (metis law_sym [OF law] law_trans [OF law])
  show "(if lh_comp lh d k = 0 then map_option it_data new else lh_retrieve lh k) = Some e \<longleftrightarrow>
      (\<exists>x\<in>set (items lh'). it_data x = e \<and> lh_comp lh' e k = 0)"
    unfolding Bex_def set cmp using keep drop new by (auto simp: retrieve_Some [OF ok])
qed

lemma find_pos:
  assumes ok: "lh_ok lh" and p: "chain_pos (lh_comp lh) (buckets lh ! bucket_of lh d) d \<noteq> length (buckets lh ! bucket_of lh d)"
  obtains chain as x bs where "chain = buckets lh ! bucket_of lh d"
    and "chain_pos (lh_comp lh) chain d < length chain" and "chain ! chain_pos (lh_comp lh) chain d = x"
    and "lh_comp lh (it_data x) d = 0" and "lh_retrieve lh d = Some (it_data x)" and "x \<in> set chain"
    and "items lh = as @ x # bs"
    and "\<And>y. concat ((buckets lh)[bucket_of lh d := chain[chain_pos (lh_comp lh) chain d := y]]) = as @ y # bs"
    and "concat ((buckets lh)[bucket_of lh d :=
            take (chain_pos (lh_comp lh) chain d) chain @ drop (Suc (chain_pos (lh_comp lh) chain d)) chain]) = as @ bs"
    and "\<And>z. z \<in> set (as @ bs) \<longleftrightarrow> z \<in> set (items lh) \<and> lh_comp lh (it_data z) d \<noteq> 0"
proof -
  let ?i = "bucket_of lh d" and ?cmp = "lh_comp lh"
  let ?c = "buckets lh ! ?i"
  let ?p = "chain_pos ?cmp ?c d"
  let ?as = "concat (take ?i (buckets lh)) @ take ?p ?c" and ?bs = "drop (Suc ?p) ?c @ concat (drop (Suc ?i) (buckets lh))"
  have i: "?i < length (buckets lh)" by (rule bucket_of_lt [OF ok])
  have lt: "?p < length ?c" using p chain_pos_le [of ?cmp ?c d] by simp
  have law: "lh_law ?cmp (lh_hash lh)" using ok by (simp add: lh_ok_def)
  have upd: "concat ((buckets lh)[?i := ?c[?p := y]]) = ?as @ y # ?bs" for y
    using lt by (simp add: concat_update [OF i] upd_conv_take_nth_drop)
  have del: "concat ((buckets lh)[?i := take ?p ?c @ drop (Suc ?p) ?c]) = ?as @ ?bs"
    by (simp add: concat_update [OF i])
  have it: "items lh = ?as @ ?c ! ?p # ?bs" using upd [of "?c ! ?p"] by (simp add: items_def)
  have x: "?cmp (it_data (?c ! ?p)) d = 0" by (rule chain_pos_found [OF lt])
  have "sorted_wrt (differ ?cmp) (?as @ ?c ! ?p # ?bs)" using ok it by (simp add: lh_ok_def)
  then have df: "\<forall>z\<in>set (?as @ ?bs). differ ?cmp (?c ! ?p) z"
    using sorted_wrt_middle [of "differ ?cmp" ?as "?c ! ?p" ?bs] differ_sym by blast
  have z: "z \<in> set (?as @ ?bs) \<longleftrightarrow> z \<in> set (items lh) \<and> ?cmp (it_data z) d \<noteq> 0" for z
  proof
    assume z: "z \<in> set (?as @ ?bs)"
    then have "?cmp (it_data z) (it_data (?c ! ?p)) \<noteq> 0" using df by (auto simp: differ_def)
    then have "?cmp (it_data z) d \<noteq> 0" using x by (metis law_sym [OF law] law_trans [OF law])
    then show "z \<in> set (items lh) \<and> ?cmp (it_data z) d \<noteq> 0" using z it by auto
  next
    assume "z \<in> set (items lh) \<and> ?cmp (it_data z) d \<noteq> 0"
    then show "z \<in> set (?as @ ?bs)" using x it by auto
  qed
  show ?thesis
    by (rule that [OF refl lt refl x _ nth_mem [OF lt] it upd del z]) (use p in \<open>simp add: lh_retrieve_def next_ptr_eq\<close>)
qed

text \<open>Replacing, appending and removing an item keep the invariant.\<close>

lemma replace_ok:
  assumes ok: "lh_ok lh" and p: "chain_pos (lh_comp lh) (buckets lh ! bucket_of lh d) d \<noteq> length (buckets lh ! bucket_of lh d)"
    and lh': "lh' = lh\<lparr>buckets := (buckets lh)[bucket_of lh d := (buckets lh ! bucket_of lh d)
          [chain_pos (lh_comp lh) (buckets lh ! bucket_of lh d) d :=
            (buckets lh ! bucket_of lh d ! chain_pos (lh_comp lh) (buckets lh ! bucket_of lh d) d)\<lparr>it_data := d\<rparr>]]\<rparr>"
  shows "lh_ok lh' \<and> lh_comp lh' = lh_comp lh \<and>
    lh_retrieve lh' k = (if lh_comp lh d k = 0 then Some d else lh_retrieve lh k)"
proof -
  from find_pos [OF ok p] obtain chain as x bs where c: "chain = buckets lh ! bucket_of lh d"
    and lt: "chain_pos (lh_comp lh) chain d < length chain" and x: "chain ! chain_pos (lh_comp lh) chain d = x"
    and xd: "lh_comp lh (it_data x) d = 0" and xc: "x \<in> set chain" and it: "items lh = as @ x # bs"
    and upd: "\<And>y. concat ((buckets lh)[bucket_of lh d := chain[chain_pos (lh_comp lh) chain d := y]]) = as @ y # bs"
    and z: "\<And>z. z \<in> set (as @ bs) \<longleftrightarrow> z \<in> set (items lh) \<and> lh_comp lh (it_data z) d \<noteq> 0"
    by metis
  let ?y = "x\<lparr>it_data := d\<rparr>" and ?i = "bucket_of lh d" and ?p = "chain_pos (lh_comp lh) chain d"
  have lh'_eq: "lh' = lh\<lparr>buckets := (buckets lh)[?i := chain[?p := ?y]], num_items := num_items lh\<rparr>"
    unfolding lh' c [symmetric] x by simp
  have i: "?i < length (buckets lh)" by (rule bucket_of_lt [OF ok])
  have law: "lh_law (lh_comp lh) (lh_hash lh)" using ok by (simp add: lh_ok_def)
  have old: "\<forall>x\<in>set chain. unat (ucast (it_hash x) mod num_buckets lh) = ?i \<and> it_hash x = lh_hash lh (it_data x)"
    using ok i nth_set_concat [OF i] unfolding c by (auto simp: lh_ok_def in_place_def items_def)
  have pl: "\<forall>w\<in>set (chain[?p := ?y]). unat (ucast (it_hash w) mod num_buckets lh) = ?i \<and> it_hash w = lh_hash lh (it_data w)"
  proof
    fix w
    assume "w \<in> set (chain[?p := ?y])"
    then have "w = ?y \<or> w \<in> set chain" using set_update_subset_insert [of chain ?p ?y] by blast
    then show "unat (ucast (it_hash w) mod num_buckets lh) = ?i \<and> it_hash w = lh_hash lh (it_data w)"
      using bspec [OF old xc] bspec [OF old] law_hash [OF law xd] by (elim disjE) (metis lhash_item.select_convs lhash_item.surjective lhash_item.update_convs(1), blast)
  qed
  have "sorted_wrt (differ (lh_comp lh)) (as @ x # bs)" using ok it by (simp add: lh_ok_def)
  then have sw: "sorted_wrt (differ (lh_comp lh)) (as @ ?y # bs)"
    using differ_cong [OF law, of x ?y] xd
    by (auto simp: sorted_wrt_middle [OF differ_sym])
  have "num_items lh = word_of_nat (length (as @ ?y # bs))" using ok it by (simp add: lh_ok_def)
  then have ok': "lh_ok lh'" unfolding lh'_eq by (intro update_bucket_ok ok i pl) (use sw upd in simp_all)
  have "items lh' = as @ ?y # bs" unfolding lh'_eq by (simp add: items_def upd)
  then have "w \<in> set (items lh') \<longleftrightarrow> w \<in> set (items lh) \<and> lh_comp lh (it_data w) d \<noteq> 0 \<or> Some ?y = Some w" for w
    using z [of w] by auto
  from retrieve_update [OF ok ok' _ this, of k] ok' show ?thesis unfolding lh'_eq by simp
qed

lemma append_ok:
  assumes ok: "lh_ok lh" and p: "chain_pos (lh_comp lh) (buckets lh ! bucket_of lh d) d = length (buckets lh ! bucket_of lh d)"
    and lh': "lh' = lh\<lparr>buckets := (buckets lh)[bucket_of lh d := buckets lh ! bucket_of lh d @
                  [\<lparr>it_data = d, it_hash = lh_hash lh d\<rparr>]], num_items := num_items lh + 1\<rparr>"
  shows "lh_ok lh' \<and> lh_comp lh' = lh_comp lh \<and> lh_retrieve lh d = None \<and>
    lh_retrieve lh' k = (if lh_comp lh d k = 0 then Some d else lh_retrieve lh k)"
proof -
  let ?i = "bucket_of lh d" and ?y = "\<lparr>it_data = d, it_hash = lh_hash lh d\<rparr>"
  let ?c = "buckets lh ! ?i"
  let ?as = "concat (take ?i (buckets lh)) @ ?c" and ?bs = "concat (drop (Suc ?i) (buckets lh))"
  have i: "?i < length (buckets lh)" by (rule bucket_of_lt [OF ok])
  have law: "lh_law (lh_comp lh) (lh_hash lh)" using ok by (simp add: lh_ok_def)
  have upd: "concat ((buckets lh)[?i := ?c @ [?y]]) = ?as @ ?y # ?bs" by (simp add: concat_update [OF i])
  have it: "items lh = ?as @ ?bs" using concat_update [OF i, of ?c] by (simp add: items_def)
  have none: "lh_comp lh (it_data x) d \<noteq> 0" if "x \<in> set (items lh)" for x
    using item_in_bucket [OF ok that, of d] chain_pos_none [of "lh_comp lh" ?c d] p by auto
  have pl: "\<forall>x\<in>set (?c @ [?y]). unat (ucast (it_hash x) mod num_buckets lh) = ?i \<and> it_hash x = lh_hash lh (it_data x)"
    using ok i nth_set_concat [OF i] by (auto simp: lh_ok_def in_place_def items_def bucket_of_def)
  have "\<forall>z\<in>set (?as @ ?bs). differ (lh_comp lh) ?y z"
    using none law_sym [OF law] unfolding it by (auto simp: differ_def)
  moreover have "sorted_wrt (differ (lh_comp lh)) (?as @ ?bs)" using ok it by (simp add: lh_ok_def)
  ultimately have sw: "sorted_wrt (differ (lh_comp lh)) (?as @ ?y # ?bs)"
    using sorted_wrt_middle [of "differ (lh_comp lh)" ?as ?y ?bs] differ_sym by blast
  have "num_items lh + 1 = word_of_nat (length (?as @ ?y # ?bs))" using ok it by (simp add: lh_ok_def)
  then have ok': "lh_ok lh'" unfolding lh' by (intro update_bucket_ok ok i pl) (use sw upd in simp_all)
  have it': "items lh' = ?as @ ?y # ?bs" unfolding lh' by (simp add: items_def upd)
  have "w \<in> set (items lh') \<longleftrightarrow> w \<in> set (items lh) \<and> lh_comp lh (it_data w) d \<noteq> 0 \<or> Some ?y = Some w" for w
    using none [of w] unfolding it' it by auto
  from retrieve_update [OF ok ok' _ this, of k] ok' p show ?thesis
    unfolding lh' by (simp add: lh_retrieve_def next_ptr_eq)
qed

lemma remove_ok:
  assumes ok: "lh_ok lh" and p: "chain_pos (lh_comp lh) (buckets lh ! bucket_of lh d) d \<noteq> length (buckets lh ! bucket_of lh d)"
    and lh': "lh' = lh\<lparr>buckets := (buckets lh)[bucket_of lh d :=
        take (chain_pos (lh_comp lh) (buckets lh ! bucket_of lh d) d) (buckets lh ! bucket_of lh d) @
        drop (Suc (chain_pos (lh_comp lh) (buckets lh ! bucket_of lh d) d)) (buckets lh ! bucket_of lh d)],
        num_items := num_items lh - 1\<rparr>"
  shows "lh_ok lh' \<and> lh_comp lh' = lh_comp lh \<and>
    lh_retrieve lh' k = (if lh_comp lh d k = 0 then None else lh_retrieve lh k)"
proof -
  from find_pos [OF ok p] obtain chain as x bs where c: "chain = buckets lh ! bucket_of lh d"
    and it: "items lh = as @ x # bs"
    and del: "concat ((buckets lh)[bucket_of lh d :=
            take (chain_pos (lh_comp lh) chain d) chain @ drop (Suc (chain_pos (lh_comp lh) chain d)) chain]) = as @ bs"
    and z: "\<And>z. z \<in> set (as @ bs) \<longleftrightarrow> z \<in> set (items lh) \<and> lh_comp lh (it_data z) d \<noteq> 0"
    by metis
  let ?i = "bucket_of lh d"
  let ?c = "take (chain_pos (lh_comp lh) chain d) chain @ drop (Suc (chain_pos (lh_comp lh) chain d)) chain"
  have lh'_eq: "lh' = lh\<lparr>buckets := (buckets lh)[?i := ?c], num_items := num_items lh - 1\<rparr>"
    unfolding lh' c [symmetric] by simp
  have i: "?i < length (buckets lh)" by (rule bucket_of_lt [OF ok])
  have old: "\<forall>x\<in>set chain. unat (ucast (it_hash x) mod num_buckets lh) = ?i \<and> it_hash x = lh_hash lh (it_data x)"
    using ok i nth_set_concat [OF i] unfolding c by (auto simp: lh_ok_def in_place_def items_def)
  then have pl: "\<forall>x\<in>set ?c. unat (ucast (it_hash x) mod num_buckets lh) = ?i \<and> it_hash x = lh_hash lh (it_data x)"
    by (auto dest: in_set_takeD in_set_dropD)
  have "sorted_wrt (differ (lh_comp lh)) (as @ x # bs)" using ok it by (simp add: lh_ok_def)
  then have sw: "sorted_wrt (differ (lh_comp lh)) (as @ bs)" by (simp add: sorted_wrt_middle [OF differ_sym])
  have "num_items lh - 1 = word_of_nat (length (as @ bs))" using ok it by (simp add: lh_ok_def)
  then have ok': "lh_ok lh'" unfolding lh'_eq by (intro update_bucket_ok ok i pl) (use sw del in simp_all)
  have "items lh' = as @ bs" unfolding lh'_eq by (simp add: items_def del)
  then have "w \<in> set (items lh') \<longleftrightarrow> w \<in> set (items lh) \<and> lh_comp lh (it_data w) d \<noteq> 0 \<or> None = Some w" for w
    using z [of w] by auto
  from retrieve_update [OF ok ok' _ this, of k] ok' show ?thesis unfolding lh'_eq by simp
qed

text \<open>The table with a given comparison, as a store: what \<open>lh_insert\<close> and \<open>lh_delete\<close> promise.\<close>

definition lh_inv :: "('d \<Rightarrow> 'd \<Rightarrow> int) \<Rightarrow> 'd lhash \<Rightarrow> bool" where
  "lh_inv cmp lh \<longleftrightarrow> lh_ok lh \<and> lh_comp lh = cmp"

lemma resized:
  assumes "lh_ok lh"
  shows "lh_ok (lh_maybe_resize alloc lh)" and "lh_comp (lh_maybe_resize alloc lh) = lh_comp lh"
    and "lh_retrieve (lh_maybe_resize alloc lh) = lh_retrieve lh"
  using lh_maybe_resize_ok [OF assms, of alloc] retrieve_same_items [OF assms, of "lh_maybe_resize alloc lh"]
  by (auto simp: same_items_def)

lemma lh_insert_ok:
  assumes inv: "lh_inv cmp lh"
  shows "fst (lh_insert alloc ok lh d) = (lh_retrieve lh d \<noteq> None \<or> ok, lh_retrieve lh d)"
    and "lh_inv cmp (snd (lh_insert alloc ok lh d))"
    and "lh_retrieve (snd (lh_insert alloc ok lh d)) k =
           (if (lh_retrieve lh d \<noteq> None \<or> ok) \<and> cmp d k = 0 then Some d else lh_retrieve lh k)"
proof -
  have ok: "lh_ok lh" and cmp: "lh_comp lh = cmp" using inv by (auto simp: lh_inv_def)
  let ?c = "buckets lh ! bucket_of lh d"
  let ?r = "lh_insert alloc ok lh d"
  have "fst ?r = (lh_retrieve lh d \<noteq> None \<or> ok, lh_retrieve lh d) \<and> lh_inv cmp (snd ?r) \<and>
      lh_retrieve (snd ?r) k = (if (lh_retrieve lh d \<noteq> None \<or> ok) \<and> cmp d k = 0 then Some d else lh_retrieve lh k)"
  proof (cases "chain_pos (lh_comp lh) ?c d = length ?c")
    case True
    note ap = append_ok [OF ok True refl]
    show ?thesis
      using ap [of k] True ok cmp resized [of "lh\<lparr>buckets := (buckets lh)[bucket_of lh d := ?c @
                  [\<lparr>it_data = d, it_hash = lh_hash lh d\<rparr>]], num_items := num_items lh + 1\<rparr>" alloc]
      by (cases ok) (simp_all add: lh_insert_def next_ptr_eq Let_def lh_inv_def)
  next
    case False
    from replace_ok [OF ok False refl, of k] False cmp show ?thesis
      by (simp add: lh_insert_def next_ptr_eq Let_def lh_inv_def lh_retrieve_def)
  qed
  then show "fst ?r = (lh_retrieve lh d \<noteq> None \<or> ok, lh_retrieve lh d)" and "lh_inv cmp (snd ?r)"
    and "lh_retrieve (snd ?r) k = (if (lh_retrieve lh d \<noteq> None \<or> ok) \<and> cmp d k = 0 then Some d else lh_retrieve lh k)"
    by blast+
qed

lemma lh_delete_ok:
  assumes inv: "lh_inv cmp lh"
  shows "fst (lh_delete alloc lh d) = lh_retrieve lh d"
    and "lh_inv cmp (snd (lh_delete alloc lh d))"
    and "lh_retrieve (snd (lh_delete alloc lh d)) k = (if cmp d k = 0 then None else lh_retrieve lh k)"
proof -
  have ok: "lh_ok lh" and cmp: "lh_comp lh = cmp" using inv by (auto simp: lh_inv_def)
  have law: "lh_law cmp (lh_hash lh)" using ok cmp by (simp add: lh_ok_def)
  let ?c = "buckets lh ! bucket_of lh d"
  let ?r = "lh_delete alloc lh d"
  have "fst ?r = lh_retrieve lh d \<and> lh_inv cmp (snd ?r) \<and>
      lh_retrieve (snd ?r) k = (if cmp d k = 0 then None else lh_retrieve lh k)"
  proof (cases "chain_pos (lh_comp lh) ?c d = length ?c")
    case True
    then have none: "lh_retrieve lh d = None" by (simp add: lh_retrieve_def next_ptr_eq)
    have "lh_retrieve lh k = None" if dk: "cmp d k = 0"
    proof (rule retrieve_eqI [OF ok])
      fix e
      show "None = Some e \<longleftrightarrow> (\<exists>x\<in>set (items lh). it_data x = e \<and> lh_comp lh e k = 0)"
        using none retrieve_Some [OF ok, of d e] cmp dk law_sym [OF law] law_trans [OF law] by (metis option.distinct(1))
    qed
    with True none inv show ?thesis by (simp add: lh_delete_def next_ptr_eq Let_def)
  next
    case False
    from remove_ok [OF ok False refl, of k] resized [of "lh\<lparr>buckets := (buckets lh)[bucket_of lh d :=
        take (chain_pos (lh_comp lh) ?c d) ?c @ drop (Suc (chain_pos (lh_comp lh) ?c d)) ?c],
        num_items := num_items lh - 1\<rparr>" alloc] False cmp
    show ?thesis by (simp add: lh_delete_def next_ptr_eq Let_def lh_inv_def lh_retrieve_def)
  qed
  then show "fst ?r = lh_retrieve lh d" and "lh_inv cmp (snd ?r)"
    and "lh_retrieve (snd ?r) k = (if cmp d k = 0 then None else lh_retrieve lh k)"
    by blast+
qed

section \<open>The map interface\<close>

datatype ('e, 'd) store_op = Ins 'e bool 'd | Del 'e 'd | Fetch 'd

text \<open>A script on a store with the given operations, and on an abstract map: the flag of \<open>Ins\<close> says
  whether the allocation of its item succeeds, the first argument of \<open>Ins\<close> and \<open>Del\<close> is what else the call depends on
  (for the hash table: which bucket arrays can be allocated during this call); each call reports success and an
  element.\<close>

fun store_run :: "('e \<Rightarrow> bool \<Rightarrow> 's \<Rightarrow> 'd \<Rightarrow> (bool \<times> 'd option) \<times> 's) \<Rightarrow> ('e \<Rightarrow> 's \<Rightarrow> 'd \<Rightarrow> 'd option \<times> 's) \<Rightarrow>
    ('s \<Rightarrow> 'd \<Rightarrow> 'd option) \<Rightarrow> 's \<Rightarrow> ('e, 'd) store_op list \<Rightarrow> (bool \<times> 'd option) list \<times> 's" where
  "store_run ins del get s [] = ([], s)"
| "store_run ins del get s (Ins e ok d # ops) =
     (case ins e ok s d of (r, s) \<Rightarrow> case store_run ins del get s ops of (rs, s) \<Rightarrow> (r # rs, s))"
| "store_run ins del get s (Del e d # ops) =
     (case del e s d of (r, s) \<Rightarrow> case store_run ins del get s ops of (rs, s) \<Rightarrow> ((True, r) # rs, s))"
| "store_run ins del get s (Fetch d # ops) =
     (case store_run ins del get s ops of (rs, s') \<Rightarrow> ((True, get s d) # rs, s'))"

definition class_upd :: "('d \<Rightarrow> 'd \<Rightarrow> bool) \<Rightarrow> ('d \<rightharpoonup> 'd) \<Rightarrow> 'd \<Rightarrow> 'd option \<Rightarrow> ('d \<rightharpoonup> 'd)" where
  "class_upd same m d v = (\<lambda>k. if same d k then v else m k)"

fun map_run :: "('d \<Rightarrow> 'd \<Rightarrow> bool) \<Rightarrow> ('d \<rightharpoonup> 'd) \<Rightarrow> ('e, 'd) store_op list \<Rightarrow> (bool \<times> 'd option) list \<times> ('d \<rightharpoonup> 'd)" where
  "map_run same m [] = ([], m)"
| "map_run same m (Ins e ok d # ops) =
     (let done = m d \<noteq> None \<or> ok in
      case map_run same (if done then class_upd same m d (Some d) else m) ops of (rs, m') \<Rightarrow> ((done, m d) # rs, m'))"
| "map_run same m (Del e d # ops) =
     (case map_run same (class_upd same m d None) ops of (rs, m') \<Rightarrow> ((True, m d) # rs, m'))"
| "map_run same m (Fetch d # ops) = (case map_run same m ops of (rs, m') \<Rightarrow> ((True, m d) # rs, m'))"

locale keyed_store =
  fixes inv :: "'s \<Rightarrow> bool"
    and same :: "'d \<Rightarrow> 'd \<Rightarrow> bool"
    and ins :: "'e \<Rightarrow> bool \<Rightarrow> 's \<Rightarrow> 'd \<Rightarrow> (bool \<times> 'd option) \<times> 's"
    and del :: "'e \<Rightarrow> 's \<Rightarrow> 'd \<Rightarrow> 'd option \<times> 's"
    and get :: "'s \<Rightarrow> 'd \<Rightarrow> 'd option"
  assumes ins_result: "inv s \<Longrightarrow> fst (ins e ok s d) = (get s d \<noteq> None \<or> ok, get s d)"
    and ins_inv: "inv s \<Longrightarrow> inv (snd (ins e ok s d))"
    and ins_get: "inv s \<Longrightarrow> get (snd (ins e ok s d)) k = (if (get s d \<noteq> None \<or> ok) \<and> same d k then Some d else get s k)"
    and del_result: "inv s \<Longrightarrow> fst (del e s d) = get s d"
    and del_inv: "inv s \<Longrightarrow> inv (snd (del e s d))"
    and del_get: "inv s \<Longrightarrow> get (snd (del e s d)) k = (if same d k then None else get s k)"
begin

lemma ins_map:
  "inv s \<Longrightarrow> get (snd (ins e ok s d)) = (if get s d \<noteq> None \<or> ok then class_upd same (get s) d (Some d) else get s)"
  using ins_get [of s e ok d] by (auto simp: class_upd_def fun_eq_iff)

lemma del_map: "inv s \<Longrightarrow> get (snd (del e s d)) = class_upd same (get s) d None"
  using del_get [of s e d] by (auto simp: class_upd_def fun_eq_iff)

lemma run_refines:
  "inv s \<Longrightarrow> store_run ins del get s ops = (rs, s') \<Longrightarrow> map_run same (get s) ops = (rs, get s') \<and> inv s'"
proof (induction ops arbitrary: s rs s')
  case (Cons op ops)
  show ?case
  proof (cases op)
    case (Ins e ok d)
    obtain s1 where s1: "ins e ok s d = ((get s d \<noteq> None \<or> ok, get s d), s1)"
      using ins_result [OF Cons.prems(1)] by (metis prod.collapse)
    with Cons.prems Ins obtain rs1 where "store_run ins del get s1 ops = (rs1, s')" "rs = (get s d \<noteq> None \<or> ok, get s d) # rs1"
      by (auto split: prod.splits)
    with Cons.IH [of s1 rs1 s'] ins_inv [OF Cons.prems(1), of e ok d] ins_map [OF Cons.prems(1), of e ok d] s1 Ins
    show ?thesis by (simp add: Let_def del: not_None_eq)
  next
    case (Del e d)
    obtain s1 where s1: "del e s d = (get s d, s1)" using del_result [OF Cons.prems(1)] by (metis prod.collapse)
    with Cons.prems Del obtain rs1 where "store_run ins del get s1 ops = (rs1, s')" "rs = (True, get s d) # rs1"
      by (auto split: prod.splits)
    with Cons.IH [of s1 rs1 s'] del_inv [OF Cons.prems(1), of e d] del_map [OF Cons.prems(1), of e d] s1 Del
    show ?thesis by simp
  next
    case (Fetch d)
    with Cons.prems obtain rs1 where "store_run ins del get s ops = (rs1, s')" "rs = (True, get s d) # rs1"
      by (auto split: prod.splits)
    with Cons.IH [of s rs1 s'] Cons.prems Fetch show ?thesis by (auto split: prod.splits)
  qed
qed simp

end

interpretation lh_store: keyed_store "lh_inv cmp" "\<lambda>a b. cmp a b = 0" lh_insert lh_delete lh_retrieve
  for cmp :: "'d \<Rightarrow> 'd \<Rightarrow> int"
  by unfold_locales (simp_all add: lh_insert_ok lh_delete_ok)

lemma lh_new_inv:
  assumes "lh_law cmp hsh" and "lh_new a1 a2 hsh cmp = Some lh"
  shows "lh_inv cmp lh \<and> lh_retrieve lh = (\<lambda>_. None) \<and> lh_num_items lh = 0"
proof -
  have lh: "lh = \<lparr>num_items = 0, buckets = replicate (unat kMinNumBuckets) [], num_buckets = kMinNumBuckets,
                 callback_depth = 0, lh_comp = cmp, lh_hash = hsh\<rparr>"
    using assms(2) by (auto simp: lh_new_def split: if_splits)
  have ip: "in_place (num_buckets lh) (buckets lh)" using in_place_replicate unfolding lh by simp
  have it: "items lh = []" unfolding lh by (simp add: items_def)
  have ok: "lh_ok lh" using assms(1) ip it unfolding lh by (simp add: lh_ok_def)
  have "lh_retrieve lh k = None" for k by (rule retrieve_eqI [OF ok]) (simp add: it)
  with ok show ?thesis unfolding lh by (auto simp: lh_inv_def lh_num_items_def)
qed

section \<open>Properties\<close>

text \<open>C29: a hash table made by \<open>lh_new\<close> is a map: every script of insertions, deletions and lookups
  answers as on a map from keys (up to the comparison callback) to elements, an insertion fails
  only when the item cannot be allocated and then changes nothing, and resizing (also when it cannot
  allocate, which each call of the script chooses anew) is invisible; the element count is the number of elements.\<close>

theorem lhash_refines_map:
  assumes "lh_law cmp hsh" and "lh_new a1 a2 hsh cmp = Some lh"
    and "store_run lh_insert lh_delete lh_retrieve lh ops = (rs, lh')"
  shows "map_run (\<lambda>a b. cmp a b = 0) (\<lambda>_. None) ops = (rs, lh_retrieve lh') \<and>
    lh_num_items lh' = word_of_nat (length (items lh')) \<and>
    (\<forall>x\<in>set (items lh'). lh_retrieve lh' (it_data x) = Some (it_data x))"
proof -
  have new: "lh_inv cmp lh" "lh_retrieve lh = (\<lambda>_. None)" using lh_new_inv [OF assms(1,2)] by blast+
  with lh_store.run_refines [OF new(1) assms(3)]
  have run: "map_run (\<lambda>a b. cmp a b = 0) (\<lambda>_. None) ops = (rs, lh_retrieve lh')" and inv: "lh_inv cmp lh'" by auto
  then have ok: "lh_ok lh'" "lh_comp lh' = cmp" by (auto simp: lh_inv_def)
  have "lh_retrieve lh' (it_data x) = Some (it_data x)" if "x \<in> set (items lh')" for x
    using that ok law_refl [OF assms(1)] by (auto simp: retrieve_Some [OF ok(1)])
  with run ok(1) show ?thesis by (auto simp: lh_ok_def lh_num_items_def)
qed

definition nat_cmp :: "nat \<Rightarrow> nat \<Rightarrow> int" where
  "nat_cmp a b = (if a = b then 0 else 1)"

lemma lhash_refines_map_witness:
  "let lh = the (lh_new True True word_of_nat nat_cmp);
       ops = [Ins (\<lambda>_. True) True 3, Ins (\<lambda>_. False) True 19, Fetch 19, Del (\<lambda>_. True) 3, Ins (\<lambda>_. True) False 4, Fetch 3];
       r = store_run lh_insert lh_delete lh_retrieve lh ops
   in map_run (\<lambda>a b. nat_cmp a b = 0) (\<lambda>_. None) ops =
        (fst r, lh_retrieve (snd r))"
proof -
  have law: "lh_law nat_cmp word_of_nat" by (simp add: lh_law_def nat_cmp_def)
  have new: "lh_new True True word_of_nat nat_cmp = Some (the (lh_new True True word_of_nat nat_cmp))"
    by (simp add: lh_new_def)
  show ?thesis unfolding Let_def
    by (rule lhash_refines_map [OF law new, THEN conjunct1]) (rule prod.collapse [symmetric])
qed

lemma depth_only: "lh_inv cmp (lh\<lparr>callback_depth := n\<rparr>) = lh_inv cmp lh"
  and depth_retrieve: "lh_retrieve (lh\<lparr>callback_depth := n\<rparr>) = lh_retrieve lh"
  by (auto simp: lh_inv_def lh_ok_def items_def lh_retrieve_def get_next_ptr_and_hash_def fun_eq_iff Let_def)

lemma distinct_items:
  fixes lh :: "'d lhash"
  assumes "lh_inv cmp lh"
  shows "distinct (map it_data (items lh))"
proof -
  have dist: "sorted_wrt (\<noteq>) xs \<Longrightarrow> distinct xs" for xs :: "'d list" by (induction xs) auto
  have ok: "lh_ok lh" using assms by (simp add: lh_inv_def)
  have "sorted_wrt (\<lambda>x y. it_data x \<noteq> it_data y) (items lh)"
  proof (rule sorted_wrt_mono_rel)
    show "sorted_wrt (differ (lh_comp lh)) (items lh)" using ok by (simp add: lh_ok_def)
    fix x y
    assume "differ (lh_comp lh) x y"
    then show "it_data x \<noteq> it_data y" using ok law_refl [of "lh_comp lh"] by (auto simp: differ_def lh_ok_def)
  qed
  then have "sorted_wrt (\<noteq>) (map it_data (items lh))" by (simp add: sorted_wrt_map)
  then show ?thesis by (rule dist)
qed

lemma items_of: "i < length (buckets lh) \<Longrightarrow> items lh = concat (take i (buckets lh)) @ buckets lh ! i @ concat (drop (Suc i) (buckets lh))"
  by (metis Cons_nth_drop_Suc append_take_drop_id concat.simps(2) concat_append items_def)

text \<open>Where an element of a table is: its bucket, its place in the chain, and the item after it.\<close>

lemma item_place:
  assumes inv: "lh_inv cmp lh" and i: "i < length (buckets lh)" and c: "buckets lh ! i = pre @ x # rest" and k: "cmp k (it_data x) = 0"
  shows "bucket_of lh k = i" and "chain_pos cmp (buckets lh ! i) k = length pre"
    and "next_item lh (it_data x) = first_item rest"
proof -
  have ok: "lh_ok lh" and cmp: "lh_comp lh = cmp" and law: "lh_law cmp (lh_hash lh)" using inv by (auto simp: lh_inv_def lh_ok_def)
  have x: "x \<in> set (items lh)" unfolding items_of [OF i] c by simp
  have "it_hash x = lh_hash lh (it_data x)" "unat (ucast (it_hash x) mod num_buckets lh) = i"
    using ok x i c by (auto simp: lh_ok_def in_place_def)
  then show "bucket_of lh k = i" using law_hash [OF law k] by (simp add: bucket_of_def)
  have sw: "sorted_wrt (differ cmp) (concat (take i (buckets lh)) @ (pre @ x # rest) @ concat (drop (Suc i) (buckets lh)))"
    using ok cmp by (simp add: lh_ok_def items_of [OF i] c)
  then have pre: "\<forall>y\<in>set pre. cmp (it_data y) (it_data x) \<noteq> 0" by (simp add: sorted_wrt_append differ_def)
  have "cmp (it_data y) k \<noteq> 0" if "y \<in> set pre" for y using pre that law_trans [OF law _ k] by blast
  then have "chain_pos cmp (pre @ x # rest) k = length pre"
    using law_sym [OF law k] by (induction pre) auto
  then show "chain_pos cmp (buckets lh ! i) k = length pre" unfolding c .
  have far: "it_data y \<noteq> it_data x" if "y \<in> set (concat (take i (buckets lh))) \<union> set pre" for y
    using that sw law_refl [OF law, of "it_data x"] by (auto simp: sorted_wrt_append differ_def) metis+
  have "find (list_ex (\<lambda>y. it_data y = it_data x)) (buckets lh) = Some (buckets lh ! i)"
    unfolding find_Some_iff
  proof (intro exI [of _ i] conjI allI impI i refl)
    fix j assume "j < i"
    then have "buckets lh ! j \<in> set (take i (buckets lh))" using i by (auto simp: in_set_conv_nth)
    then show "\<not> list_ex (\<lambda>y. it_data y = it_data x) (buckets lh ! j)" using far by (fastforce simp: list_ex_iff)
  qed (simp add: c)
  moreover have "dropWhile (\<lambda>y. it_data y \<noteq> it_data x) (pre @ x # rest) = x # rest"
    using far by (simp add: dropWhile_append2)
  ultimately show "next_item lh (it_data x) = first_item rest" by (simp add: next_item_def c)
qed

text \<open>A callback that deletes nothing but elements equal to the one it is called on.\<close>

definition deletes_only :: "('d \<Rightarrow> 'd \<Rightarrow> int) \<Rightarrow> 'd \<Rightarrow> 'd table_call list \<Rightarrow> bool" where
  "deletes_only cmp d calls \<longleftrightarrow> list_all (\<lambda>c. case c of Tc_delete _ k \<Rightarrow> cmp k d = 0 | Tc_insert _ _ _ \<Rightarrow> False) calls"

text \<open>The same calls on a map, and the visit of a list of elements with the map as it is then.\<close>

fun map_calls :: "('d \<Rightarrow> 'd \<Rightarrow> int) \<Rightarrow> 'd table_call list \<Rightarrow> ('d \<rightharpoonup> 'd) \<Rightarrow> ('d \<rightharpoonup> 'd)" where
  "map_calls cmp [] m = m"
| "map_calls cmp (Tc_insert _ ok d # calls) m =
     map_calls cmp calls (if m d \<noteq> None \<or> ok then class_upd (\<lambda>a b. cmp a b = 0) m d (Some d) else m)"
| "map_calls cmp (Tc_delete _ d # calls) m = map_calls cmp calls (class_upd (\<lambda>a b. cmp a b = 0) m d None)"

fun visit_all :: "('d \<Rightarrow> 'd \<Rightarrow> int) \<Rightarrow> ('d, 's) doall_fn \<Rightarrow> 'd list \<Rightarrow> ('d \<rightharpoonup> 'd) \<Rightarrow> 's \<Rightarrow> ('d \<rightharpoonup> 'd) \<times> 's" where
  "visit_all cmp f [] m s = (m, s)"
| "visit_all cmp f (d # ds) m s = (case f d m s of (s, calls) \<Rightarrow> visit_all cmp f ds (map_calls cmp calls m) s)"

text \<open>What the iteration may change of a table: one chain and the count.\<close>

definition chain_changed :: "nat \<Rightarrow> 'd lhash_item list \<Rightarrow> 'd lhash \<Rightarrow> 'd lhash \<Rightarrow> bool" where
  "chain_changed i c lh lh' \<longleftrightarrow> buckets lh' = (buckets lh)[i := c] \<and> num_buckets lh' = num_buckets lh \<and>
     callback_depth lh' = callback_depth lh"

lemma no_resize: "0 < callback_depth lh \<Longrightarrow> lh_maybe_resize alloc lh = lh"
  by (simp add: lh_maybe_resize_def)

lemma run_deletes:
  assumes "lh_inv cmp lh" and "0 < callback_depth lh" and "i < length (buckets lh)" and "deletes_only cmp (it_data x) calls"
    and "nxt \<noteq> Some (it_data x)" and "buckets lh ! i = pre @ x # rest \<or> lh_retrieve lh (it_data x) = None"
  shows "\<exists>lh' c. run_calls calls lh nxt = Some (lh', nxt) \<and> lh_inv cmp lh' \<and> chain_changed i c lh lh' \<and>
    (c = buckets lh ! i \<or> buckets lh ! i = pre @ x # rest \<and> c = pre @ rest) \<and>
    lh_retrieve lh' = map_calls cmp calls (lh_retrieve lh)"
  using assms
proof (induction calls arbitrary: lh)
  case Nil
  then show ?case by (intro exI [of _ lh] exI [of _ "buckets lh ! i"]) (simp add: chain_changed_def)
next
  case (Cons call calls)
  note inv = Cons.prems(1)
  have law: "lh_law cmp (lh_hash lh)" and ok: "lh_ok lh" and cmp: "lh_comp lh = cmp" using inv by (auto simp: lh_inv_def lh_ok_def)
  obtain alloc k where call: "call = Tc_delete alloc k" and k: "cmp k (it_data x) = 0" and only: "deletes_only cmp (it_data x) calls"
    using Cons.prems(4) by (auto simp: deletes_only_def split: table_call.splits)
  let ?lh = "snd (lh_delete alloc lh k)"
  have inv': "lh_inv cmp ?lh" and map': "lh_retrieve ?lh = class_upd (\<lambda>a b. cmp a b = 0) (lh_retrieve lh) k None"
    and fst: "fst (lh_delete alloc lh k) = lh_retrieve lh k"
    using lh_delete_ok [OF inv, of alloc k] by (auto simp: class_upd_def fun_eq_iff)
  then have gone: "lh_retrieve ?lh (it_data x) = None" using k by (simp add: class_upd_def)
  show ?case
  proof (cases "lh_retrieve lh (it_data x)")
    case None
    have "lh_retrieve lh k = None"
    proof (rule retrieve_eqI [OF ok])
      fix e
      show "None = Some e \<longleftrightarrow> (\<exists>y\<in>set (items lh). it_data y = e \<and> lh_comp lh e k = 0)"
        using None retrieve_Some [OF ok, of "it_data x" e] cmp k law_trans [OF law] by (metis option.distinct(1))
    qed
    then have del: "lh_delete alloc lh k = (None, lh)"
      using fst by (auto simp: lh_delete_def next_ptr_eq Let_def split: if_splits)
    from Cons.IH [OF inv Cons.prems(2,3) only Cons.prems(5)] None
    obtain lh' c where "run_calls calls lh nxt = Some (lh', nxt)" "lh_inv cmp lh'" "chain_changed i c lh lh'"
      "c = buckets lh ! i \<or> buckets lh ! i = pre @ x # rest \<and> c = pre @ rest"
      "lh_retrieve lh' = map_calls cmp calls (lh_retrieve lh)" by blast
    with del map' show ?thesis unfolding call by (intro exI [of _ lh'] exI [of _ c]) simp
  next
    case (Some e)
    then have c: "buckets lh ! i = pre @ x # rest" using Cons.prems(6) by simp
    let ?lh' = "lh\<lparr>buckets := (buckets lh)[i := pre @ rest], num_items := num_items lh - 1\<rparr>"
    have del: "lh_delete alloc lh k = (Some (it_data x), ?lh')"
      using item_place(1,2) [OF inv Cons.prems(3) c k] no_resize [of ?lh' alloc] Cons.prems(2) cmp
      by (simp add: lh_delete_def next_ptr_eq Let_def c)
    with inv' map' gone have inv'': "lh_inv cmp ?lh'" "lh_retrieve ?lh' = class_upd (\<lambda>a b. cmp a b = 0) (lh_retrieve lh) k None"
      "lh_retrieve ?lh' (it_data x) = None" by simp_all
    have "0 < callback_depth ?lh'" "i < length (buckets ?lh')" using Cons.prems(2,3) by simp_all
    from Cons.IH [OF inv''(1) this only Cons.prems(5)] inv''(3)
    obtain lh' d where run: "run_calls calls ?lh' nxt = Some (lh', nxt)" "lh_inv cmp lh'" and d: "chain_changed i d ?lh' lh'"
      "d = buckets ?lh' ! i \<or> buckets ?lh' ! i = pre @ x # rest \<and> d = pre @ rest"
      and m: "lh_retrieve lh' = map_calls cmp calls (lh_retrieve ?lh')" by blast
    have "d = pre @ rest" using d(2) Cons.prems(3) by auto
    with d(1) have "chain_changed i (pre @ rest) lh lh'" by (simp add: chain_changed_def)
    moreover have "run_calls (call # calls) lh nxt = Some (lh', nxt)" using del run(1) Cons.prems(5) by (simp add: call)
    moreover have "lh_retrieve lh' = map_calls cmp (call # calls) (lh_retrieve lh)" using m inv''(2) by (simp add: call)
    ultimately show ?thesis using c run(2) by (intro exI [of _ lh'] exI [of _ "pre @ rest"]) simp
  qed
qed

lemma doall_chain_ok:
  assumes "lh_inv cmp lh" and "0 < callback_depth lh" and "i < length (buckets lh)" and "buckets lh ! i = pre @ rest"
    and "\<And>d m s. deletes_only cmp d (snd (f d m s))"
    and "visit_all cmp f (map it_data rest) (lh_retrieve lh) s = (m', s')"
  shows "\<exists>lh' c. doall_chain f (first_item rest) lh s = Some (lh', s') \<and> lh_inv cmp lh' \<and> chain_changed i c lh lh' \<and>
    lh_retrieve lh' = m'"
  using assms(1-4,6)
proof (induction rest arbitrary: lh pre s)
  case Nil
  then show ?case
    by (intro exI [of _ lh] exI [of _ pre]) (auto simp: doall_chain.simps first_item_def chain_changed_def list_update_same_conv)
next
  case (Cons x rest)
  obtain s1 calls where f: "f (it_data x) (lh_retrieve lh) s = (s1, calls)" by fastforce
  have only: "deletes_only cmp (it_data x) calls" using assms(5) [of "it_data x" "lh_retrieve lh" s] f by simp
  have law: "lh_law cmp (lh_hash lh)" using Cons.prems(1) by (auto simp: lh_inv_def lh_ok_def)
  note place = item_place(3) [OF Cons.prems(1,3,4) law_refl [OF law]]
  have "it_data x \<notin> it_data ` set rest"
    using distinct_items [OF Cons.prems(1)] unfolding items_of [OF Cons.prems(3)] Cons.prems(4) by simp
  then have nxt: "first_item rest \<noteq> Some (it_data x)" by (cases rest) (auto simp: first_item_def)
  from run_deletes [OF Cons.prems(1,2,3) only nxt] Cons.prems(4)
  obtain lh1 c where run: "run_calls calls lh (first_item rest) = Some (lh1, first_item rest)" "lh_inv cmp lh1"
    and c: "chain_changed i c lh lh1" "c = buckets lh ! i \<or> c = pre @ rest"
    and m: "lh_retrieve lh1 = map_calls cmp calls (lh_retrieve lh)" by blast
  obtain pre' where "c = pre' @ rest" using c(2) Cons.prems(4) by (metis append.assoc append_Cons append_Nil)
  then have "0 < callback_depth lh1" "i < length (buckets lh1)" "buckets lh1 ! i = pre' @ rest"
    using c(1) Cons.prems(2,3) by (simp_all add: chain_changed_def)
  from Cons.IH [OF run(2) this, of s1] Cons.prems(5) f m
  obtain lh' d where d: "doall_chain f (first_item rest) lh1 s1 = Some (lh', s')" "lh_inv cmp lh'" "chain_changed i d lh1 lh'"
    "lh_retrieve lh' = m'" by auto
  have "chain_changed i d lh lh'" using c(1) d(3) by (simp add: chain_changed_def)
  moreover have "doall_chain f (first_item (x # rest)) lh s = Some (lh', s')"
    using d(1) by (subst doall_chain.simps) (simp add: first_item_def place [unfolded first_item_def] f run(1) [unfolded first_item_def] Let_def)
  ultimately show ?case using d by blast
qed

lemma visit_all_append:
  "visit_all cmp f (ds @ es) m s = (case visit_all cmp f ds m s of (m, s) \<Rightarrow> visit_all cmp f es m s)"
  by (induction ds arbitrary: m s) (auto split: prod.splits)

lemma doall_buckets_ok:
  assumes "lh_inv cmp lh" and "0 < callback_depth lh" and "i \<le> length (buckets lh)"
    and "\<And>d m s. deletes_only cmp d (snd (f d m s))"
    and "visit_all cmp f (map it_data (concat (drop i (buckets lh)))) (lh_retrieve lh) s = (m', s')"
  shows "\<exists>lh'. doall_buckets f i lh s = Some (lh', s') \<and> lh_inv cmp lh' \<and> lh_retrieve lh' = m' \<and>
    callback_depth lh' = callback_depth lh"
  using assms(1-3,5)
proof (induction "length (buckets lh) - i" arbitrary: lh i s)
  case 0
  then have "unat (num_buckets lh) \<le> i" by (auto simp: lh_inv_def lh_ok_def in_place_def)
  with 0 show ?case by (intro exI [of _ lh]) (simp add: doall_buckets.simps)
next
  case (Suc n)
  then have i: "i < length (buckets lh)" and n: "\<not> unat (num_buckets lh) \<le> i"
    by (auto simp: lh_inv_def lh_ok_def in_place_def)
  obtain m1 s1 where v: "visit_all cmp f (map it_data (buckets lh ! i)) (lh_retrieve lh) s = (m1, s1)" by fastforce
  then have v': "visit_all cmp f (map it_data (concat (drop (Suc i) (buckets lh)))) m1 s1 = (m', s')"
    using Suc.prems(4) by (simp add: Cons_nth_drop_Suc [OF i, symmetric] visit_all_append)
  have "buckets lh ! i = [] @ buckets lh ! i" by simp
  from doall_chain_ok [OF Suc.prems(1,2) i this assms(4) v]
  obtain lh1 c where c: "doall_chain f (first_item (buckets lh ! i)) lh s = Some (lh1, s1)" "lh_inv cmp lh1"
    "chain_changed i c lh lh1" "lh_retrieve lh1 = m1" by blast
  then have "n = length (buckets lh1) - Suc i" "0 < callback_depth lh1" "Suc i \<le> length (buckets lh1)"
    "drop (Suc i) (buckets lh1) = drop (Suc i) (buckets lh)"
    using Suc.hyps(2) Suc.prems(2) i by (simp_all add: chain_changed_def)
  from Suc.hyps(1) [OF this(1) c(2) this(2,3)] v' this(4) c(4)
  obtain lh' where "doall_buckets f (Suc i) lh1 s1 = Some (lh', s')" "lh_inv cmp lh'" "lh_retrieve lh' = m'"
    "callback_depth lh' = callback_depth lh" using c(3) by (auto simp: chain_changed_def)
  with c(1) n show ?case by (subst doall_buckets.simps) simp
qed

lemma doall_ok:
  assumes inv: "lh_inv cmp lh" and depth: "callback_depth lh < - 2" and only: "\<And>d m s. deletes_only cmp d (snd (f d m s))"
    and v: "visit_all cmp f (map it_data (items lh)) (lh_retrieve lh) s = (m', s')"
  shows "\<exists>lh'. lh_doall alloc (Some lh) f s = Some (Some lh', s') \<and> lh_inv cmp lh' \<and> lh_retrieve lh' = m' \<and>
    callback_depth lh' = callback_depth lh"
proof -
  let ?n = "callback_depth lh + 1"
  let ?lh = "lh\<lparr>callback_depth := ?n\<rparr>"
  have "(- 2 :: u32) = 4294967294" "(- 1 :: u32) = 4294967295" by simp_all
  then have n: "callback_depth lh < - 1" "?n < - 1" "0 < ?n" using depth
    by (simp_all add: word_less_nat_alt unat_word_ariths unsigned_minus_1_eq_mask mask_eq_exp_minus_1)
  have inv': "lh_inv cmp ?lh" "lh_retrieve ?lh = lh_retrieve lh" using inv by (simp_all only: depth_only depth_retrieve)
  have "\<exists>lh'. doall_buckets f 0 ?lh s = Some (lh', s') \<and> lh_inv cmp lh' \<and> lh_retrieve lh' = m' \<and> callback_depth lh' = callback_depth ?lh"
    by (rule doall_buckets_ok [OF inv'(1) _ _ only]) (use n v inv'(2) in \<open>simp_all add: items_def\<close>)
  then obtain lh1 where lh1: "doall_buckets f 0 ?lh s = Some (lh1, s')" "lh_inv cmp lh1" "lh_retrieve lh1 = m'" "callback_depth lh1 = ?n"
    by auto
  let ?lh1 = "lh1\<lparr>callback_depth := callback_depth lh\<rparr>"
  have inv1: "lh_ok ?lh1" "lh_comp ?lh1 = cmp" "lh_retrieve ?lh1 = m'"
    using lh1 depth_only [where cmp = cmp and lh = lh1] unfolding lh_inv_def by (simp_all add: depth_retrieve)
  have "callback_depth (lh_maybe_resize alloc ?lh1) = callback_depth lh"
    by (simp add: lh_maybe_resize_def lh_rebucket_def Let_def)
  moreover have "lh_doall alloc (Some lh) f s = Some (Some (lh_maybe_resize alloc ?lh1), s')"
    unfolding lh_doall_def lh_doall_internal_def option.case Let_def option.sel if_P [OF n(1)] lh1(1) using n(2) lh1(4) by simp
  ultimately show ?thesis using resized [OF inv1(1), of alloc] inv1 unfolding lh_inv_def by simp
qed

lemma doall_arg_eq: "lh_doall_arg alloc lh g arg s = lh_doall alloc lh (\<lambda>d. g d arg) s"
  unfolding lh_doall_arg_def lh_doall_def lh_doall_internal_def option.case option.sel by (rule refl)

text \<open>C30: \<open>lh_doall\<close> and \<open>lh_doall_arg\<close> with a callback that may look up elements and may delete the element it is
  called on, the use ssl_session.cc makes of them, and calls nothing else on the table: whatever it deletes, the
  iteration returns without using freed memory, calls back on every element of the table at its start exactly once,
  each time with the map as the earlier deletions have left it, and leaves the table a map with just these elements
  deleted and the callback depth restored. (The order \<open>ds\<close> is that of the chains. Insertions, deletions of other elements and nested iterations by
  the callback are not covered.)\<close>

theorem lh_doall_once:
  assumes "lh_inv cmp lh" and "callback_depth lh < - 2" and "\<And>d m s. deletes_only cmp d (snd (g d arg m s))"
  shows "\<exists>ds lh'. lh_doall_arg alloc (Some lh) g arg s = Some (Some lh', snd (visit_all cmp (\<lambda>d. g d arg) ds (lh_retrieve lh) s)) \<and>
    lh_doall alloc (Some lh) (\<lambda>d. g d arg) s = lh_doall_arg alloc (Some lh) g arg s \<and>
    distinct ds \<and> set ds = {d. lh_retrieve lh d = Some d} \<and>
    lh_inv cmp lh' \<and> callback_depth lh' = callback_depth lh \<and>
    lh_retrieve lh' = fst (visit_all cmp (\<lambda>d. g d arg) ds (lh_retrieve lh) s)"
proof -
  have ok: "lh_ok lh" and law: "lh_law cmp (lh_hash lh)" and cmp: "lh_comp lh = cmp"
    using assms(1) by (auto simp: lh_inv_def lh_ok_def)
  let ?ds = "map it_data (items lh)"
  have "set ?ds = {d. lh_retrieve lh d = Some d}" using law_refl [OF law] cmp by (auto simp: retrieve_Some [OF ok])
  moreover obtain lh' where "lh_doall alloc (Some lh) (\<lambda>d. g d arg) s = Some (Some lh', snd (visit_all cmp (\<lambda>d. g d arg) ?ds (lh_retrieve lh) s))"
    "lh_inv cmp lh'" "lh_retrieve lh' = fst (visit_all cmp (\<lambda>d. g d arg) ?ds (lh_retrieve lh) s)" "callback_depth lh' = callback_depth lh"
    using doall_ok [where f = "\<lambda>d. g d arg", OF assms prod.collapse [symmetric]] by blast
  ultimately show ?thesis using distinct_items [OF assms(1)] unfolding doall_arg_eq by (intro exI [of _ ?ds] exI [of _ lh']) simp
qed

text \<open>Three elements, two of them in one chain, of which the callback deletes those that are odd.\<close>

lemma lh_doall_once_witness:
  "let lh = snd (store_run lh_insert lh_delete lh_retrieve (the (lh_new True True word_of_nat nat_cmp))
             [Ins (\<lambda>_. True) True 3, Ins (\<lambda>_. True) True 19, Ins (\<lambda>_. True) True (4 :: nat)]);
       g = (\<lambda>(d :: nat) b m s. (d # s, if d mod 2 = b then [Tc_delete (\<lambda>_. True) d] else []))
   in \<exists>ds lh'. lh_doall_arg (\<lambda>_. True) (Some lh) g 1 [] = Some (Some lh', rev ds) \<and> distinct ds \<and>
        set ds = {3, 4, 19} \<and> map (lh_retrieve lh') [3, 4, 19] = [None, Some 4, None]"
proof -
  define lh where "lh = snd (store_run lh_insert lh_delete lh_retrieve (the (lh_new True True word_of_nat nat_cmp))
             [Ins (\<lambda>_. True) True 3, Ins (\<lambda>_. True) True 19, Ins (\<lambda>_. True) True (4 :: nat)])"
  define g where "g = (\<lambda>(d :: nat) b (m :: nat \<Rightarrow> nat option) s. (d # s, if d mod 2 = b then [Tc_delete (\<lambda>_. True) d] else []))"
  have law: "lh_law nat_cmp word_of_nat" by (simp add: lh_law_def nat_cmp_def)
  have new: "lh_new True True word_of_nat nat_cmp = Some (the (lh_new True True word_of_nat nat_cmp))"
    by (simp add: lh_new_def)
  note fresh = lh_new_inv [OF law new]
  have run: "lh_inv nat_cmp lh" "lh_retrieve lh = [3 \<mapsto> 3, 19 \<mapsto> 19, 4 \<mapsto> 4]"
  proof -
    let ?ops = "[Ins (\<lambda>_. True) True 3, Ins (\<lambda>_. True) True 19, Ins (\<lambda>_. True) True 4] :: (size_t \<Rightarrow> bool, nat) store_op list"
    obtain rs where "store_run lh_insert lh_delete lh_retrieve (the (lh_new True True word_of_nat nat_cmp)) ?ops = (rs, lh)"
      unfolding lh_def by (metis prod.collapse)
    from lh_store.run_refines [OF conjunct1 [OF fresh] this] fresh
    have "map_run (\<lambda>a b. nat_cmp a b = 0) (\<lambda>_. None) ?ops = (rs, lh_retrieve lh)" and "lh_inv nat_cmp lh" by auto
    moreover from this have "lh_retrieve lh = snd (map_run (\<lambda>a b. nat_cmp a b = 0) (\<lambda>_. None) ?ops)" by (metis snd_conv)
    then have "lh_retrieve lh = [3 \<mapsto> 3, 19 \<mapsto> 19, 4 \<mapsto> 4]"
      by (auto simp: class_upd_def nat_cmp_def fun_eq_iff Let_def)
    ultimately show "lh_inv nat_cmp lh" "lh_retrieve lh = [3 \<mapsto> 3, 19 \<mapsto> 19, 4 \<mapsto> 4]" by blast+
  qed
  have depth: "callback_depth lh < - 2" unfolding lh_def by code_simp
  have only: "deletes_only nat_cmp d (snd (g d 1 m s))" for d m s
    by (simp add: g_def deletes_only_def nat_cmp_def)
  obtain ds lh' where ds: "lh_doall_arg (\<lambda>_. True) (Some lh) g 1 [] =
      Some (Some lh', snd (visit_all nat_cmp (\<lambda>d. g d 1) ds (lh_retrieve lh) []))" "distinct ds"
    "set ds = {d. lh_retrieve lh d = Some d}" "lh_retrieve lh' = fst (visit_all nat_cmp (\<lambda>d. g d 1) ds (lh_retrieve lh) [])"
    using lh_doall_once [where g = g and arg = 1 and alloc = "\<lambda>_. True" and s = "[]", OF run(1) depth only] by blast
  have v: "visit_all nat_cmp (\<lambda>d. g d 1) ds m s =
      (\<lambda>k. if k \<in> set ds \<and> k mod 2 = 1 then None else m k, rev ds @ s)" for m s
    by (induction ds arbitrary: m s) (auto simp: g_def class_upd_def nat_cmp_def fun_eq_iff)
  have "set ds = {3, 4, 19}" using ds(3) by (auto simp: run(2) split: if_splits)
  then show ?thesis using ds(1,2,4) unfolding Let_def lh_def [symmetric] g_def [symmetric] v run(2)
    by (intro exI [of _ ds] exI [of _ lh']) simp
qed

end
