(* ===== verification/Asn1_Utf8.thy ===== *)
theory Asn1_Utf8
  imports Prelude
begin

text \<open>
  The UTF-8 reader and writer of BoringSSL (crypto/asn1/a_utf8.c), in its original form of up to six
  bytes per character. \<open>int\<close> is a mathematical integer here (the only arithmetic on it is comparison
  with small constants) and \<open>unsigned long\<close> a 64-bit word. \<open>utf8_bytes\<close> is the encoding as a function
  on numbers, against which the two are proved.
\<close>

section \<open>The code\<close>

text \<open>The result of \<open>UTF8_getc\<close> is its return value and what it stores through \<open>val\<close>, if anything.\<close>

definition UTF8_getc :: "u8 list \<Rightarrow> int \<Rightarrow> int \<times> u64 option" where
  "UTF8_getc p len =
     (if len \<le> 0 then (0, None)
      else if p ! 0 AND 0x80 = 0 then
        (1, Some (ucast (p ! 0 AND 0x7f)))
      else if p ! 0 AND 0xe0 = 0xc0 then
        if len < 2 then (-1, None)
        else if p ! 1 AND 0xc0 \<noteq> 0x80 then (-3, None)
        else
          let value = push_bit 6 (ucast (p ! 0 AND 0x1f));
              value = value OR ucast (p ! 1 AND 0x3f)
          in if value < 0x80 then (-4, None) else (2, Some value)
      else if p ! 0 AND 0xf0 = 0xe0 then
        if len < 3 then (-1, None)
        else if p ! 1 AND 0xc0 \<noteq> 0x80 \<or> p ! 2 AND 0xc0 \<noteq> 0x80 then (-3, None)
        else
          let value = push_bit 12 (ucast (p ! 0 AND 0xf));
              value = value OR push_bit 6 (ucast (p ! 1 AND 0x3f));
              value = value OR ucast (p ! 2 AND 0x3f)
          in if value < 0x800 then (-4, None) else (3, Some value)
      else if p ! 0 AND 0xf8 = 0xf0 then
        if len < 4 then (-1, None)
        else if p ! 1 AND 0xc0 \<noteq> 0x80 \<or> p ! 2 AND 0xc0 \<noteq> 0x80 \<or> p ! 3 AND 0xc0 \<noteq> 0x80 then (-3, None)
        else
          let value = push_bit 18 (ucast (p ! 0 AND 0x7));
              value = value OR push_bit 12 (ucast (p ! 1 AND 0x3f));
              value = value OR push_bit 6 (ucast (p ! 2 AND 0x3f));
              value = value OR ucast (p ! 3 AND 0x3f)
          in if value < 0x10000 then (-4, None) else (4, Some value)
      else if p ! 0 AND 0xfc = 0xf8 then
        if len < 5 then (-1, None)
        else if p ! 1 AND 0xc0 \<noteq> 0x80 \<or> p ! 2 AND 0xc0 \<noteq> 0x80 \<or> p ! 3 AND 0xc0 \<noteq> 0x80 \<or>
            p ! 4 AND 0xc0 \<noteq> 0x80 then (-3, None)
        else
          let value = push_bit 24 (ucast (p ! 0 AND 0x3));
              value = value OR push_bit 18 (ucast (p ! 1 AND 0x3f));
              value = value OR push_bit 12 (ucast (p ! 2 AND 0x3f));
              value = value OR push_bit 6 (ucast (p ! 3 AND 0x3f));
              value = value OR ucast (p ! 4 AND 0x3f)
          in if value < 0x200000 then (-4, None) else (5, Some value)
      else if p ! 0 AND 0xfe = 0xfc then
        if len < 6 then (-1, None)
        else if p ! 1 AND 0xc0 \<noteq> 0x80 \<or> p ! 2 AND 0xc0 \<noteq> 0x80 \<or> p ! 3 AND 0xc0 \<noteq> 0x80 \<or>
            p ! 4 AND 0xc0 \<noteq> 0x80 \<or> p ! 5 AND 0xc0 \<noteq> 0x80 then (-3, None)
        else
          let value = push_bit 30 (ucast (p ! 0 AND 0x1));
              value = value OR push_bit 24 (ucast (p ! 1 AND 0x3f));
              value = value OR push_bit 18 (ucast (p ! 2 AND 0x3f));
              value = value OR push_bit 12 (ucast (p ! 3 AND 0x3f));
              value = value OR push_bit 6 (ucast (p ! 4 AND 0x3f));
              value = value OR ucast (p ! 5 AND 0x3f)
          in if value < 0x4000000 then (-4, None) else (6, Some value)
      else (-2, None))"

text \<open>Bytes stored from the start of a buffer, unless the pointer is NULL.\<close>

definition put_at :: "u8 list option \<Rightarrow> u8 list \<Rightarrow> u8 list option" where
  "put_at str bs = map_option (\<lambda>buf. bs @ drop (length bs) buf) str"

definition UTF8_putc :: "u8 list option \<Rightarrow> int \<Rightarrow> u64 \<Rightarrow> int \<times> u8 list option" where
  "UTF8_putc str len value =
     (let len0 = len;
          len = (if str = None then 6 else len)
      in
      if str \<noteq> None \<and> len0 \<le> 0 then (-1, str)
      else if value < 0x80 then (1, put_at str [ucast value])
      else if value < 0x800 then
        if len < 2 then (-1, str)
        else (2, put_at str [ucast ((drop_bit 6 value AND 0x1f) OR 0xc0), ucast ((value AND 0x3f) OR 0x80)])
      else if value < 0x10000 then
        if len < 3 then (-1, str)
        else (3, put_at str [ucast ((drop_bit 12 value AND 0xf) OR 0xe0),
               ucast ((drop_bit 6 value AND 0x3f) OR 0x80), ucast ((value AND 0x3f) OR 0x80)])
      else if value < 0x200000 then
        if len < 4 then (-1, str)
        else (4, put_at str [ucast ((drop_bit 18 value AND 0x7) OR 0xf0),
               ucast ((drop_bit 12 value AND 0x3f) OR 0x80), ucast ((drop_bit 6 value AND 0x3f) OR 0x80),
               ucast ((value AND 0x3f) OR 0x80)])
      else if value < 0x4000000 then
        if len < 5 then (-1, str)
        else (5, put_at str [ucast ((drop_bit 24 value AND 0x3) OR 0xf8),
               ucast ((drop_bit 18 value AND 0x3f) OR 0x80), ucast ((drop_bit 12 value AND 0x3f) OR 0x80),
               ucast ((drop_bit 6 value AND 0x3f) OR 0x80), ucast ((value AND 0x3f) OR 0x80)])
      else if len < 6 then (-1, str)
      else (6, put_at str [ucast ((drop_bit 30 value AND 0x1) OR 0xfc),
             ucast ((drop_bit 24 value AND 0x3f) OR 0x80), ucast ((drop_bit 18 value AND 0x3f) OR 0x80),
             ucast ((drop_bit 12 value AND 0x3f) OR 0x80), ucast ((drop_bit 6 value AND 0x3f) OR 0x80),
             ucast ((value AND 0x3f) OR 0x80)]))"

section \<open>The encoding on numbers\<close>

text \<open>The low six-bit groups of a number as continuation bytes, and the whole encoding.\<close>

fun cont_bytes :: "nat \<Rightarrow> nat \<Rightarrow> u8 list" where
  "cont_bytes 0 v = []"
| "cont_bytes (Suc n) v = cont_bytes n (v div 64) @ [word_of_nat (128 + v mod 64)]"

definition utf8_len :: "nat \<Rightarrow> nat" where
  "utf8_len v = (if v < 2 ^ 7 then 1 else if v < 2 ^ 11 then 2 else if v < 2 ^ 16 then 3 else if v < 2 ^ 21 then 4
     else if v < 2 ^ 26 then 5 else 6)"

definition utf8_bytes :: "nat \<Rightarrow> u8 list" where
  "utf8_bytes v =
     (if v < 2 ^ 7 then [word_of_nat v]
      else let n = utf8_len v - 1 in word_of_nat (256 - 2 ^ (7 - n) + v div 64 ^ n) # cont_bytes n v)"

lemma length_cont_bytes [simp]: "length (cont_bytes n v) = n"
  by (induction n arbitrary: v) auto

lemma length_utf8_bytes [simp]: "length (utf8_bytes v) = utf8_len v"
  by (simp add: utf8_bytes_def utf8_len_def Let_def)

section \<open>Bits as arithmetic\<close>

lemma group_bits:
  "(w :: 'a::len word) AND 0x3f = take_bit 6 w" "w AND 0x1f = take_bit 5 w" "w AND 0xf = take_bit 4 w"
  "w AND 0x7 = take_bit 3 w" "w AND 0x3 = take_bit 2 w" "w AND 0x1 = take_bit 1 w"
proof -
  have "mask 6 = (0x3f :: 'a word)" "mask 5 = (0x1f :: 'a word)" "mask 4 = (0xf :: 'a word)"
    "mask 3 = (0x7 :: 'a word)" "mask 2 = (0x3 :: 'a word)" "mask 1 = (0x1 :: 'a word)"
    by (simp_all add: mask_eq_exp_minus_1)
  then show "w AND 0x3f = take_bit 6 w" "w AND 0x1f = take_bit 5 w" "w AND 0xf = take_bit 4 w"
    "w AND 0x7 = take_bit 3 w" "w AND 0x3 = take_bit 2 w" "w AND 0x1 = take_bit 1 w"
    by (metis word_and_mask_take_bit)+
qed

lemma unat_and_high:
  "unat ((w :: 'a::len word) AND NOT (mask n)) = unat w div 2 ^ n * 2 ^ n"
proof -
  have "w AND NOT (mask n) = push_bit n (drop_bit n w)" by (rule bit_word_eqI) (auto simp: bit_simps)
  moreover have "unat w div 2 ^ n * 2 ^ n < 2 ^ LENGTH('a)"
    using div_times_less_eq_dividend [of "unat w" "2 ^ n"] unat_less_two_power [of w] by linarith
  ultimately show ?thesis by (simp only: unat_push_bit_mod unat_drop_bit_div mod_less)
qed

lemma lead_bits:
  fixes b :: u8
  shows "b AND 0xc0 = 0x80 \<longleftrightarrow> unat b div 64 = 2" and "b AND 0xe0 = 0xc0 \<longleftrightarrow> unat b div 32 = 6"
    and "b AND 0xf0 = 0xe0 \<longleftrightarrow> unat b div 16 = 14" and "b AND 0xf8 = 0xf0 \<longleftrightarrow> unat b div 8 = 30"
    and "b AND 0xfc = 0xf8 \<longleftrightarrow> unat b div 4 = 62" and "b AND 0xfe = 0xfc \<longleftrightarrow> unat b div 2 = 126"
proof -
  have "(0xc0 :: u8) = NOT (mask 6)" "(0xe0 :: u8) = NOT (mask 5)" "(0xf0 :: u8) = NOT (mask 4)"
    "(0xf8 :: u8) = NOT (mask 3)" "(0xfc :: u8) = NOT (mask 2)" "(0xfe :: u8) = NOT (mask 1)"
    by (simp_all add: mask_eq_exp_minus_1)
  then have m: "unat (b AND 0xc0) = unat b div 2 ^ 6 * 2 ^ 6" "unat (b AND 0xe0) = unat b div 2 ^ 5 * 2 ^ 5"
    "unat (b AND 0xf0) = unat b div 2 ^ 4 * 2 ^ 4" "unat (b AND 0xf8) = unat b div 2 ^ 3 * 2 ^ 3"
    "unat (b AND 0xfc) = unat b div 2 ^ 2 * 2 ^ 2" "unat (b AND 0xfe) = unat b div 2 ^ 1 * 2 ^ 1"
    by (metis unat_and_high)+
  show "b AND 0xc0 = 0x80 \<longleftrightarrow> unat b div 64 = 2" and "b AND 0xe0 = 0xc0 \<longleftrightarrow> unat b div 32 = 6"
    and "b AND 0xf0 = 0xe0 \<longleftrightarrow> unat b div 16 = 14" and "b AND 0xf8 = 0xf0 \<longleftrightarrow> unat b div 8 = 30"
    and "b AND 0xfc = 0xf8 \<longleftrightarrow> unat b div 4 = 62" and "b AND 0xfe = 0xfc \<longleftrightarrow> unat b div 2 = 126"
    by (simp_all only: word_unat_eq_iff m) simp_all
qed

text \<open>A disjunction with nothing in common is a sum.\<close>

lemma unat_or_disjoint:
  fixes x y :: "'a::len word"
  assumes "unat x mod 2 ^ k = 0" and "unat y < 2 ^ k" and "k \<le> LENGTH('a)"
  shows "unat (x OR y) = unat x + unat y"
proof -
  have y: "drop_bit k y = 0" using assms(2) by (rule unat_less_pow_drop_bit)
  have x: "take_bit k x = 0" using assms(1) by (intro word_eq_unatI) (simp add: unat_take_bit_mod)
  have "x AND y = 0"
  proof (rule bit_word_eqI)
    fix n
    assume "n < LENGTH('a)"
    show "bit (x AND y) n \<longleftrightarrow> bit 0 n"
    proof (cases "n < k")
      case True
      then have "\<not> bit x n" using x by (metis bit_0_eq bit_take_bit_iff bot_apply bot_bool_def)
      then show ?thesis by (simp add: bit_and_iff)
    next
      case False
      then have "\<not> bit y n" using y by (metis bit_0_eq bit_drop_bit_eq bot_apply bot_bool_def le_add_diff_inverse not_less o_apply)
      then show ?thesis by (simp add: bit_and_iff)
    qed
  qed
  then have or: "x OR y = x + y" by (simp add: disjunctive_add_eq_or)
  obtain q where q: "unat x = 2 ^ k * q" using assms(1) by auto
  obtain j where j: "LENGTH('a) = k + j" using assms(3) le_Suc_ex by blast
  have "2 ^ k * q < 2 ^ k * 2 ^ j" using q unat_less_two_power [of x] by (simp add: j power_add)
  then have "q < 2 ^ j" by simp
  then have "2 ^ k * (q + 1) \<le> 2 ^ k * 2 ^ j" by (intro mult_left_mono) simp_all
  then have "unat x + unat y < 2 ^ LENGTH('a)" using q assms(2) by (simp add: j power_add)
  then show ?thesis using or unat_add_lem [of x y] by simp
qed

text \<open>The groups \<open>UTF8_getc\<close> puts together, and the bytes \<open>UTF8_putc\<close> takes apart, as numbers.\<close>

lemma unat_group:
  assumes "n \<le> 8" and "k \<le> 30"
  shows "unat (push_bit k (ucast (take_bit n (b :: u8)) :: u64)) = unat b mod 2 ^ n * 2 ^ k"
proof -
  have b: "unat b mod 2 ^ n \<le> 255" using unat_u8_lt [of b] mod_less_eq_dividend [of "unat b" "2 ^ n"] by linarith
  have "(2 :: nat) ^ k \<le> 2 ^ 30" using assms(2) by (intro power_increasing) simp_all
  then have "unat b mod 2 ^ n * 2 ^ k \<le> 255 * 2 ^ 30" using b by (intro mult_mono) simp_all
  then show ?thesis
    using b by (simp only: unat_push_bit_mod unat_ucast_mod unat_take_bit_mod) simp
qed

lemma put_byte:
  assumes "unat v div 2 ^ k mod 2 ^ n + h < 256" and "h mod 2 ^ n = 0" and "n \<le> 6"
  shows "(ucast ((take_bit n (drop_bit k (v :: u64))) OR word_of_nat h) :: u8) = word_of_nat (h + unat v div 2 ^ k mod 2 ^ n)"
proof (rule word_eq_unatI)
  have h: "unat (word_of_nat h :: u64) = h" using assms(1) by (simp add: unat_of_nat)
  have t: "unat (take_bit n (drop_bit k v)) = unat v div 2 ^ k mod 2 ^ n"
    by (simp add: unat_take_bit_mod unat_drop_bit_div)
  have "unat (word_of_nat h OR take_bit n (drop_bit k v)) = h + unat v div 2 ^ k mod 2 ^ n"
    using assms by (subst unat_or_disjoint [of _ n]) (simp_all add: h t)
  then show "unat (ucast (take_bit n (drop_bit k v) OR word_of_nat h) :: u8) =
      unat (word_of_nat (h + unat v div 2 ^ k mod 2 ^ n) :: u8)"
    by (simp only: unat_ucast_mod or.commute [of "take_bit n (drop_bit k v)"] unat_of_nat_u8) simp
qed


lemma put_cont:
  "(ucast ((drop_bit k (v :: u64) AND 0x3f) OR 0x80) :: u8) = word_of_nat (128 + unat v div 2 ^ k mod 64)"
  "(ucast ((v AND 0x3f) OR 0x80) :: u8) = word_of_nat (128 + unat v mod 64)"
proof -
  have "unat v div 2 ^ j mod 64 < 64" for j by simp
  from put_byte [of v _ 6 128] this
  have p: "(ucast ((drop_bit j v AND 0x3f) OR 0x80) :: u8) = word_of_nat (128 + unat v div 2 ^ j mod 64)" for j
    unfolding group_bits by (simp del: of_nat_add)
  from p [of k] p [of 0]
  show "(ucast ((drop_bit k v AND 0x3f) OR 0x80) :: u8) = word_of_nat (128 + unat v div 2 ^ k mod 64)"
    "(ucast ((v AND 0x3f) OR 0x80) :: u8) = word_of_nat (128 + unat v mod 64)"
    by (simp_all del: of_nat_add)
qed

lemma put_lead:
  fixes v :: u64
  shows "unat v < 2 ^ 11 \<Longrightarrow> (ucast ((drop_bit 6 v AND 0x1f) OR 0xc0) :: u8) = word_of_nat (192 + unat v div 64)"
    and "unat v < 2 ^ 16 \<Longrightarrow> (ucast ((drop_bit 12 v AND 0xf) OR 0xe0) :: u8) = word_of_nat (224 + unat v div 2 ^ 12)"
    and "unat v < 2 ^ 21 \<Longrightarrow> (ucast ((drop_bit 18 v AND 0x7) OR 0xf0) :: u8) = word_of_nat (240 + unat v div 2 ^ 18)"
    and "unat v < 2 ^ 26 \<Longrightarrow> (ucast ((drop_bit 24 v AND 0x3) OR 0xf8) :: u8) = word_of_nat (248 + unat v div 2 ^ 24)"
    and "unat v < 2 ^ 31 \<Longrightarrow> (ucast ((drop_bit 30 v AND 0x1) OR 0xfc) :: u8) = word_of_nat (252 + unat v div 2 ^ 30)"
proof -
  have lead: "(ucast ((take_bit n (drop_bit k v)) OR word_of_nat h) :: u8) = word_of_nat (h + unat v div 2 ^ k)"
    if "unat v < 2 ^ (k + n)" "h + 2 ^ n \<le> 256" "h mod 2 ^ n = 0" "n \<le> 6" for k n h
  proof -
    have "unat v div 2 ^ k < 2 ^ n" using that(1) by (intro less_mult_imp_div_less) (simp add: power_add mult.commute)
    then show ?thesis using put_byte [of v k n h] that by simp
  qed
  show "unat v < 2 ^ 11 \<Longrightarrow> (ucast ((drop_bit 6 v AND 0x1f) OR 0xc0) :: u8) = word_of_nat (192 + unat v div 64)"
    using lead [of 6 5 192] unfolding group_bits by (simp del: of_nat_add)
  show "unat v < 2 ^ 16 \<Longrightarrow> (ucast ((drop_bit 12 v AND 0xf) OR 0xe0) :: u8) = word_of_nat (224 + unat v div 2 ^ 12)"
    using lead [of 12 4 224] unfolding group_bits by (simp del: of_nat_add)
  show "unat v < 2 ^ 21 \<Longrightarrow> (ucast ((drop_bit 18 v AND 0x7) OR 0xf0) :: u8) = word_of_nat (240 + unat v div 2 ^ 18)"
    using lead [of 18 3 240] unfolding group_bits by (simp del: of_nat_add)
  show "unat v < 2 ^ 26 \<Longrightarrow> (ucast ((drop_bit 24 v AND 0x3) OR 0xf8) :: u8) = word_of_nat (248 + unat v div 2 ^ 24)"
    using lead [of 24 2 248] unfolding group_bits by (simp del: of_nat_add)
  show "unat v < 2 ^ 31 \<Longrightarrow> (ucast ((drop_bit 30 v AND 0x1) OR 0xfc) :: u8) = word_of_nat (252 + unat v div 2 ^ 30)"
  proof -
    assume v: "unat v < 2 ^ 31"
    have "(ucast ((take_bit 1 (drop_bit 30 v)) OR word_of_nat 252) :: u8) = word_of_nat (252 + unat v div 2 ^ 30)"
      by (rule lead) (use v in simp_all)
    then have "(ucast ((take_bit 1 (drop_bit 30 v)) OR 252) :: u8) = word_of_nat (252 + unat v div 2 ^ 30)" by (simp only: of_nat_numeral)
    then show ?thesis by (simp only: group_bits(6))
  qed
qed

lemma ucast_small: "unat (v :: u64) < 256 \<Longrightarrow> (ucast v :: u8) = word_of_nat (unat v)"
  by (rule word_eq_unatI) (simp add: unat_ucast_mod)

lemma cont_bytes_numeral [simp]:
  "cont_bytes (numeral k) v = cont_bytes (pred_numeral k) (v div 64) @ [word_of_nat (128 + v mod 64)]"
  unfolding numeral_eq_Suc [of k] by (simp only: cont_bytes.simps)

lemma utf8_bytes_cases:
  "v < 2 ^ 7 \<Longrightarrow> utf8_bytes v = [word_of_nat v]"
  "2 ^ 7 \<le> v \<Longrightarrow> v < 2 ^ 11 \<Longrightarrow> utf8_bytes v = [word_of_nat (192 + v div 64), word_of_nat (128 + v mod 64)]"
  "2 ^ 11 \<le> v \<Longrightarrow> v < 2 ^ 16 \<Longrightarrow> utf8_bytes v =
     [word_of_nat (224 + v div 2 ^ 12), word_of_nat (128 + v div 2 ^ 6 mod 64), word_of_nat (128 + v mod 64)]"
  "2 ^ 16 \<le> v \<Longrightarrow> v < 2 ^ 21 \<Longrightarrow> utf8_bytes v =
     [word_of_nat (240 + v div 2 ^ 18), word_of_nat (128 + v div 2 ^ 12 mod 64), word_of_nat (128 + v div 2 ^ 6 mod 64),
      word_of_nat (128 + v mod 64)]"
  "2 ^ 21 \<le> v \<Longrightarrow> v < 2 ^ 26 \<Longrightarrow> utf8_bytes v =
     [word_of_nat (248 + v div 2 ^ 24), word_of_nat (128 + v div 2 ^ 18 mod 64), word_of_nat (128 + v div 2 ^ 12 mod 64),
      word_of_nat (128 + v div 2 ^ 6 mod 64), word_of_nat (128 + v mod 64)]"
  "2 ^ 26 \<le> v \<Longrightarrow> utf8_bytes v =
     [word_of_nat (252 + v div 2 ^ 30), word_of_nat (128 + v div 2 ^ 24 mod 64), word_of_nat (128 + v div 2 ^ 18 mod 64),
      word_of_nat (128 + v div 2 ^ 12 mod 64), word_of_nat (128 + v div 2 ^ 6 mod 64), word_of_nat (128 + v mod 64)]"
  by (simp_all add: utf8_bytes_def utf8_len_def Let_def div_mult2_eq [symmetric] del: of_nat_add)

lemma utf8_range_cases:
  obtains "v < 2 ^ 7" | "2 ^ 7 \<le> v" "v < 2 ^ 11" | "2 ^ 11 \<le> v" "v < 2 ^ 16" | "2 ^ 16 \<le> v" "v < 2 ^ 21"
    | "2 ^ 21 \<le> v" "v < 2 ^ 26" | "2 ^ 26 \<le> (v :: nat)"
  by (meson not_le)

lemma UTF8_putc_eq:
  assumes "unat v < 2 ^ 31"
  shows "UTF8_putc str len v =
    (if str \<noteq> None \<and> len < int (utf8_len (unat v)) then (-1, str)
     else (int (utf8_len (unat v)), put_at str (utf8_bytes (unat v))))"
proof (cases "unat v" rule: utf8_range_cases)
  case 1
  then show ?thesis using ucast_small [of v]
    by (simp add: UTF8_putc_def Let_def word_less_nat_alt utf8_len_def utf8_bytes_cases)
next
  case 2
  then show ?thesis using put_lead(1) [of v] put_cont(2) [of v]
    by (simp add: UTF8_putc_def Let_def word_less_nat_alt utf8_len_def utf8_bytes_cases del: of_nat_add)
next
  case 3
  then show ?thesis using put_lead(2) [of v] put_cont [where v = v]
    by (simp add: UTF8_putc_def Let_def word_less_nat_alt utf8_len_def utf8_bytes_cases del: of_nat_add)
next
  case 4
  then show ?thesis using put_lead(3) [of v] put_cont [where v = v]
    by (simp add: UTF8_putc_def Let_def word_less_nat_alt utf8_len_def utf8_bytes_cases del: of_nat_add)
next
  case 5
  then show ?thesis using put_lead(4) [of v] put_cont [where v = v]
    by (simp add: UTF8_putc_def Let_def word_less_nat_alt utf8_len_def utf8_bytes_cases del: of_nat_add)
next
  case 6
  then show ?thesis using put_lead(5) [OF assms] put_cont [where v = v]
    by (simp add: UTF8_putc_def Let_def word_less_nat_alt utf8_len_def utf8_bytes_cases del: of_nat_add)
qed


section \<open>Reading\<close>

lemma or_group:
  assumes "2 ^ (k + 6) dvd unat (x :: u64)" and "k \<le> 24"
  shows "unat (x OR push_bit k (ucast ((b :: u8) AND 0x3f))) = unat x + unat b mod 64 * 2 ^ k"
proof -
  have g: "unat (push_bit k (ucast (b AND 0x3f)) :: u64) = unat b mod 64 * 2 ^ k"
    unfolding group_bits using unat_group [of 6 k b] assms(2) by simp
  have "unat b mod 64 * 2 ^ k < 64 * 2 ^ k" by (intro mult_strict_right_mono) simp_all
  then show ?thesis
    using assms g by (subst unat_or_disjoint [of _ "k + 6"]) (simp_all add: power_add mod_eq_0_iff_dvd)
qed

lemma or_last:
  assumes "2 ^ 6 dvd unat (x :: u64)"
  shows "unat (x OR ucast ((b :: u8) AND 0x3f)) = unat x + unat b mod 64"
  using or_group [of 0 x b] assms by simp

lemmas pow_dvd = dvd_add dvd_mult le_imp_power_dvd

lemma utf8_lead_value:
  fixes a :: u8
  shows "unat (push_bit 6 (ucast (a AND 0x1f)) :: u64) = unat a mod 32 * 2 ^ 6"
    and "unat (push_bit 12 (ucast (a AND 0xf)) :: u64) = unat a mod 16 * 2 ^ 12"
    and "unat (push_bit 18 (ucast (a AND 0x7)) :: u64) = unat a mod 8 * 2 ^ 18"
    and "unat (push_bit 24 (ucast (a AND 0x3)) :: u64) = unat a mod 4 * 2 ^ 24"
    and "unat (push_bit 30 (ucast (a AND 0x1)) :: u64) = unat a mod 2 * 2 ^ 30"
  unfolding group_bits
  using unat_group [of 5 6 a] unat_group [of 4 12 a] unat_group [of 3 18 a] unat_group [of 2 24 a] unat_group [of 1 30 a]
  by simp_all

lemma utf8_value:
  fixes a b c d e f :: u8
  shows "unat (push_bit 6 (ucast (a AND 0x1f)) OR ucast (b AND 0x3f) :: u64) = unat a mod 32 * 2 ^ 6 + unat b mod 64"
    and "unat ((push_bit 12 (ucast (a AND 0xf)) OR push_bit 6 (ucast (b AND 0x3f))) OR ucast (c AND 0x3f) :: u64) =
      unat a mod 16 * 2 ^ 12 + unat b mod 64 * 2 ^ 6 + unat c mod 64"
    and "unat (((push_bit 18 (ucast (a AND 0x7)) OR push_bit 12 (ucast (b AND 0x3f))) OR push_bit 6 (ucast (c AND 0x3f))) OR
        ucast (d AND 0x3f) :: u64) =
      unat a mod 8 * 2 ^ 18 + unat b mod 64 * 2 ^ 12 + unat c mod 64 * 2 ^ 6 + unat d mod 64"
    and "unat ((((push_bit 24 (ucast (a AND 0x3)) OR push_bit 18 (ucast (b AND 0x3f))) OR push_bit 12 (ucast (c AND 0x3f))) OR
        push_bit 6 (ucast (d AND 0x3f))) OR ucast (e AND 0x3f) :: u64) =
      unat a mod 4 * 2 ^ 24 + unat b mod 64 * 2 ^ 18 + unat c mod 64 * 2 ^ 12 + unat d mod 64 * 2 ^ 6 + unat e mod 64"
    and "unat (((((push_bit 30 (ucast (a AND 0x1)) OR push_bit 24 (ucast (b AND 0x3f))) OR push_bit 18 (ucast (c AND 0x3f))) OR
        push_bit 12 (ucast (d AND 0x3f))) OR push_bit 6 (ucast (e AND 0x3f))) OR ucast (f AND 0x3f) :: u64) =
      unat a mod 2 * 2 ^ 30 + unat b mod 64 * 2 ^ 24 + unat c mod 64 * 2 ^ 18 + unat d mod 64 * 2 ^ 12 +
      unat e mod 64 * 2 ^ 6 + unat f mod 64"
  by (simp_all only: utf8_lead_value or_last or_group dvd_add dvd_mult le_imp_power_dvd add_num_simps arith_simps rel_simps simp_thms)

text \<open>The five multi-byte branches of \<open>UTF8_getc\<close> as one: \<open>n\<close> continuation bytes.\<close>

definition is_cont :: "u8 \<Rightarrow> bool" where
  "is_cont b \<longleftrightarrow> unat b div 64 = 2"

definition join6 :: "nat \<Rightarrow> u8 list \<Rightarrow> nat" where
  "join6 a bs = foldl (\<lambda>v b. v * 64 + unat b mod 64) a bs"

definition utf8_min :: "nat \<Rightarrow> nat" where
  "utf8_min n = (if n = 1 then 2 ^ 7 else 2 ^ (5 * n + 1))"

definition getc_multi :: "nat \<Rightarrow> u8 list \<Rightarrow> int \<Rightarrow> int \<times> u64 option" where
  "getc_multi n p len =
     (let bs = take n (drop 1 p); v = join6 (unat (p ! 0) mod 2 ^ (6 - n)) bs in
      if len < int n + 1 then (-1, None)
      else if \<not> list_all is_cont bs then (-3, None)
      else if v < utf8_min n then (-4, None)
      else (int n + 1, Some (word_of_nat v)))"

lemma lead_excl:
  fixes b :: u8
  assumes "unat b div 2 ^ (6 - n) = 2 ^ (n + 2) - 2" and "n \<in> {1, 2, 3, 4, 5}"
  shows "(b AND 0x80 = 0) = False" and "(b AND 0xe0 = 0xc0) = (n = 1)" and "(b AND 0xf0 = 0xe0) = (n = 2)"
    and "(b AND 0xf8 = 0xf0) = (n = 3)" and "(b AND 0xfc = 0xf8) = (n = 4)" and "(b AND 0xfe = 0xfc) = (n = 5)"
  using assms by (auto simp: lead_bits bit7_iff)

lemma unat_mins: "unat (0x80 :: u64) = 0x80" "unat (0x800 :: u64) = 0x800" "unat (0x10000 :: u64) = 0x10000"
    "unat (0x200000 :: u64) = 0x200000" "unat (0x4000000 :: u64) = 0x4000000"
  by simp_all

lemma value_branch:
  fixes x m :: u64
  assumes "unat x = v"
  shows "(if x < m then (-4, None) else (k, Some x)) = (if v < unat m then (-4, None) else (k, Some (word_of_nat v)))"
  using assms by (auto simp: word_less_nat_alt)

lemma UTF8_getc_multi:
  assumes len: "0 < len" "len \<le> int (length p)" and n: "n \<in> {1, 2, 3, 4, 5}"
    and lead: "unat (p ! 0) div 2 ^ (6 - n) = 2 ^ (n + 2) - 2"
  shows "UTF8_getc p len = getc_multi n p len"
proof (cases "len < int n + 1")
  case True
  then show ?thesis using n len lead_excl [OF lead n] by (auto simp: UTF8_getc_def getc_multi_def)
next
  case False
  have l: "(len \<le> 0) = False" using len by simp
  have c: "(b AND 0xc0 \<noteq> 0x80) = (\<not> is_cont b)" for b :: u8 by (simp only: lead_bits is_cont_def)
  note code = UTF8_getc_def Let_def l if_False if_True c
  have p: "n < length p" using len False by linarith
  have tl: "take n (drop 1 p) = map (\<lambda>i. p ! (i + 1)) [0..<n]"
    using p by (intro nth_equalityI) auto
  have upts: "[0..<1] = [0]" "[0..<2] = [0, 1]" "[0..<3] = [0, 1, 2]" "[0..<4] = [0, 1, 2, 3]" "[0..<5] = [0, 1, 2, 3, 4]"
    by (simp_all add: upt_rec)
  consider "n = 1" | "n = 2" | "n = 3" | "n = 4" | "n = 5" using n by auto
  then show ?thesis
  proof cases
    case 1
    with False lead_excl [OF lead n] show ?thesis
      unfolding getc_multi_def tl by (simp only: code unat_mins value_branch [OF utf8_value(1)]) (simp add: join6_def utf8_min_def upts Let_def algebra_simps del: One_nat_def)
  next
    case 2
    with False lead_excl [OF lead n] show ?thesis
      unfolding getc_multi_def tl by (simp only: code unat_mins value_branch [OF utf8_value(2)]) (simp add: join6_def utf8_min_def upts Let_def algebra_simps del: One_nat_def)
  next
    case 3
    with False lead_excl [OF lead n] show ?thesis
      unfolding getc_multi_def tl by (simp only: code unat_mins value_branch [OF utf8_value(3)]) (simp add: join6_def utf8_min_def upts Let_def algebra_simps del: One_nat_def)
  next
    case 4
    with False lead_excl [OF lead n] show ?thesis
      unfolding getc_multi_def tl by (simp only: code unat_mins value_branch [OF utf8_value(4)]) (simp add: join6_def utf8_min_def upts Let_def algebra_simps del: One_nat_def)
  next
    case 5
    with False lead_excl [OF lead n] show ?thesis
      unfolding getc_multi_def tl by (simp only: code unat_mins value_branch [OF utf8_value(5)]) (simp add: join6_def utf8_min_def upts Let_def algebra_simps del: One_nat_def)
  qed
qed


section \<open>The reader against the encoding\<close>

lemma join6_snoc [simp]: "join6 a (bs @ [b]) = join6 a bs * 64 + unat b mod 64"
  and join6_Nil [simp]: "join6 a [] = a"
  by (simp_all add: join6_def)

lemma cont_join6:
  "list_all is_cont bs \<Longrightarrow> cont_bytes (length bs) (join6 a bs) = bs \<and> join6 a bs div 64 ^ length bs = a"
proof (induction bs rule: rev_induct)
  case (snoc b bs)
  have "128 + unat b mod 64 = unat b"
    using snoc.prems div_mult_mod_eq [of "unat b" 64] by (simp add: is_cont_def)
  then have "(word_of_nat (128 + unat b mod 64) :: u8) = b" by simp
  moreover have "(join6 a bs * 64 + unat b mod 64) div 64 = join6 a bs" by simp
  ultimately show ?case using snoc by (simp add: div_mult2_eq del: of_nat_add)
qed simp

lemma join6_cont:
  "join6 (v div 64 ^ n) (cont_bytes n v) = v \<and> list_all is_cont (cont_bytes n v)"
proof (induction n arbitrary: v)
  case (Suc n)
  let ?b = "word_of_nat (128 + v mod 64) :: u8"
  have "(128 + v mod 64) mod 256 = 128 + v mod 64" by (rule mod_less) (simp add: trans_less_add1)
  then have u: "unat ?b = 128 + v mod 64" by (simp only: unat_of_nat_u8)
  have "(128 + v mod 64) mod 64 = v mod 64" using mod_add_left_eq [of 128 64 "v mod 64"] by simp
  moreover have "(128 + v mod 64) div 64 = 2" by (rule div_nat_eqI) simp_all
  ultimately have b: "unat ?b mod 64 = v mod 64" "is_cont ?b" by (simp_all only: u is_cont_def)
  have d: "v div 64 ^ Suc n = v div 64 div 64 ^ n" by (simp add: div_mult2_eq)
  have "join6 (v div 64 ^ Suc n) (cont_bytes (Suc n) v) = v div 64 * 64 + v mod 64"
    unfolding cont_bytes.simps join6_snoc b d using Suc.IH [of "v div 64"] by simp
  moreover have "list_all is_cont (cont_bytes (Suc n) v)"
    unfolding cont_bytes.simps list_all_append using Suc.IH [of "v div 64"] b(2) by simp
  ultimately show ?case by simp
qed simp

lemma utf8_len_iff:
  assumes "n \<in> {1, 2, 3, 4, 5}"
  shows "v < 2 ^ 31 \<and> utf8_len v = n + 1 \<longleftrightarrow> utf8_min n \<le> v \<and> v div 64 ^ n < 2 ^ (6 - n)"
  using assms by (auto simp: utf8_len_def utf8_min_def div_less_iff_less_mult split: if_splits)

lemma utf8_bytes_multi:
  assumes "utf8_len v = n + 1" and "0 < n"
  shows "utf8_bytes v = word_of_nat (256 - 2 ^ (7 - n) + v div 64 ^ n) # cont_bytes n v"
  using assms by (auto simp: utf8_bytes_def utf8_len_def Let_def split: if_splits)

lemma lead_byte:
  assumes "n \<in> {1, 2, 3, 4, 5}" and "a < 2 ^ (6 - n)"
  shows "unat (word_of_nat (256 - 2 ^ (7 - n) + a) :: u8) = 256 - 2 ^ (7 - n) + a"
    and "(256 - 2 ^ (7 - n) + a) div 2 ^ (6 - n) = 2 ^ (n + 2) - (2 :: nat)"
    and "(256 - 2 ^ (7 - n) + a) mod 2 ^ (6 - n) = a"
proof -
  show "unat (word_of_nat (256 - 2 ^ (7 - n) + a) :: u8) = 256 - 2 ^ (7 - n) + a"
    and d: "(256 - 2 ^ (7 - n) + a) div 2 ^ (6 - n) = 2 ^ (n + 2) - (2 :: nat)"
    using assms by (auto simp del: of_nat_add)
  show "(256 - 2 ^ (7 - n) + a) mod 2 ^ (6 - n) = a"
    using assms d div_mult_mod_eq [of "256 - 2 ^ (7 - n) + a" "2 ^ (6 - n)"] by auto
qed

lemma lead_byte_back:
  assumes "n \<in> {1, 2, 3, 4, 5}" and "b div 2 ^ (6 - n) = 2 ^ (n + 2) - (2 :: nat)"
  shows "256 - 2 ^ (7 - n) + b mod 2 ^ (6 - n) = b"
  using assms div_mult_mod_eq [of b "2 ^ (6 - n)"] by auto

lemma getc_multi_iff:
  assumes n: "n \<in> {1, 2, 3, 4, 5}" and len: "0 < len" "len \<le> int (length p)"
    and lead: "unat (p ! 0) div 2 ^ (6 - n) = 2 ^ (n + 2) - 2"
  shows "getc_multi n p len = (k, Some w) \<longleftrightarrow>
    k = int n + 1 \<and> k \<le> len \<and> unat w < 2 ^ 31 \<and> utf8_len (unat w) = n + 1 \<and> take (n + 1) p = utf8_bytes (unat w)"
proof -
  let ?bs = "take n (drop 1 p)" and ?a = "unat (p ! 0) mod 2 ^ (6 - n)"
  have p: "p = p ! 0 # drop 1 p" using len by (cases p) auto
  have t: "take (n + 1) p = p ! 0 # ?bs" by (subst p) simp
  show ?thesis
  proof
    assume "getc_multi n p len = (k, Some w)"
    then have k: "k = int n + 1" "k \<le> len" and c: "list_all is_cont ?bs" and m: "utf8_min n \<le> join6 ?a ?bs"
      and w: "w = word_of_nat (join6 ?a ?bs)"
      by (auto simp: getc_multi_def Let_def split: if_splits)
    have "length ?bs = n" using k len by auto
    with cont_join6 [OF c, of ?a] have cj: "cont_bytes n (join6 ?a ?bs) = ?bs" "join6 ?a ?bs div 64 ^ n = ?a" by auto
    have "?a < 2 ^ (6 - n)" by simp
    with m cj(2) utf8_len_iff [OF n, of "join6 ?a ?bs"]
    have v: "join6 ?a ?bs < 2 ^ 31" "utf8_len (join6 ?a ?bs) = n + 1" by auto
    then have u: "unat w = join6 ?a ?bs" unfolding w by (simp add: unat_of_nat)
    have "take (n + 1) p = utf8_bytes (unat w)"
      unfolding t u using utf8_bytes_multi [OF v(2)] cj lead_byte_back [OF n lead] n by (auto simp del: of_nat_add)
    then show "k = int n + 1 \<and> k \<le> len \<and> unat w < 2 ^ 31 \<and> utf8_len (unat w) = n + 1 \<and> take (n + 1) p = utf8_bytes (unat w)"
      using k v u by simp
  next
    assume r: "k = int n + 1 \<and> k \<le> len \<and> unat w < 2 ^ 31 \<and> utf8_len (unat w) = n + 1 \<and> take (n + 1) p = utf8_bytes (unat w)"
    then have m: "utf8_min n \<le> unat w" and a: "unat w div 64 ^ n < 2 ^ (6 - n)" using utf8_len_iff [OF n, of "unat w"] by auto
    have "p ! 0 = word_of_nat (256 - 2 ^ (7 - n) + unat w div 64 ^ n)" and bs: "?bs = cont_bytes n (unat w)"
      using r utf8_bytes_multi [of "unat w" n] n t by auto
    then have "?a = unat w div 64 ^ n" using lead_byte(1,3) [OF n a] by metis
    then show "getc_multi n p len = (k, Some w)"
      using r m join6_cont [of "unat w" n] unfolding getc_multi_def bs Let_def by auto
  qed
qed


lemma utf8_len_multi: "\<not> v < 2 ^ 7 \<Longrightarrow> utf8_len v - 1 \<in> {1, 2, 3, 4, 5} \<and> utf8_len v = utf8_len v - 1 + 1"
  by (auto simp: utf8_len_def)

text \<open>What the first byte of an encoding looks like.\<close>

lemma utf8_first:
  assumes "p \<noteq> []" and "take (utf8_len v) p = utf8_bytes v"
  shows "p ! 0 = utf8_bytes v ! 0"
  using assms by (cases p) (auto simp: utf8_len_def Let_def utf8_bytes_def split: if_splits)

lemma utf8_first_small:
  assumes "p \<noteq> []" and "take (utf8_len v) p = utf8_bytes v" and "v < 2 ^ 7"
  shows "unat (p ! 0) = v"
proof -
  have "p ! 0 = word_of_nat v" using utf8_first [OF assms(1,2)] assms(3) by (simp add: utf8_bytes_def)
  then show ?thesis using assms(3) by (simp only: unat_of_nat_u8) simp
qed

lemma utf8_first_lead:
  assumes "p \<noteq> []" and "take (utf8_len v) p = utf8_bytes v" and "\<not> v < 2 ^ 7" and "v < 2 ^ 31"
    and n: "n = utf8_len v - 1"
  shows "n \<in> {1, 2, 3, 4, 5}" and "utf8_len v = n + 1" and "unat (p ! 0) div 2 ^ (6 - n) = 2 ^ (n + 2) - 2"
proof -
  show m: "n \<in> {1, 2, 3, 4, 5}" and l: "utf8_len v = n + 1" using utf8_len_multi [OF assms(3)] n by auto
  then have a: "v div 64 ^ n < 2 ^ (6 - n)" using utf8_len_iff [OF m, of v] assms(4) by blast
  have "p ! 0 = word_of_nat (256 - 2 ^ (7 - n) + v div 64 ^ n)"
    using utf8_first [OF assms(1,2)] utf8_bytes_multi [OF l] m by auto
  then show "unat (p ! 0) div 2 ^ (6 - n) = 2 ^ (n + 2) - 2" using lead_byte(1,2) [OF m a] by metis
qed

lemma getc_ascii_iff:
  assumes len: "0 < len" "len \<le> int (length p)" and a: "unat (p ! 0) < 128"
  shows "UTF8_getc p len = (k, Some w) \<longleftrightarrow>
    unat w < 2 ^ 31 \<and> k = int (utf8_len (unat w)) \<and> k \<le> len \<and> take (utf8_len (unat w)) p = utf8_bytes (unat w)"
proof -
  have p: "p \<noteq> []" using len by auto
  have "(p ! 0) AND 0x7f = p ! 0" using a by (intro word_eq_unatI) (simp add: and_7F_take_bit unat_take_bit_mod)
  then have g: "UTF8_getc p len = (1, Some (ucast (p ! 0)))" using a len(1) by (simp add: UTF8_getc_def bit7_iff)
  have u: "unat (ucast (p ! 0) :: u64) = unat (p ! 0)" by (rule unat_ucast_u8_size)
  have t1: "take 1 p = [p ! 0]" using p by (cases p) auto
  show ?thesis
  proof
    assume "UTF8_getc p len = (k, Some w)"
    then have "k = 1" "unat w = unat (p ! 0)" using g u by auto
    then show "unat w < 2 ^ 31 \<and> k = int (utf8_len (unat w)) \<and> k \<le> len \<and> take (utf8_len (unat w)) p = utf8_bytes (unat w)"
      using a len t1 by (simp add: utf8_len_def utf8_bytes_def)
  next
    assume r: "unat w < 2 ^ 31 \<and> k = int (utf8_len (unat w)) \<and> k \<le> len \<and> take (utf8_len (unat w)) p = utf8_bytes (unat w)"
    have w: "unat w < 2 ^ 7"
    proof (rule ccontr)
      assume b: "\<not> unat w < 2 ^ 7"
      from r utf8_first_lead [OF p _ b _ refl] a show False by auto
    qed
    then have "w = ucast (p ! 0)" using utf8_first_small [OF p _ w] r u by (intro word_eq_unatI) simp
    then show "UTF8_getc p len = (k, Some w)" using g r w by (simp add: utf8_len_def)
  qed
qed

lemma getc_high_iff:
  assumes len: "0 < len" "len \<le> int (length p)" and a: "\<not> unat (p ! 0) < 128"
  shows "UTF8_getc p len = (k, Some w) \<longleftrightarrow>
    unat w < 2 ^ 31 \<and> k = int (utf8_len (unat w)) \<and> k \<le> len \<and> take (utf8_len (unat w)) p = utf8_bytes (unat w)"
proof -
  have p: "p \<noteq> []" using len by auto
  note lead = utf8_first_lead [OF p _ _ _ refl, of "unat w"]
  have big: "\<not> unat w < 2 ^ 7" if "take (utf8_len (unat w)) p = utf8_bytes (unat w)"
    using utf8_first_small [OF p that] a by auto
  show ?thesis
  proof (cases "\<exists>n\<in>{1, 2, 3, 4, 5}. unat (p ! 0) div 2 ^ (6 - n) = 2 ^ (n + 2) - 2")
    case True
    then obtain n where n: "n \<in> {1, 2, 3, 4, 5}" and l: "unat (p ! 0) div 2 ^ (6 - n) = 2 ^ (n + 2) - 2" by blast
    have "utf8_len (unat w) = n + 1" if t: "take (utf8_len (unat w)) p = utf8_bytes (unat w)" and w: "unat w < 2 ^ 31"
      using lead [OF t big [OF t] w] l n by auto
    with getc_multi_iff [OF n len l, of k w] show ?thesis unfolding UTF8_getc_multi [OF len n l] by auto
  next
    case no: False
    have "UTF8_getc p len = (-2, None)" using no a len(1) by (simp add: UTF8_getc_def bit7_iff lead_bits)
    moreover have "\<not> (unat w < 2 ^ 31 \<and> take (utf8_len (unat w)) p = utf8_bytes (unat w))"
      using lead big no by blast
    ultimately show ?thesis by auto
  qed
qed

text \<open>C34: \<open>UTF8_getc\<close> accepts exactly the canonical encodings (no overlong forms, no truncated
  sequences, no stray continuation bytes) of the numbers below 2^31, and returns the number and the
  length of its encoding; in every other case it returns a negative code and stores nothing.\<close>

theorem utf8_getc_iff:
  assumes "0 < len" and "len \<le> int (length p)"
  shows "(UTF8_getc p len = (k, Some w) \<longleftrightarrow>
      unat w < 2 ^ 31 \<and> k = int (utf8_len (unat w)) \<and> k \<le> len \<and> take (utf8_len (unat w)) p = utf8_bytes (unat w)) \<and>
    (snd (UTF8_getc p len) = None \<longleftrightarrow> fst (UTF8_getc p len) < 0)"
  using getc_ascii_iff [OF assms, of k w] getc_high_iff [OF assms, of k w] assms
  by (cases "unat (p ! 0) < 128") (auto simp: UTF8_getc_def Let_def)

lemma utf8_getc_iff_witness:
  "UTF8_getc [0xc3, 0xa9, 0x21] 3 = (2, Some 0xe9)"
proof -
  have "take (utf8_len (unat (0xe9 :: u64))) [0xc3, 0xa9, 0x21] = utf8_bytes (unat (0xe9 :: u64))"
    by (simp add: utf8_len_def utf8_bytes_cases)
  then show ?thesis
    using utf8_getc_iff [THEN conjunct1, of 3 "[0xc3, 0xa9, 0x21]" 2 "0xe9"] by (simp add: utf8_len_def)
qed

text \<open>C35: a character below 2^31 written by \<open>UTF8_putc\<close> into a buffer with room is read back by
  \<open>UTF8_getc\<close>, whatever follows it; the writer says how much room it needs when asked with NULL, and
  refuses a shorter buffer without touching it.\<close>

theorem utf8_roundtrip:
  assumes "unat v < 2 ^ 31" and "0 < len" and "len \<le> int (length buf)"
  shows "fst (UTF8_putc None n v) = int (utf8_len (unat v)) \<and>
    (if len < int (utf8_len (unat v)) then UTF8_putc (Some buf) len v = (-1, Some buf)
     else \<exists>buf'. UTF8_putc (Some buf) len v = (int (utf8_len (unat v)), Some buf') \<and>
       UTF8_getc buf' len = (int (utf8_len (unat v)), Some v) \<and> length buf' = length buf \<and>
       drop (utf8_len (unat v)) buf' = drop (utf8_len (unat v)) buf)"
proof -
  let ?n = "utf8_len (unat v)" and ?buf' = "utf8_bytes (unat v) @ drop (utf8_len (unat v)) buf"
  have "UTF8_getc ?buf' len = (int ?n, Some v)" if "\<not> len < int ?n"
    using that assms utf8_getc_iff [THEN conjunct1, of len ?buf' "int ?n" v] by auto
  then show ?thesis
    using assms by (auto simp: UTF8_putc_eq [OF assms(1)] put_at_def)
qed

lemma utf8_roundtrip_witness:
  "\<exists>buf'. UTF8_putc (Some [0, 0, 0, 7]) 4 0x20ac = (3, Some buf') \<and> UTF8_getc buf' 4 = (3, Some 0x20ac)"
  using utf8_roundtrip [of "0x20ac" 4 "[0, 0, 0, 7]" 0] by (auto simp: utf8_len_def)

text \<open>Above 2^31 the writer drops the high bits and still reports six bytes.\<close>

lemma utf8_putc_truncates: "UTF8_putc (Some (replicate 6 0)) 6 0x84000000 = UTF8_putc (Some (replicate 6 0)) 6 0x4000000"
  by (simp add: UTF8_putc_def Let_def)

end
