(* ===== verification/Asn1_Mbstr.thy ===== *)
theory Asn1_Mbstr
  imports Asn1_Utf8 Mem_Buf
begin

text \<open>
  ASN.1 character strings of BoringSSL: the string object (crypto/asn1/asn1_lib.c) and the conversion
  of a string in ASCII, BMP, universal or UTF-8 form to the smallest permitted ASN.1 string type
  (crypto/asn1/a_mbstr.c).

  An input pointer is the list of bytes from it; \<open>int\<close> is a mathematical integer, and the results are
  for lengths below \<open>2 ^ 28\<close>, where the \<open>int\<close> arithmetic of the code cannot overflow. \<open>malloc\<close> is the
  allocator for byte blocks, the flag \<open>alloc_str\<close> says whether the allocation of a string object succeeds.
\<close>

section \<open>String objects\<close>

record asn1_string =
  as_length :: int
  as_type :: int
  as_data :: "u8 list option"
  as_flags :: u64

definition ASN1_STRING_type_new :: "bool \<Rightarrow> int \<Rightarrow> asn1_string option" where
  "ASN1_STRING_type_new alloc_str type =
     (if \<not> alloc_str then None
      else Some \<lparr>as_length = 0, as_type = type, as_data = None, as_flags = 0\<rparr>)"

definition ASN1_STRING_new :: "bool \<Rightarrow> asn1_string option" where
  "ASN1_STRING_new alloc_str = ASN1_STRING_type_new alloc_str 4"

definition ASN1_STRING_set :: "malloc_fn \<Rightarrow> asn1_string \<Rightarrow> u8 list option \<Rightarrow> int \<Rightarrow> bool \<times> asn1_string" where
  "ASN1_STRING_set malloc str data len =
     (if len < 0 \<and> data = None then (False, str)
      else
        let len = (if len < 0 then int (strlen (the data)) else len);
            new = (if as_length str \<le> len \<or> as_data str = None
                   then (case as_data str of
                           None \<Rightarrow> malloc (word_of_int (len + 1))
                         | Some c \<Rightarrow> OPENSSL_realloc malloc (Some c) (word_of_int (len + 1)))
                   else as_data str)
        in case new of
             None \<Rightarrow> (False, str)
           | Some block \<Rightarrow>
               (True, str\<lparr>as_length := len,
                  as_data := Some (case data of
                                     None \<Rightarrow> block
                                   | Some d \<Rightarrow> (take (nat len) d @ drop (nat len) block)[nat len := 0])\<rparr>))"

definition ASN1_STRING_set0 :: "asn1_string \<Rightarrow> u8 list option \<Rightarrow> int \<Rightarrow> asn1_string" where
  "ASN1_STRING_set0 str data len = str\<lparr>as_data := data, as_length := len\<rparr>"

definition ASN1_STRING_copy :: "malloc_fn \<Rightarrow> asn1_string \<Rightarrow> asn1_string option \<Rightarrow> bool \<times> asn1_string" where
  "ASN1_STRING_copy malloc dst str =
     (case str of
        None \<Rightarrow> (False, dst)
      | Some str \<Rightarrow>
          (let dst = dst\<lparr>as_type := as_type str\<rparr> in
           case ASN1_STRING_set malloc dst (as_data str) (as_length str) of
             (False, dst) \<Rightarrow> (False, dst)
           | (True, dst) \<Rightarrow> (True, dst\<lparr>as_flags := as_flags str\<rparr>)))"

definition ASN1_STRING_dup :: "malloc_fn \<Rightarrow> bool \<Rightarrow> asn1_string option \<Rightarrow> asn1_string option" where
  "ASN1_STRING_dup malloc alloc_str str =
     (case str of
        None \<Rightarrow> None
      | Some s \<Rightarrow>
          (case ASN1_STRING_new alloc_str of
             None \<Rightarrow> None
           | Some ret \<Rightarrow>
               (case ASN1_STRING_copy malloc ret (Some s) of (False, _) \<Rightarrow> None | (True, ret) \<Rightarrow> Some ret)))"

text \<open>\<open>memcmp\<close> of the C library: the sign of the first difference.\<close>

fun memcmp :: "u8 list \<Rightarrow> u8 list \<Rightarrow> nat \<Rightarrow> int" where
  "memcmp a b 0 = 0"
| "memcmp a b (Suc n) = (if hd a < hd b then -1 else if hd b < hd a then 1 else memcmp (tl a) (tl b) n)"

definition ASN1_STRING_cmp :: "asn1_string \<Rightarrow> asn1_string \<Rightarrow> int" where
  "ASN1_STRING_cmp a b =
     (let i = as_length a - as_length b in
      if i = 0 then
        let i = memcmp (the (as_data a)) (the (as_data b)) (nat (as_length a)) in
        if i = 0 then as_type a - as_type b else i
      else i)"

section \<open>Constants\<close>

abbreviation MBSTRING_UTF8 :: int where "MBSTRING_UTF8 \<equiv> 0x1000"
abbreviation MBSTRING_ASC :: int where "MBSTRING_ASC \<equiv> 0x1001"
abbreviation MBSTRING_BMP :: int where "MBSTRING_BMP \<equiv> 0x1002"
abbreviation MBSTRING_UNIV :: int where "MBSTRING_UNIV \<equiv> 0x1004"

abbreviation V_ASN1_UTF8STRING :: int where "V_ASN1_UTF8STRING \<equiv> 12"
abbreviation V_ASN1_PRINTABLESTRING :: int where "V_ASN1_PRINTABLESTRING \<equiv> 19"
abbreviation V_ASN1_T61STRING :: int where "V_ASN1_T61STRING \<equiv> 20"
abbreviation V_ASN1_IA5STRING :: int where "V_ASN1_IA5STRING \<equiv> 22"
abbreviation V_ASN1_UNIVERSALSTRING :: int where "V_ASN1_UNIVERSALSTRING \<equiv> 28"
abbreviation V_ASN1_BMPSTRING :: int where "V_ASN1_BMPSTRING \<equiv> 30"

abbreviation B_ASN1_PRINTABLESTRING :: u64 where "B_ASN1_PRINTABLESTRING \<equiv> 0x2"
abbreviation B_ASN1_T61STRING :: u64 where "B_ASN1_T61STRING \<equiv> 0x4"
abbreviation B_ASN1_IA5STRING :: u64 where "B_ASN1_IA5STRING \<equiv> 0x10"
abbreviation B_ASN1_UNIVERSALSTRING :: u64 where "B_ASN1_UNIVERSALSTRING \<equiv> 0x100"
abbreviation B_ASN1_BMPSTRING :: u64 where "B_ASN1_BMPSTRING \<equiv> 0x800"
abbreviation B_ASN1_UTF8STRING :: u64 where "B_ASN1_UTF8STRING \<equiv> 0x2000"

definition DIRSTRING_TYPE :: u64 where
  "DIRSTRING_TYPE = B_ASN1_PRINTABLESTRING OR B_ASN1_T61STRING OR B_ASN1_BMPSTRING OR B_ASN1_UTF8STRING"

section \<open>Walking over a string\<close>

text \<open>The character at the cursor and the bytes after it, or None for the \<open>return -1\<close> of the UTF-8 branch.\<close>

definition next_char :: "int \<Rightarrow> u8 list \<Rightarrow> (u64 \<times> u8 list) option" where
  "next_char inform p =
     (if inform = MBSTRING_ASC then Some (ucast (p ! 0), drop 1 p)
      else if inform = MBSTRING_BMP then Some (push_bit 8 (ucast (p ! 0)) OR ucast (p ! 1), drop 2 p)
      else if inform = MBSTRING_UNIV then
        Some (((push_bit 24 (ucast (p ! 0)) OR push_bit 16 (ucast (p ! 1))) OR push_bit 8 (ucast (p ! 2))) OR ucast (p ! 3),
              drop 4 p)
      else
        case UTF8_getc p (int (length p)) of
          (ret, value) \<Rightarrow> if ret < 0 then None else Some (the value, drop (nat ret) p))"

lemma UTF8_getc_pos: "0 < len \<Longrightarrow> UTF8_getc p len = (k, w) \<Longrightarrow> \<not> k < 0 \<Longrightarrow> 0 < k"
  by (auto simp: UTF8_getc_def Let_def split: if_splits)

lemma next_char_shorter: "p \<noteq> [] \<Longrightarrow> next_char inform p = Some (v, rest) \<Longrightarrow> length rest < length p"
  by (auto simp: next_char_def split: if_splits prod.splits dest!: UTF8_getc_pos [rotated])

function traverse_string :: "u8 list \<Rightarrow> int \<Rightarrow> (u64 \<Rightarrow> 's \<Rightarrow> int \<times> 's) option \<Rightarrow> 's \<Rightarrow> int \<times> 's" where
  "traverse_string p inform rfunc arg =
     (if p = [] then (1, arg)
      else
        case next_char inform p of
          None \<Rightarrow> (-1, arg)
        | Some (value, rest) \<Rightarrow>
            (case rfunc of
               None \<Rightarrow> traverse_string rest inform rfunc arg
             | Some f \<Rightarrow>
                 (case f value arg of
                    (ret, arg') \<Rightarrow> if ret \<le> 0 then (ret, arg') else traverse_string rest inform rfunc arg')))"
  by pat_completeness auto
termination
  by (relation "measure (\<lambda>(p, _, _, _). length p)") (auto dest: next_char_shorter)

declare traverse_string.simps [simp del]

definition in_utf8 :: "u64 \<Rightarrow> int \<Rightarrow> int \<times> int" where
  "in_utf8 value nchar = (1, nchar + 1)"

definition out_utf8 :: "u64 \<Rightarrow> int \<Rightarrow> int \<times> int" where
  "out_utf8 value outlen = (1, outlen + fst (UTF8_putc None (-1) value))"

text \<open>\<open>strchr\<close> also finds the terminator of the string it searches.\<close>

definition is_printable :: "u64 \<Rightarrow> bool" where
  "is_printable value =
     (if 0x7f < value then False
      else
        let ch = uint value in
        if 97 \<le> ch \<and> ch \<le> 122 then True
        else if 65 \<le> ch \<and> ch \<le> 90 then True
        else if 48 \<le> ch \<and> ch \<le> 57 then True
        else if ch = 32 \<or> ch \<in> set [39, 40, 41, 43, 44, 45, 46, 47, 58, 61, 63, 0] then True
        else False)"

definition type_str :: "u64 \<Rightarrow> u64 \<Rightarrow> int \<times> u64" where
  "type_str value arg =
     (let types = arg;
          types = (if types AND B_ASN1_PRINTABLESTRING \<noteq> 0 \<and> \<not> is_printable value then types AND NOT B_ASN1_PRINTABLESTRING else types);
          types = (if types AND B_ASN1_IA5STRING \<noteq> 0 \<and> 127 < value then types AND NOT B_ASN1_IA5STRING else types);
          types = (if types AND B_ASN1_T61STRING \<noteq> 0 \<and> 0xff < value then types AND NOT B_ASN1_T61STRING else types);
          types = (if types AND B_ASN1_BMPSTRING \<noteq> 0 \<and> 0xffff < value then types AND NOT B_ASN1_BMPSTRING else types)
      in if types = 0 then (-1, arg) else (1, types))"

text \<open>The output cursor: the bytes written and the rest of the buffer.\<close>

type_synonym out_cursor = "u8 list \<times> u8 list"

definition put_bytes :: "u8 list \<Rightarrow> out_cursor \<Rightarrow> out_cursor" where
  "put_bytes bs q = (fst q @ bs, drop (length bs) (snd q))"

definition cpy_asc :: "u64 \<Rightarrow> out_cursor \<Rightarrow> int \<times> out_cursor" where
  "cpy_asc value q = (1, put_bytes [ucast value] q)"

definition cpy_bmp :: "u64 \<Rightarrow> out_cursor \<Rightarrow> int \<times> out_cursor" where
  "cpy_bmp value q = (1, put_bytes [ucast (drop_bit 8 value AND 0xff), ucast (value AND 0xff)] q)"

definition cpy_univ :: "u64 \<Rightarrow> out_cursor \<Rightarrow> int \<times> out_cursor" where
  "cpy_univ value q =
     (1, put_bytes [ucast (drop_bit 24 value AND 0xff), ucast (drop_bit 16 value AND 0xff),
                    ucast (drop_bit 8 value AND 0xff), ucast (value AND 0xff)] q)"

definition cpy_utf8 :: "u64 \<Rightarrow> out_cursor \<Rightarrow> int \<times> out_cursor" where
  "cpy_utf8 value q =
     (case UTF8_putc (Some (snd q)) 0xff value of
        (ret, post) \<Rightarrow> (1, (fst q @ take (nat ret) (the post), drop (nat ret) (the post))))"

section \<open>The conversion\<close>

datatype mbstr_err = ASN1_R_INVALID_BMPSTRING_LENGTH | ASN1_R_INVALID_UNIVERSALSTRING_LENGTH
  | ASN1_R_INVALID_UTF8STRING | ASN1_R_UNKNOWN_FORMAT | ASN1_R_STRING_TOO_SHORT | ASN1_R_STRING_TOO_LONG
  | ASN1_R_ILLEGAL_CHARACTERS | MBSTR_MALLOC_FAILURE

text \<open>The out-parameter \<open>ASN1_STRING **out\<close>: NULL, a pointer to NULL, a pointer to a string, or a
  pointer to a string that has been freed.\<close>

datatype str_out = Out_none | Out_null | Out_str asn1_string | Out_freed

text \<open>The string check of the first \<open>switch\<close>: the number of characters.\<close>

definition mb_count :: "int \<Rightarrow> u8 list \<Rightarrow> int \<Rightarrow> mbstr_err + int" where
  "mb_count inform p len =
     (if inform = MBSTRING_BMP then
        if len mod 2 \<noteq> 0 then Inl ASN1_R_INVALID_BMPSTRING_LENGTH else Inr (len div 2)
      else if inform = MBSTRING_UNIV then
        if len mod 4 \<noteq> 0 then Inl ASN1_R_INVALID_UNIVERSALSTRING_LENGTH else Inr (len div 4)
      else if inform = MBSTRING_UTF8 then
        (case traverse_string p MBSTRING_UTF8 (Some in_utf8) 0 of
           (ret, nchar) \<Rightarrow> if ret < 0 then Inl ASN1_R_INVALID_UTF8STRING else Inr nchar)
      else if inform = MBSTRING_ASC then Inr len
      else Inl ASN1_R_UNKNOWN_FORMAT)"

text \<open>The string type and the output format for the mask that is left.\<close>

definition mb_type :: "u64 \<Rightarrow> int \<times> int" where
  "mb_type msk =
     (if msk AND B_ASN1_PRINTABLESTRING \<noteq> 0 then (V_ASN1_PRINTABLESTRING, MBSTRING_ASC)
      else if msk AND B_ASN1_IA5STRING \<noteq> 0 then (V_ASN1_IA5STRING, MBSTRING_ASC)
      else if msk AND B_ASN1_T61STRING \<noteq> 0 then (V_ASN1_T61STRING, MBSTRING_ASC)
      else if msk AND B_ASN1_BMPSTRING \<noteq> 0 then (V_ASN1_BMPSTRING, MBSTRING_BMP)
      else if msk AND B_ASN1_UNIVERSALSTRING \<noteq> 0 then (V_ASN1_UNIVERSALSTRING, MBSTRING_UNIV)
      else (V_ASN1_UTF8STRING, MBSTRING_UTF8))"

text \<open>The output length and the copying function of the second \<open>switch\<close>.\<close>

definition mb_output :: "int \<Rightarrow> u8 list \<Rightarrow> int \<Rightarrow> int \<Rightarrow> int \<times> (u64 \<Rightarrow> out_cursor \<Rightarrow> int \<times> out_cursor)" where
  "mb_output outform p inform nchar =
     (if outform = MBSTRING_ASC then (nchar, cpy_asc)
      else if outform = MBSTRING_BMP then (nchar * 2, cpy_bmp)
      else if outform = MBSTRING_UNIV then (nchar * 4, cpy_univ)
      else (snd (traverse_string p inform (Some out_utf8) 0), cpy_utf8))"

text \<open>The part after the type is known: the string object and its contents.\<close>

definition mb_store :: "malloc_fn \<Rightarrow> bool \<Rightarrow> str_out \<Rightarrow> u8 list \<Rightarrow> int \<Rightarrow> int \<Rightarrow> int \<Rightarrow> int \<Rightarrow> int \<Rightarrow>
    (mbstr_err + int) \<times> str_out" where
  "mb_store malloc alloc_str out inp len inform nchar str_type outform =
     (if out = Out_none then (Inr str_type, out)
      else
        let p = take (nat len) inp;
            free_out = (case out of Out_str _ \<Rightarrow> False | _ \<Rightarrow> True);
            dest = (case out of
                      Out_str dest \<Rightarrow>
                        Some ((if as_data dest \<noteq> None then dest\<lparr>as_length := 0, as_data := None\<rparr> else dest)
                              \<lparr>as_type := str_type\<rparr>)
                    | _ \<Rightarrow> ASN1_STRING_type_new alloc_str str_type)
        in case dest of
          None \<Rightarrow> (Inl MBSTR_MALLOC_FAILURE, out)
        | Some dest \<Rightarrow>
            if inform = outform then
              (case ASN1_STRING_set malloc dest (Some inp) len of
                 (ok, dest) \<Rightarrow> (if ok then Inr str_type else Inl MBSTR_MALLOC_FAILURE, Out_str dest))
            else
              case mb_output outform p inform nchar of
                (outlen, cpyfunc) \<Rightarrow>
                  (case malloc (word_of_int (outlen + 1)) of
                     None \<Rightarrow> (Inl MBSTR_MALLOC_FAILURE, if free_out then Out_freed else Out_str dest)
                   | Some block \<Rightarrow>
                       (let block = block[nat outlen := 0];
                            q = snd (traverse_string p inform (Some cpyfunc) ([], block))
                        in (Inr str_type,
                            Out_str (dest\<lparr>as_length := outlen, as_data := Some (fst q @ snd q)\<rparr>)))))"

text \<open>The whole conversion. None is what C leaves undefined: a length below \<open>-1\<close>, unless an early return
  comes first, makes the walk run past the string (in the UTF-8 form it never ends), and a string \<open>*out\<close> that has been
  freed is read. A length of \<open>-1\<close> asks for \<open>strlen\<close>.\<close>

definition ASN1_mbstring_ncopy :: "malloc_fn \<Rightarrow> bool \<Rightarrow> str_out \<Rightarrow> u8 list \<Rightarrow> int \<Rightarrow> int \<Rightarrow> u64 \<Rightarrow> int \<Rightarrow> int \<Rightarrow>
    ((mbstr_err + int) \<times> str_out) option" where
  "ASN1_mbstring_ncopy malloc alloc_str out inp len inform msk minsize maxsize =
     (let len = (if len = -1 then int (strlen inp) else len);
          msk = (if msk = 0 then DIRSTRING_TYPE else msk);
          p = take (nat len) inp
      in
      if len < 0 \<and> inform = MBSTRING_UTF8 then None
      else case mb_count inform p len of
        Inl e \<Rightarrow> Some (Inl e, out)
      | Inr nchar \<Rightarrow>
          if 0 < minsize \<and> nchar < minsize then Some (Inl ASN1_R_STRING_TOO_SHORT, out)
          else if 0 < maxsize \<and> maxsize < nchar then Some (Inl ASN1_R_STRING_TOO_LONG, out)
          else if len < 0 then None
          else
            case traverse_string p inform (Some type_str) msk of
              (ret, msk) \<Rightarrow>
                if ret < 0 then Some (Inl ASN1_R_ILLEGAL_CHARACTERS, out)
                else
                  case mb_type msk of
                    (str_type, outform) \<Rightarrow>
                      if out = Out_freed then None
                      else Some (mb_store malloc alloc_str out inp len inform nchar str_type outform))"

definition ASN1_mbstring_copy :: "malloc_fn \<Rightarrow> bool \<Rightarrow> str_out \<Rightarrow> u8 list \<Rightarrow> int \<Rightarrow> int \<Rightarrow> u64 \<Rightarrow>
    ((mbstr_err + int) \<times> str_out) option" where
  "ASN1_mbstring_copy malloc alloc_str out inp len inform msk =
     ASN1_mbstring_ncopy malloc alloc_str out inp len inform msk 0 0"

end
