(* ===== verification/Asn1_Mbstr_Spec.thy ===== *)
theory Asn1_Mbstr_Spec
  imports Asn1_Mbstr
begin

text \<open>
  Character strings as lists of code points: \<open>mb_enc form cs\<close> is the string with the characters
  \<open>cs\<close> in one of the four forms. The conversion keeps the code points and picks the first permitted
  type that can hold them.
\<close>

section \<open>Encodings\<close>

definition char_bytes :: "int \<Rightarrow> nat \<Rightarrow> u8 list" where
  "char_bytes form c =
     (if form = MBSTRING_ASC then [word_of_nat c]
      else if form = MBSTRING_BMP then be_bytes 2 c
      else if form = MBSTRING_UNIV then be_bytes 4 c
      else utf8_bytes c)"

definition char_limit :: "int \<Rightarrow> nat" where
  "char_limit form =
     (if form = MBSTRING_ASC then 2 ^ 8 else if form = MBSTRING_BMP then 2 ^ 16
      else if form = MBSTRING_UNIV then 2 ^ 32 else 2 ^ 31)"

definition mb_enc :: "int \<Rightarrow> nat list \<Rightarrow> u8 list" where
  "mb_enc form cs = concat (map (char_bytes form) cs)"

definition form_ok :: "int \<Rightarrow> bool" where
  "form_ok form \<longleftrightarrow> form \<in> {MBSTRING_ASC, MBSTRING_BMP, MBSTRING_UNIV, MBSTRING_UTF8}"

lemma mb_enc_simps [simp]:
  "mb_enc form [] = []" "mb_enc form (c # cs) = char_bytes form c @ mb_enc form cs"
  by (simp_all add: mb_enc_def)

lemma be_bytes_2: "be_bytes 2 c = [word_of_nat (c div 256 mod 256), word_of_nat (c mod 256)]"
  and be_bytes_4: "be_bytes 4 c = [word_of_nat (c div 256 div 256 div 256 mod 256), word_of_nat (c div 256 div 256 mod 256),
    word_of_nat (c div 256 mod 256), word_of_nat (c mod 256)]"
proof -
  have two: "2 = Suc (Suc 0)" and four: "4 = Suc (Suc (Suc (Suc 0)))" by simp_all
  show "be_bytes 2 c = [word_of_nat (c div 256 mod 256), word_of_nat (c mod 256)]"
    unfolding two by simp
  show "be_bytes 4 c = [word_of_nat (c div 256 div 256 div 256 mod 256), word_of_nat (c div 256 div 256 mod 256),
      word_of_nat (c div 256 mod 256), word_of_nat (c mod 256)]"
    unfolding four by simp
qed

lemma char_bytes_nonempty [simp]: "char_bytes form c \<noteq> []"
  by (auto simp: char_bytes_def utf8_bytes_def be_bytes_2 be_bytes_4 Let_def)

lemma word_of_unat: "unat (w :: 'a::len word) = n \<Longrightarrow> w = word_of_nat n"
  by (erule subst) simp

lemma unat_push_ucast:
  "k \<le> 48 \<Longrightarrow> unat (push_bit k (ucast (a :: u8)) :: u64) = unat a * 2 ^ k"
proof -
  assume "k \<le> 48"
  then have "(2 :: nat) ^ k \<le> 2 ^ 48" by (intro power_increasing) simp_all
  then have "unat a * 2 ^ k \<le> 255 * 2 ^ 48" using unat_u8_lt [of a] by (intro mult_mono) linarith+
  then show ?thesis by (simp only: unat_push_bit_mod unat_ucast_u8_size) simp
qed

lemma or_byte:
  assumes "2 ^ (k + 8) dvd unat (x :: u64)" and "k \<le> 48"
  shows "unat (x OR push_bit k (ucast (b :: u8))) = unat x + unat b * 2 ^ k"
proof -
  have "unat b * 2 ^ k < 256 * 2 ^ k" by (intro mult_strict_right_mono) simp_all
  then show ?thesis
    using assms unat_push_ucast [OF assms(2), of b]
    by (subst unat_or_disjoint [of _ "k + 8"]) (simp_all add: power_add mod_eq_0_iff_dvd)
qed

lemma or_last_byte: "2 ^ 8 dvd unat (x :: u64) \<Longrightarrow> unat (x OR ucast (b :: u8)) = unat x + unat b"
  using or_byte [of 0 x b] by simp

lemma unat_be2: "unat (push_bit 8 (ucast (a :: u8)) OR ucast (b :: u8) :: u64) = unat a * 2 ^ 8 + unat b"
  and unat_be4: "unat (((push_bit 24 (ucast a) OR push_bit 16 (ucast b)) OR push_bit 8 (ucast (c :: u8))) OR ucast (d :: u8) :: u64) =
    unat a * 2 ^ 24 + unat b * 2 ^ 16 + unat c * 2 ^ 8 + unat d"
proof -
  have "unat (push_bit 8 (ucast a) :: u64) = unat a * 2 ^ 8" "unat (push_bit 24 (ucast a) :: u64) = unat a * 2 ^ 24"
    by (rule unat_push_ucast, simp)+
  note g = this or_last_byte or_byte dvd_add dvd_mult le_imp_power_dvd add_num_simps arith_simps rel_simps simp_thms
  show "unat (push_bit 8 (ucast a) OR ucast b :: u64) = unat a * 2 ^ 8 + unat b"
    "unat (((push_bit 24 (ucast a) OR push_bit 16 (ucast b)) OR push_bit 8 (ucast c)) OR ucast d :: u64) =
    unat a * 2 ^ 24 + unat b * 2 ^ 16 + unat c * 2 ^ 8 + unat d"
    by (simp_all only: g)
qed

lemma be2_word: "push_bit 8 (ucast a) OR ucast b = (word_of_nat (be_val [a, b]) :: u64)"
  and be4_word: "((push_bit 24 (ucast a) OR push_bit 16 (ucast b)) OR push_bit 8 (ucast c)) OR ucast d = (word_of_nat (be_val [a, b, c, d]) :: u64)"
  by (rule word_of_unat, simp only: unat_be2 unat_be4, simp)+

lemma be_bytes_back: "be_bytes 2 (be_val [a, b]) = [a, b]" "be_bytes 4 (be_val [a, b, c, d]) = [a, b, c, d]"
proof -
  have "length [a, b] = 2" "length [a, b, c, d] = 4" by simp_all
  then show "be_bytes 2 (be_val [a, b]) = [a, b]" "be_bytes 4 (be_val [a, b, c, d]) = [a, b, c, d]"
    by (metis be_bytes_be_val)+
qed

text \<open>One step of the walk reads one character.\<close>

lemma next_char_enc:
  assumes f: "form_ok form" and c: "c < char_limit form"
  shows "next_char form (char_bytes form c @ rest) = Some (word_of_nat c, rest)"
proof -
  consider "form = MBSTRING_ASC" | "form = MBSTRING_BMP" | "form = MBSTRING_UNIV" | "form = MBSTRING_UTF8"
    using f by (auto simp: form_ok_def)
  then show ?thesis
  proof cases
    case 1
    then have "unat (ucast (word_of_nat c :: u8) :: u64) = unat (word_of_nat c :: u64)"
      using c by (simp only: unat_ucast_u8_size) (simp add: char_limit_def unat_of_nat)
    then have "(ucast (word_of_nat c :: u8) :: u64) = word_of_nat c" by (rule word_eq_unatI)
    then show ?thesis using 1 by (simp add: next_char_def char_bytes_def)
  next
    case 2
    obtain a b where ab: "be_bytes 2 c = [a, b]" by (simp add: be_bytes_2)
    then have "be_val [a, b] = c" using be_val_be_bytes [of 2 c] c 2 by (simp add: char_limit_def)
    then show ?thesis using 2 ab by (simp add: next_char_def char_bytes_def be2_word del: be_val.simps)
  next
    case 3
    obtain x y z w where xs: "be_bytes 4 c = [x, y, z, w]" by (simp add: be_bytes_4)
    then have "be_val [x, y, z, w] = c" using be_val_be_bytes [of 4 c] c 3 by (simp add: char_limit_def)
    then show ?thesis using 3 xs by (simp add: next_char_def char_bytes_def be4_word del: be_val.simps)
  next
    case 4
    have u: "unat (word_of_nat c :: u64) = c" using c 4 by (simp add: char_limit_def unat_of_nat)
    have "UTF8_getc (utf8_bytes c @ rest) (int (length (utf8_bytes c @ rest))) = (int (utf8_len c), Some (word_of_nat c))"
      using utf8_getc_iff [THEN conjunct1, of "int (length (utf8_bytes c @ rest))" "utf8_bytes c @ rest" "int (utf8_len c)" "word_of_nat c"]
        c 4 u by (simp add: char_limit_def utf8_len_def)
    then show ?thesis using 4 by (simp add: next_char_def char_bytes_def)
  qed
qed


text \<open>The lengths the string check lets through.\<close>

definition whole :: "int \<Rightarrow> u8 list \<Rightarrow> bool" where
  "whole form p \<longleftrightarrow> (form = MBSTRING_BMP \<longrightarrow> length p mod 2 = 0) \<and> (form = MBSTRING_UNIV \<longrightarrow> length p mod 4 = 0)"

lemma next_char_dec:
  assumes f: "form_ok form" and p: "p \<noteq> []" and w: "whole form p" and n: "next_char form p = Some (v, rest)"
  shows "\<exists>c<char_limit form. v = word_of_nat c \<and> p = char_bytes form c @ rest"
proof -
  consider "form = MBSTRING_ASC" | "form = MBSTRING_BMP" | "form = MBSTRING_UNIV" | "form = MBSTRING_UTF8"
    using f by (auto simp: form_ok_def)
  then show ?thesis
  proof cases
    case 1
    then obtain a where a: "p = a # rest" "v = ucast a" using n p by (cases p) (auto simp: next_char_def)
    have "v = word_of_nat (unat a)" unfolding a by (rule word_of_unat [OF unat_ucast_u8_size])
    then show ?thesis using 1 a by (intro exI [of _ "unat a"]) (simp add: char_bytes_def char_limit_def)
  next
    case 2
    then have "2 \<le> length p" using p w dvd_imp_le [of 2 "length p"] by (simp add: whole_def mod_eq_0_iff_dvd)
    then obtain a b r where ab: "p = a # b # r" by (metis Suc_le_length_iff numeral_2_eq_2)
    then have r: "rest = r" and v: "v = word_of_nat (be_val [a, b])"
      using n 2 by (simp_all add: next_char_def be2_word del: be_val.simps)
    then show ?thesis using 2 ab be_bytes_back(1) [of a b] be_val_less [of "[a, b]"]
      by (intro exI [of _ "be_val [a, b]"]) (simp add: char_bytes_def char_limit_def del: be_val.simps)
  next
    case 3
    then have "4 \<le> length p" using p w dvd_imp_le [of 4 "length p"] by (simp add: whole_def mod_eq_0_iff_dvd)
    then obtain x y z t r where xs: "p = x # y # z # t # r" by (auto simp: Suc_le_length_iff numeral_eq_Suc)
    then have r: "rest = r" and v: "v = word_of_nat (be_val [x, y, z, t])"
      using n 3 by (simp_all add: next_char_def be4_word del: be_val.simps)
    then show ?thesis using 3 xs be_bytes_back(2) [of x y z t] be_val_less [of "[x, y, z, t]"]
      by (intro exI [of _ "be_val [x, y, z, t]"]) (simp add: char_bytes_def char_limit_def del: be_val.simps)
  next
    case 4
    then obtain k where g: "UTF8_getc p (int (length p)) = (k, Some v)" and r: "rest = drop (nat k) p"
      using n p utf8_getc_iff [THEN conjunct2, of "int (length p)" p]
      by (auto simp: next_char_def split: prod.splits if_splits)
    have "unat v < 2 ^ 31 \<and> k = int (utf8_len (unat v)) \<and> take (utf8_len (unat v)) p = utf8_bytes (unat v)"
      using utf8_getc_iff [THEN conjunct1, THEN iffD1, OF _ _ g] p by auto
    then show ?thesis using 4 r append_take_drop_id [of "utf8_len (unat v)" p]
      by (intro exI [of _ "unat v"]) (auto simp: char_bytes_def char_limit_def)
  qed
qed


lemma whole_step:
  assumes "whole form (char_bytes form c @ rest)"
  shows "whole form rest"
  using assms by (auto simp: whole_def char_bytes_def split: if_splits)

section \<open>The walk\<close>

text \<open>A callback on the characters one after the other, until it returns a value that is not positive.\<close>

fun visit :: "(u64 \<Rightarrow> 's \<Rightarrow> int \<times> 's) \<Rightarrow> nat list \<Rightarrow> 's \<Rightarrow> int \<times> 's" where
  "visit f [] arg = (1, arg)"
| "visit f (c # cs) arg = (case f (word_of_nat c) arg of (ret, arg') \<Rightarrow> if ret \<le> 0 then (ret, arg') else visit f cs arg')"

lemma traverse_enc:
  assumes "form_ok form" and "\<forall>c\<in>set cs. c < char_limit form"
  shows "traverse_string (mb_enc form cs) form (Some f) arg = visit f cs arg"
  using assms(2)
proof (induction cs arbitrary: arg)
  case Nil
  then show ?case by (simp add: traverse_string.simps)
next
  case (Cons c cs)
  then show ?case
    using next_char_enc [OF assms(1), of c "mb_enc form cs"]
    by (subst traverse_string.simps) (auto split: prod.splits)
qed

text \<open>A string of whole characters is an encoding, unless the walk stops with an error.\<close>

lemma traverse_decodes:
  assumes "form_ok form" and "whole form p" and "\<And>v a. fst (f v a) = 1"
  shows "(\<exists>cs. p = mb_enc form cs \<and> (\<forall>c\<in>set cs. c < char_limit form)) \<or>
    form = MBSTRING_UTF8 \<and> fst (traverse_string p form (Some f) arg) < 0"
  using assms(2)
proof (induction "length p" arbitrary: p arg rule: less_induct)
  case less
  show ?case
  proof (cases "p = []")
    case True
    then show ?thesis by (intro disjI1 exI [of _ "[]"]) simp
  next
    case p: False
    show ?thesis
    proof (cases "next_char form p")
      case None
      then have "form = MBSTRING_UTF8" using assms(1) by (auto simp: next_char_def form_ok_def split: if_splits)
      with None p show ?thesis by (subst traverse_string.simps) simp
    next
      case (Some vr)
      obtain v rest where vr: "next_char form p = Some (v, rest)" using Some by (cases vr) auto
      from next_char_dec [OF assms(1) p less.prems this] obtain c where
        c: "c < char_limit form" "p = char_bytes form c @ rest" by blast
      have "fst (traverse_string p form (Some f) arg) = fst (traverse_string rest form (Some f) (snd (f v arg)))"
        using p vr assms(3) [of v arg] by (subst traverse_string.simps) (auto split: prod.splits)
      moreover have "length rest < length p" by (rule next_char_shorter [OF p vr])
      moreover have "whole form rest" using whole_step less.prems c(2) by blast
      ultimately show ?thesis
        using less.hyps [of rest "snd (f v arg)"] c mb_enc_simps(2) [of form c] by (metis insert_iff list.set(2))
    qed
  qed
qed


lemma visit_in_utf8: "visit in_utf8 cs n = (1, n + int (length cs))"
  by (induction cs arbitrary: n) (simp_all add: in_utf8_def)

lemma small_word: "c < 2 ^ 32 \<Longrightarrow> unat (word_of_nat c :: u64) = c"
  by (simp add: unat_of_nat)

lemma visit_out_utf8:
  "\<forall>c\<in>set cs. c < 2 ^ 31 \<Longrightarrow> visit out_utf8 cs n = (1, n + int (length (mb_enc MBSTRING_UTF8 cs)))"
proof (induction cs arbitrary: n)
  case (Cons c cs)
  then have "UTF8_putc None (-1) (word_of_nat c) = (int (utf8_len c), None)"
    using UTF8_putc_eq [of "word_of_nat c" None "-1"] small_word [of c] by (simp add: put_at_def)
  with Cons show ?case by (simp add: out_utf8_def char_bytes_def)
qed simp

lemma put_bytes_simps: "put_bytes [] q = q" "put_bytes ys (put_bytes xs q) = put_bytes (xs @ ys) q"
  by (simp_all add: put_bytes_def add.commute)

lemma visit_put:
  assumes "\<forall>c\<in>set cs. \<forall>q. f (word_of_nat c) q = (1, put_bytes (char_bytes form c) q)"
  shows "visit f cs q = (1, put_bytes (mb_enc form cs) q)"
  using assms by (induction cs arbitrary: q) (simp_all add: put_bytes_simps del: split_paired_All)

lemma byte_of: "c < 2 ^ 32 \<Longrightarrow> (ucast (drop_bit k (word_of_nat c :: u64) AND 0xff) :: u8) = word_of_nat (c div 2 ^ k mod 256)"
  and byte_of_0: "c < 2 ^ 32 \<Longrightarrow> (ucast (word_of_nat c AND 0xff :: u64) :: u8) = word_of_nat (c mod 256)"
proof -
  have b: "(ucast (drop_bit k (word_of_nat c :: u64) AND 0xff) :: u8) = word_of_nat (c div 2 ^ k mod 256)" if "c < 2 ^ 32" for k
    by (rule word_eq_unatI) (simp only: and_FF_take_bit unat_ucast_mod unat_take_bit_mod unat_drop_bit_div small_word [OF that], simp)
  then show "c < 2 ^ 32 \<Longrightarrow> (ucast (drop_bit k (word_of_nat c :: u64) AND 0xff) :: u8) = word_of_nat (c div 2 ^ k mod 256)" .
  show "c < 2 ^ 32 \<Longrightarrow> (ucast (word_of_nat c AND 0xff :: u64) :: u8) = word_of_nat (c mod 256)"
    using b [of 0] by simp
qed

lemma cpy_ok:
  "c < 2 ^ 8 \<Longrightarrow> cpy_asc (word_of_nat c) q = (1, put_bytes (char_bytes MBSTRING_ASC c) q)"
  "c < 2 ^ 32 \<Longrightarrow> cpy_bmp (word_of_nat c) q = (1, put_bytes (char_bytes MBSTRING_BMP c) q)"
  "c < 2 ^ 32 \<Longrightarrow> cpy_univ (word_of_nat c) q = (1, put_bytes (char_bytes MBSTRING_UNIV c) q)"
  "c < 2 ^ 31 \<Longrightarrow> cpy_utf8 (word_of_nat c) q = (1, put_bytes (char_bytes MBSTRING_UTF8 c) q)"
proof -
  show "cpy_asc (word_of_nat c) q = (1, put_bytes (char_bytes MBSTRING_ASC c) q)" if "c < 2 ^ 8"
  proof -
    have "(ucast (word_of_nat c :: u64) :: u8) = word_of_nat c"
      using that by (intro word_eq_unatI) (simp add: unat_ucast_mod unat_of_nat)
    then show ?thesis by (simp add: cpy_asc_def char_bytes_def)
  qed
  show "c < 2 ^ 32 \<Longrightarrow> cpy_bmp (word_of_nat c) q = (1, put_bytes (char_bytes MBSTRING_BMP c) q)"
    using byte_of [of c 8] byte_of_0 [of c] by (simp add: cpy_bmp_def char_bytes_def be_bytes_2)
  show "c < 2 ^ 32 \<Longrightarrow> cpy_univ (word_of_nat c) q = (1, put_bytes (char_bytes MBSTRING_UNIV c) q)"
    using byte_of [of c 8] byte_of [of c 16] byte_of [of c 24] byte_of_0 [of c]
    by (simp add: cpy_univ_def char_bytes_def be_bytes_4 div_mult2_eq [symmetric])
  show "cpy_utf8 (word_of_nat c) q = (1, put_bytes (char_bytes MBSTRING_UTF8 c) q)" if "c < 2 ^ 31"
  proof -
    have "utf8_len c \<le> 6" by (simp add: utf8_len_def)
    then show ?thesis
      using UTF8_putc_eq [of "word_of_nat c" "Some (snd q)" "0xff"] small_word [of c] that
      by (simp add: cpy_utf8_def char_bytes_def put_at_def put_bytes_def)
  qed
qed

section \<open>The types\<close>

text \<open>Which characters a type bit allows: PrintableString, IA5String, T61String and BMPString restrict
  them. NUL is in the PrintableString set of the code.\<close>

definition printable_char :: "nat \<Rightarrow> bool" where
  "printable_char c \<longleftrightarrow> c \<in> {0, 32, 39, 40, 41, 43, 44, 45, 46, 47, 58, 61, 63} \<or>
     48 \<le> c \<and> c \<le> 57 \<or> 65 \<le> c \<and> c \<le> 90 \<or> 97 \<le> c \<and> c \<le> 122"

definition fits :: "nat \<Rightarrow> nat \<Rightarrow> bool" where
  "fits n c \<longleftrightarrow> (n = 1 \<longrightarrow> printable_char c) \<and> (n = 4 \<longrightarrow> c < 2 ^ 7) \<and> (n = 2 \<longrightarrow> c < 2 ^ 8) \<and> (n = 11 \<longrightarrow> c < 2 ^ 16)"

lemma is_printable_iff: "c < 2 ^ 32 \<Longrightarrow> is_printable (word_of_nat c) = printable_char c"
proof -
  assume c: "c < 2 ^ 32"
  have u: "uint (word_of_nat c :: u64) = int c" using small_word [OF c] by (metis uint_nat)
  have "(0x7f :: u64) < word_of_nat c \<longleftrightarrow> 127 < c" using small_word [OF c] by (simp add: word_less_nat_alt)
  then show ?thesis unfolding is_printable_def printable_char_def Let_def u by auto
qed

lemma and_bit:
  "(w :: u64) AND 0x2 \<noteq> 0 \<longleftrightarrow> bit w 1" "w AND 0x4 \<noteq> 0 \<longleftrightarrow> bit w 2" "w AND 0x10 \<noteq> 0 \<longleftrightarrow> bit w 4"
  "w AND 0x100 \<noteq> 0 \<longleftrightarrow> bit w 8" "w AND 0x800 \<noteq> 0 \<longleftrightarrow> bit w 11"
proof -
  have e: "w AND 2 ^ n \<noteq> 0 \<longleftrightarrow> bit w n" for n by (simp add: and_exp_eq_0_iff_not_bit)
  from e [of 1] e [of 2] e [of 4] e [of 8] e [of 11]
  show "w AND 0x2 \<noteq> 0 \<longleftrightarrow> bit w 1" "w AND 0x4 \<noteq> 0 \<longleftrightarrow> bit w 2" "w AND 0x10 \<noteq> 0 \<longleftrightarrow> bit w 4"
    "w AND 0x100 \<noteq> 0 \<longleftrightarrow> bit w 8" "w AND 0x800 \<noteq> 0 \<longleftrightarrow> bit w 11" by simp_all
qed

lemma clear_bit:
  assumes "m = (2 :: u64) ^ k" and "k < 64"
  shows "bit (if w AND m \<noteq> 0 \<and> p then w AND NOT m else w) n \<longleftrightarrow> bit w n \<and> (n = k \<longrightarrow> \<not> p)"
proof -
  have "w AND m \<noteq> 0 \<longleftrightarrow> bit w k" using assms(1) by (simp add: and_exp_eq_0_iff_not_bit)
  then show ?thesis using assms by (auto simp: bit_simps dest: bit_imp_le_length)
qed

definition types_left :: "u64 \<Rightarrow> nat \<Rightarrow> u64" where
  "types_left types c = (case type_str (word_of_nat c) types of (ret, t) \<Rightarrow> if ret < 0 then 0 else t)"

lemma types_left_bit:
  assumes "c < 2 ^ 32"
  shows "bit (types_left types c) n \<longleftrightarrow> bit types n \<and> fits n c"
    and "type_str (word_of_nat c) types = (if types_left types c = 0 then (-1, types) else (1, types_left types c))"
proof -
  have p: "B_ASN1_PRINTABLESTRING = 2 ^ 1" "B_ASN1_IA5STRING = 2 ^ 4" "B_ASN1_T61STRING = 2 ^ 2" "B_ASN1_BMPSTRING = 2 ^ 11"
    by simp_all
  have l: "(127 :: u64) < word_of_nat c \<longleftrightarrow> \<not> c < 2 ^ 7" "(0xff :: u64) < word_of_nat c \<longleftrightarrow> \<not> c < 2 ^ 8"
    "(0xffff :: u64) < word_of_nat c \<longleftrightarrow> \<not> c < 2 ^ 16"
    using small_word [OF assms] by (auto simp: word_less_nat_alt)
  let ?c = "\<lambda>m p w. if w AND m \<noteq> 0 \<and> p then w AND NOT m else w :: u64"
  let ?t = "?c B_ASN1_BMPSTRING (\<not> c < 2 ^ 16) (?c B_ASN1_T61STRING (\<not> c < 2 ^ 8)
      (?c B_ASN1_IA5STRING (\<not> c < 2 ^ 7) (?c B_ASN1_PRINTABLESTRING (\<not> printable_char c) types)))"
  have t: "type_str (word_of_nat c) types = (if ?t = 0 then (-1, types) else (1, ?t))"
    unfolding type_str_def Let_def is_printable_iff [OF assms] l by (rule refl)
  then have tl: "types_left types c = ?t" by (simp add: types_left_def)
  show "type_str (word_of_nat c) types = (if types_left types c = 0 then (-1, types) else (1, types_left types c))"
    unfolding tl by (rule t)
  show "bit (types_left types c) n \<longleftrightarrow> bit types n \<and> fits n c"
    unfolding tl by (simp only: clear_bit [OF p(4)] clear_bit [OF p(3)] clear_bit [OF p(2)] clear_bit [OF p(1)])
      (auto simp: fits_def)
qed

lemma visit_type_str:
  assumes "\<forall>c\<in>set cs. c < 2 ^ 32"
  shows "types \<noteq> 0 \<Longrightarrow> (if foldl types_left types cs = 0 then fst (visit type_str cs types) < 0
      else visit type_str cs types = (1, foldl types_left types cs))"
  using assms
proof (induction cs arbitrary: types)
  case (Cons c cs)
  have zero: "foldl types_left 0 ds = 0" if "\<forall>c\<in>set ds. c < 2 ^ 32" for ds
    using that
  proof (induction ds)
    case (Cons d ds)
    then have "types_left 0 d = 0" using types_left_bit(1) [of d 0] by (intro bit_word_eqI) simp
    with Cons show ?case by simp
  qed simp
  from Cons.prems types_left_bit(2) [of c types] Cons.IH [of "types_left types c"] zero [of cs] show ?case
    by (cases "types_left types c = 0") auto
qed simp

lemma types_left_all:
  assumes "\<forall>c\<in>set cs. c < 2 ^ 32"
  shows "bit (foldl types_left types cs) n \<longleftrightarrow> bit types n \<and> (\<forall>c\<in>set cs. fits n c)"
  using assms by (induction cs arbitrary: types) (auto simp: types_left_bit(1))

text \<open>The type chosen: the first in the order of the comment in a_mbstr.c that is permitted and holds
  every character, with the form its contents have; UTF8String if there is none.\<close>

definition type_order :: "(nat \<times> int \<times> int) list" where
  "type_order = [(1, V_ASN1_PRINTABLESTRING, MBSTRING_ASC), (4, V_ASN1_IA5STRING, MBSTRING_ASC),
     (2, V_ASN1_T61STRING, MBSTRING_ASC), (11, V_ASN1_BMPSTRING, MBSTRING_BMP), (8, V_ASN1_UNIVERSALSTRING, MBSTRING_UNIV)]"

definition best_type :: "u64 \<Rightarrow> nat list \<Rightarrow> int \<times> int" where
  "best_type types cs =
     (case find (\<lambda>(n, _). bit types n \<and> list_all (fits n) cs) type_order of
        Some (_, r) \<Rightarrow> r
      | None \<Rightarrow> (V_ASN1_UTF8STRING, MBSTRING_UTF8))"

lemma mb_type_best:
  assumes "\<forall>c\<in>set cs. c < 2 ^ 32"
  shows "mb_type (foldl types_left types cs) = best_type types cs"
  unfolding mb_type_def and_bit types_left_all [OF assms] best_type_def type_order_def
  by (simp add: list_all_iff)


lemma best_type_fits:
  assumes "best_type types cs = (t, outform)"
  shows "form_ok outform" and "outform = MBSTRING_ASC \<Longrightarrow> \<forall>c\<in>set cs. c < 2 ^ 8"
    and "outform = MBSTRING_BMP \<Longrightarrow> \<forall>c\<in>set cs. c < 2 ^ 16"
proof -
  have "(t, outform) = (V_ASN1_UTF8STRING, MBSTRING_UTF8) \<or>
      (\<exists>n. (n, t, outform) \<in> set type_order \<and> list_all (fits n) cs)"
    using assms by (auto simp: best_type_def find_Some_iff split: option.splits) (metis nth_mem)+
  then consider "outform = MBSTRING_UTF8" | n where "(n, t, outform) \<in> set type_order" "list_all (fits n) cs" by blast
  then have "form_ok outform \<and> (outform = MBSTRING_ASC \<longrightarrow> (\<forall>c\<in>set cs. c < 2 ^ 8)) \<and>
      (outform = MBSTRING_BMP \<longrightarrow> (\<forall>c\<in>set cs. c < 2 ^ 16))"
  proof cases
    case 2
    have f: "fits n c \<Longrightarrow> n \<in> {1, 4, 2} \<Longrightarrow> c < 2 ^ 8" "fits 11 c \<Longrightarrow> c < 2 ^ 16" for c
      by (auto simp: fits_def printable_char_def)
    with 2 show ?thesis by (fastforce simp: type_order_def form_ok_def list_all_iff simp del: power_numeral)
  qed (simp add: form_ok_def)
  then show "form_ok outform" and "outform = MBSTRING_ASC \<Longrightarrow> \<forall>c\<in>set cs. c < 2 ^ 8"
    and "outform = MBSTRING_BMP \<Longrightarrow> \<forall>c\<in>set cs. c < 2 ^ 16" by blast+
qed

section \<open>The conversion\<close>

definition in_range :: "int \<Rightarrow> nat list \<Rightarrow> bool" where
  "in_range form cs \<longleftrightarrow> (\<forall>c\<in>set cs. c < char_limit form)"

lemma length_mb_enc:
  "length (mb_enc MBSTRING_ASC cs) = length cs" "length (mb_enc MBSTRING_BMP cs) = 2 * length cs"
  "length (mb_enc MBSTRING_UNIV cs) = 4 * length cs"
  by (induction cs) (simp_all add: char_bytes_def)

lemma mb_count_iff:
  "mb_count inform p (int (length p)) = Inr n \<longleftrightarrow>
     form_ok inform \<and> (\<exists>cs. in_range inform cs \<and> p = mb_enc inform cs \<and> n = int (length cs))"
proof
  assume c: "mb_count inform p (int (length p)) = Inr n"
  then have f: "form_ok inform" by (auto simp: mb_count_def form_ok_def split: if_splits)
  have "whole inform p" using c by (auto simp: mb_count_def whole_def split: if_splits) presburger+
  from traverse_decodes [OF f this, of in_utf8 "0 :: int"] c
  obtain cs where cs: "p = mb_enc inform cs" "\<forall>c\<in>set cs. c < char_limit inform"
    by (auto simp: in_utf8_def mb_count_def split: prod.splits if_splits)
  have "n = int (length cs)"
    using c f traverse_enc [OF f cs(2), of in_utf8 "0 :: int"] unfolding cs(1)
    by (auto simp: mb_count_def length_mb_enc visit_in_utf8 form_ok_def split: if_splits)
  with f cs show "form_ok inform \<and> (\<exists>cs. in_range inform cs \<and> p = mb_enc inform cs \<and> n = int (length cs))"
    unfolding in_range_def by blast
next
  assume r: "form_ok inform \<and> (\<exists>cs. in_range inform cs \<and> p = mb_enc inform cs \<and> n = int (length cs))"
  then obtain cs where f: "form_ok inform" and cs: "in_range inform cs" "p = mb_enc inform cs" "n = int (length cs)" by blast
  then show "mb_count inform p (int (length p)) = Inr n"
    using traverse_enc [OF f, of cs in_utf8 "0 :: int"]
    by (auto simp: mb_count_def length_mb_enc visit_in_utf8 form_ok_def in_range_def)
qed

lemma range_32: "in_range form cs \<Longrightarrow> \<forall>c\<in>set cs. c < 2 ^ 32"
  by (auto simp: in_range_def char_limit_def split: if_splits)

lemma mb_output_ok:
  assumes f: "form_ok inform" and r: "in_range inform cs" "outform = MBSTRING_UTF8 \<Longrightarrow> \<forall>c\<in>set cs. c < 2 ^ 31"
    and best: "best_type types cs = (t, outform)"
  obtains cpyfunc where "mb_output outform (mb_enc inform cs) inform (int (length cs)) = (int (length (mb_enc outform cs)), cpyfunc)"
    and "\<And>q. traverse_string (mb_enc inform cs) inform (Some cpyfunc) q = (1, put_bytes (mb_enc outform cs) q)"
proof -
  note fits = best_type_fits [OF best]
  have tr_out: "traverse_string (mb_enc inform cs) inform (Some out_utf8) 0 = (1, int (length (mb_enc MBSTRING_UTF8 cs)))"
    if "outform = MBSTRING_UTF8"
    using that traverse_enc [OF f, of cs out_utf8 0] r visit_out_utf8 [of cs 0] by (simp add: in_range_def)
  let ?f = "snd (mb_output outform (mb_enc inform cs) inform (int (length cs)))"
  have "traverse_string (mb_enc inform cs) inform (Some ?f) q = (1, put_bytes (mb_enc outform cs) q)" for q
  proof -
    have "visit ?f cs q = (1, put_bytes (mb_enc outform cs) q)"
    proof (rule visit_put, intro ballI allI)
      fix c q
      assume c: "c \<in> set cs"
      then have "outform = MBSTRING_UTF8 \<Longrightarrow> c < 2 ^ 31" "c < 2 ^ 32"
        using r(2) range_32 [OF r(1)] by blast+
      with c fits show "?f (word_of_nat c) q = (1, put_bytes (char_bytes outform c) q)"
        by (auto simp: mb_output_def form_ok_def cpy_ok)
    qed
    then show ?thesis using traverse_enc [OF f, of cs ?f q] r(1) by (simp add: in_range_def)
  qed
  moreover have "mb_output outform (mb_enc inform cs) inform (int (length cs)) = (int (length (mb_enc outform cs)), ?f)"
    using fits(1) by (auto simp: mb_output_def form_ok_def length_mb_enc tr_out)
  ultimately show ?thesis by (rule that [rotated])
qed


text \<open>The sizes that the limits allow, and the mask the code works with.\<close>

definition size_ok :: "int \<Rightarrow> int \<Rightarrow> nat list \<Rightarrow> bool" where
  "size_ok minsize maxsize cs \<longleftrightarrow>
     (0 < minsize \<longrightarrow> minsize \<le> int (length cs)) \<and> (0 < maxsize \<longrightarrow> int (length cs) \<le> maxsize)"

definition work_mask :: "u64 \<Rightarrow> u64" where
  "work_mask msk = (if msk = 0 then DIRSTRING_TYPE else msk)"

definition permitted :: "u64 \<Rightarrow> nat list \<Rightarrow> bool" where
  "permitted msk cs \<longleftrightarrow> (\<exists>n. bit (work_mask msk) n \<and> (\<forall>c\<in>set cs. fits n c))"

lemma work_mask_nonzero: "work_mask msk \<noteq> 0"
  by (simp add: work_mask_def DIRSTRING_TYPE_def)

lemma permitted_left:
  assumes "\<forall>c\<in>set cs. c < 2 ^ 32"
  shows "permitted msk cs \<longleftrightarrow> foldl types_left (work_mask msk) cs \<noteq> 0"
proof -
  have nz: "w \<noteq> 0 \<longleftrightarrow> (\<exists>n. bit w n)" for w :: u64 using bit_eqI [of w 0] by auto
  show ?thesis unfolding nz permitted_def types_left_all [OF assms] by (rule refl)
qed

lemma ncopy_valid:
  assumes len: "0 \<le> len" "len \<le> int (length inp)" and f: "form_ok inform"
    and cs: "take (nat len) inp = mb_enc inform cs" "in_range inform cs" "size_ok minsize maxsize cs" "permitted msk cs"
    and out: "out \<noteq> Out_freed"
  shows "ASN1_mbstring_ncopy malloc alloc_str out inp len inform msk minsize maxsize =
    (case best_type (work_mask msk) cs of
       (t, outform) \<Rightarrow> Some (mb_store malloc alloc_str out inp len inform (int (length cs)) t outform))"
proof -
  have l: "len = int (length (take (nat len) inp))" using len by simp
  have cnt: "mb_count inform (take (nat len) inp) len = Inr (int (length cs))"
    by (subst l) (use mb_count_iff [of inform "take (nat len) inp"] f cs in blast)
  have tr: "traverse_string (take (nat len) inp) inform (Some type_str) (work_mask msk) =
      (1, foldl types_left (work_mask msk) cs)"
    unfolding cs(1) using traverse_enc [OF f, of cs type_str "work_mask msk"] cs(2,4) permitted_left [OF range_32]
      visit_type_str [OF range_32 [OF cs(2)] work_mask_nonzero, of msk] by (simp add: in_range_def)
  have sz: "(0 < minsize \<and> int (length cs) < minsize) = False" "(0 < maxsize \<and> maxsize < int (length cs)) = False"
    using cs(3) by (auto simp: size_ok_def)
  have "(len = -1) = False" "(len < 0) = False" "(out = Out_freed) = False" using len out by simp_all
  then show ?thesis
    unfolding ASN1_mbstring_ncopy_def Let_def work_mask_def [symmetric]
    by (simp only: if_False simp_thms cnt tr sz sum.case prod.case not_one_less_zero mb_type_best [OF range_32 [OF cs(2)]])
qed

text \<open>The string with given characters in a given form.\<close>

definition holds_chars :: "asn1_string \<Rightarrow> int \<Rightarrow> nat list \<Rightarrow> bool" where
  "holds_chars s form cs \<longleftrightarrow> as_length s = int (length (mb_enc form cs)) \<and> as_data s = Some (mb_enc form cs @ [0])"

lemma length_char_bytes: "form_ok form \<Longrightarrow> length (char_bytes form c) \<le> 6"
  by (auto simp: form_ok_def char_bytes_def utf8_len_def)

lemma length_mb_enc_le: "form_ok form \<Longrightarrow> length (mb_enc form cs) \<le> 6 * length cs"
  by (induction cs) (auto dest: length_char_bytes [of form] intro: order_trans [OF add_mono])

lemma length_cs_le: "length cs \<le> length (mb_enc form cs)"
proof (induction cs)
  case (Cons c cs)
  then show ?case using char_bytes_nonempty [of form c] by (cases "char_bytes form c") auto
qed simp

lemma drop_one: "length b = n + 1 \<Longrightarrow> \<exists>x. drop n b = [x]"
  by (cases "drop n b") (auto dest: arg_cong [of _ _ length])

lemma mb_store_ok:
  assumes len: "len = int (length (mb_enc inform cs))" "len \<le> int (length inp)" "len < 2 ^ 28"
    and f: "form_ok inform" and m: "malloc_ok malloc" "\<And>n. malloc n \<noteq> None" "alloc_str"
    and cs: "take (nat len) inp = mb_enc inform cs" "in_range inform cs" "outform = MBSTRING_UTF8 \<Longrightarrow> \<forall>c\<in>set cs. c < 2 ^ 31"
    and best: "best_type types cs = (t, outform)" and out: "out \<noteq> Out_none"
  shows "\<exists>s. mb_store malloc alloc_str out inp len inform (int (length cs)) t outform = (Inr t, Out_str s) \<and>
    as_type s = t \<and> holds_chars s outform cs"
proof -
  define dest where "dest = (case out of
        Out_str dest \<Rightarrow> (if as_data dest \<noteq> None then dest\<lparr>as_length := 0, as_data := None\<rparr> else dest)\<lparr>as_type := t\<rparr>
      | _ \<Rightarrow> \<lparr>as_length = 0, as_type = t, as_data = None, as_flags = 0\<rparr>)"
  have d: "as_data dest = None" "as_type dest = t" by (auto simp: dest_def split: str_out.splits)
  have dest: "(case out of
        Out_str dest \<Rightarrow> Some ((if as_data dest \<noteq> None then dest\<lparr>as_length := 0, as_data := None\<rparr> else dest)\<lparr>as_type := t\<rparr>)
      | _ \<Rightarrow> ASN1_STRING_type_new alloc_str t) = Some dest"
    using m(3) by (auto simp: dest_def ASN1_STRING_type_new_def split: str_out.splits)
  have block: "\<exists>b. malloc (word_of_int (int n + 1)) = Some b \<and> length b = n + 1" if n: "int n < 2 ^ 31" for n
  proof -
    obtain b where b: "malloc (word_of_int (int n + 1)) = Some b" using m(2) by blast
    have "unat (word_of_int (int n + 1) :: size_t) = n + 1"
    proof -
      have "(word_of_int (int n + 1) :: size_t) = word_of_nat (n + 1)" by (metis of_int_of_nat_eq of_nat_1 of_nat_add)
      then show ?thesis using n by (simp only: unat_of_nat) simp
    qed
    then show ?thesis using b m(1) by (auto simp: malloc_ok_def)
  qed
  show ?thesis
  proof (cases "inform = outform")
    case True
    obtain b where b: "malloc (word_of_int (len + 1)) = Some b" "length b = nat len + 1"
      using block [of "nat len"] len by auto
    obtain x where x: "drop (nat len) b = [x]" using drop_one [OF b(2)] by blast
    have "length (mb_enc inform cs) = nat len" using len(1) by simp
    then have data: "(take (nat len) inp @ drop (nat len) b)[nat len := 0] = mb_enc inform cs @ [0]"
      unfolding cs(1) x by (simp add: list_update_append)
    have "ASN1_STRING_set malloc dest (Some inp) len = (True, dest\<lparr>as_length := len, as_data := Some (mb_enc inform cs @ [0])\<rparr>)"
      using d(1) len(1) b(1) data by (simp add: ASN1_STRING_set_def)
    then have "mb_store malloc alloc_str out inp len inform (int (length cs)) t outform =
        (Inr t, Out_str (dest\<lparr>as_length := len, as_data := Some (mb_enc inform cs @ [0])\<rparr>))"
      unfolding mb_store_def dest Let_def using out True by simp
    then show ?thesis using d True len(1) by (simp add: holds_chars_def)
  next
    case False
    obtain cpyfunc where o: "mb_output outform (mb_enc inform cs) inform (int (length cs)) = (int (length (mb_enc outform cs)), cpyfunc)"
      and tr: "\<And>q. traverse_string (mb_enc inform cs) inform (Some cpyfunc) q = (1, put_bytes (mb_enc outform cs) q)"
      using mb_output_ok [OF f cs(2,3) best] by blast
    let ?n = "length (mb_enc outform cs)"
    have "int ?n \<le> 6 * len"
      using len(1) length_mb_enc_le [OF best_type_fits(1) [OF best], of cs] length_cs_le [of cs inform] by linarith
    then have "int ?n < 2 ^ 31" using len(3) by simp
    then obtain b where b: "malloc (word_of_int (int ?n + 1)) = Some b" "length b = ?n + 1" using block by blast
    then obtain x where "drop ?n b = [x]" using drop_one [of b ?n] by blast
    then have "drop ?n (b[?n := 0]) = [0]" by (simp add: drop_update_swap)
    then have q: "put_bytes (mb_enc outform cs) ([], b[?n := 0]) = (mb_enc outform cs, [0])"
      by (simp add: put_bytes_def)
    have "mb_store malloc alloc_str out inp len inform (int (length cs)) t outform =
        (Inr t, Out_str (dest\<lparr>as_length := int ?n, as_data := Some (mb_enc outform cs @ [0])\<rparr>))"
      unfolding mb_store_def dest Let_def cs(1) o using out False b(1) by (simp add: tr q)
    then show ?thesis using d by (simp add: holds_chars_def)
  qed
qed


lemma ncopy_rejects:
  assumes len: "0 \<le> len" "len \<le> int (length inp)"
    and no: "\<not> (form_ok inform \<and> (\<exists>cs. take (nat len) inp = mb_enc inform cs \<and> in_range inform cs \<and>
      size_ok minsize maxsize cs \<and> permitted msk cs))"
  shows "\<exists>e. ASN1_mbstring_ncopy malloc alloc_str out inp len inform msk minsize maxsize = Some (Inl e, out)"
proof -
  let ?p = "take (nat len) inp"
  have l: "len = int (length ?p)" and l1: "(len = -1) = False" "(len < 0) = False" using len by auto
  show ?thesis
  proof (cases "mb_count inform ?p len")
    case (Inl e)
    then show ?thesis unfolding ASN1_mbstring_ncopy_def Let_def by (simp add: l1)
  next
    case (Inr n)
    then obtain cs where f: "form_ok inform" and cs: "in_range inform cs" "?p = mb_enc inform cs" "n = int (length cs)"
      using mb_count_iff [of inform ?p n] l by auto
    have "\<not> (size_ok minsize maxsize cs \<and> permitted msk cs)" using no f cs by blast
    then consider "0 < minsize \<and> n < minsize" | "0 < maxsize \<and> maxsize < n" | "\<not> permitted msk cs" "size_ok minsize maxsize cs"
      unfolding size_ok_def cs(3) by linarith
    then show ?thesis
    proof cases
      case 3
      then have "foldl types_left (work_mask msk) cs = 0" using permitted_left [OF range_32 [OF cs(1)]] by blast
      then have "fst (traverse_string ?p inform (Some type_str) (work_mask msk)) < 0"
        unfolding cs(2) using traverse_enc [OF f, of cs type_str "work_mask msk"] cs(1)
          visit_type_str [OF range_32 [OF cs(1)] work_mask_nonzero, of msk] by (simp add: in_range_def)
      with Inr 3 show ?thesis unfolding ASN1_mbstring_ncopy_def Let_def work_mask_def [symmetric]
        by (auto simp: l1 split: prod.splits)
    qed (use Inr in \<open>simp_all add: ASN1_mbstring_ncopy_def Let_def l1\<close>)
  qed
qed

lemma mb_store_accepts:
  assumes "\<And>n. malloc n \<noteq> None"
  shows "\<exists>out'. mb_store malloc True out inp len inform nchar t outform = (Inr t, out')"
proof -
  obtain dest where dest: "(case out of
        Out_str dest \<Rightarrow> Some ((if as_data dest \<noteq> None then dest\<lparr>as_length := 0, as_data := None\<rparr> else dest)\<lparr>as_type := t\<rparr>)
      | _ \<Rightarrow> ASN1_STRING_type_new True t) = Some dest" "as_data dest = None"
    by (cases out) (auto simp: ASN1_STRING_type_new_def)
  have m: "malloc n = Some (the (malloc n))" for n using assms [of n] by simp
  have set': "fst (ASN1_STRING_set malloc dest (Some inp) len)"
    unfolding ASN1_STRING_set_def Let_def dest(2) by (subst m) simp
  obtain outlen cpyfunc where o: "mb_output outform (take (nat len) inp) inform nchar = (outlen, cpyfunc)" by fastforce
  obtain c where "malloc (word_of_int (outlen + 1)) = Some c" using assms by blast
  then show ?thesis using set' unfolding mb_store_def Let_def dest(1) o by (auto split: prod.splits)
qed

section \<open>The documented types\<close>

text \<open>The six string types of the comment in a_mbstr.c, with their bit in a mask, their tag, the form of their
  contents and the characters they can hold: the character sets of the ASN.1 standard, with a T61String holding the
  256 characters of one byte and a UTF8String what the UTF-8 coding of up to six bytes can express.\<close>

datatype char_type = T_Printable | T_IA5 | T_T61 | T_BMP | T_Universal | T_UTF8

fun type_bit :: "char_type \<Rightarrow> nat" where
  "type_bit T_Printable = 1" | "type_bit T_IA5 = 4" | "type_bit T_T61 = 2"
| "type_bit T_BMP = 11" | "type_bit T_Universal = 8" | "type_bit T_UTF8 = 13"

fun type_tag :: "char_type \<Rightarrow> int" where
  "type_tag T_Printable = V_ASN1_PRINTABLESTRING" | "type_tag T_IA5 = V_ASN1_IA5STRING" | "type_tag T_T61 = V_ASN1_T61STRING"
| "type_tag T_BMP = V_ASN1_BMPSTRING" | "type_tag T_Universal = V_ASN1_UNIVERSALSTRING" | "type_tag T_UTF8 = V_ASN1_UTF8STRING"

fun type_form :: "char_type \<Rightarrow> int" where
  "type_form T_BMP = MBSTRING_BMP" | "type_form T_Universal = MBSTRING_UNIV" | "type_form T_UTF8 = MBSTRING_UTF8"
| "type_form _ = MBSTRING_ASC"

definition printable_set :: "nat set" where
  "printable_set = {97..122} \<union> {65..90} \<union> {48..57} \<union> {32, 39, 40, 41, 43, 44, 45, 46, 47, 58, 61, 63}"

fun type_holds :: "char_type \<Rightarrow> nat \<Rightarrow> bool" where
  "type_holds T_Printable c \<longleftrightarrow> c \<in> printable_set"
| "type_holds T_IA5 c \<longleftrightarrow> c < 2 ^ 7"
| "type_holds T_T61 c \<longleftrightarrow> c < 2 ^ 8"
| "type_holds T_BMP c \<longleftrightarrow> c < 2 ^ 16"
| "type_holds T_Universal c \<longleftrightarrow> c < 2 ^ 32"
| "type_holds T_UTF8 c \<longleftrightarrow> c < 2 ^ 31"

text \<open>The first type, in the documented order, that the mask permits and that holds every character.\<close>

definition first_type :: "u64 \<Rightarrow> nat list \<Rightarrow> char_type option" where
  "first_type msk cs = find (\<lambda>ty. bit (work_mask msk) (type_bit ty) \<and> list_all (type_holds ty) cs)
     [T_Printable, T_IA5, T_T61, T_BMP, T_Universal, T_UTF8]"

text \<open>The three ways the code departs from that rule: NUL counts as a printable character; a UTF8String is made of
  characters it cannot hold; and a mask bit of any other type (a NumericString, say) lets every string become a
  UTF8String, permitted or not.\<close>

definition nul_flaw :: "u64 \<Rightarrow> nat list \<Rightarrow> bool" where
  "nul_flaw msk cs \<longleftrightarrow> bit (work_mask msk) 1 \<and> 0 \<in> set cs \<and> set cs \<subseteq> insert 0 printable_set"

definition utf8_flaw :: "u64 \<Rightarrow> nat list \<Rightarrow> bool" where
  "utf8_flaw msk cs \<longleftrightarrow> bit (work_mask msk) 13 \<and> (\<exists>c\<in>set cs. 2 ^ 31 \<le> c)"

definition other_type_flaw :: "u64 \<Rightarrow> bool" where
  "other_type_flaw msk \<longleftrightarrow> work_mask msk AND NOT 0x2916 \<noteq> 0"

lemma printable_char_set: "printable_char c \<longleftrightarrow> c \<in> insert 0 printable_set"
  by (auto simp: printable_char_def printable_set_def)

lemma other_bits: "other_type_flaw msk \<longleftrightarrow> (\<exists>n. bit (work_mask msk) n \<and> n \<notin> {1, 2, 4, 8, 11, 13})"
proof -
  have one: "bit (push_bit k (1 :: u64)) n \<longleftrightarrow> n = k" if "k < 64" for k n
    using that unfolding bit_push_bit_iff bit_1_iff by auto
  have m: "(0x2916 :: u64) = set_bits_mask" if "set_bits_mask = push_bit 1 1 OR push_bit 2 1 OR push_bit 4 1 OR push_bit 8 1 OR push_bit 11 1 OR push_bit 13 (1 :: u64)" for set_bits_mask
    using that by simp
  have b: "bit (0x2916 :: u64) n \<longleftrightarrow> n \<in> {1, 2, 4, 8, 11, 13}" for n
    unfolding m [OF refl] bit_or_iff by (simp only: one rel_simps insert_iff empty_iff) blast
  have "w \<noteq> 0 \<longleftrightarrow> (\<exists>n. bit w n)" for w :: u64 using bit_eqI [of w 0] by auto
  then show ?thesis unfolding other_type_flaw_def
    by (auto simp only: bit_and_iff bit_not_iff b dest: bit_imp_le_length)
      (use bit_imp_possible_bit in blast)
qed

text \<open>The rule of the code, in these terms.\<close>

lemma permitted_iff:
  assumes "\<forall>c\<in>set cs. c < 2 ^ 32"
  shows "permitted msk cs \<longleftrightarrow> first_type msk cs \<noteq> None \<or> nul_flaw msk cs \<or> utf8_flaw msk cs \<or> other_type_flaw msk"
proof -
  let ?b = "\<lambda>n. bit (work_mask msk) n \<and> (\<forall>c\<in>set cs. fits n c)"
  have "permitted msk cs \<longleftrightarrow> ?b 1 \<or> ?b 2 \<or> ?b 4 \<or> ?b 8 \<or> ?b 11 \<or> ?b 13 \<or> other_type_flaw msk"
    unfolding permitted_def other_bits by (auto simp: fits_def)
  moreover have "?b 1 \<longleftrightarrow> nul_flaw msk cs \<or> (bit (work_mask msk) 1 \<and> list_all (type_holds T_Printable) cs)"
    by (auto simp: fits_def nul_flaw_def printable_char_set list_all_iff)
  moreover have "?b 8 \<longleftrightarrow> bit (work_mask msk) 8 \<and> list_all (type_holds T_Universal) cs"
    using assms by (auto simp: fits_def list_all_iff)
  moreover have "?b 13 \<longleftrightarrow> utf8_flaw msk cs \<or> (bit (work_mask msk) 13 \<and> list_all (type_holds T_UTF8) cs)"
    by (auto simp: fits_def utf8_flaw_def list_all_iff linorder_not_less)
  moreover have "?b 4 \<longleftrightarrow> bit (work_mask msk) 4 \<and> list_all (type_holds T_IA5) cs"
    "?b 2 \<longleftrightarrow> bit (work_mask msk) 2 \<and> list_all (type_holds T_T61) cs"
    "?b 11 \<longleftrightarrow> bit (work_mask msk) 11 \<and> list_all (type_holds T_BMP) cs"
    by (simp_all add: fits_def list_all_iff)
  moreover have "first_type msk cs \<noteq> None \<longleftrightarrow>
      bit (work_mask msk) 1 \<and> list_all (type_holds T_Printable) cs \<or> bit (work_mask msk) 4 \<and> list_all (type_holds T_IA5) cs \<or>
      bit (work_mask msk) 2 \<and> list_all (type_holds T_T61) cs \<or> bit (work_mask msk) 11 \<and> list_all (type_holds T_BMP) cs \<or>
      bit (work_mask msk) 8 \<and> list_all (type_holds T_Universal) cs \<or> bit (work_mask msk) 13 \<and> list_all (type_holds T_UTF8) cs"
    by (simp add: first_type_def)
  ultimately show ?thesis by argo
qed

lemma best_type_first:
  assumes "\<forall>c\<in>set cs. c < 2 ^ 32" and "if nul_flaw msk cs then ty = T_Printable else first_type msk cs = Some ty"
  shows "best_type (work_mask msk) cs = (type_tag ty, type_form ty)"
    and "type_form ty = MBSTRING_UTF8 \<Longrightarrow> \<forall>c\<in>set cs. c < 2 ^ 31"
proof -
  have p: "list_all (fits (Suc 0)) cs \<longleftrightarrow> set cs \<subseteq> insert 0 printable_set"
    by (auto simp: list_all_iff fits_def printable_char_set)
  have h: "list_all (type_holds T_Printable) cs \<longleftrightarrow> set cs \<subseteq> printable_set" "list_all (fits 8) cs"
    "list_all (type_holds T_Universal) cs" "list_all (fits 4) cs \<longleftrightarrow> list_all (type_holds T_IA5) cs"
    "list_all (fits 2) cs \<longleftrightarrow> list_all (type_holds T_T61) cs" "list_all (fits 11) cs \<longleftrightarrow> list_all (type_holds T_BMP) cs"
    using assms(1) by (auto simp: list_all_iff fits_def)
  show "best_type (work_mask msk) cs = (type_tag ty, type_form ty)"
  proof (cases "nul_flaw msk cs")
    case True
    with assms(2) show ?thesis by (simp add: best_type_def type_order_def p nul_flaw_def)
  next
    case False
    then have "bit (work_mask msk) 1 \<Longrightarrow> set cs \<subseteq> insert 0 printable_set \<longleftrightarrow> set cs \<subseteq> printable_set"
      by (auto simp: nul_flaw_def)
    with False assms(2) show ?thesis
      by (cases "bit (work_mask msk) 1")
        (auto simp: best_type_def type_order_def first_type_def p h del: subsetI split: if_splits)
  qed
  show "\<forall>c\<in>set cs. c < 2 ^ 31" if "type_form ty = MBSTRING_UTF8"
  proof -
    have "ty = T_UTF8" using that by (cases ty) simp_all
    with assms(2) show ?thesis
      by (auto simp: first_type_def list_all_iff split: if_splits)
  qed
qed

text \<open>The length the code works with, and the inputs it can work on: a length of \<open>-1\<close> needs a terminator.\<close>

definition str_len :: "u8 list \<Rightarrow> int \<Rightarrow> int" where
  "str_len inp len = (if len = -1 then int (strlen inp) else len)"

definition input_ok :: "u8 list \<Rightarrow> int \<Rightarrow> bool" where
  "input_ok inp len \<longleftrightarrow> 0 \<le> str_len inp len \<and> str_len inp len \<le> int (length inp) \<and> str_len inp len < 2 ^ 28 \<and>
     (len = -1 \<longrightarrow> 0 \<in> set inp)"

lemma ncopy_strlen:
  "ASN1_mbstring_ncopy malloc alloc_str out inp len inform msk minsize maxsize =
   ASN1_mbstring_ncopy malloc alloc_str out inp (str_len inp len) inform msk minsize maxsize"
  by (simp add: ASN1_mbstring_ncopy_def str_len_def)

section \<open>Properties\<close>

text \<open>C31: \<open>ASN1_mbstring_ncopy\<close> on a string of characters \<open>cs\<close> in any of the four forms, within the size limits,
  makes a string of the first type, in the order Printable, IA5, T61, BMP, Universal, UTF8, that the mask permits and
  whose character set holds all of them. Its contents are the same characters in the form of that type, NUL terminated,
  in a block of exactly that size. The one exception: when a PrintableString is permitted and the characters are
  printable but for NULs, the result is a PrintableString. Memory is available, the length is below \<open>2 ^ 28\<close> or \<open>-1\<close>
  for a terminated string. A universal string with a character of \<open>2 ^ 31\<close> or more is covered when a UniversalString is
  permitted; a UTF8String cannot hold it.\<close>

theorem mbstring_converts:
  assumes "form_ok inform" and "malloc_ok malloc" and "\<And>n. malloc n \<noteq> None" and "out \<noteq> Out_none" and "out \<noteq> Out_freed"
    and "input_ok inp len"
    and "take (nat (str_len inp len)) inp = mb_enc inform cs" and "in_range inform cs" and "size_ok minsize maxsize cs"
    and "if nul_flaw msk cs then ty = T_Printable else first_type msk cs = Some ty"
  shows "\<exists>s. ASN1_mbstring_ncopy malloc True out inp len inform msk minsize maxsize = Some (Inr (type_tag ty), Out_str s) \<and>
    as_type s = type_tag ty \<and> holds_chars s (type_form ty) cs"
proof -
  let ?n = "str_len inp len"
  note n = assms(6) [unfolded input_ok_def]
  have best: "best_type (work_mask msk) cs = (type_tag ty, type_form ty)"
    and u: "type_form ty = MBSTRING_UTF8 \<Longrightarrow> \<forall>c\<in>set cs. c < 2 ^ 31"
    using best_type_first [OF range_32 [OF assms(8)] assms(10)] by blast+
  have p: "permitted msk cs" using permitted_iff [OF range_32 [OF assms(8)], of msk] assms(10) by (auto split: if_splits)
  have "length (take (nat ?n) inp) = nat ?n" using n by auto
  then have "?n = int (length (mb_enc inform cs))" using n assms(7) by simp
  from mb_store_ok [OF this _ _ assms(1,2,3) TrueI assms(7,8) u best assms(4)] n
  show ?thesis unfolding ncopy_strlen [of _ _ _ inp len]
    using ncopy_valid [OF _ _ assms(1,7,8,9) p assms(5), of malloc True] best by simp
qed

lemma mbstring_converts_witness:
  "(\<exists>s. ASN1_mbstring_ncopy zero_malloc True Out_null [0x48, 0xc3, 0xa9, 0] (-1) MBSTRING_UTF8 0 1 8 =
      Some (Inr V_ASN1_T61STRING, Out_str s) \<and> holds_chars s MBSTRING_ASC [0x48, 0xe9]) \<and>
   (\<exists>s. ASN1_mbstring_ncopy zero_malloc True Out_null [0x41, 0] 2 MBSTRING_ASC 0x12 0 0 =
      Some (Inr V_ASN1_PRINTABLESTRING, Out_str s) \<and> holds_chars s MBSTRING_ASC [0x41, 0])"
proof
  let ?p = "[0x48, 0xc3, 0xa9, 0 :: u8]"
  have l: "str_len ?p (-1) = 3" by (simp add: str_len_def strlen_def)
  have cs: "take (nat (str_len ?p (-1))) ?p = mb_enc MBSTRING_UTF8 [0x48, 0xe9]"
    unfolding l by (simp add: char_bytes_def utf8_bytes_cases)
  have m: "bit (work_mask 0) 2" "bit (work_mask 0) 11"
    unfolding and_bit [symmetric] work_mask_def DIRSTRING_TYPE_def by simp_all
  then have b: "if nul_flaw 0 [0x48, 0xe9] then T_T61 = T_Printable else first_type 0 [0x48, 0xe9] = Some T_T61"
    by (auto simp: first_type_def nul_flaw_def printable_set_def work_mask_def DIRSTRING_TYPE_def bit_simps)
  show "\<exists>s. ASN1_mbstring_ncopy zero_malloc True Out_null ?p (-1) MBSTRING_UTF8 0 1 8 =
      Some (Inr V_ASN1_T61STRING, Out_str s) \<and> holds_chars s MBSTRING_ASC [0x48, 0xe9]"
    using mbstring_converts [OF _ zero_malloc_ok _ _ _ _ cs _ _ b, of Out_null 1 8] l
    by (auto simp: form_ok_def zero_malloc_def in_range_def char_limit_def size_ok_def input_ok_def)
next
  have cs: "take (nat (str_len [0x41, 0] 2)) [0x41, 0 :: u8] = mb_enc MBSTRING_ASC [0x41, 0]"
    by (simp add: str_len_def char_bytes_def)
  have "bit (work_mask 0x12) 1" unfolding and_bit [symmetric] work_mask_def by simp
  then have b: "if nul_flaw 0x12 [0x41, 0] then T_Printable = T_Printable else first_type 0x12 [0x41, 0] = Some T_Printable"
    by (simp add: nul_flaw_def printable_set_def)
  show "\<exists>s. ASN1_mbstring_ncopy zero_malloc True Out_null [0x41, 0] 2 MBSTRING_ASC 0x12 0 0 =
      Some (Inr V_ASN1_PRINTABLESTRING, Out_str s) \<and> holds_chars s MBSTRING_ASC [0x41, 0]"
    using mbstring_converts [OF _ zero_malloc_ok _ _ _ _ cs _ _ b, of Out_null 0 0]
    by (auto simp: form_ok_def zero_malloc_def in_range_def char_limit_def size_ok_def input_ok_def str_len_def)
qed

text \<open>C32: \<open>ASN1_mbstring_ncopy\<close> succeeds exactly when the input is a whole number of well-formed characters of its
  form, their number is within the limits, and a permitted type holds them all, or one of the three departures from
  that rule applies: printable characters and NULs with PrintableString permitted, a character of \<open>2 ^ 31\<close> or more with
  UTF8String permitted, or a mask with a bit of none of the six types, for which every string is accepted. Otherwise it
  returns an error and leaves \<open>*out\<close>, whatever it was, unchanged. Memory is available; the length is as in C31.\<close>

theorem mbstring_accepts_iff:
  assumes "malloc_ok malloc" and "\<And>n. malloc n \<noteq> None" and "out \<noteq> Out_freed" and "input_ok inp len"
  shows "if form_ok inform \<and> (\<exists>cs. take (nat (str_len inp len)) inp = mb_enc inform cs \<and> in_range inform cs \<and>
      size_ok minsize maxsize cs \<and>
      (first_type msk cs \<noteq> None \<or> nul_flaw msk cs \<or> utf8_flaw msk cs \<or> other_type_flaw msk))
    then \<exists>t out'. ASN1_mbstring_ncopy malloc True out inp len inform msk minsize maxsize = Some (Inr t, out')
    else \<exists>e. ASN1_mbstring_ncopy malloc True out inp len inform msk minsize maxsize = Some (Inl e, out)"
proof -
  let ?n = "str_len inp len"
  have n: "0 \<le> ?n" "?n \<le> int (length inp)" using assms(4) by (simp_all add: input_ok_def)
  have perm: "permitted msk cs \<longleftrightarrow> first_type msk cs \<noteq> None \<or> nul_flaw msk cs \<or> utf8_flaw msk cs \<or> other_type_flaw msk"
    if "in_range inform cs" for cs using permitted_iff range_32 that by blast
  show ?thesis unfolding ncopy_strlen [of _ _ _ inp len]
  proof (split if_split, intro conjI impI)
    assume "form_ok inform \<and> (\<exists>cs. take (nat ?n) inp = mb_enc inform cs \<and> in_range inform cs \<and>
      size_ok minsize maxsize cs \<and>
      (first_type msk cs \<noteq> None \<or> nul_flaw msk cs \<or> utf8_flaw msk cs \<or> other_type_flaw msk))"
    then obtain cs where cs: "form_ok inform" "take (nat ?n) inp = mb_enc inform cs" "in_range inform cs"
      "size_ok minsize maxsize cs" "permitted msk cs" using perm by blast
    obtain t form where "best_type (work_mask msk) cs = (t, form)" by fastforce
    moreover obtain out' where "mb_store malloc True out inp ?n inform (int (length cs)) t form = (Inr t, out')"
      using mb_store_accepts [of malloc] assms(2) by blast
    ultimately show "\<exists>t out'. ASN1_mbstring_ncopy malloc True out inp ?n inform msk minsize maxsize = Some (Inr t, out')"
      using ncopy_valid [OF n cs assms(3), of malloc True] by simp
  next
    assume no: "\<not> (form_ok inform \<and> (\<exists>cs. take (nat ?n) inp = mb_enc inform cs \<and> in_range inform cs \<and>
      size_ok minsize maxsize cs \<and>
      (first_type msk cs \<noteq> None \<or> nul_flaw msk cs \<or> utf8_flaw msk cs \<or> other_type_flaw msk)))"
    show "\<exists>e. ASN1_mbstring_ncopy malloc True out inp ?n inform msk minsize maxsize = Some (Inl e, out)"
      by (rule ncopy_rejects [OF n]) (use no perm in blast)
  qed
qed

lemma mbstring_accepts_iff_witness:
  "(\<forall>s. \<exists>e. ASN1_mbstring_ncopy zero_malloc True (Out_str s) [0x48, 0x49, 0x4a] 3 MBSTRING_BMP 0 0 0 = Some (Inl e, Out_str s)) \<and>
   (\<exists>t out'. ASN1_mbstring_ncopy zero_malloc True Out_null [0x41, 0] (-1) MBSTRING_ASC 0x1 0 0 = Some (Inr t, out'))"
proof
  have "length (mb_enc MBSTRING_BMP cs) \<noteq> 3" for cs by (simp add: length_mb_enc) presburger
  then have "take 3 [0x48, 0x49, 0x4a :: u8] \<noteq> mb_enc MBSTRING_BMP cs" for cs
    by (metis length_Cons list.size(3) numeral_3_eq_3 take_all order_refl One_nat_def)
  then have "\<exists>e. ASN1_mbstring_ncopy zero_malloc True (Out_str s) [0x48, 0x49, 0x4a] 3 MBSTRING_BMP 0 0 0 = Some (Inl e, Out_str s)" for s
    using mbstring_accepts_iff [OF zero_malloc_ok, of "Out_str s" "[0x48, 0x49, 0x4a]" 3 MBSTRING_BMP 0 0 0]
    by (simp add: zero_malloc_def input_ok_def str_len_def)
  then show "\<forall>s. \<exists>e. ASN1_mbstring_ncopy zero_malloc True (Out_str s) [0x48, 0x49, 0x4a] 3 MBSTRING_BMP 0 0 0 = Some (Inl e, Out_str s)"
    by blast
next
  have l: "str_len [0x41, 0 :: u8] (-1) = 1" by (simp add: str_len_def strlen_def)
  have cs: "take 1 [0x41, 0 :: u8] = mb_enc MBSTRING_ASC [0x41]" by (simp add: char_bytes_def)
  have "other_type_flaw 1" by (simp add: other_type_flaw_def work_mask_def)
  then have "form_ok MBSTRING_ASC \<and> (\<exists>cs. take (nat 1) [0x41, 0 :: u8] = mb_enc MBSTRING_ASC cs \<and> in_range MBSTRING_ASC cs \<and>
      size_ok 0 0 cs \<and> (first_type 1 cs \<noteq> None \<or> nul_flaw 1 cs \<or> utf8_flaw 1 cs \<or> other_type_flaw 1))"
    using cs by (auto simp: form_ok_def in_range_def char_limit_def size_ok_def intro!: exI [of _ "[0x41]"])
  then show "\<exists>t out'. ASN1_mbstring_ncopy zero_malloc True Out_null [0x41, 0] (-1) MBSTRING_ASC 0x1 0 0 = Some (Inr t, out')"
    using mbstring_accepts_iff [OF zero_malloc_ok, of Out_null "[0x41, 0]" "-1" MBSTRING_ASC 0 0 1] l
    by (simp add: zero_malloc_def input_ok_def del: mb_enc_simps)
qed

text \<open>C33: if the conversion needs a different form and its output block cannot be allocated, the string
  object just made is freed but \<open>*out\<close> still points to it.\<close>

theorem mbstring_failure_dangles:
  assumes "form_ok inform" and "malloc = (\<lambda>_. None)"
    and "0 \<le> len" and "len \<le> int (length inp)"
    and "take (nat len) inp = mb_enc inform cs" and "in_range inform cs" and "\<forall>c\<in>set cs. c < 2 ^ 31"
    and "size_ok minsize maxsize cs" and "permitted msk cs" and "snd (best_type (work_mask msk) cs) \<noteq> inform"
  shows "ASN1_mbstring_ncopy malloc True Out_null inp len inform msk minsize maxsize = Some (Inl MBSTR_MALLOC_FAILURE, Out_freed)"
proof -
  obtain t outform where best: "best_type (work_mask msk) cs = (t, outform)" by (cases "best_type (work_mask msk) cs")
  obtain f where "mb_output outform (mb_enc inform cs) inform (int (length cs)) = (int (length (mb_enc outform cs)), f)"
    using mb_output_ok [OF assms(1,6,7) best] by blast
  then have "mb_store malloc True Out_null inp len inform (int (length cs)) t outform = (Inl MBSTR_MALLOC_FAILURE, Out_freed)"
    using assms(2,5,10) best by (simp add: mb_store_def Let_def ASN1_STRING_type_new_def)
  then show ?thesis using ncopy_valid [OF assms(3,4,1,5,6,8,9), of Out_null malloc True] best by simp
qed

lemma mbstring_failure_dangles_witness:
  "ASN1_mbstring_ncopy (\<lambda>_. None) True Out_null [0x48] 1 MBSTRING_UTF8 0x2 0 0 = Some (Inl MBSTR_MALLOC_FAILURE, Out_freed)"
proof -
  have cs: "take (nat 1) [0x48 :: u8] = mb_enc MBSTRING_UTF8 [0x48]"
    by (simp add: char_bytes_def utf8_bytes_cases)
  have m: "bit (work_mask 2) 1" unfolding and_bit [symmetric] work_mask_def by simp
  then have b: "best_type (work_mask 2) [0x48] = (V_ASN1_PRINTABLESTRING, MBSTRING_ASC)"
    by (simp add: best_type_def type_order_def fits_def printable_char_def)
  have p: "permitted 2 [0x48]"
    unfolding permitted_def using m by (intro exI [of _ 1]) (simp add: fits_def printable_char_def)
  show ?thesis
    by (rule mbstring_failure_dangles [OF _ refl _ _ cs _ _ _ p])
      (simp_all add: form_ok_def in_range_def char_limit_def size_ok_def b)
qed

end
