(* ===== verification/Bignum.thy ===== *)
theory Bignum
  imports Mem_Buf
begin

text \<open>
  The number objects of BoringSSL (crypto/fipsmodule/bn): bn.c, cmp.c, add.c, and the word addition of
  generic.c, on a 64-bit target.

  A BIGNUM is a record with its array of words as a list, least significant word first. Operands are
  passed by value: where the code lets the result be one of the operands, every loop reads a word
  before it writes the word of that index, so the values read are those at entry. \<open>alloc n\<close> is a fresh
  array of \<open>n\<close> words with arbitrary contents, or None. \<open>int\<close> counters are natural numbers; \<open>bn_wexpand\<close>
  keeps them far below \<open>2 ^ 31\<close>.
\<close>

type_synonym word_alloc = "nat \<Rightarrow> u64 list option"

record bignum =
  bn_d :: "u64 list"
  bn_top :: nat
  bn_dmax :: nat
  bn_neg :: bool
  bn_flags :: u32

definition BN_FLG_MALLOCED :: u32 where "BN_FLG_MALLOCED = 0x01"
definition BN_FLG_STATIC_DATA :: u32 where "BN_FLG_STATIC_DATA = 0x02"

section \<open>bn.c\<close>

definition BN_init :: bignum where
  "BN_init = \<lparr>bn_d = [], bn_top = 0, bn_dmax = 0, bn_neg = False, bn_flags = 0\<rparr>"

definition BN_new :: "bool \<Rightarrow> bignum option" where
  "BN_new alloc_bn = (if \<not> alloc_bn then None else Some (BN_init\<lparr>bn_flags := BN_FLG_MALLOCED\<rparr>))"

text \<open>Words stored at the start of the array.\<close>

definition store_words :: "u64 list \<Rightarrow> bignum \<Rightarrow> bignum" where
  "store_words ws bn = bn\<lparr>bn_d := ws @ drop (length ws) (bn_d bn)\<rparr>"

definition bn_wexpand :: "word_alloc \<Rightarrow> bignum \<Rightarrow> nat \<Rightarrow> bool \<times> bignum" where
  "bn_wexpand alloc bn words =
     (if words \<le> bn_dmax bn then (True, bn)
      else if (2 ^ 31 - 1) div (4 * 64) < words then (False, bn)
      else if bn_flags bn AND BN_FLG_STATIC_DATA \<noteq> 0 then (False, bn)
      else case alloc words of
        None \<Rightarrow> (False, bn)
      | Some a \<Rightarrow> (True, bn\<lparr>bn_d := take (bn_top bn) (bn_d bn) @ drop (bn_top bn) a, bn_dmax := words\<rparr>))"

definition bn_expand :: "word_alloc \<Rightarrow> bignum \<Rightarrow> size_t \<Rightarrow> bool \<times> bignum" where
  "bn_expand alloc bn bits =
     (if bits + 64 - 1 < bits then (False, bn)
      else bn_wexpand alloc bn (unat ((bits + 64 - 1) div 64)))"

text \<open>The loop of \<open>bn_correct_top\<close>: the number of words left when the zero words at the top are dropped.\<close>

fun correct_top_loop :: "u64 list \<Rightarrow> nat \<Rightarrow> nat" where
  "correct_top_loop d 0 = 0"
| "correct_top_loop d (Suc tmp_top) = (if d ! tmp_top \<noteq> 0 then Suc tmp_top else correct_top_loop d tmp_top)"

definition bn_correct_top :: "bignum \<Rightarrow> bignum" where
  "bn_correct_top bn =
     (let bn = (if 0 < bn_top bn then bn\<lparr>bn_top := correct_top_loop (bn_d bn) (bn_top bn)\<rparr> else bn)
      in if bn_top bn = 0 then bn\<lparr>bn_neg := False\<rparr> else bn)"

definition BN_zero :: "bignum \<Rightarrow> bignum" where
  "BN_zero bn = bn\<lparr>bn_neg := False, bn_top := 0\<rparr>"

definition BN_set_word :: "word_alloc \<Rightarrow> bignum \<Rightarrow> u64 \<Rightarrow> bool \<times> bignum" where
  "BN_set_word alloc bn v =
     (if v = 0 then (True, BN_zero bn)
      else case bn_wexpand alloc bn 1 of
        (False, bn) \<Rightarrow> (False, bn)
      | (True, bn) \<Rightarrow> (True, (store_words [v] (bn\<lparr>bn_neg := False\<rparr>))\<lparr>bn_top := 1\<rparr>))"

definition BN_one :: "word_alloc \<Rightarrow> bignum \<Rightarrow> bool \<times> bignum" where
  "BN_one alloc bn = BN_set_word alloc bn 1"

definition BN_set_u64 :: "word_alloc \<Rightarrow> bignum \<Rightarrow> u64 \<Rightarrow> bool \<times> bignum" where
  "BN_set_u64 alloc bn v = BN_set_word alloc bn v"

definition bn_set_words :: "word_alloc \<Rightarrow> bignum \<Rightarrow> u64 list \<Rightarrow> bool \<times> bignum" where
  "bn_set_words alloc bn words =
     (case bn_wexpand alloc bn (length words) of
        (False, bn) \<Rightarrow> (False, bn)
      | (True, bn) \<Rightarrow>
          (True, (bn_correct_top ((store_words words bn)\<lparr>bn_top := length words\<rparr>))\<lparr>bn_neg := False\<rparr>))"

definition BN_copy :: "word_alloc \<Rightarrow> bignum \<Rightarrow> bignum \<Rightarrow> bool \<times> bignum" where
  "BN_copy alloc dest src =
     (case bn_wexpand alloc dest (bn_top src) of
        (False, dest) \<Rightarrow> (False, dest)
      | (True, dest) \<Rightarrow>
          (True, (store_words (take (bn_top src) (bn_d src)) dest)\<lparr>bn_top := bn_top src, bn_neg := bn_neg src\<rparr>))"

definition BN_dup :: "word_alloc \<Rightarrow> bool \<Rightarrow> bignum option \<Rightarrow> bignum option" where
  "BN_dup alloc alloc_bn src =
     (case src of
        None \<Rightarrow> None
      | Some src \<Rightarrow>
          (case BN_new alloc_bn of
             None \<Rightarrow> None
           | Some copy \<Rightarrow> (case BN_copy alloc copy src of (False, _) \<Rightarrow> None | (True, copy) \<Rightarrow> Some copy)))"

definition BN_clear :: "bignum \<Rightarrow> bignum" where
  "BN_clear bn = bn\<lparr>bn_d := replicate (bn_dmax bn) 0, bn_top := 0, bn_neg := False\<rparr>"

text \<open>The table \<open>bits\<close> of \<open>BN_num_bits_word\<close> holds the bit length of every byte.\<close>

definition bits_table :: "nat list" where
  "bits_table = 0 # 1 # replicate 2 2 @ replicate 4 3 @ replicate 8 4 @ replicate 16 5 @ replicate 32 6 @
     replicate 64 7 @ replicate 128 8"

definition BN_num_bits_word :: "u64 \<Rightarrow> nat" where
  "BN_num_bits_word l =
     (if l AND 0xffffffff00000000 \<noteq> 0 then
        if l AND 0xffff000000000000 \<noteq> 0 then
          if l AND 0xff00000000000000 \<noteq> 0 then bits_table ! unat (drop_bit 56 l) + 56
          else bits_table ! unat (drop_bit 48 l) + 48
        else if l AND 0x0000ff0000000000 \<noteq> 0 then bits_table ! unat (drop_bit 40 l) + 40
        else bits_table ! unat (drop_bit 32 l) + 32
      else
        if l AND 0xffff0000 \<noteq> 0 then
          if l AND 0xff000000 \<noteq> 0 then bits_table ! unat (drop_bit 24 l) + 24
          else bits_table ! unat (drop_bit 16 l) + 16
        else if l AND 0xff00 \<noteq> 0 then bits_table ! unat (drop_bit 8 l) + 8
        else bits_table ! unat l)"

definition BN_is_zero :: "bignum \<Rightarrow> bool" where
  "BN_is_zero bn \<longleftrightarrow> bn_top bn = 0"

definition BN_num_bits :: "bignum \<Rightarrow> nat" where
  "BN_num_bits bn =
     (if BN_is_zero bn then 0 else (bn_top bn - 1) * 64 + BN_num_bits_word (bn_d bn ! (bn_top bn - 1)))"

definition BN_num_bytes :: "bignum \<Rightarrow> nat" where
  "BN_num_bytes bn = (BN_num_bits bn + 7) div 8"

definition BN_is_negative :: "bignum \<Rightarrow> bool" where
  "BN_is_negative bn = bn_neg bn"

definition BN_set_negative :: "bignum \<Rightarrow> bool \<Rightarrow> bignum" where
  "BN_set_negative bn sign = (if sign \<and> \<not> BN_is_zero bn then bn\<lparr>bn_neg := True\<rparr> else bn\<lparr>bn_neg := False\<rparr>)"

section \<open>cmp.c\<close>

text \<open>The comparison loops: the words from the highest index \<open>i - 1\<close> down.\<close>

fun cmp_loop :: "int \<Rightarrow> int \<Rightarrow> u64 list \<Rightarrow> u64 list \<Rightarrow> nat \<Rightarrow> int" where
  "cmp_loop gt lt ap bp 0 = 0"
| "cmp_loop gt lt ap bp (Suc i) =
     (if bp ! i < ap ! i then gt else if ap ! i < bp ! i then lt else cmp_loop gt lt ap bp i)"

definition BN_ucmp :: "bignum \<Rightarrow> bignum \<Rightarrow> int" where
  "BN_ucmp a b =
     (let i = int (bn_top a) - int (bn_top b) in
      if i \<noteq> 0 then i else cmp_loop 1 (-1) (bn_d a) (bn_d b) (bn_top a))"

definition BN_cmp :: "bignum option \<Rightarrow> bignum option \<Rightarrow> int" where
  "BN_cmp a b =
     (case (a, b) of
        (Some a, Some b) \<Rightarrow>
          if bn_neg a \<noteq> bn_neg b then (if bn_neg a then -1 else 1)
          else
            let gt = (if \<not> bn_neg a then 1 else -1); lt = (if \<not> bn_neg a then -1 else 1) in
            if bn_top b < bn_top a then gt
            else if bn_top a < bn_top b then lt
            else cmp_loop gt lt (bn_d a) (bn_d b) (bn_top a)
      | (Some a, None) \<Rightarrow> -1
      | (None, Some b) \<Rightarrow> 1
      | (None, None) \<Rightarrow> 0)"

definition BN_abs_is_word :: "bignum \<Rightarrow> u64 \<Rightarrow> bool" where
  "BN_abs_is_word bn w =
     (if bn_top bn = 1 then bn_d bn ! 0 = w else if bn_top bn = 0 then w = 0 else False)"

definition BN_cmp_word :: "bignum \<Rightarrow> u64 \<Rightarrow> int" where
  "BN_cmp_word a b =
     BN_cmp (Some a) (Some (BN_init\<lparr>bn_d := [b], bn_top := (if 0 < b then 1 else 0), bn_dmax := 1,
                             bn_flags := BN_FLG_STATIC_DATA\<rparr>))"

definition BN_is_one :: "bignum \<Rightarrow> bool" where
  "BN_is_one bn \<longleftrightarrow> \<not> bn_neg bn \<and> BN_abs_is_word bn 1"

definition BN_is_word :: "bignum \<Rightarrow> u64 \<Rightarrow> bool" where
  "BN_is_word bn w \<longleftrightarrow> BN_abs_is_word bn w \<and> (w = 0 \<or> \<not> bn_neg bn)"

definition BN_is_odd :: "bignum \<Rightarrow> bool" where
  "BN_is_odd bn \<longleftrightarrow> 0 < bn_top bn \<and> bn_d bn ! 0 AND 1 = 1"

definition BN_is_pow2 :: "bignum \<Rightarrow> bool" where
  "BN_is_pow2 bn =
     (if bn_top bn = 0 \<or> bn_neg bn then False
      else if \<not> list_all (\<lambda>w. w = 0) (take (bn_top bn - 1) (bn_d bn)) then False
      else 0 = bn_d bn ! (bn_top bn - 1) AND (bn_d bn ! (bn_top bn - 1) - 1))"

section \<open>add.c\<close>

text \<open>\<open>bn_add_words\<close> of generic.c with a double-width accumulator; its unrolled loop repeats this step.\<close>

fun bn_add_words :: "128 word \<Rightarrow> u64 list \<Rightarrow> u64 list \<Rightarrow> u64 list \<times> u64" where
  "bn_add_words ll (a # as) (b # bs) =
     (let ll = ll + (ucast a + ucast b) in
      case bn_add_words (drop_bit 64 ll) as bs of (r, c) \<Rightarrow> (ucast ll # r, c))"
| "bn_add_words ll _ _ = ([], ucast ll)"

text \<open>The carry running through the rest of the longer operand: the words and the carry left.\<close>

fun carry_loop :: "u64 list \<Rightarrow> u64 list \<times> u64" where
  "carry_loop [] = ([], 1)"
| "carry_loop (t1 # ap) =
     (let t2 = t1 + 1 in
      if t2 \<noteq> 0 then (t2 # ap, 0) else (case carry_loop ap of (r, c) \<Rightarrow> (t2 # r, c)))"

definition BN_uadd :: "word_alloc \<Rightarrow> bignum \<Rightarrow> bignum \<Rightarrow> bignum \<Rightarrow> bool \<times> bignum" where
  "BN_uadd alloc r a b =
     (case (if bn_top a < bn_top b then (b, a) else (a, b)) of
        (a, b) \<Rightarrow>
          (let max = bn_top a; min = bn_top b in
           case bn_wexpand alloc r (max + 1) of
             (False, r) \<Rightarrow> (False, r)
           | (True, r) \<Rightarrow>
               (case bn_add_words 0 (take min (bn_d a)) (take min (bn_d b)) of
                  (low, carry) \<Rightarrow>
                    (let ap = drop min (take max (bn_d a)) in
                     case (if carry \<noteq> 0 then carry_loop ap else (ap, 0)) of
                       (high, carry) \<Rightarrow>
                         if carry \<noteq> 0 then
                           (True, (store_words (low @ high @ [1]) r)\<lparr>bn_top := max + 1, bn_neg := False\<rparr>)
                         else (True, (store_words (low @ high) r)\<lparr>bn_top := max, bn_neg := False\<rparr>)))))"

fun usub_loop :: "bool \<Rightarrow> u64 list \<Rightarrow> u64 list \<Rightarrow> u64 list \<times> bool" where
  "usub_loop carry (t1 # ap) (t2 # bp) =
     (case (if carry then (t1 - t2 - 1, t1 \<le> t2) else (t1 - t2, t1 < t2)) of
        (t, carry) \<Rightarrow> (case usub_loop carry ap bp of (r, c) \<Rightarrow> (t # r, c)))"
| "usub_loop carry _ _ = ([], carry)"

fun borrow_loop :: "u64 list \<Rightarrow> u64 list" where
  "borrow_loop [] = []"
| "borrow_loop (t1 # ap) = (let t2 = t1 - 1 in if t1 \<noteq> 0 then t2 # ap else t2 # borrow_loop ap)"

definition BN_usub :: "word_alloc \<Rightarrow> bignum \<Rightarrow> bignum \<Rightarrow> bignum \<Rightarrow> bool \<times> bignum" where
  "BN_usub alloc r a b =
     (let max = bn_top a; min = bn_top b in
      if max < min then (False, r)
      else case bn_wexpand alloc r max of
        (False, r) \<Rightarrow> (False, r)
      | (True, r) \<Rightarrow>
          (case usub_loop False (take min (bn_d a)) (take min (bn_d b)) of
             (low, carry) \<Rightarrow>
               if carry \<and> max = min then (False, store_words low r)
               else
                 let ap = drop min (take max (bn_d a));
                     high = (if carry then borrow_loop ap else ap)
                 in (True, bn_correct_top ((store_words (low @ high) r)\<lparr>bn_top := max, bn_neg := False\<rparr>))))"

definition BN_add :: "word_alloc \<Rightarrow> bignum \<Rightarrow> bignum \<Rightarrow> bignum \<Rightarrow> bool \<times> bignum" where
  "BN_add alloc r a b =
     (let a_neg = bn_neg a in
      if a_neg \<noteq> bn_neg b then
        (case (if a_neg then (b, a) else (a, b)) of
           (a, b) \<Rightarrow>
             if BN_ucmp a b < 0 then
               (case BN_usub alloc r b a of
                  (False, r) \<Rightarrow> (False, r)
                | (True, r) \<Rightarrow> (True, r\<lparr>bn_neg := True\<rparr>))
             else
               (case BN_usub alloc r a b of
                  (False, r) \<Rightarrow> (False, r)
                | (True, r) \<Rightarrow> (True, r\<lparr>bn_neg := False\<rparr>)))
      else
        (case BN_uadd alloc r a b of (ret, r) \<Rightarrow> (ret, r\<lparr>bn_neg := a_neg\<rparr>)))"

definition BN_sub :: "word_alloc \<Rightarrow> bignum \<Rightarrow> bignum \<Rightarrow> bignum \<Rightarrow> bool \<times> bignum" where
  "BN_sub alloc r a b =
     (case (if bn_neg a then if bn_neg b then (b, a, None) else (a, b, Some True)
            else if bn_neg b then (a, b, Some False) else (a, b, None)) of
        (a, b, add) \<Rightarrow>
          (case add of
             Some neg \<Rightarrow>
               (case BN_uadd alloc r a b of
                  (False, r) \<Rightarrow> (False, r)
                | (True, r) \<Rightarrow> (True, r\<lparr>bn_neg := neg\<rparr>))
           | None \<Rightarrow>
               (case bn_wexpand alloc r (if bn_top b < bn_top a then bn_top a else bn_top b) of
                  (False, r) \<Rightarrow> (False, r)
                | (True, r) \<Rightarrow>
                    if BN_ucmp a b < 0 then
                      (case BN_usub alloc r b a of
                         (False, r) \<Rightarrow> (False, r)
                       | (True, r) \<Rightarrow> (True, r\<lparr>bn_neg := True\<rparr>))
                    else
                      (case BN_usub alloc r a b of
                         (False, r) \<Rightarrow> (False, r)
                       | (True, r) \<Rightarrow> (True, r\<lparr>bn_neg := False\<rparr>)))))"

text \<open>Adding and subtracting a word in place. The recursion of the two functions into each other is one
  level deep, with the sign cleared: the parts behind the sign test are \<open>add_word_abs\<close> and \<open>sub_word_abs\<close>.
  The loop of the latter has no bound; None would be a read past the array.\<close>

fun add_word_loop :: "u64 \<Rightarrow> u64 list \<Rightarrow> u64 list \<times> u64" where
  "add_word_loop w [] = ([], w)"
| "add_word_loop w (x # d) =
     (if w = 0 then (x # d, 0)
      else let l = x + w in case add_word_loop (if l < w then 1 else 0) d of (r, c) \<Rightarrow> (l # r, c))"

definition add_word_abs :: "word_alloc \<Rightarrow> bignum \<Rightarrow> u64 \<Rightarrow> bool \<times> bignum" where
  "add_word_abs alloc a w =
     (case add_word_loop w (take (bn_top a) (bn_d a)) of
        (ws, w) \<Rightarrow>
          (let a = store_words ws a in
           if w \<noteq> 0 then
             (case bn_wexpand alloc a (bn_top a + 1) of
                (False, a) \<Rightarrow> (False, a)
              | (True, a) \<Rightarrow> (True, a\<lparr>bn_top := bn_top a + 1, bn_d := (bn_d a)[bn_top a := w]\<rparr>))
           else (True, a)))"

fun sub_word_loop :: "u64 \<Rightarrow> u64 list \<Rightarrow> (u64 list \<times> nat) option" where
  "sub_word_loop w [] = None"
| "sub_word_loop w (x # d) =
     (if w \<le> x then Some ((x - w) # d, 0)
      else (case sub_word_loop 1 d of None \<Rightarrow> None | Some (r, i) \<Rightarrow> Some ((x - w) # r, Suc i)))"

definition sub_word_abs :: "bignum \<Rightarrow> u64 \<Rightarrow> (bool \<times> bignum) option" where
  "sub_word_abs a w =
     (if bn_top a = 1 \<and> bn_d a ! 0 < w then
        Some (True, a\<lparr>bn_d := (bn_d a)[0 := w - bn_d a ! 0], bn_neg := True\<rparr>)
      else case sub_word_loop w (bn_d a) of
        None \<Rightarrow> None
      | Some (d, i) \<Rightarrow>
          Some (True, if d ! i = 0 \<and> i = bn_top a - 1 then a\<lparr>bn_d := d, bn_top := bn_top a - 1\<rparr> else a\<lparr>bn_d := d\<rparr>))"

definition BN_add_word :: "word_alloc \<Rightarrow> bignum \<Rightarrow> u64 \<Rightarrow> (bool \<times> bignum) option" where
  "BN_add_word alloc a w =
     (if w = 0 then Some (True, a)
      else if BN_is_zero a then Some (BN_set_word alloc a w)
      else if bn_neg a then
        map_option (\<lambda>(i, a). (i, if \<not> BN_is_zero a then a\<lparr>bn_neg := \<not> bn_neg a\<rparr> else a))
          (sub_word_abs (a\<lparr>bn_neg := False\<rparr>) w)
      else Some (add_word_abs alloc a w))"

definition BN_sub_word :: "word_alloc \<Rightarrow> bignum \<Rightarrow> u64 \<Rightarrow> (bool \<times> bignum) option" where
  "BN_sub_word alloc a w =
     (if w = 0 then Some (True, a)
      else if BN_is_zero a then
        (case BN_set_word alloc a w of (i, a) \<Rightarrow> Some (i, if i then BN_set_negative a True else a))
      else if bn_neg a then
        (case add_word_abs alloc (a\<lparr>bn_neg := False\<rparr>) w of (i, a) \<Rightarrow> Some (i, a\<lparr>bn_neg := True\<rparr>))
      else sub_word_abs a w)"

end
