(* ===== verification/Bignum_Spec.thy ===== *)
theory Bignum_Spec
  imports Bignum
begin

text \<open>
  The number a BIGNUM stands for, the invariant of the objects (no zero word at the top, zero is not
  negative), and the proof that comparison, addition and subtraction compute on the numbers.
\<close>

section \<open>Words as digits\<close>

definition base :: nat where "base = 2 ^ 64"

fun words_val :: "u64 list \<Rightarrow> nat" where
  "words_val [] = 0"
| "words_val (w # ws) = unat w + base * words_val ws"

lemma base_pos: "0 < base" "1 < base"
  by (simp_all add: base_def)

lemma unat_lt_base: "unat (w :: u64) < base"
  using unat_less_two_power [of w] by (simp add: base_def)

lemma words_val_append: "words_val (xs @ ys) = words_val xs + base ^ length xs * words_val ys"
  by (induction xs) (simp_all add: algebra_simps)

lemma words_val_less: "words_val ws < base ^ length ws"
proof (induction ws)
  case (Cons w ws)
  have "base * (words_val ws + 1) \<le> base * base ^ length ws" using Cons.IH by (intro mult_left_mono) simp_all
  with unat_lt_base [of w] show ?case by (simp add: algebra_simps)
qed simp

lemma words_val_zero: "words_val ws = 0 \<longleftrightarrow> list_all (\<lambda>w. w = 0) ws"
  using base_pos by (induction ws) (auto simp: unat_eq_zero)

lemma words_val_top:
  assumes "ws \<noteq> []" and "last ws \<noteq> 0"
  shows "base ^ (length ws - 1) \<le> words_val ws"
proof -
  have ws: "ws = butlast ws @ [last ws]" using assms(1) by simp
  have "0 < unat (last ws)" using assms(2) by (simp add: unat_gt_0)
  then have "base ^ (length ws - 1) \<le> base ^ (length ws - 1) * unat (last ws)" by simp
  also have "\<dots> \<le> words_val ws"
    by (subst (3) ws) (simp only: words_val_append words_val.simps, simp)
  finally show ?thesis .
qed

section \<open>The objects\<close>

definition bn_ok :: "bignum \<Rightarrow> bool" where
  "bn_ok bn \<longleftrightarrow> length (bn_d bn) = bn_dmax bn \<and> bn_top bn \<le> bn_dmax bn \<and>
     (0 < bn_top bn \<longrightarrow> bn_d bn ! (bn_top bn - 1) \<noteq> 0) \<and> (bn_top bn = 0 \<longrightarrow> \<not> bn_neg bn)"

definition bn_words :: "bignum \<Rightarrow> u64 list" where
  "bn_words bn = take (bn_top bn) (bn_d bn)"

definition bn_abs :: "bignum \<Rightarrow> nat" where
  "bn_abs bn = words_val (bn_words bn)"

definition bn_int :: "bignum \<Rightarrow> int" where
  "bn_int bn = (if bn_neg bn then - int (bn_abs bn) else int (bn_abs bn))"

text \<open>An object whose array has room for the words in use, whatever they are.\<close>

definition bn_room :: "bignum \<Rightarrow> bool" where
  "bn_room bn \<longleftrightarrow> length (bn_d bn) = bn_dmax bn \<and> bn_top bn \<le> bn_dmax bn"

definition alloc_ok :: "word_alloc \<Rightarrow> bool" where
  "alloc_ok alloc \<longleftrightarrow> (\<forall>n a. alloc n = Some a \<longrightarrow> length a = n)"

lemma ok_room: "bn_ok bn \<Longrightarrow> bn_room bn"
  by (simp add: bn_ok_def bn_room_def)

lemma length_bn_words: "bn_room bn \<Longrightarrow> length (bn_words bn) = bn_top bn"
  by (simp add: bn_words_def bn_room_def)

lemma bn_abs_bounds:
  assumes "bn_ok bn"
  shows "bn_abs bn < base ^ bn_top bn" and "0 < bn_top bn \<Longrightarrow> base ^ (bn_top bn - 1) \<le> bn_abs bn"
proof -
  have l: "length (bn_words bn) = bn_top bn" using length_bn_words [OF ok_room [OF assms]] .
  then show "bn_abs bn < base ^ bn_top bn" using words_val_less [of "bn_words bn"] by (simp add: bn_abs_def)
  assume t: "0 < bn_top bn"
  then have ne: "bn_words bn \<noteq> []" using l by auto
  then have "last (bn_words bn) = bn_d bn ! (bn_top bn - 1)"
    using assms l by (subst last_conv_nth) (auto simp: bn_ok_def bn_words_def)
  then show "base ^ (bn_top bn - 1) \<le> bn_abs bn"
    using words_val_top [OF ne] t l assms by (simp add: bn_ok_def bn_abs_def)
qed

lemma bn_abs_zero:
  assumes "bn_ok bn"
  shows "bn_abs bn = 0 \<longleftrightarrow> bn_top bn = 0"
proof (cases "bn_top bn = 0")
  case False
  have "0 < base ^ (bn_top bn - 1)" using base_pos(1) by simp
  from less_le_trans [OF this bn_abs_bounds(2) [OF assms]] False show ?thesis by simp
qed (simp add: bn_abs_def bn_words_def)

lemma bn_wexpand_ok:
  assumes "bn_room bn" and "alloc_ok alloc" and "bn_wexpand alloc bn n = (True, bn')"
  shows "bn_room bn'" and "n \<le> bn_dmax bn'" and "bn_words bn' = bn_words bn" and "bn_top bn' = bn_top bn"
    and "bn_neg bn' = bn_neg bn" and "bn_ok bn \<Longrightarrow> bn_ok bn'"
  using assms by (auto simp: bn_wexpand_def bn_room_def bn_words_def alloc_ok_def bn_ok_def nth_append
      split: if_splits option.splits)

text \<open>A result stored in an expanded object.\<close>

lemma stored:
  assumes "bn_room bn" and "length ws \<le> bn_dmax bn"
  shows "bn_room ((store_words ws bn)\<lparr>bn_top := length ws, bn_neg := s\<rparr>)"
    and "bn_words ((store_words ws bn)\<lparr>bn_top := length ws, bn_neg := s\<rparr>) = ws"
  using assms by (simp_all add: bn_room_def store_words_def bn_words_def)

lemma correct_top_loop_spec:
  "n \<le> length d \<Longrightarrow> correct_top_loop d n \<le> n \<and> words_val (take (correct_top_loop d n) d) = words_val (take n d) \<and>
    (0 < correct_top_loop d n \<longrightarrow> d ! (correct_top_loop d n - 1) \<noteq> 0)"
proof (induction n)
  case (Suc n)
  then have "take (Suc n) d = take n d @ [d ! n]" by (simp add: take_Suc_conv_app_nth)
  with Suc show ?case by (auto simp: words_val_append)
qed simp

lemma bn_correct_top_ok:
  assumes "bn_room bn"
  shows "bn_ok (bn_correct_top bn)" and "bn_abs (bn_correct_top bn) = bn_abs bn"
    and "bn_neg (bn_correct_top bn) = (bn_neg bn \<and> bn_abs bn \<noteq> 0)"
    and "bn_dmax (bn_correct_top bn) = bn_dmax bn"
proof -
  have t: "correct_top_loop (bn_d bn) (bn_top bn) \<le> bn_top bn"
    and v: "words_val (take (correct_top_loop (bn_d bn) (bn_top bn)) (bn_d bn)) = bn_abs bn"
    and z: "0 < correct_top_loop (bn_d bn) (bn_top bn) \<longrightarrow> bn_d bn ! (correct_top_loop (bn_d bn) (bn_top bn) - 1) \<noteq> 0"
    using correct_top_loop_spec [of "bn_top bn" "bn_d bn"] assms by (auto simp: bn_room_def bn_abs_def bn_words_def)
  show ok: "bn_ok (bn_correct_top bn)" and a: "bn_abs (bn_correct_top bn) = bn_abs bn"
    and "bn_dmax (bn_correct_top bn) = bn_dmax bn"
    using t v z assms by (auto simp: bn_correct_top_def Let_def bn_ok_def bn_room_def bn_abs_def bn_words_def)
  show "bn_neg (bn_correct_top bn) = (bn_neg bn \<and> bn_abs bn \<noteq> 0)"
    using bn_abs_zero [OF ok] a by (auto simp: bn_correct_top_def Let_def)
qed

section \<open>Comparison\<close>

lemma cmp_loop_spec:
  "n \<le> length ap \<Longrightarrow> n \<le> length bp \<Longrightarrow>
   cmp_loop gt lt ap bp n = (if words_val (take n bp) < words_val (take n ap) then gt
     else if words_val (take n ap) < words_val (take n bp) then lt else 0)"
proof (induction n)
  case (Suc n)
  have t: "take (Suc n) ap = take n ap @ [ap ! n]" "take (Suc n) bp = take n bp @ [bp ! n]"
    using Suc.prems by (simp_all add: take_Suc_conv_app_nth)
  have less: "words_val (take n xs) + base ^ n * unat x < words_val (take n ys) + base ^ n * unat y"
    if "unat x < unat y" "n \<le> length xs" for xs ys and x y :: u64
  proof -
    have "base ^ n * (unat x + 1) \<le> base ^ n * unat y" using that(1) by (intro mult_left_mono) simp_all
    moreover have "words_val (take n xs) < base ^ n" using words_val_less [of "take n xs"] that(2) by simp
    ultimately show ?thesis by (simp add: algebra_simps)
  qed
  consider "unat (bp ! n) < unat (ap ! n)" | "unat (ap ! n) < unat (bp ! n)" | "ap ! n = bp ! n"
    by (metis linorder_neqE_nat word_unat_eq_iff)
  then show ?case
  proof cases
    case 1
    with less [OF 1, of bp ap] Suc.prems show ?thesis unfolding t by (simp add: words_val_append word_less_nat_alt)
  next
    case 2
    with less [OF 2, of ap bp] Suc.prems show ?thesis unfolding t by (simp add: words_val_append word_less_nat_alt)
  next
    case 3
    with Suc show ?thesis unfolding t by (simp add: words_val_append)
  qed
qed simp

lemma top_less:
  assumes "bn_ok a" and "bn_ok b" and "bn_top a < bn_top b"
  shows "bn_abs a < bn_abs b"
proof -
  have "base ^ bn_top a \<le> base ^ (bn_top b - 1)" using assms(3) base_pos by (intro power_increasing) simp_all
  with bn_abs_bounds(1) [OF assms(1)] bn_abs_bounds(2) [OF assms(2)] assms(3) show ?thesis by simp
qed

lemma BN_ucmp_spec:
  assumes "bn_ok a" and "bn_ok b"
  shows "BN_ucmp a b < 0 \<longleftrightarrow> bn_abs a < bn_abs b" and "BN_ucmp a b = 0 \<longleftrightarrow> bn_abs a = bn_abs b"
proof -
  have "bn_top a \<le> length (bn_d a)" "bn_top b \<le> length (bn_d b)" using assms by (simp_all add: bn_ok_def)
  then have c: "BN_ucmp a b = int (bn_top a) - int (bn_top b)" if "bn_top a \<noteq> bn_top b"
    using that by (simp add: BN_ucmp_def Let_def)
  have e: "BN_ucmp a b = (if bn_abs b < bn_abs a then 1 else if bn_abs a < bn_abs b then -1 else 0)" if "bn_top a = bn_top b"
    using that cmp_loop_spec [of "bn_top a" "bn_d a" "bn_d b" 1 "-1"] assms
    by (simp add: BN_ucmp_def Let_def bn_abs_def bn_words_def bn_ok_def)
  have "BN_ucmp a b < 0 \<longleftrightarrow> bn_abs a < bn_abs b \<and> True" and "BN_ucmp a b = 0 \<longleftrightarrow> bn_abs a = bn_abs b \<and> True"
    using c e top_less [OF assms] top_less [OF assms(2,1)]
    by (cases "bn_top a" "bn_top b" rule: linorder_cases; simp)+
  then show "BN_ucmp a b < 0 \<longleftrightarrow> bn_abs a < bn_abs b" and "BN_ucmp a b = 0 \<longleftrightarrow> bn_abs a = bn_abs b" by simp_all
qed

lemma BN_cmp_spec:
  assumes "bn_ok a" and "bn_ok b"
  shows "BN_cmp (Some a) (Some b) = sgn (bn_int a - bn_int b)"
proof -
  have ge: "bn_neg x \<Longrightarrow> bn_int x < 0" "\<not> bn_neg x \<Longrightarrow> 0 \<le> bn_int x" if "bn_ok x" for x
    using bn_abs_zero [OF that] that by (auto simp: bn_int_def bn_ok_def)
  show ?thesis
  proof (cases "bn_neg a = bn_neg b")
    case False
    with ge [OF assms(1)] ge [OF assms(2)] show ?thesis by (auto simp: BN_cmp_def)
  next
    case True
    have "cmp_loop gt lt (bn_d a) (bn_d b) (bn_top a) =
        (if bn_abs b < bn_abs a then gt else if bn_abs a < bn_abs b then lt else 0)" if "bn_top a = bn_top b" for gt lt
      using that cmp_loop_spec [of "bn_top a" "bn_d a" "bn_d b" gt lt] assms
      by (simp add: bn_abs_def bn_words_def bn_ok_def)
    with True top_less [OF assms] top_less [OF assms(2,1)] show ?thesis
      by (cases "bn_top a" "bn_top b" rule: linorder_cases) (auto simp: BN_cmp_def Let_def bn_int_def)
  qed
qed


section \<open>Addition and subtraction of the absolute values\<close>

lemma bn_add_words_spec:
  assumes "length as = length bs" and "unat ll \<le> 1" and "bn_add_words ll as bs = (r, c)"
  shows "length r = length as \<and> words_val r + base ^ length as * unat c = words_val as + words_val bs + unat ll \<and> unat c \<le> 1"
  using assms
proof (induction as arbitrary: bs ll r c)
  case Nil
  then show ?case by (auto simp: unat_ucast_mod)
next
  case (Cons a as)
  obtain b bs' where bs: "bs = b # bs'" using Cons.prems(1) by (cases bs) auto
  let ?ll = "ll + (ucast a + ucast b) :: 128 word"
  obtain r' where r: "bn_add_words (drop_bit 64 ?ll) as bs' = (r', c)" "r = ucast ?ll # r'"
    using Cons.prems(3) bs by (auto simp: Let_def split: prod.splits)
  have w: "unat (ucast x :: 128 word) = unat x" for x :: u64
    using unat_less_two_power [of x] by (simp add: unat_ucast_mod)
  have ab: "unat (ucast a + ucast b :: 128 word) = unat a + unat b"
    using w [of a] w [of b] unat_lt_base [of a] unat_lt_base [of b] by (subst unat_add_lem [THEN iffD1]) (simp_all add: base_def)
  have s: "unat ?ll = unat ll + unat a + unat b"
    using ab Cons.prems(2) unat_lt_base [of a] unat_lt_base [of b] by (subst unat_add_lem [THEN iffD1]) (simp_all add: base_def)
  have d: "unat (drop_bit 64 ?ll) = (unat ll + unat a + unat b) div base" and m: "unat (ucast ?ll :: u64) = (unat ll + unat a + unat b) mod base"
    by (simp_all add: unat_drop_bit_div unat_ucast_mod s base_def)
  have "(unat ll + unat a + unat b) div base \<le> 1"
    using Cons.prems(2) unat_lt_base [of a] unat_lt_base [of b] base_pos by (intro less_Suc_eq_le [THEN iffD1] div_less_iff_less_mult [THEN iffD2]) auto
  then have "unat (drop_bit 64 ?ll) \<le> 1" using d by simp
  with Cons.IH [OF _ this r(1)] Cons.prems(1) bs
  have ih: "length r' = length as" "words_val r' + base ^ length as * unat c = words_val as + words_val bs' + (unat ll + unat a + unat b) div base"
    "unat c \<le> 1" using d by auto
  define S where "S = unat ll + unat a + unat b"
  have "words_val r + base ^ length (a # as) * unat c = base * (words_val r' + base ^ length as * unat c) + S mod base"
    unfolding r(2) S_def by (simp add: m algebra_simps)
  also have "\<dots> = base * (words_val as + words_val bs') + S"
    unfolding ih(2) S_def [symmetric] distrib_left using mult_div_mod_eq [of base S] by linarith
  also have "\<dots> = words_val (a # as) + words_val bs + unat ll" unfolding bs S_def by (simp add: algebra_simps)
  finally show ?case using ih r(2) by simp
qed

lemma unat_minus_one_base: "unat (- 1 :: u64) + 1 = base"
  by (simp add: base_def unsigned_minus_1_eq_mask mask_eq_exp_minus_1)

lemma unat_pred: "w \<noteq> 0 \<Longrightarrow> unat (w - 1) + 1 = unat (w :: u64)"
  using unat_minus_one [of w] unat_gt_0 [of w] by simp

lemma unat_succ: "t + 1 \<noteq> 0 \<Longrightarrow> unat (t + 1) = unat (t :: u64) + 1"
  using unatSuc [of t] by (simp add: add.commute)

lemma sub_step:
  "unat (if c then a - b - 1 else a - b) + unat b + of_bool c = unat a + base * of_bool (if c then a \<le> b else (a :: u64) < b)"
proof -
  have ab: "unat (a - b) + unat b = unat a + base * of_bool (a < b)"
    using unat_lt_base [of a] unat_lt_base [of b] by (auto simp: unat_sub_if' base_def word_less_nat_alt)
  have "unat (a - b - 1) + 1 = unat (a - b) + base * of_bool (a = b)"
  proof (cases "a = b")
    case True
    then show ?thesis using unat_minus_one_base by simp
  next
    case False
    then have "a - b \<noteq> 0" by simp
    then show ?thesis using unat_pred False by simp
  qed
  with ab show ?thesis by (cases c; cases "a = b") (auto simp: order_le_less)
qed

lemma carry_loop_spec:
  "carry_loop ap = (r, c) \<Longrightarrow> length r = length ap \<and> words_val r + base ^ length ap * unat c = words_val ap + 1 \<and> unat c \<le> 1"
proof (induction ap arbitrary: r c)
  case (Cons t ap)
  show ?case
  proof (cases "t + 1 = 0")
    case True
    then obtain r' where r: "carry_loop ap = (r', c)" "r = 0 # r'" using Cons.prems by (auto simp: Let_def split: prod.splits)
    have "t = - 1" using True by (simp add: eq_neg_iff_add_eq_0)
    then have "unat t + 1 = base" using unat_minus_one_base by simp
    moreover from Cons.IH [OF r(1)] have "base * (words_val r' + base ^ length ap * unat c) = base * (words_val ap + 1)" by simp
    ultimately show ?thesis using Cons.IH [OF r(1)] r(2) by (simp add: algebra_simps)
  next
    case False
    then have "unat (t + 1) = unat t + 1" by (rule unat_succ)
    then show ?thesis using False Cons.prems by (auto simp: Let_def)
  qed
qed simp

lemma usub_loop_spec:
  assumes "length as = length bs" and "usub_loop c as bs = (r, c')"
  shows "length r = length as \<and> words_val r + words_val bs + of_bool c = words_val as + base ^ length as * of_bool c'"
  using assms
proof (induction as arbitrary: bs c r)
  case (Cons a as)
  obtain b bs' where bs: "bs = b # bs'" using Cons.prems(1) by (cases bs) auto
  define t k where "t = (if c then a - b - 1 else a - b)" and "k = (if c then a \<le> b else a < b)"
  then have "(if c then (a - b - 1, a \<le> b) else (a - b, a < b)) = (t, k)" by simp
  then obtain r' where r: "usub_loop k as bs' = (r', c')" "r = t # r'"
    using Cons.prems(2) bs by (auto split: prod.splits)
  have st: "unat t + unat b + of_bool c = unat a + base * of_bool k"
    unfolding t_def k_def by (rule sub_step)
  from Cons.IH [OF _ r(1)] Cons.prems(1) bs
  have ih: "length r' = length as" "words_val r' + words_val bs' + of_bool k = words_val as + base ^ length as * of_bool c'" by auto
  have "words_val r + words_val bs + of_bool c = unat a + base * (words_val r' + words_val bs' + of_bool k)"
    unfolding r(2) bs words_val.simps distrib_left using st by linarith
  also have "\<dots> = words_val (a # as) + base ^ length (a # as) * of_bool c'" unfolding ih(2) by (simp add: distrib_left mult.assoc)
  finally show ?case using ih(1) r(2) by simp
qed simp

lemma borrow_loop_spec:
  "0 < words_val ap \<Longrightarrow> length (borrow_loop ap) = length ap \<and> words_val (borrow_loop ap) + 1 = words_val ap"
proof (induction ap)
  case (Cons t ap)
  show ?case
  proof (cases "t = 0")
    case True
    then have "unat (t - 1) + 1 = base" using unat_minus_one_base by simp
    moreover have "0 < words_val ap" using Cons.prems True by simp
    then have "base * (words_val (borrow_loop ap) + 1) = base * words_val ap" using Cons.IH by simp
    ultimately show ?thesis using True Cons.IH \<open>0 < words_val ap\<close> by (simp add: Let_def algebra_simps)
  next
    case False
    then have "unat (t - 1) + 1 = unat t" by (rule unat_pred)
    then show ?thesis using False by (simp add: Let_def)
  qed
qed simp


lemma words_split:
  assumes "bn_room a" and "n \<le> bn_top a"
  shows "bn_abs a = words_val (take n (bn_d a)) + base ^ n * words_val (drop n (take (bn_top a) (bn_d a)))"
    and "length (take n (bn_d a)) = n" and "length (drop n (take (bn_top a) (bn_d a))) = bn_top a - n"
proof -
  have "bn_words a = take n (bn_d a) @ drop n (take (bn_top a) (bn_d a))"
    using assms(2) append_take_drop_id [of n "bn_words a"] by (simp add: bn_words_def min_absorb1)
  moreover show l: "length (take n (bn_d a)) = n" and "length (drop n (take (bn_top a) (bn_d a))) = bn_top a - n"
    using assms by (simp_all add: bn_room_def)
  ultimately show "bn_abs a = words_val (take n (bn_d a)) + base ^ n * words_val (drop n (take (bn_top a) (bn_d a)))"
    by (simp only: bn_abs_def words_val_append l)
qed

text \<open>The words of a sum: no zero word at the top if the operands have none there.\<close>

lemma words_ok:
  assumes "bn_room bn" and "0 < bn_top bn \<Longrightarrow> base ^ (bn_top bn - 1) \<le> bn_abs bn" and "bn_top bn = 0 \<Longrightarrow> \<not> bn_neg bn"
  shows "bn_ok bn"
proof -
  have "bn_d bn ! (bn_top bn - 1) \<noteq> 0" if t: "0 < bn_top bn"
  proof
    assume z: "bn_d bn ! (bn_top bn - 1) = 0"
    have lt: "bn_top bn - 1 < length (bn_d bn)" using assms(1) t unfolding bn_room_def by linarith
    then have "take (Suc (bn_top bn - 1)) (bn_d bn) = take (bn_top bn - 1) (bn_d bn) @ [bn_d bn ! (bn_top bn - 1)]"
      by (rule take_Suc_conv_app_nth)
    then have "bn_abs bn = words_val (take (bn_top bn - 1) (bn_d bn))"
      using t z by (simp add: bn_abs_def bn_words_def words_val_append)
    also have "\<dots> < base ^ (bn_top bn - 1)"
      using words_val_less [of "take (bn_top bn - 1) (bn_d bn)"] lt by simp
    finally show False using assms(2) t by simp
  qed
  with assms show ?thesis by (auto simp: bn_ok_def bn_room_def)
qed

lemma BN_uadd_ok:
  assumes ok: "bn_ok a" "bn_ok b" "bn_room r" "alloc_ok alloc" and w: "bn_wexpand alloc r (max (bn_top a) (bn_top b) + 1) = (True, r1)"
  shows "\<exists>r'. BN_uadd alloc r a b = (True, r') \<and> bn_ok r' \<and> bn_abs r' = bn_abs a + bn_abs b \<and> \<not> bn_neg r'"
proof -
  obtain x y where xy: "(if bn_top a < bn_top b then (b, a) else (a, b)) = (x, y)" by (cases "if bn_top a < bn_top b then (b, a) else (a, b)") auto
  then have x: "bn_ok x" "bn_ok y" "bn_top y \<le> bn_top x" and s: "bn_abs a + bn_abs b = bn_abs x + bn_abs y"
    using ok by (auto split: if_splits)
  let ?n = "bn_top y" and ?m = "bn_top x"
  let ?ap = "drop ?n (take ?m (bn_d x))"
  have r1: "bn_wexpand alloc r (?m + 1) = (True, r1)" using w xy by (auto split: if_splits)
  note e = bn_wexpand_ok [OF ok(3,4) r1]
  obtain low c where low: "bn_add_words 0 (take ?n (bn_d x)) (take ?n (bn_d y)) = (low, c)" by fastforce
  obtain high c' where high: "(if c \<noteq> 0 then carry_loop ?ap else (?ap, 0)) = (high, c')" by fastforce
  note vx = words_split [OF ok_room [OF x(1)] x(3)] and vy = words_split [OF ok_room [OF x(2)] order_refl]
  have lo: "length low = ?n" "words_val low + base ^ ?n * unat c = words_val (take ?n (bn_d x)) + words_val (take ?n (bn_d y))" "unat c \<le> 1"
    using bn_add_words_spec [OF _ _ low] vx(2) vy(2) by auto
  have hi: "length high = ?m - ?n" "words_val high + base ^ (?m - ?n) * unat c' = words_val ?ap + unat c" "unat c' \<le> 1"
    using high carry_loop_spec [of ?ap high c'] vx(3) lo(3) by (auto split: if_splits simp: le_Suc_eq unat_eq_zero)
  have val: "words_val low + base ^ ?n * (words_val high + base ^ (?m - ?n) * unat c') = bn_abs a + bn_abs b"
    unfolding hi(2) s vx(1) vy(1) using lo(2) by (simp add: distrib_left)
  define ws where "ws = (if c' \<noteq> 0 then low @ high @ [1] else low @ high)"
  have ws: "length ws = (if c' \<noteq> 0 then ?m + 1 else ?m)" "words_val ws = bn_abs a + bn_abs b"
    using val lo(1) hi(1,3) x(3) by (auto simp: ws_def words_val_append le_Suc_eq unat_eq_zero)
  define r' where "r' = (store_words ws r1)\<lparr>bn_top := length ws, bn_neg := False\<rparr>"
  have res: "BN_uadd alloc r a b = (True, r')"
    using xy r1 low high ws(1) by (auto simp: BN_uadd_def Let_def ws_def r'_def)
  have "length ws \<le> bn_dmax r1" using ws(1) e(2) by auto
  note st = stored [OF e(1) this, of False]
  then have room: "bn_room r'" and w: "bn_words r' = ws" "bn_top r' = length ws" "\<not> bn_neg r'" by (simp_all add: r'_def)
  have abs: "bn_abs r' = bn_abs a + bn_abs b" using w ws by (simp add: bn_abs_def)
  have "base ^ (length ws - 1) \<le> bn_abs a + bn_abs b" if "0 < length ws"
  proof (cases "c' = 0")
    case True
    then show ?thesis using bn_abs_bounds(2) [OF x(1)] ws(1) s that by (simp add: trans_le_add1)
  next
    case False
    then have "words_val ws = words_val (low @ high) + base ^ ?m"
      using lo(1) hi(1) x(3) by (simp add: ws_def words_val_append power_add [symmetric] distrib_left)
    then show ?thesis using ws False by simp
  qed
  then have "bn_ok r'" using words_ok [OF room] w abs by simp
  with abs w res show ?thesis by simp
qed

lemma BN_usub_ok:
  assumes ok: "bn_ok a" "bn_ok b" "bn_room r" "alloc_ok alloc" and le: "bn_abs b \<le> bn_abs a"
    and r1: "bn_wexpand alloc r (bn_top a) = (True, r1)"
  shows "\<exists>r'. BN_usub alloc r a b = (True, r') \<and> bn_ok r' \<and> bn_abs r' = bn_abs a - bn_abs b \<and> \<not> bn_neg r'"
proof -
  let ?n = "bn_top b" and ?m = "bn_top a"
  let ?ap = "drop ?n (take ?m (bn_d a))"
  have nm: "?n \<le> ?m" using top_less [OF ok(1,2)] le by (rule_tac ccontr) simp
  note e = bn_wexpand_ok [OF ok(3,4) r1]
  obtain low c where low: "usub_loop False (take ?n (bn_d a)) (take ?n (bn_d b)) = (low, c)" by fastforce
  note va = words_split [OF ok_room [OF ok(1)] nm] and vb = words_split [OF ok_room [OF ok(2)] order_refl]
  have lo: "length low = ?n" "words_val low + words_val (take ?n (bn_d b)) = words_val (take ?n (bn_d a)) + base ^ ?n * of_bool c"
    using usub_loop_spec [OF _ low] va(2) vb(2) by auto
  have pos: "0 < words_val ?ap" if "c"
  proof (rule ccontr)
    assume "\<not> 0 < words_val ?ap"
    then have "words_val low + bn_abs b = bn_abs a + base ^ ?n" using lo(2) va(1) vb(1) that by simp
    moreover have "words_val low < base ^ ?n" using words_val_less [of low] lo(1) by simp
    ultimately show False using le by linarith
  qed
  let ?high = "if c then borrow_loop ?ap else ?ap"
  have hi: "length ?high = ?m - ?n" "words_val ?high + of_bool c = words_val ?ap"
    using borrow_loop_spec [of ?ap] pos va(3) by auto
  have "\<not> (c \<and> ?m = ?n)" using pos va(3) by auto
  then have res: "BN_usub alloc r a b =
      (True, bn_correct_top ((store_words (low @ ?high) r1)\<lparr>bn_top := length (low @ ?high), bn_neg := False\<rparr>))"
    using nm r1 low lo(1) hi(1) by (auto simp: BN_usub_def Let_def)
  have "length (low @ ?high) \<le> bn_dmax r1" using e(2) lo(1) hi(1) nm by simp
  note st = stored [OF e(1) this, of False]
  have "words_val (low @ ?high) + bn_abs b = bn_abs a"
  proof -
    have "words_val (low @ ?high) + bn_abs b = words_val low + words_val (take ?n (bn_d b)) + base ^ ?n * words_val ?high"
      using vb(1) by (simp add: words_val_append lo(1))
    also have "\<dots> = words_val (take ?n (bn_d a)) + base ^ ?n * (words_val ?high + of_bool c)"
      unfolding lo(2) by (simp add: distrib_left)
    also have "\<dots> = bn_abs a" unfolding hi(2) va(1) ..
    finally show ?thesis .
  qed
  then have v: "words_val (low @ ?high) = bn_abs a - bn_abs b" by simp
  note ct = bn_correct_top_ok [OF st(1)]
  have "bn_abs ((store_words (low @ ?high) r1)\<lparr>bn_top := length (low @ ?high), bn_neg := False\<rparr>) = bn_abs a - bn_abs b"
    unfolding bn_abs_def st(2) v by (simp add: bn_abs_def)
  with ct show ?thesis unfolding res by simp
qed


section \<open>Signed addition and subtraction\<close>

lemma neg_ok: "bn_ok r \<Longrightarrow> (s \<Longrightarrow> bn_abs r \<noteq> 0) \<Longrightarrow> bn_ok (r\<lparr>bn_neg := s\<rparr>)"
  using bn_abs_zero [of r] by (auto simp: bn_ok_def)

lemma neg_int: "bn_int (r\<lparr>bn_neg := s\<rparr>) = (if s then - int (bn_abs r) else int (bn_abs r))"
  by (simp add: bn_int_def bn_abs_def bn_words_def)

text \<open>When expanding an object succeeds: a growable object, a size the code allows, and an allocator
  that has the memory.\<close>

definition growable :: "word_alloc \<Rightarrow> bignum \<Rightarrow> bool" where
  "growable alloc bn \<longleftrightarrow> bn_room bn \<and> alloc_ok alloc \<and> (\<forall>n. alloc n \<noteq> None) \<and> bn_flags bn AND BN_FLG_STATIC_DATA = 0"

lemma wexpand_growable:
  assumes "growable alloc bn" and "n \<le> 8388607"
  obtains bn' where "bn_wexpand alloc bn n = (True, bn')" and "growable alloc bn'"
proof -
  have m: "(2 ^ 31 - 1) div (4 * 64) = (8388607 :: nat)" by simp
  obtain d where "alloc n = Some d" using assms(1) by (auto simp: growable_def)
  then have "\<exists>bn'. bn_wexpand alloc bn n = (True, bn') \<and> bn_flags bn' = bn_flags bn"
    using assms unfolding bn_wexpand_def m growable_def by auto
  then obtain bn' where b: "bn_wexpand alloc bn n = (True, bn')" "bn_flags bn' = bn_flags bn" by blast
  then have "growable alloc bn'" using bn_wexpand_ok(1) [OF _ _ b(1)] assms(1) by (simp add: growable_def)
  with b(1) show ?thesis by (rule that)
qed

text \<open>The subtraction of the smaller absolute value that \<open>BN_add\<close> and \<open>BN_sub\<close> share.\<close>

definition bn_diff :: "word_alloc \<Rightarrow> bignum \<Rightarrow> bignum \<Rightarrow> bignum \<Rightarrow> bool \<times> bignum" where
  "bn_diff alloc r a b =
     (if BN_ucmp a b < 0 then
        (case BN_usub alloc r b a of (False, r) \<Rightarrow> (False, r) | (True, r) \<Rightarrow> (True, r\<lparr>bn_neg := True\<rparr>))
      else
        (case BN_usub alloc r a b of (False, r) \<Rightarrow> (False, r) | (True, r) \<Rightarrow> (True, r\<lparr>bn_neg := False\<rparr>)))"

lemma BN_add_cases:
  "bn_neg a \<noteq> bn_neg b \<Longrightarrow> BN_add alloc r a b = (if bn_neg a then bn_diff alloc r b a else bn_diff alloc r a b)"
  "bn_neg a = bn_neg b \<Longrightarrow> BN_add alloc r a b = (case BN_uadd alloc r a b of (ret, r) \<Rightarrow> (ret, r\<lparr>bn_neg := bn_neg a\<rparr>))"
  by (simp_all add: BN_add_def bn_diff_def)

lemma BN_sub_cases:
  "bn_neg a \<noteq> bn_neg b \<Longrightarrow> BN_sub alloc r a b =
     (case BN_uadd alloc r a b of (False, r) \<Rightarrow> (False, r) | (True, r) \<Rightarrow> (True, r\<lparr>bn_neg := bn_neg a\<rparr>))"
  by (cases "bn_neg a") (auto simp: BN_sub_def split: prod.splits bool.splits)

lemma BN_sub_diff:
  assumes "bn_neg a = bn_neg b" and w: "bn_wexpand alloc r (max (bn_top a) (bn_top b)) = (True, r1)"
  shows "BN_sub alloc r a b = (if bn_neg a then bn_diff alloc r1 b a else bn_diff alloc r1 a b)"
proof (cases "bn_neg a")
  case True
  have "(if bn_top a < bn_top b then bn_top b else bn_top a) = max (bn_top a) (bn_top b)" by simp
  with True assms show ?thesis by (simp add: BN_sub_def bn_diff_def del: max_less_iff_conj)
next
  case False
  have "(if bn_top b < bn_top a then bn_top a else bn_top b) = max (bn_top a) (bn_top b)" by simp
  with False assms show ?thesis by (simp add: BN_sub_def bn_diff_def)
qed

lemma diff_ok:
  assumes ok: "bn_ok a" "bn_ok b" and g: "growable alloc r" and n: "bn_top a < 8388607" "bn_top b < 8388607"
  shows "\<exists>r'. bn_diff alloc r a b = (True, r') \<and>
    bn_ok r' \<and> bn_int r' = int (bn_abs a) - int (bn_abs b)"
proof (cases "BN_ucmp a b < 0")
  case True
  then have lt: "bn_abs a < bn_abs b" using BN_ucmp_spec(1) [OF ok] by blast
  obtain r1 where r1: "bn_wexpand alloc r (bn_top b) = (True, r1)" using wexpand_growable [OF g, of "bn_top b"] n by auto
  from BN_usub_ok [OF ok(2,1) _ _ _ r1] lt g obtain r' where
    "BN_usub alloc r b a = (True, r')" "bn_ok r'" "bn_abs r' = bn_abs b - bn_abs a"
    by (auto simp: growable_def)
  with True lt neg_ok [of r' True] show ?thesis by (simp add: bn_diff_def neg_int)
next
  case False
  then have le: "bn_abs b \<le> bn_abs a" using BN_ucmp_spec(1) [OF ok] by simp
  obtain r1 where r1: "bn_wexpand alloc r (bn_top a) = (True, r1)" using wexpand_growable [OF g, of "bn_top a"] n by auto
  from BN_usub_ok [OF ok _ _ le r1] g obtain r' where
    "BN_usub alloc r a b = (True, r')" "bn_ok r'" "bn_abs r' = bn_abs a - bn_abs b"
    by (auto simp: growable_def)
  with False le neg_ok [of r' False] show ?thesis by (simp add: bn_diff_def neg_int)
qed

lemma sum_ok:
  assumes ok: "bn_ok a" "bn_ok b" and g: "growable alloc r" and n: "bn_top a < 8388607" "bn_top b < 8388607"
    and s: "s \<Longrightarrow> bn_neg a \<or> bn_neg b"
  shows "\<exists>r'. BN_uadd alloc r a b = (True, r') \<and> bn_ok (r'\<lparr>bn_neg := s\<rparr>) \<and>
    bn_int (r'\<lparr>bn_neg := s\<rparr>) = (if s then - 1 else 1) * (int (bn_abs a) + int (bn_abs b))"
proof -
  obtain r1 where r1: "bn_wexpand alloc r (max (bn_top a) (bn_top b) + 1) = (True, r1)"
    using wexpand_growable [OF g, of "max (bn_top a) (bn_top b) + 1"] n by auto
  from BN_uadd_ok [OF ok _ _ r1] g obtain r' where r':
    "BN_uadd alloc r a b = (True, r')" "bn_ok r'" "bn_abs r' = bn_abs a + bn_abs b" by (auto simp: growable_def)
  have "bn_abs r' \<noteq> 0" if s using s [OF that] ok bn_abs_zero [OF ok(1)] bn_abs_zero [OF ok(2)] r'(3) by (auto simp: bn_ok_def)
  with r' neg_ok [of r' s] show ?thesis by (auto simp: neg_int)
qed

section \<open>Adding and subtracting a word\<close>

lemma unat_add_carry: "unat (x + w) + base * of_bool (x + w < w) = unat (x :: u64) + unat w"
  using unat_lt_base [of x] unat_lt_base [of w] by (auto simp: unat_plus_if' base_def word_less_nat_alt)

lemma add_word_loop_spec:
  "add_word_loop w d = (r, c) \<Longrightarrow> length r = length d \<and> words_val r + base ^ length d * unat c = words_val d + unat w"
proof (induction d arbitrary: w r)
  case (Cons x d)
  show ?case
  proof (cases "w = 0")
    case True
    then show ?thesis using Cons.prems by auto
  next
    case False
    let ?k = "if x + w < w then 1 else 0 :: u64"
    obtain r' where r: "add_word_loop ?k d = (r', c)" "r = (x + w) # r'"
      using False Cons.prems by (auto simp: Let_def split: prod.splits)
    from Cons.IH [OF r(1)] have ih: "length r' = length d" "words_val r' + base ^ length d * unat c = words_val d + of_bool (x + w < w)"
      by auto
    have "words_val r + base ^ length (x # d) * unat c = unat (x + w) + base * (words_val r' + base ^ length d * unat c)"
      unfolding r(2) by (simp add: algebra_simps)
    also have "\<dots> = words_val (x # d) + unat w"
      unfolding ih(2) distrib_left words_val.simps using unat_add_carry [of x w] by linarith
    finally show ?thesis using ih(1) r(2) by simp
  qed
qed simp

lemma add_word_abs_ok:
  assumes ok: "bn_ok a" "0 < bn_top a" and g: "growable alloc a" and n: "bn_top a < 8388607"
  shows "\<exists>a'. add_word_abs alloc a w = (True, a') \<and> bn_ok a' \<and> bn_abs a' = bn_abs a + unat w \<and> bn_neg a' = bn_neg a \<and> 0 < bn_top a'"
proof -
  obtain ws c where l: "add_word_loop w (bn_words a) = (ws, c)" by fastforce
  have la: "length (bn_words a) = bn_top a" using length_bn_words [OF ok_room [OF ok(1)]] .
  have ws: "length ws = bn_top a" "words_val ws + base ^ bn_top a * unat c = bn_abs a + unat w"
    using add_word_loop_spec [OF l] la by (auto simp: bn_abs_def)
  let ?a = "store_words ws a"
  have room: "bn_room ?a" and wa: "bn_words ?a = ws" and ta: "bn_top ?a = bn_top a" "bn_neg ?a = bn_neg a"
    using ws(1) ok_room [OF ok(1)] by (simp_all add: bn_room_def store_words_def bn_words_def)
  show ?thesis
  proof (cases "c = 0")
    case True
    then have abs: "bn_abs ?a = bn_abs a + unat w" using ws(2) wa by (simp add: bn_abs_def)
    have "bn_ok ?a" using words_ok [OF room] bn_abs_bounds(2) [OF ok] ok(2) abs ta by simp
    then show ?thesis using True l abs ta ok(2) by (simp add: add_word_abs_def bn_words_def Let_def)
  next
    case False
    have "growable alloc ?a" using g room by (simp add: growable_def store_words_def)
    then obtain b where b: "bn_wexpand alloc ?a (bn_top a + 1) = (True, b)" using wexpand_growable [of alloc ?a "bn_top a + 1"] n by auto
    have "alloc_ok alloc" using g by (simp add: growable_def)
    note e = bn_wexpand_ok [OF room this b]
    let ?b = "b\<lparr>bn_top := bn_top b + 1, bn_d := (bn_d b)[bn_top b := c]\<rparr>"
    have d: "bn_top b < length (bn_d b)" using e ta by (simp add: bn_room_def)
    then have tk: "take (Suc (bn_top b)) ((bn_d b)[bn_top b := c]) = take (bn_top b) (bn_d b) @ [c]"
      using take_Suc_conv_app_nth [of "bn_top b" "(bn_d b)[bn_top b := c]"] by simp
    then have "bn_words ?b = ws @ [c]" using e(3) wa by (simp add: bn_words_def)
    then have abs: "bn_abs ?b = bn_abs a + unat w" using ws by (simp add: bn_abs_def words_val_append)
    have "bn_ok ?b" using e(1,2,4) ta d False by (simp add: bn_ok_def bn_room_def)
    moreover have "add_word_abs alloc a w = (True, ?b)" using l False b ta by (simp add: add_word_abs_def bn_words_def Let_def)
    ultimately show ?thesis using abs e(5) ta by auto
  qed
qed

lemma sub_word_loop_spec:
  "w \<noteq> 0 \<Longrightarrow> unat w \<le> words_val d \<Longrightarrow> \<exists>r i. sub_word_loop w (d @ d') = Some (r @ d', i) \<and> length r = length d \<and> i < length d \<and>
     words_val r + unat w = words_val d \<and> (\<forall>j. i < j \<longrightarrow> j < length d \<longrightarrow> r ! j = d ! j)"
proof (induction d arbitrary: w)
  case Nil
  then show ?case by (simp add: unat_eq_zero)
next
  case (Cons x d)
  show ?case
  proof (cases "w \<le> x")
    case True
    then have "unat (x - w) + unat w = unat x" by (simp add: unat_sub_if' word_le_nat_alt)
    then show ?thesis using True by (intro exI [of _ "(x - w) # d"] exI [of _ 0]) (auto simp: nth_Cons')
  next
    case False
    then have lt: "unat x < unat w" by (simp add: word_le_nat_alt)
    have "0 < words_val d"
    proof (rule ccontr)
      assume "\<not> 0 < words_val d"
      then show False using Cons.prems lt by simp
    qed
    then have "unat (1 :: u64) \<le> words_val d" by simp
    from Cons.IH [OF _ this] obtain r i where
      r: "sub_word_loop 1 (d @ d') = Some (r @ d', i)" "length r = length d" "i < length d" "words_val r + 1 = words_val d"
        "\<forall>j. i < j \<longrightarrow> j < length d \<longrightarrow> r ! j = d ! j" by auto
    have "unat (x - w) + unat w = unat x + base" using lt unat_lt_base [of w] by (simp add: unat_sub_if' base_def)
    moreover have "base * (words_val r + 1) = base * words_val d" using r(4) by simp
    ultimately have "words_val ((x - w) # r) + unat w = words_val (x # d)" by (simp add: distrib_left)
    then show ?thesis using False r by (intro exI [of _ "(x - w) # r"] exI [of _ "Suc i"]) (auto simp: nth_Cons')
  qed
qed

lemma sub_word_abs_ok:
  assumes ok: "bn_ok a" "0 < bn_top a" and w: "w \<noteq> 0" and s: "\<not> bn_neg a"
  shows "\<exists>a'. sub_word_abs a w = Some (True, a') \<and> bn_ok a' \<and> bn_int a' = int (bn_abs a) - int (unat w)"
proof (cases "bn_top a = 1 \<and> bn_d a ! 0 < w")
  case True
  then obtain x d where d: "bn_d a = x # d" using ok by (cases "bn_d a") (auto simp: bn_ok_def)
  then have "bn_abs a = unat x" "x < w" using True by (simp_all add: bn_abs_def bn_words_def)
  then have "unat (w - x) + bn_abs a = unat w" by (simp add: unat_sub_if' word_less_nat_alt)
  then have "- int (unat (w - x)) = int (unat x) - int (unat w)" using \<open>bn_abs a = unat x\<close> by linarith
  moreover have "w - x \<noteq> 0" using \<open>x < w\<close> by auto
  ultimately show ?thesis using True d ok by (auto simp: sub_word_abs_def bn_ok_def bn_int_def bn_abs_def bn_words_def)
next
  case False
  have le: "unat w \<le> bn_abs a"
  proof (cases "bn_top a = 1")
    case True
    then obtain x d where d: "bn_d a = x # d" using ok by (cases "bn_d a") (auto simp: bn_ok_def)
    then show ?thesis using False True by (simp add: bn_abs_def bn_words_def word_le_nat_alt not_less)
  next
    case n: False
    then have "base ^ 1 \<le> base ^ (bn_top a - 1)" using ok(2) base_pos by (intro power_increasing) auto
    then show ?thesis using bn_abs_bounds(2) [OF ok] unat_lt_base [of w] by simp
  qed
  have la: "length (bn_words a) = bn_top a" using length_bn_words [OF ok_room [OF ok(1)]] .
  have d: "bn_d a = bn_words a @ drop (bn_top a) (bn_d a)" by (simp add: bn_words_def)
  obtain r i where r: "sub_word_loop w (bn_d a) = Some (r @ drop (bn_top a) (bn_d a), i)" "length r = bn_top a" "i < bn_top a"
    "words_val r + unat w = bn_abs a" "\<forall>j. i < j \<longrightarrow> j < bn_top a \<longrightarrow> r ! j = bn_words a ! j"
    using sub_word_loop_spec [OF w, of "bn_words a" "drop (bn_top a) (bn_d a)"] le la d unfolding bn_abs_def by metis
  let ?d = "r @ drop (bn_top a) (bn_d a)"
  let ?top = "if ?d ! i = 0 \<and> i = bn_top a - 1 then bn_top a - 1 else bn_top a"
  let ?a = "a\<lparr>bn_d := ?d, bn_top := ?top\<rparr>"
  have sw: "sub_word_abs a w = Some (True, ?a)" using False r(1) by (auto simp: sub_word_abs_def)
  have room: "bn_room ?a" using ok(1) r(2) by (auto simp: bn_ok_def bn_room_def)
  have "bn_ok ?a \<and> bn_abs ?a = bn_abs a - unat w"
  proof (cases "r ! i = 0 \<and> i = bn_top a - 1")
    case True
    have "bn_top a - 1 < length r" using r(2) ok(2) by simp
    from take_Suc_conv_app_nth [OF this] have "r = take (bn_top a - 1) r @ [r ! (bn_top a - 1)]" using r(2) ok(2) by simp
    then have rr: "r = take (bn_top a - 1) r @ [0]" using True by metis
    have v: "words_val (take (bn_top a - 1) r) = bn_abs a - unat w"
      using arg_cong [OF rr, of words_val] r(4) by (simp add: words_val_append)
    have tp: "?top = bn_top a - 1" using True r(2,3) by (auto simp: nth_append)
    have abs: "bn_abs ?a = bn_abs a - unat w" unfolding bn_abs_def [of ?a] bn_words_def [of ?a] using v tp r(2) by simp
    have "base ^ (bn_top a - 1 - 1) \<le> bn_abs a - unat w" if t: "0 < bn_top a - 1"
    proof -
      obtain k where k: "bn_top a = Suc (Suc k)" using t by (metis Suc_pred ok(2) zero_less_diff gr0_implies_Suc One_nat_def)
      have "(base - 1) * 1 \<le> (base - 1) * base ^ k" using base_pos(1) by (intro mult_left_mono) simp_all
      moreover have "base = 1 + (base - 1)" using base_pos(1) by simp
      then have "base ^ Suc k = base ^ k + (base - 1) * base ^ k" by (metis mult.left_neutral distrib_right power_Suc)
      ultimately have "base ^ k + (base - 1) \<le> base ^ Suc k" by simp
      then show ?thesis using bn_abs_bounds(2) [OF ok] k unat_lt_base [of w] by simp
    qed
    then have "bn_ok ?a" using words_ok [OF room] abs tp s by simp
    with abs show ?thesis by simp
  next
    case nt: False
    have tp: "?top = bn_top a" using nt r(2,3) by (auto simp: nth_append)
    have "r ! (bn_top a - 1) \<noteq> 0"
    proof (cases "i = bn_top a - 1")
      case True
      then show ?thesis using nt by simp
    next
      case n: False
      then have "r ! (bn_top a - 1) = bn_words a ! (bn_top a - 1)" using r(3,5) by simp
      then show ?thesis using ok by (simp add: bn_words_def bn_ok_def)
    qed
    then have "bn_ok ?a" using room tp ok r(2) s by (auto simp: bn_ok_def bn_room_def nth_append)
    moreover have "bn_abs ?a = bn_abs a - unat w" unfolding bn_abs_def [of ?a] bn_words_def [of ?a] using tp r(2,4) by simp
    ultimately show ?thesis by simp
  qed
  then show ?thesis using sw s le by (auto simp: bn_int_def)
qed

lemma word_ops_zero:
  assumes "bn_ok a" and g: "growable alloc a" and w: "w \<noteq> 0" and t: "bn_top a = 0"
  shows "(\<exists>a'. BN_add_word alloc a w = Some (True, a') \<and> bn_ok a' \<and> bn_int a' = bn_int a + int (unat w)) \<and>
    (\<exists>a'. BN_sub_word alloc a w = Some (True, a') \<and> bn_ok a' \<and> bn_int a' = bn_int a - int (unat w))"
proof -
  have z: "bn_int a = 0" "\<not> bn_neg a" using assms(1) t by (auto simp: bn_int_def bn_abs_def bn_words_def bn_ok_def)
  obtain b where b: "bn_wexpand alloc a 1 = (True, b)" "growable alloc b" using wexpand_growable [OF g, of 1] by auto
  have e: "bn_room b" "1 \<le> bn_dmax b" using bn_wexpand_ok [OF _ _ b(1)] g by (auto simp: growable_def)
  let ?b = "(store_words [w] (b\<lparr>bn_neg := False\<rparr>))\<lparr>bn_top := 1\<rparr>"
  have ok: "bn_ok (?b\<lparr>bn_neg := s\<rparr>)" "bn_int (?b\<lparr>bn_neg := s\<rparr>) = (if s then - int (unat w) else int (unat w))" for s
    using e w by (auto simp: bn_ok_def bn_room_def store_words_def bn_int_def bn_abs_def bn_words_def)
  have set: "BN_set_word alloc a w = (True, ?b)" using w b by (simp add: BN_set_word_def)
  have "?b = ?b\<lparr>bn_neg := False\<rparr>" by (simp add: store_words_def)
  with ok [of False] ok [of True] t set w z show ?thesis
    by (auto simp: BN_add_word_def BN_sub_word_def BN_is_zero_def BN_set_negative_def)
qed

section \<open>Properties\<close>

text \<open>C36: on well-formed numbers, into any growable object, with memory available, \<open>BN_add\<close> and
  \<open>BN_sub\<close> succeed and compute the sum and the difference of the signed numbers, in normal form (no zero
  word at the top, no negative zero).\<close>

theorem bn_add_sub_correct:
  assumes "bn_ok a" and "bn_ok b" and "growable alloc r" and "bn_top a < 8388607" and "bn_top b < 8388607"
  shows "(\<exists>r'. BN_add alloc r a b = (True, r') \<and> bn_ok r' \<and> bn_int r' = bn_int a + bn_int b) \<and>
    (\<exists>r'. BN_sub alloc r a b = (True, r') \<and> bn_ok r' \<and> bn_int r' = bn_int a - bn_int b)"
proof
  note n = assms(4,5)
  obtain rs where rs: "BN_uadd alloc r a b = (True, rs)" "bn_neg a \<or> bn_neg b \<or> True"
    and s: "bn_ok (rs\<lparr>bn_neg := bn_neg a\<rparr>)" "bn_int (rs\<lparr>bn_neg := bn_neg a\<rparr>) =
      (if bn_neg a then - 1 else 1) * (int (bn_abs a) + int (bn_abs b))"
    using sum_ok [OF assms(1-3) n, of "bn_neg a"] by auto
  show "\<exists>r'. BN_add alloc r a b = (True, r') \<and> bn_ok r' \<and> bn_int r' = bn_int a + bn_int b"
  proof (cases "bn_neg a = bn_neg b")
    case True
    with rs s show ?thesis by (auto simp: BN_add_cases(2) bn_int_def)
  next
    case False
    obtain r1 r2 where "bn_diff alloc r a b = (True, r1)" "bn_ok r1" "bn_int r1 = int (bn_abs a) - int (bn_abs b)"
      and "bn_diff alloc r b a = (True, r2)" "bn_ok r2" "bn_int r2 = int (bn_abs b) - int (bn_abs a)"
      using diff_ok [OF assms(1-3) n] diff_ok [OF assms(2,1,3) n(2,1)] by blast
    with False show ?thesis unfolding BN_add_cases(1) [OF False] bn_int_def [of a] bn_int_def [of b]
      by (cases "bn_neg a") auto
  qed
  show "\<exists>r'. BN_sub alloc r a b = (True, r') \<and> bn_ok r' \<and> bn_int r' = bn_int a - bn_int b"
  proof (cases "bn_neg a = bn_neg b")
    case True
    obtain r0 where w: "bn_wexpand alloc r (max (bn_top a) (bn_top b)) = (True, r0)" and g: "growable alloc r0"
      using wexpand_growable [OF assms(3), of "max (bn_top a) (bn_top b)"] n by auto
    obtain r1 r2 where "bn_diff alloc r0 a b = (True, r1)" "bn_ok r1" "bn_int r1 = int (bn_abs a) - int (bn_abs b)"
      and "bn_diff alloc r0 b a = (True, r2)" "bn_ok r2" "bn_int r2 = int (bn_abs b) - int (bn_abs a)"
      using diff_ok [OF assms(1,2) g n] diff_ok [OF assms(2,1) g n(2,1)] by blast
    with True show ?thesis unfolding BN_sub_diff [OF True w] bn_int_def [of a] bn_int_def [of b]
      by (cases "bn_neg a") auto
  next
    case False
    with rs s show ?thesis unfolding BN_sub_cases [OF False] bn_int_def [of a] bn_int_def [of b]
      by (cases "bn_neg a") auto
  qed
qed


text \<open>An allocator with memory, for the concrete runs, and the number a word list stands for.\<close>

definition zero_words :: word_alloc where
  "zero_words n = Some (replicate n 0)"

definition num :: "bool \<Rightarrow> u64 list \<Rightarrow> bignum" where
  "num s ws = \<lparr>bn_d = ws, bn_top = length ws, bn_dmax = length ws, bn_neg = s, bn_flags = 0\<rparr>"

lemma num_ok: "ws \<noteq> [] \<Longrightarrow> last ws \<noteq> 0 \<Longrightarrow> bn_ok (num s ws)"
  by (simp add: bn_ok_def num_def last_conv_nth)

lemma num_int: "bn_int (num s ws) = (if s then - int (words_val ws) else int (words_val ws))"
  by (simp add: bn_int_def bn_abs_def bn_words_def num_def)

lemma init_growable: "growable zero_words BN_init"
  by (simp add: growable_def bn_room_def alloc_ok_def zero_words_def BN_init_def)

lemma bn_add_sub_correct_witness:
  "\<exists>r. BN_add zero_words BN_init (num False [- 1]) (num False [1]) = (True, r) \<and> bn_int r = 2 ^ 64"
proof -
  have "bn_int (num False [- 1]) + bn_int (num False [1]) = 2 ^ 64"
    using unat_minus_one_base by (simp add: num_int base_def)
  moreover have "bn_ok (num False [- 1])" "bn_ok (num False [1])" by (simp_all add: num_ok)
  ultimately show ?thesis
    using bn_add_sub_correct [OF _ _ init_growable, of "num False [- 1]" "num False [1]"] by (auto simp: num_def)
qed

text \<open>C40: the comparisons of numbers agree with the order of the integers: \<open>BN_ucmp\<close> on the absolute
  values, \<open>BN_cmp\<close> and \<open>BN_cmp_word\<close> on the signed numbers.\<close>

theorem bn_cmp_correct:
  assumes "bn_ok a" and "bn_ok b"
  shows "sgn (BN_ucmp a b) = sgn (int (bn_abs a) - int (bn_abs b)) \<and>
    BN_cmp (Some a) (Some b) = sgn (bn_int a - bn_int b) \<and>
    BN_cmp_word a w = sgn (bn_int a - int (unat w))"
proof -
  have "BN_ucmp a b < 0 \<longleftrightarrow> bn_abs a < bn_abs b" and "BN_ucmp a b = 0 \<longleftrightarrow> bn_abs a = bn_abs b"
    using BN_ucmp_spec [OF assms] by blast+
  then have "sgn (BN_ucmp a b) = sgn (int (bn_abs a) - int (bn_abs b))" by (auto simp: sgn_if)
  moreover have "BN_cmp_word a w = sgn (bn_int a - int (unat w))"
  proof -
    let ?b = "BN_init\<lparr>bn_d := [w], bn_top := (if 0 < w then 1 else 0), bn_dmax := 1, bn_flags := BN_FLG_STATIC_DATA\<rparr>"
    have "bn_ok ?b" "bn_int ?b = int (unat w)"
      by (auto simp: bn_ok_def BN_init_def bn_int_def bn_abs_def bn_words_def word_gt_0)
    then show ?thesis using BN_cmp_spec [OF assms(1), of ?b] by (simp add: BN_cmp_word_def)
  qed
  ultimately show ?thesis using BN_cmp_spec [OF assms] by simp
qed

lemma bn_cmp_correct_witness: "BN_cmp (Some (num True [5, 1])) (Some (num True [7])) = -1"
proof -
  have "bn_ok (num True [5, 1])" "bn_ok (num True [7])" by (simp_all add: num_ok)
  from bn_cmp_correct [OF this, THEN conjunct2, THEN conjunct1] show ?thesis
    by (simp add: num_int base_def)
qed


text \<open>C37: \<open>BN_add_word\<close> and \<open>BN_sub_word\<close> return on every well-formed growable number, read nothing past
  its array, and add and subtract the word from the signed number, in normal form.\<close>

theorem bn_word_ops_correct:
  assumes "bn_ok a" and "growable alloc a" and "bn_top a < 8388607"
  shows "(\<exists>a'. BN_add_word alloc a w = Some (True, a') \<and> bn_ok a' \<and> bn_int a' = bn_int a + int (unat w)) \<and>
    (\<exists>a'. BN_sub_word alloc a w = Some (True, a') \<and> bn_ok a' \<and> bn_int a' = bn_int a - int (unat w))"
proof (cases "w = 0")
  case True
  then show ?thesis using assms by (simp add: BN_add_word_def BN_sub_word_def)
next
  case w: False
  show ?thesis
  proof (cases "bn_top a = 0")
    case True
    with word_ops_zero [OF assms(1,2) w] show ?thesis by blast
  next
    case False
    then have t: "0 < bn_top a" by simp
    let ?a = "a\<lparr>bn_neg := False\<rparr>"
    have a: "bn_ok ?a" "growable alloc ?a" "bn_abs ?a = bn_abs a"
      using assms by (auto simp: bn_ok_def growable_def bn_room_def bn_abs_def bn_words_def)
    obtain s where s: "sub_word_abs ?a w = Some (True, s)" "bn_ok s" "bn_int s = int (bn_abs a) - int (unat w)"
      using sub_word_abs_ok [OF a(1) _ w] t a(3) by auto
    obtain p where p: "add_word_abs alloc ?a w = (True, p)" "bn_ok p" "bn_abs p = bn_abs a + unat w" "\<not> bn_neg p" "0 < bn_top p"
      using add_word_abs_ok [OF a(1) _ a(2), of w] t assms(3) a(3) by auto
    have ps: "bn_ok (p\<lparr>bn_neg := q\<rparr>)" "bn_int (p\<lparr>bn_neg := q\<rparr>) = (if q then -1 else 1) * (int (bn_abs a) + int (unat w))" for q
      using p neg_ok [OF p(2)] bn_abs_zero [OF p(2)] by (auto simp: neg_int)
    have sn: "bn_int (if \<not> BN_is_zero s then s\<lparr>bn_neg := \<not> bn_neg s\<rparr> else s) = - bn_int s"
      "bn_ok (if \<not> BN_is_zero s then s\<lparr>bn_neg := \<not> bn_neg s\<rparr> else s)"
      using s(2) bn_abs_zero [OF s(2)] by (auto simp: BN_is_zero_def bn_int_def bn_abs_def bn_words_def bn_ok_def)
    show ?thesis
    proof (cases "bn_neg a")
      case True
      then show ?thesis using w False s p ps [of True] sn
        by (simp add: BN_add_word_def BN_sub_word_def BN_is_zero_def bn_int_def [of a])
    next
      case n: False
      then have "?a = a" by simp
      with n w False s p ps [of False] show ?thesis
        by (simp add: BN_add_word_def BN_sub_word_def BN_is_zero_def bn_int_def [of a] bn_int_def [of p])
    qed
  qed
qed

lemma bn_word_ops_correct_witness:
  "\<exists>r. BN_sub_word zero_words (num False [0, 1]) 1 = Some (True, r) \<and> bn_int r = 2 ^ 64 - 1"
proof -
  have "growable zero_words (num False [0, 1])"
    by (simp add: growable_def bn_room_def alloc_ok_def zero_words_def num_def)
  moreover have "bn_top (num False [0, 1]) < 8388607" by (simp add: num_def)
  moreover have "bn_int (num False [0, 1]) - int (unat (1 :: u64)) = 2 ^ 64 - 1" by (simp add: num_int base_def)
  ultimately show ?thesis using bn_word_ops_correct [of "num False [0, 1]" zero_words, THEN conjunct2, of 1] num_ok [of "[0, 1]" False] by auto
qed

end
