(* ===== verification/Bignum_Bytes.thy ===== *)
theory Bignum_Bytes
  imports Bignum_Spec
begin

text \<open>
  Numbers as byte strings (crypto/fipsmodule/bn/bytes.c) and their length in bits (bn.c). The code copies
  between bytes and words with \<open>memcpy\<close> on little-endian targets only; \<open>word_byte\<close> and \<open>le_words\<close> are
  that memory layout.
\<close>

section \<open>The code\<close>

text \<open>The byte at offset \<open>i\<close> of an array of words.\<close>

definition word_byte :: "u64 list \<Rightarrow> nat \<Rightarrow> u8" where
  "word_byte d i = ucast (drop_bit (8 * (i mod 8)) (d ! (i div 8)))"

text \<open>The loop of \<open>BN_bin2bn\<close>: \<open>m\<close> bytes are missing after the next one until the word is complete.\<close>

fun bin_loop :: "u64 \<Rightarrow> nat \<Rightarrow> nat \<Rightarrow> u64 list \<Rightarrow> u8 list \<Rightarrow> u64 list" where
  "bin_loop word m num_words d [] = d"
| "bin_loop word m num_words d (b # inp) =
     (let word = push_bit 8 word OR ucast b in
      if m = 0 then bin_loop 0 (8 - 1) (num_words - 1) (d[num_words - 1 := word]) inp
      else bin_loop word (m - 1) num_words d inp)"

definition BN_bin2bn :: "word_alloc \<Rightarrow> bool \<Rightarrow> u8 list \<Rightarrow> bignum option \<Rightarrow> bignum option" where
  "BN_bin2bn alloc alloc_bn inp ret =
     (case (case ret of None \<Rightarrow> BN_new alloc_bn | Some r \<Rightarrow> Some r) of
        None \<Rightarrow> None
      | Some ret \<Rightarrow>
          (let len = length inp in
           if len = 0 then Some (ret\<lparr>bn_top := 0\<rparr>)
           else
             let num_words = (len - 1) div 8 + 1; m = (len - 1) mod 8 in
             case bn_wexpand alloc ret num_words of
               (False, _) \<Rightarrow> None
             | (True, ret) \<Rightarrow>
                 Some (bn_correct_top (ret\<lparr>bn_top := num_words, bn_neg := False,
                                           bn_d := bin_loop 0 m num_words (bn_d ret) inp\<rparr>))))"

text \<open>Bytes copied over zeroed words.\<close>

function le_words :: "u8 list \<Rightarrow> u64 list" where
  "le_words bs = (if bs = [] then [] else word_of_nat (le_val (take 8 bs)) # le_words (drop 8 bs))"
  by pat_completeness auto
termination
  by (relation "measure length") auto

declare le_words.simps [simp del]

definition BN_le2bn :: "word_alloc \<Rightarrow> bool \<Rightarrow> u8 list \<Rightarrow> bignum option \<Rightarrow> bignum option" where
  "BN_le2bn alloc alloc_bn inp ret =
     (case (case ret of None \<Rightarrow> BN_new alloc_bn | Some r \<Rightarrow> Some r) of
        None \<Rightarrow> None
      | Some ret \<Rightarrow>
          (let len = length inp in
           if len = 0 then Some (ret\<lparr>bn_top := 0, bn_neg := False\<rparr>)
           else
             let num_words = (len - 1) div 8 + 1 in
             case bn_wexpand alloc ret num_words of
               (False, _) \<Rightarrow> None
             | (True, ret) \<Rightarrow> Some (bn_correct_top ((store_words (le_words inp) ret)\<lparr>bn_top := num_words\<rparr>))))"

definition BN_bn2bin :: "bignum \<Rightarrow> u8 list" where
  "BN_bn2bin inp = map (word_byte (bn_d inp)) (rev [0..<BN_num_bytes inp])"

definition BN_bn2le_padded :: "nat \<Rightarrow> bignum \<Rightarrow> u8 list option" where
  "BN_bn2le_padded len inp =
     (let num_bytes = BN_num_bytes inp in
      if len < num_bytes then None
      else Some (map (word_byte (bn_d inp)) [0..<num_bytes] @ replicate (len - num_bytes) 0))"

definition constant_time_select_ulong :: "u64 \<Rightarrow> u64 \<Rightarrow> u64 \<Rightarrow> u64" where
  "constant_time_select_ulong v x y = (let msk = v - 1 in (NOT msk AND x) OR (msk AND y))"

definition constant_time_le_size_t :: "size_t \<Rightarrow> size_t \<Rightarrow> u64" where
  "constant_time_le_size_t x y = drop_bit 63 (x - y - 1) AND 1"

definition read_word_padded :: "bignum \<Rightarrow> size_t \<Rightarrow> u64" where
  "read_word_padded inp i =
     (let dmax = word_of_nat (bn_dmax inp);
          l = bn_d inp ! unat (constant_time_select_ulong (constant_time_le_size_t dmax i) (dmax - 1) i)
      in constant_time_select_ulong (constant_time_le_size_t (word_of_nat (bn_top inp)) i) 0 l)"

definition BN_bn2bin_padded :: "nat \<Rightarrow> bignum \<Rightarrow> u8 list option" where
  "BN_bn2bin_padded len inp =
     (if BN_is_zero inp then Some (replicate len 0)
      else if (len + (8 - 1)) div 8 < bn_top inp then None
      else if len mod 8 \<noteq> 0 \<and> drop_bit (8 * (len mod 8)) (read_word_padded inp (word_of_nat (len div 8))) \<noteq> 0 then None
      else Some (map (\<lambda>i. ucast (drop_bit (8 * (i mod 8)) (read_word_padded inp (word_of_nat (i div 8))))) (rev [0..<len])))"

definition BN_get_word :: "bignum \<Rightarrow> u64" where
  "BN_get_word bn = (if bn_top bn = 0 then 0 else if bn_top bn = 1 then bn_d bn ! 0 else - 1)"

definition BN_get_u64 :: "bignum \<Rightarrow> u64 option" where
  "BN_get_u64 bn = (if bn_top bn = 0 then Some 0 else if bn_top bn = 1 then Some (bn_d bn ! 0) else None)"

section \<open>The length of a number\<close>

lemma bits_table_spec:
  assumes "b < 256"
  shows "b < 2 ^ (bits_table ! b)" and "0 < b \<Longrightarrow> 2 ^ (bits_table ! b - 1) \<le> b" and "b = 0 \<longleftrightarrow> bits_table ! b = 0"
  using assms by (auto simp: bits_table_def nth_append nth_Cons')

lemma and_field:
  fixes w :: "'a::len word"
  shows "unat (w AND push_bit a (mask b)) = unat w div 2 ^ a mod 2 ^ b * 2 ^ a"
proof -
  have "w AND push_bit a (mask b) = push_bit a (take_bit b (drop_bit a w))"
    by (rule bit_word_eqI) (auto simp: bit_simps)
  moreover have "unat w div 2 ^ a mod 2 ^ b * 2 ^ a \<le> unat w div 2 ^ a * 2 ^ a" by (intro mult_right_mono) simp_all
  then have "unat w div 2 ^ a mod 2 ^ b * 2 ^ a < 2 ^ LENGTH('a)"
    using div_times_less_eq_dividend [of "unat w" "2 ^ a"] unat_less_two_power [of w] by linarith
  ultimately show ?thesis
    by (simp only: unat_push_bit_mod unat_take_bit_mod unat_drop_bit_div mod_less)
qed

lemma num_bits_masks:
  fixes l :: u64
  shows "(l AND 0xffffffff00000000 \<noteq> 0) = (2 ^ 32 \<le> unat l)"
    and "(l AND 0xffff000000000000 \<noteq> 0) = (2 ^ 48 \<le> unat l)"
    and "(l AND 0xff00000000000000 \<noteq> 0) = (2 ^ 56 \<le> unat l)"
    and "unat l < 2 ^ 48 \<Longrightarrow> (l AND 0x0000ff0000000000 \<noteq> 0) = (2 ^ 40 \<le> unat l)"
    and "unat l < 2 ^ 32 \<Longrightarrow> (l AND 0xffff0000 \<noteq> 0) = (2 ^ 16 \<le> unat l)"
    and "unat l < 2 ^ 32 \<Longrightarrow> (l AND 0xff000000 \<noteq> 0) = (2 ^ 24 \<le> unat l)"
    and "unat l < 2 ^ 16 \<Longrightarrow> (l AND 0xff00 \<noteq> 0) = (2 ^ 8 \<le> unat l)"
proof -
  have f: "(l AND m \<noteq> 0) = (2 ^ a \<le> unat l)" if m: "m = push_bit a (mask b)" and lt: "unat l < 2 ^ (a + b)" for m a b
  proof -
    have "unat l div 2 ^ a < 2 ^ b" using lt by (intro less_mult_imp_div_less) (simp add: power_add mult.commute)
    then have "unat (l AND m) = unat l div 2 ^ a * 2 ^ a" unfolding m and_field by simp
    then have "l AND m = 0 \<longleftrightarrow> unat l div 2 ^ a = 0" by (metis mult_eq_0_iff power_not_zero unat_0 unat_eq_zero zero_neq_numeral)
    then show ?thesis by (auto simp: div_eq_0_iff not_less)
  qed
  have l: "unat l < 2 ^ 64" using unat_less_two_power [of l] by simp
  show "(l AND 0xffffffff00000000 \<noteq> 0) = (2 ^ 32 \<le> unat l)"
    by (rule f [of _ 32 32]) (use l in \<open>simp_all add: mask_eq_exp_minus_1\<close>)
  show "(l AND 0xffff000000000000 \<noteq> 0) = (2 ^ 48 \<le> unat l)"
    by (rule f [of _ 48 16]) (use l in \<open>simp_all add: mask_eq_exp_minus_1\<close>)
  show "(l AND 0xff00000000000000 \<noteq> 0) = (2 ^ 56 \<le> unat l)"
    by (rule f [of _ 56 8]) (use l in \<open>simp_all add: mask_eq_exp_minus_1\<close>)
  show "unat l < 2 ^ 48 \<Longrightarrow> (l AND 0x0000ff0000000000 \<noteq> 0) = (2 ^ 40 \<le> unat l)"
    by (rule f [of _ 40 8]) (simp_all add: mask_eq_exp_minus_1)
  show "unat l < 2 ^ 32 \<Longrightarrow> (l AND 0xffff0000 \<noteq> 0) = (2 ^ 16 \<le> unat l)"
    by (rule f [of _ 16 16]) (simp_all add: mask_eq_exp_minus_1)
  show "unat l < 2 ^ 32 \<Longrightarrow> (l AND 0xff000000 \<noteq> 0) = (2 ^ 24 \<le> unat l)"
    by (rule f [of _ 24 8]) (simp_all add: mask_eq_exp_minus_1)
  show "unat l < 2 ^ 16 \<Longrightarrow> (l AND 0xff00 \<noteq> 0) = (2 ^ 8 \<le> unat l)"
    by (rule f [of _ 8 8]) (simp_all add: mask_eq_exp_minus_1)
qed

definition bit_length :: "nat \<Rightarrow> nat \<Rightarrow> bool" where
  "bit_length v n \<longleftrightarrow> v < 2 ^ n \<and> (0 < n \<longrightarrow> 2 ^ (n - 1) \<le> v)"

lemma table_bit_length:
  assumes "v div 2 ^ k < 256" and "k = 0 \<or> 2 ^ k \<le> v"
  shows "bit_length v (bits_table ! (v div 2 ^ k) + k)"
proof -
  let ?b = "v div 2 ^ k"
  let ?n = "bits_table ! ?b"
  have "v < (?b + 1) * 2 ^ k" using dividend_less_div_times [of "2 ^ k" v] by (simp add: algebra_simps)
  also have "\<dots> \<le> 2 ^ ?n * 2 ^ k" using bits_table_spec(1) [OF assms(1)] by (intro mult_right_mono) simp_all
  finally have lt: "v < 2 ^ (?n + k)" by (simp add: power_add)
  have "2 ^ (?n + k - 1) \<le> v" if n: "0 < ?n + k"
  proof (cases "?b = 0")
    case True
    then have "k = 0" using assms(2) by (auto simp: div_eq_0_iff)
    then show ?thesis using n True bits_table_spec(3) [OF assms(1)] by simp
  next
    case False
    then have nn: "0 < ?n" using bits_table_spec(3) [OF assms(1)] by simp
    have "2 ^ (?n - 1) * 2 ^ k \<le> ?b * 2 ^ k" using False bits_table_spec(2) [OF assms(1)] by (intro mult_right_mono) simp_all
    also have "\<dots> \<le> v" by (rule div_times_less_eq_dividend)
    finally have "2 ^ (?n - 1 + k) \<le> v" by (simp add: power_add)
    moreover have "?n - 1 + k = ?n + k - 1" using nn by simp
    ultimately show ?thesis by simp
  qed
  with lt show ?thesis by (simp add: bit_length_def)
qed

lemma BN_num_bits_word_spec: "bit_length (unat l) (BN_num_bits_word l)"
proof -
  have d: "unat (drop_bit k l) = unat l div 2 ^ k" for k by (rule unat_drop_bit_div)
  have u: "unat l < 2 ^ 64" using unat_less_two_power [of l] by simp
  have t: "bit_length (unat l) (bits_table ! (unat l div 2 ^ k) + k)" if "unat l < 2 ^ (k + 8)" "k = 0 \<or> 2 ^ k \<le> unat l" for k
    by (rule table_bit_length) (use that in \<open>auto intro!: less_mult_imp_div_less simp: power_add mult.commute\<close>)
  show ?thesis
    unfolding BN_num_bits_word_def d num_bits_masks(1-3)
    using t [of 56] t [of 48] t [of 40] t [of 32] t [of 24] t [of 16] t [of 8] t [of 0] u num_bits_masks(4-7) [of l]
    by auto
qed

lemma BN_num_bits_spec:
  assumes "bn_ok bn"
  shows "bit_length (bn_abs bn) (BN_num_bits bn)"
proof (cases "bn_top bn = 0")
  case True
  then show ?thesis by (simp add: BN_num_bits_def BN_is_zero_def bit_length_def bn_abs_def bn_words_def)
next
  case False
  let ?t = "bn_top bn - 1" and ?w = "bn_d bn ! (bn_top bn - 1)"
  have lt: "?t < length (bn_d bn)" and w: "?w \<noteq> 0" using assms False by (auto simp: bn_ok_def)
  have "bn_words bn = take ?t (bn_d bn) @ [?w]"
    using take_Suc_conv_app_nth [OF lt] False by (simp add: bn_words_def)
  then have v: "bn_abs bn = words_val (take ?t (bn_d bn)) + base ^ ?t * unat ?w"
    using lt by (simp add: bn_abs_def words_val_append)
  have r: "words_val (take ?t (bn_d bn)) < base ^ ?t" using words_val_less [of "take ?t (bn_d bn)"] lt by simp
  let ?k = "BN_num_bits_word ?w"
  have k: "unat ?w < 2 ^ ?k" "0 < ?k" "2 ^ (?k - 1) \<le> unat ?w"
    using BN_num_bits_word_spec [of ?w] w by (auto simp: bit_length_def unat_eq_zero intro!: gr0I)
  have b: "base ^ ?t = 2 ^ (?t * 64)" unfolding base_def by (subst mult.commute) (rule power_mult [symmetric])
  have "bn_abs bn < base ^ ?t * (unat ?w + 1)" using v r by simp
  also have "\<dots> \<le> base ^ ?t * 2 ^ ?k" using k(1) by (intro mult_left_mono) simp_all
  also have "\<dots> = 2 ^ (?t * 64 + ?k)" by (simp only: b power_add)
  finally have "bn_abs bn < 2 ^ (?t * 64 + ?k)" .
  moreover have "2 ^ (?t * 64 + (?k - 1)) \<le> bn_abs bn"
  proof -
    have "base ^ ?t * 2 ^ (?k - 1) \<le> base ^ ?t * unat ?w" using k(3) by (rule mult_left_mono) simp
    then show ?thesis unfolding v power_add b by (rule trans_le_add2)
  qed
  moreover have "?t * 64 + (?k - 1) = ?t * 64 + ?k - 1" using k(2) by simp
  ultimately show ?thesis using False by (simp add: BN_num_bits_def BN_is_zero_def bit_length_def)
qed


text \<open>A number fits into \<open>n\<close> bytes if and only if \<open>BN_num_bytes\<close> is at most \<open>n\<close>.\<close>

lemma power_256: "(256 :: nat) ^ n = 2 ^ (8 * n)"
  using power_mult [of "2 :: nat" 8 n] by simp

lemma BN_num_bytes_iff:
  assumes "bn_ok bn"
  shows "bn_abs bn < 256 ^ n \<longleftrightarrow> BN_num_bytes bn \<le> n"
proof -
  have b: "bn_abs bn < 2 ^ BN_num_bits bn" "0 < BN_num_bits bn \<longrightarrow> 2 ^ (BN_num_bits bn - 1) \<le> bn_abs bn"
    using BN_num_bits_spec [OF assms] by (auto simp: bit_length_def)
  have "bn_abs bn < 2 ^ (8 * n) \<longleftrightarrow> BN_num_bits bn \<le> 8 * n"
  proof
    assume lt: "bn_abs bn < 2 ^ (8 * n)"
    show "BN_num_bits bn \<le> 8 * n"
    proof (rule ccontr)
      assume gt: "\<not> BN_num_bits bn \<le> 8 * n"
      then have "(2 :: nat) ^ (8 * n) \<le> 2 ^ (BN_num_bits bn - 1)" by (intro power_increasing) simp_all
      moreover from gt have "0 < BN_num_bits bn" by simp
      with b have "2 ^ (BN_num_bits bn - 1) \<le> bn_abs bn" by blast
      ultimately show False using lt by linarith
    qed
  next
    assume "BN_num_bits bn \<le> 8 * n"
    then have "(2 :: nat) ^ BN_num_bits bn \<le> 2 ^ (8 * n)" by (intro power_increasing) simp_all
    with b(1) show "bn_abs bn < 2 ^ (8 * n)" by (rule less_le_trans)
  qed
  moreover have "BN_num_bits bn \<le> 8 * n \<longleftrightarrow> BN_num_bytes bn \<le> n" by (auto simp: BN_num_bytes_def)
  ultimately show ?thesis by (simp only: power_256)
qed

section \<open>Writing\<close>

lemma base_256: "base = 256 ^ 8"
  by (simp add: base_def)

lemma word_byte_val:
  "i < 8 * length ws \<Longrightarrow> word_byte ws i = word_of_nat (words_val ws div 256 ^ i mod 256)"
proof (induction ws arbitrary: i)
  case (Cons w ws)
  show ?case
  proof (cases "i < 8")
    case True
    have "(2 :: nat) ^ (8 * i) = 256 ^ i" by (simp add: power_256)
    moreover have "base = 256 ^ i * 256 ^ (8 - i)" using True by (simp add: base_256 power_add [symmetric])
    moreover have "(256 :: nat) ^ (8 - i) = 256 * 256 ^ (7 - i)" using True by (simp add: power_Suc [symmetric] Suc_diff_le del: power_Suc)
    ultimately have e: "(2 :: nat) ^ (8 * i) = 256 ^ i" "words_val (w # ws) = unat w + 256 ^ i * (256 * (256 ^ (7 - i) * words_val ws))"
      by (simp_all add: mult.assoc)
    have "words_val (w # ws) div 256 ^ i = unat w div 2 ^ (8 * i) + 256 * (256 ^ (7 - i) * words_val ws)"
      unfolding e by simp
    then have "words_val (w # ws) div 256 ^ i mod 256 = unat w div 2 ^ (8 * i) mod 256" by simp
    then show ?thesis using True
      by (intro word_eq_unatI) (simp add: word_byte_def unat_ucast_mod unat_drop_bit_div)
  next
    case False
    then obtain j where j: "i = 8 + j" using le_Suc_ex not_less by blast
    have "words_val (w # ws) div 256 ^ i = words_val ws div 256 ^ j"
      using unat_lt_base [of w] by (simp add: j power_add base_256 div_mult2_eq)
    moreover have "(8 + j) div 8 = Suc (j div 8)" by simp
    then have "word_byte (w # ws) i = word_byte ws j" by (simp only: word_byte_def j nth_Cons_Suc mod_add_self1)
    ultimately show ?thesis using Cons j by simp
  qed
qed simp

lemma be_bytes_rev_map: "be_bytes n v = map (\<lambda>i. word_of_nat (v div 256 ^ i mod 256)) (rev [0..<n])"
proof (induction n arbitrary: v)
  case (Suc n)
  have "rev [0..<Suc n] = map Suc (rev [0..<n]) @ [0]"
    by (simp add: upt_conv_Cons map_Suc_upt [symmetric] rev_map del: upt_Suc)
  then show ?case using Suc by (simp add: div_mult2_eq comp_def del: upt_Suc)
qed simp

lemma word_byte_top:
  assumes "bn_ok bn" and "i < 8 * bn_top bn"
  shows "word_byte (bn_d bn) i = word_of_nat (bn_abs bn div 256 ^ i mod 256)"
proof -
  have l: "length (bn_words bn) = bn_top bn" using length_bn_words [OF ok_room [OF assms(1)]] .
  have "i div 8 < bn_top bn" using assms(2) by (simp add: div_less_iff_less_mult)
  then have "word_byte (bn_d bn) i = word_byte (bn_words bn) i" by (simp add: word_byte_def bn_words_def)
  then show ?thesis using word_byte_val [of i "bn_words bn"] assms(2) l by (simp add: bn_abs_def)
qed

lemma BN_num_bytes_le: "bn_ok bn \<Longrightarrow> BN_num_bytes bn \<le> 8 * bn_top bn"
  using BN_num_bytes_iff [of bn "8 * bn_top bn"] bn_abs_bounds(1) [of bn] by (simp add: power_mult base_256)

lemma BN_bn2bin_eq: "bn_ok bn \<Longrightarrow> BN_bn2bin bn = be_bytes (BN_num_bytes bn) (bn_abs bn)"
  using word_byte_top [of bn] BN_num_bytes_le [of bn] by (auto simp: BN_bn2bin_def be_bytes_rev_map)

lemma le_select:
  assumes "unat x < 2 ^ 63" and "unat y < 2 ^ 63"
  shows "constant_time_select_ulong (constant_time_le_size_t x y) p q = (if x \<le> y then p else q)"
proof -
  have "unat (x - y - 1) = (if unat x \<le> unat y then unat x + 2 ^ 64 - unat y - 1 else unat x - unat y - 1)"
    using assms by (cases "x = y") (auto simp: unat_sub_if' unat_minus_one_base [unfolded base_def, THEN add_implies_diff] word_unat_eq_iff)
  then have "unat (drop_bit 63 (x - y - 1)) = (if unat x \<le> unat y then 1 else 0)"
    using assms by (auto simp: unat_drop_bit_div intro!: div_nat_eqI)
  then have "drop_bit 63 (x - y - 1) = (if x \<le> y then 1 else 0)"
    by (intro word_eq_unatI) (simp add: word_le_nat_alt)
  then have "constant_time_le_size_t x y = (if x \<le> y then 1 else 0)" by (simp add: constant_time_le_size_t_def)
  then show ?thesis by (simp add: constant_time_select_ulong_def Let_def)
qed


section \<open>Reading\<close>

text \<open>\<open>bin_loop\<close> fills the words of index \<open>k\<close> and below, when \<open>m + 1\<close> bytes are missing for the next.\<close>

lemma bin_loop_spec:
  "length inp = 8 * k + m + 1 \<Longrightarrow> m < 8 \<Longrightarrow> unat word < 256 ^ (7 - m) \<Longrightarrow> k < length d \<Longrightarrow>
   length (bin_loop word m (Suc k) d inp) = length d \<and> drop (Suc k) (bin_loop word m (Suc k) d inp) = drop (Suc k) d \<and>
   words_val (take (Suc k) (bin_loop word m (Suc k) d inp)) = unat word * 256 ^ length inp + be_val inp"
proof (induction inp arbitrary: word m k d)
  case (Cons b inp)
  let ?w = "push_bit 8 word OR ucast b"
  have "(256 :: nat) ^ (7 - m) \<le> 256 ^ 7" by (intro power_increasing) simp_all
  then have "unat word * 256 < 2 ^ LENGTH(64)" using Cons.prems(3) by simp
  then have w: "unat ?w = unat word * 256 + unat b" by (rule unat_push8_or) simp
  show ?case
  proof (cases "m = 0")
    case m: True
    let ?d = "d[k := ?w]"
    have l: "length inp = 8 * k" using Cons.prems(1) m by simp
    show ?thesis
    proof (cases k)
      case 0
      then show ?thesis using m l Cons.prems(4) w by (cases d) simp_all
    next
      case (Suc k')
      let ?r = "bin_loop 0 7 (Suc k') ?d inp"
      have r: "length ?r = length d" "drop k ?r = drop k ?d" "words_val (take k ?r) = be_val inp"
        using Cons.IH [of k' 7 0 ?d] l Suc Cons.prems(4) by simp_all
      have d: "drop k ?d = ?w # drop (Suc k) d" using Cons.prems(4) by (simp add: drop_update_swap Cons_nth_drop_Suc [symmetric])
      have "?r ! k = ?w" using r(1,2) d Cons.prems(4) by (metis hd_drop_conv_nth list.sel(1))
      moreover have "drop (Suc k) ?r = drop (Suc k) d" using r(2) d by (metis drop_Suc drop_tl list.sel(3))
      moreover have "take (Suc k) ?r = take k ?r @ [?r ! k]" using r(1) Cons.prems(4) by (intro take_Suc_conv_app_nth) simp
      moreover have "base ^ k = 256 ^ length inp" by (simp add: l base_256 power_mult)
      ultimately show ?thesis using m w r Suc Cons.prems(4) by (simp add: words_val_append algebra_simps)
    qed
  next
    case False
    have "unat ?w < (unat word + 1) * 256" using w by simp
    also have "\<dots> \<le> 256 ^ (7 - m) * 256" using Cons.prems(3) by (intro mult_right_mono) simp_all
    also have "(256 :: nat) ^ (7 - m) * 256 = 256 ^ (7 - (m - 1))"
      using False Cons.prems(2) by (simp add: power_Suc2 [symmetric] Suc_diff_le del: power_Suc power_Suc2)
    finally have "unat ?w < 256 ^ (7 - (m - 1))" .
    with Cons.IH [of k "m - 1" ?w d] Cons.prems False w show ?thesis by (simp add: algebra_simps)
  qed
qed simp

lemma BN_bin2bn_ok:
  assumes g: "growable alloc r" and ok: "bn_ok r" and n: "length inp \<le> 8 * 8388607"
  shows "\<exists>r'. BN_bin2bn alloc alloc_bn inp (Some r) = Some r' \<and> bn_int r' = int (be_val inp) \<and>
    bn_dmax r' \<le> max (bn_dmax r) (length inp) \<and> bn_neg r' = (inp = [] \<and> bn_neg r) \<and> (bn_neg r' \<or> bn_ok r') \<and>
    (inp = [] \<longrightarrow> bn_top r' = 0)"
proof (cases "inp = []")
  case True
  then show ?thesis using ok by (auto simp: BN_bin2bn_def bn_int_def bn_abs_def bn_words_def bn_ok_def)
next
  case False
  let ?k = "(length inp - 1) div 8" and ?m = "(length inp - 1) mod 8"
  have l: "length inp = 8 * ?k + ?m + 1" using False by simp
  have "?k + 1 \<le> 8388607" using n False by simp
  then obtain b where b: "bn_wexpand alloc r (?k + 1) = (True, b)" using wexpand_growable [OF g] by blast
  have "bn_room r" "alloc_ok alloc" using g by (simp_all add: growable_def)
  note e = bn_wexpand_ok [OF this b]
  let ?d = "bin_loop 0 ?m (?k + 1) (bn_d b) inp"
  let ?r = "b\<lparr>bn_top := ?k + 1, bn_neg := False, bn_d := ?d\<rparr>"
  have d: "length ?d = length (bn_d b)" "words_val (take (?k + 1) ?d) = be_val inp"
    using bin_loop_spec [OF l, of 0 "bn_d b"] e(1,2) by (simp_all add: bn_room_def)
  then have room: "bn_room ?r" and abs: "bn_abs ?r = be_val inp"
    using e(1,2) by (simp_all add: bn_room_def bn_abs_def bn_words_def)
  have "bn_dmax b \<le> max (bn_dmax r) (?k + 1)" using b by (auto simp: bn_wexpand_def split: if_splits option.splits)
  moreover have "?k + 1 \<le> length inp" using False by (cases inp) auto
  ultimately have "bn_dmax b \<le> max (bn_dmax r) (length inp)" by linarith
  moreover have "BN_bin2bn alloc alloc_bn inp (Some r) = Some (bn_correct_top ?r)"
    using False b by (simp add: BN_bin2bn_def Let_def)
  ultimately show ?thesis using bn_correct_top_ok [OF room] abs False by (auto simp: bn_int_def)
qed

lemma le_words_spec: "words_val (le_words bs) = le_val bs \<and> length (le_words bs) = (length bs + 7) div 8"
proof (induction bs rule: le_words.induct)
  case (1 bs)
  show ?case
  proof (cases "bs = []")
    case True
    then show ?thesis by (simp add: le_words.simps)
  next
    case False
    have "le_val (take 8 bs) < 256 ^ length (take 8 bs)" by (rule le_val_less)
    also have "\<dots> \<le> 256 ^ 8" by (intro power_increasing) simp_all
    finally have t: "unat (word_of_nat (le_val (take 8 bs)) :: u64) = le_val (take 8 bs)" by (simp add: unat_of_nat)
    have "le_val bs = le_val (take 8 bs) + 256 ^ length (take 8 bs) * le_val (drop 8 bs)"
      by (metis append_take_drop_id le_val_append)
    moreover have "256 ^ length (take 8 bs) * le_val (drop 8 bs) = base * le_val (drop 8 bs)"
      by (cases "8 \<le> length bs") (simp_all add: base_256)
    ultimately have "le_val bs = le_val (take 8 bs) + base * le_val (drop 8 bs)" by (simp only:)
    moreover have "Suc ((length bs - 8 + 7) div 8) = (length bs + 7) div 8"
    proof -
      have "0 < length bs" using False by simp
      then have "(length bs + 7) div 8 = (length bs - 1) div 8 + 1" by (cases "length bs") simp_all
      moreover have "Suc ((length bs - 8 + 7) div 8) = (length bs - 1) div 8 + 1"
        by (cases "8 \<le> length bs") (simp_all add: div_eq_0_iff)
      ultimately show ?thesis by simp
    qed
    moreover have "le_words bs = word_of_nat (le_val (take 8 bs)) # le_words (drop 8 bs)"
      using False by (subst le_words.simps) simp
    ultimately show ?thesis using 1 [OF False] t by simp
  qed
qed

lemma BN_le2bn_ok:
  assumes g: "growable alloc r" and ok: "bn_ok r" and n: "length inp \<le> 8 * 8388607"
  shows "\<exists>r'. BN_le2bn alloc alloc_bn inp (Some r) = Some r' \<and> bn_ok r' \<and> bn_abs r' = le_val inp \<and>
    bn_neg r' = (bn_neg r \<and> le_val inp \<noteq> 0)"
proof (cases "inp = []")
  case True
  then show ?thesis using ok by (auto simp: BN_le2bn_def bn_int_def bn_abs_def bn_words_def bn_ok_def)
next
  case False
  let ?k = "(length inp - 1) div 8 + 1"
  have lw: "length (le_words inp) = ?k" using le_words_spec [of inp] False by (cases inp) auto
  have "?k \<le> 8388607" using n False by simp
  then obtain b where b: "bn_wexpand alloc r ?k = (True, b)" using wexpand_growable [OF g] by blast
  have "bn_room r" "alloc_ok alloc" using g by (simp_all add: growable_def)
  note e = bn_wexpand_ok [OF this b]
  let ?r = "(store_words (le_words inp) b)\<lparr>bn_top := ?k\<rparr>"
  have room: "bn_room ?r" and abs: "bn_abs ?r = le_val inp" and neg: "bn_neg ?r = bn_neg r"
    using e(1,2,5) lw le_words_spec [of inp] by (simp_all add: bn_room_def bn_abs_def bn_words_def store_words_def)
  have "BN_le2bn alloc alloc_bn inp (Some r) = Some (bn_correct_top ?r)"
    using False b by (simp add: BN_le2bn_def Let_def)
  with bn_correct_top_ok [OF room] abs neg show ?thesis by simp
qed


lemma read_word_padded_eq:
  assumes "bn_ok bn" and "bn_dmax bn < 2 ^ 63" and "0 < bn_top bn" and "i < 2 ^ 63"
  shows "read_word_padded bn (word_of_nat i) = (if i < bn_top bn then bn_d bn ! i else 0)"
proof -
  have u: "unat (word_of_nat n :: size_t) = n" if "n < 2 ^ 63" for n using that by (simp add: unat_of_nat)
  have lt: "unat (word_of_nat (bn_dmax bn) :: size_t) < 2 ^ 63" "unat (word_of_nat (bn_top bn) :: size_t) < 2 ^ 63"
    "unat (word_of_nat i :: size_t) < 2 ^ 63" and t: "bn_top bn \<le> bn_dmax bn"
    using u assms by (simp_all add: bn_ok_def)
  show ?thesis
    unfolding read_word_padded_def Let_def le_select [OF lt(1,3)] le_select [OF lt(2,3)]
    using u [OF assms(4)] u [of "bn_top bn"] u [OF assms(2)] t assms(2) by (auto simp: word_le_nat_alt)
qed

lemma words_val_drop: "words_val ws div base ^ n = words_val (drop n ws)"
proof (cases "n \<le> length ws")
  case True
  then have "words_val ws = words_val (take n ws) + base ^ n * words_val (drop n ws)"
    by (metis append_take_drop_id length_take min_absorb2 words_val_append)
  moreover have "words_val (take n ws) < base ^ n" using words_val_less [of "take n ws"] True by simp
  moreover have "base ^ n \<noteq> 0" using base_pos(1) by simp
  ultimately show ?thesis using div_mult_self2 [of "base ^ n" "words_val (take n ws)"] by (metis div_less add_0_right)
next
  case False
  have "base ^ length ws \<le> base ^ n" using False base_pos(1) by (intro power_increasing) simp_all
  then show ?thesis using False words_val_less [of ws] by simp
qed

text \<open>The size test of \<open>BN_bn2bin_padded\<close>.\<close>

lemma padded_fits:
  assumes ok: "bn_ok bn" and t: "0 < bn_top bn"
  shows "bn_abs bn < 256 ^ len \<longleftrightarrow> bn_top bn \<le> (len + 7) div 8 \<and>
    (len mod 8 \<noteq> 0 \<longrightarrow> (if len div 8 < bn_top bn then unat (bn_d bn ! (len div 8)) else 0) < 256 ^ (len mod 8))"
proof -
  let ?q = "len div 8" and ?m = "len mod 8"
  have l: "length (bn_words bn) = bn_top bn" using length_bn_words [OF ok_room [OF ok]] .
  have p: "256 ^ len = base ^ ?q * 256 ^ ?m"
    by (simp only: base_256 power_mult [symmetric] power_add [symmetric] mult_div_mod_eq)
  have "bn_abs bn < 256 ^ len \<longleftrightarrow> words_val (drop ?q (bn_words bn)) < 256 ^ ?m"
    unfolding p words_val_drop [symmetric] bn_abs_def
    using base_pos(1) by (simp add: div_less_iff_less_mult mult.commute)
  also have "\<dots> \<longleftrightarrow> bn_top bn \<le> (len + 7) div 8 \<and>
      (?m \<noteq> 0 \<longrightarrow> (if ?q < bn_top bn then unat (bn_d bn ! ?q) else 0) < 256 ^ ?m)"
  proof (cases "bn_top bn \<le> ?q")
    case True
    then have "bn_top bn \<le> (len + 7) div 8" using div_le_mono [of len "len + 7" 8] by linarith
    with True l show ?thesis by simp
  next
    case False
    then have lt: "?q < length (bn_words bn)" using l by simp
    have dr: "drop ?q (bn_words bn) = bn_d bn ! ?q # drop (Suc ?q) (bn_words bn)"
      using Cons_nth_drop_Suc [OF lt] False by (simp add: bn_words_def)
    show ?thesis
    proof (cases "?m = 0")
      case True
      then have "\<not> bn_top bn \<le> (len + 7) div 8" using False by (simp add: div_add1_eq [of len 7 8])
      moreover have "drop ?q (bn_words bn) \<noteq> []" and "last (drop ?q (bn_words bn)) \<noteq> 0"
        using lt ok t l by (auto simp: last_conv_nth bn_ok_def bn_words_def)
      with words_val_top [of "drop ?q (bn_words bn)"] have "words_val (drop ?q (bn_words bn)) \<noteq> 0"
        by (metis base_pos(1) le_zero_eq less_numeral_extra(3) zero_less_power)
      ultimately show ?thesis using True by simp
    next
      case m: False
      have less: "words_val (drop ?q (bn_words bn)) < 256 ^ ?m \<longleftrightarrow>
          drop (Suc ?q) (bn_words bn) = [] \<and> unat (bn_d bn ! ?q) < 256 ^ ?m"
        unfolding dr
      proof (cases "drop (Suc ?q) (bn_words bn) = []")
        case True
        then show "(words_val (bn_d bn ! ?q # drop (Suc ?q) (bn_words bn)) < 256 ^ ?m) =
          (drop (Suc ?q) (bn_words bn) = [] \<and> unat (bn_d bn ! ?q) < 256 ^ ?m)" by simp
      next
        case False
        let ?r = "drop (Suc ?q) (bn_words bn)"
        have "last ?r = last (bn_words bn)" using False by (simp add: last_drop)
        also have "last (bn_words bn) = bn_d bn ! (bn_top bn - 1)"
          using t l ok by (subst last_conv_nth) (auto simp: bn_words_def bn_ok_def)
        also have "\<dots> \<noteq> 0" using ok t by (simp add: bn_ok_def)
        finally have "last ?r \<noteq> 0" .
        with False have "base ^ (length ?r - 1) \<le> words_val ?r" by (rule words_val_top)
        moreover have "1 \<le> base ^ (length ?r - 1)" using base_pos(1) by simp
        ultimately have "1 \<le> words_val ?r" by (rule order.trans [rotated])
        then have "base \<le> base * words_val ?r" by simp
        moreover have "(256::nat) ^ ?m \<le> 256 ^ 8" by (intro power_increasing) simp_all
        moreover have "base \<le> words_val (bn_d bn ! ?q # ?r)"
          unfolding words_val.simps using \<open>base \<le> base * words_val ?r\<close> by (rule trans_le_add2)
        ultimately have "256 ^ ?m \<le> words_val (bn_d bn ! ?q # ?r)" unfolding base_256 by (meson le_trans)
        then show "(words_val (bn_d bn ! ?q # ?r) < 256 ^ ?m) = (?r = [] \<and> unat (bn_d bn ! ?q) < 256 ^ ?m)"
          using False by simp
      qed
      have "?m < 8" by simp
      then have "(?m + 7) div 8 = 1" using m by (intro div_nat_eqI) simp_all
      then have "(len + 7) div 8 = Suc ?q" by (simp add: div_add1_eq [of len 7 8])
      with less m lt l show ?thesis by auto
    qed
  qed
  finally show ?thesis .
qed

section \<open>Properties\<close>

lemma BN_bn2bin_padded_eq:
  assumes ok: "bn_ok bn" and d: "bn_dmax bn < 2 ^ 63" and len: "len < 2 ^ 63"
  shows "BN_bn2bin_padded len bn = (if bn_abs bn < 256 ^ len then Some (be_bytes len (bn_abs bn)) else None)"
proof (cases "bn_top bn = 0")
  case True
  then have z: "bn_abs bn = 0" by (simp add: bn_abs_def bn_words_def)
  have "be_bytes len 0 = replicate len 0" by (simp add: be_bytes_rev_map map_replicate_const)
  with True z show ?thesis by (simp add: BN_bn2bin_padded_def BN_is_zero_def)
next
  case False
  then have t: "0 < bn_top bn" by simp
  have rd: "read_word_padded bn (word_of_nat (i div 8)) = (if i div 8 < bn_top bn then bn_d bn ! (i div 8) else 0)"
    if "i \<le> len" for i
    by (rule read_word_padded_eq [OF ok d t]) (use that len in linarith)
  have byte: "ucast (drop_bit (8 * (i mod 8)) (read_word_padded bn (word_of_nat (i div 8)))) =
      (word_of_nat (bn_abs bn div 256 ^ i mod 256) :: u8)" if i: "i < len" for i
  proof (cases "i < 8 * bn_top bn")
    case True
    then show ?thesis using word_byte_top [OF ok True] rd [of i] i by (simp add: word_byte_def div_less_iff_less_mult)
  next
    case False
    then have "bn_abs bn < 256 ^ i"
      using BN_num_bytes_iff [OF ok, of i] BN_num_bytes_le [OF ok] by linarith
    then show ?thesis using rd [of i] i False by (simp add: div_less_iff_less_mult)
  qed
  have w: "drop_bit k (word :: u64) \<noteq> 0 \<longleftrightarrow> \<not> unat word < 2 ^ k" for k word
    by (simp add: unat_eq_zero [symmetric] unat_drop_bit_div div_eq_0_iff)
  have "bn_abs bn < 256 ^ len \<longleftrightarrow> \<not> (len + (8 - 1)) div 8 < bn_top bn \<and>
     \<not> (len mod 8 \<noteq> 0 \<and> drop_bit (8 * (len mod 8)) (read_word_padded bn (word_of_nat (len div 8))) \<noteq> 0)"
    unfolding w padded_fits [OF ok t] rd [OF order.refl] by (auto simp: power_256)
  with t byte show ?thesis by (auto simp: BN_bn2bin_padded_def BN_is_zero_def be_bytes_rev_map)
qed

lemma BN_bn2le_padded_eq:
  assumes ok: "bn_ok bn"
  shows "BN_bn2le_padded len bn = (if bn_abs bn < 256 ^ len then Some (rev (be_bytes len (bn_abs bn))) else None)"
proof (cases "BN_num_bytes bn \<le> len")
  case True
  let ?n = "BN_num_bytes bn" and ?f = "\<lambda>i. word_of_nat (bn_abs bn div 256 ^ i mod 256) :: u8"
  have "map ?f [?n..<len] = map (\<lambda>i. 0) [?n..<len]" using BN_num_bytes_iff [OF ok] by simp
  then have "map ?f [?n..<len] = replicate (len - ?n) 0" by (simp add: map_replicate_const)
  moreover have "[0..<len] = [0..<?n] @ [?n..<len]" using upt_add_eq_append [of 0 ?n "len - ?n"] True by simp
  moreover have "map (word_byte (bn_d bn)) [0..<?n] = map ?f [0..<?n]"
    using word_byte_top [OF ok] BN_num_bytes_le [OF ok] by simp
  ultimately have "rev (be_bytes len (bn_abs bn)) = map (word_byte (bn_d bn)) [0..<?n] @ replicate (len - ?n) 0"
    unfolding be_bytes_rev_map rev_map rev_rev_ident by (simp only: map_append)
  with True show ?thesis using BN_num_bytes_iff [OF ok, of len] by (simp add: BN_bn2le_padded_def Let_def)
qed (use BN_num_bytes_iff [OF ok, of len] in \<open>simp add: BN_bn2le_padded_def Let_def\<close>)

text \<open>C38: the three writers of \<open>bytes.c\<close> agree with the positional notation. \<open>BN_bn2bin\<close> writes the absolute
  value in exactly \<open>BN_num_bytes\<close> big-endian bytes, the least number that holds it; the padded writers succeed
  if and only if the value fits into the length asked for, and then write all its bytes with leading
  (trailing for little-endian) zeros. The value never decides an array index out of range.\<close>

theorem bn_bytes_correct:
  assumes "bn_ok bn" and "bn_dmax bn < 2 ^ 63" and "len < 2 ^ 63"
  shows "BN_bn2bin bn = be_bytes (BN_num_bytes bn) (bn_abs bn) \<and> (bn_abs bn < 256 ^ n \<longleftrightarrow> BN_num_bytes bn \<le> n) \<and>
    BN_bn2bin_padded len bn = (if bn_abs bn < 256 ^ len then Some (be_bytes len (bn_abs bn)) else None) \<and>
    BN_bn2le_padded len bn = (if bn_abs bn < 256 ^ len then Some (rev (be_bytes len (bn_abs bn))) else None)"
  by (intro conjI BN_bn2bin_eq BN_num_bytes_iff BN_bn2bin_padded_eq BN_bn2le_padded_eq assms)

lemma bn_bytes_correct_witness:
  "BN_bn2bin (num False [0x1234]) = be_bytes 2 0x1234 \<and> BN_bn2bin_padded 1 (num True [0x1234]) = None"
proof -
  have n: "BN_num_bytes (num False [0x1234]) = 2" by code_simp
  have "bn_ok (num s [0x1234])" "bn_abs (num s [0x1234]) = 0x1234" "bn_dmax (num s [0x1234]) < 2 ^ 63" for s
    by (rule num_ok, simp_all) (simp_all add: bn_abs_def bn_words_def num_def)
  note w = this
  have len: "(1 :: nat) < 2 ^ 63" by simp
  show ?thesis
    using bn_bytes_correct [OF w(1) w(3) len, of False 0] bn_bytes_correct [OF w(1) w(3) len, of True 0]
    unfolding n w(2) by simp
qed



end
