(* ===== verification/Spec2Isabelle.thy ===== *)
theory Spec2Isabelle
  imports Nanopb_Message_Roundtrip Nanopb_Decode_Bound Cbb_Roundtrip Base64_Stream Bio_Pair_Spec Lhash_Spec Asn1_Mbstr_Spec Bignum_Bytes
begin

text \<open>
  A verification development for the C code that this iOS application ships through its pods: the
  protocol buffer library nanopb (nanopb/), which the Firebase pods use, and the parts of the
  cryptography library BoringSSL (BoringSSL/crypto/) that handle byte strings, data structures and
  numbers. The target is a 64-bit little-endian one with 8-bit bytes, as iOS devices are; \<open>size_t\<close> and
  pointers are 64-bit words and wrap around, the nanopb descriptors have 32-bit members
  (\<open>PB_FIELD_32BIT\<close>) and \<open>PB_ENABLE_MALLOC\<close> is not set, as the build settings of the pod say.

  \<^bold>\<open>Conventions.\<close> Definitions have the names of the C functions and types. A function that changes objects
  returns them updated. A loop is a function of its own, named after what it does. Loops that are not
  structural have a measure or are \<open>partial_function (option)\<close>, where None is "does not return"; that
  they return is then part of the theorems. None is also used for undefined behaviour (a null
  function pointer, a shift by the width of the word), as each theory says. The allocator is always a
  parameter that may fail. Byte pointers are lists of the bytes from the pointer on; only the message
  structs of nanopb, which are accessed through offsets, need an explicit memory.

  \<^bold>\<open>nanopb.\<close> A message struct in memory and a descriptor array are turned into bytes and back.
    \<^item> \<open>Nanopb_Stream\<close>: streams with callbacks and byte counters, and the buffer streams
      (\<open>pb_istream_s\<close>, \<open>pb_ostream_s\<close>, \<open>pb_read\<close>, \<open>pb_write\<close>, \<open>buf_read\<close>, \<open>buf_write\<close> of pb_decode.c and
      pb_encode.c).
    \<^item> \<open>Nanopb_Wire\<close>: varints, signed varints, fixed-size values, tags, strings, substreams and skipping.
      \<open>Nanopb_Roundtrip\<close>: each encoder is inverted by its decoder, whatever follows in the buffer, and
      the decoders' results on arbitrary bytes.
    \<^item> \<open>Nanopb_Iter\<close>: descriptors and the iterator of pb_common.c. The search by tag returns from any
      position and finds the field.
    \<^item> \<open>Nanopb_Mem\<close>: the byte memory. \<open>Nanopb_Encode\<close>: pb_encode.c from \<open>pb_encode\<close> down to the scalar
      encoders. \<open>Nanopb_Decode\<close>: pb_decode.c from \<open>pb_decode\<close> down to the scalar decoders, with
      defaults, extensions and callbacks. \<open>Nanopb_Layout\<close>: where the fields of a descriptor array are.
    \<^item> \<open>Nanopb_Encode_Spec\<close>: a reference encoding of messages as byte lists (\<open>message_bytes\<close>); \<open>pb_encode\<close>
      writes it. Each step of the encoder \<open>emits\<close> its bytes: it appends them if there is room and stops
      with an error after a prefix if not; this is closed under sequence, arrays and submessages, whose
      two passes (sizing and writing) agree.
    \<^item> \<open>Nanopb_Decode_Safe\<close>: on any input the decoder returns, writes only inside the message struct and
      reads only forwards. \<open>reads\<close> and \<open>keeps\<close> are the two halves of this, proved function by function. The
      check of the required fields is exact for up to 63 of them but 32; for the other numbers it says when
      the C code shifts by the width of the word or reads past \<open>fields_seen\<close>.
    \<^item> \<open>Nanopb_Decode_Bound\<close>: on any input, accepted or refused, the decoder never reads past the end of it:
      a read outside the buffer may do anything (every callback that agrees with \<open>buf_read\<close> in range),
      and the result is the same.
    \<^item> \<open>Nanopb_Value\<close>: the values that a message struct holds (\<open>message_value\<close>), which depend on the bytes of the
      struct only, and the structs that \<open>pb_message_set_to_defaults\<close> leaves (\<open>initialised\<close>).
      \<open>Nanopb_Message_Roundtrip\<close>: decoding what the encoder wrote gives these values back. Each decoding
      step reads its part of the encoding exactly (\<open>decodes\<close> for items, \<open>runs\<close> for the loop) and writes
      its field only; entries and fields are put together by induction. It is stated for descriptors
      without oneofs and with fields that do not overlap (\<open>plain\<close>); a proto3 submessage without a
      presence flag is left out because the encoder can lose its content (\<open>proto3_repeated_dropped\<close>).

  The recursion of \<open>pb_encode\<close> and \<open>pb_decode\<close> through submessages is bounded by an argument \<open>d\<close>; \<open>encodable\<close>
  and \<open>layout_ok\<close> say that \<open>d\<close> is enough for a message type, and then the results do not depend on it
  being larger than the nesting of the type.

  \<^bold>\<open>Byte strings.\<close>
    \<^item> \<open>Bytestring_Cbs\<close> (bytestring/cbs.c): the parser. \<open>Der_Spec\<close> and \<open>Der_Uint\<close>: it accepts exactly the DER
      encodings, stated without the parser.
    \<^item> \<open>Bytestring_Cbb\<close> (bytestring/cbb.c): the builder, a shared buffer and a chain of pending children.
      \<open>Cbb_Spec\<close>, \<open>Cbb_Ops\<close>: a build refines an abstract builder over byte lists (a simulation, call by
      call). \<open>Cbb_Roundtrip\<close>: nested prefixes, when a flush succeeds, and reading back with CBS.
    \<^item> \<open>Mem_Buf\<close> (mem.c, buf/buf.c): reallocation, growable buffers, bounded string copies.
    \<^item> \<open>Constant_Time\<close> (internal.h): the branch-free masks, against the comparisons they stand for.
    \<^item> \<open>Base64\<close>, \<open>Base64_Spec\<close>, \<open>Base64_Stream\<close> (base64/base64.c): the alphabet, block and streaming encoders and
      decoders; the result does not depend on how the data is cut into calls.
    \<^item> \<open>Asn1_Utf8\<close>, \<open>Asn1_Mbstr\<close>, \<open>Asn1_Mbstr_Spec\<close> (asn1/a_utf8.c, asn1/a_mbstr.c, asn1/asn1_lib.c): UTF-8 and the
      conversion of strings to the smallest permitted ASN.1 string type, over lists of characters.

  \<^bold>\<open>Data structures and numbers.\<close>
    \<^item> \<open>Bio_Pair\<close>, \<open>Bio_Pair_Spec\<close> (bio/pair.c, bio/bio.c): two ring buffers; under any calls a pair is two
      FIFO queues.
    \<^item> \<open>Lhash\<close>, \<open>Lhash_Spec\<close> (lhash/lhash.c): the resizing hash table; under any calls and allocation
      failures it is a finite map. An iteration runs its callback, whose table calls it executes between the
      steps; a pointer of the iteration to a freed item makes it undefined.
    \<^item> \<open>Bignum\<close>, \<open>Bignum_Spec\<close>, \<open>Bignum_Bytes\<close> (fipsmodule/bn: bn.c, cmp.c, add.c, bytes.c, the word addition of
      generic.c): sign and magnitude numbers; comparison, addition and subtraction compute on the
      integers, in normal form, and bytes are positional notation.

  \<open>Prelude\<close> has the machine types, the byte and word lemmas (\<open>byte_simps\<close>) and the list lemmas they share. The
  contracts between components are locales, interpreted on the model's functions where these are
  defined: readers and writers of streams, FIFO queues and finite maps.

  \<^bold>\<open>Not modelled.\<close>
    \<^item> The nanopb code under \<open>PB_ENABLE_MALLOC\<close> (it is not compiled), and whether an address belongs to a C
      object: memory is total, and the theorems say which addresses are written.
    \<^item> Functions that only release memory (\<open>BUF_MEM_free\<close>, \<open>ASN1_STRING_free\<close>, \<open>lh_free\<close>), the error queue
      that BoringSSL functions push reasons to, and locks.
    \<^item> The rest of BoringSSL: multiplication, division and modular arithmetic of numbers, ciphers and
      digests (for which the build has assembler versions), the ASN.1 codec, X.509 and TLS.
    \<^item> The pods in other languages (Objective-C, C++ and Swift) and the binary frameworks: gRPC, leveldb,
      Firebase, the Google, Facebook and Twitter SDKs, SDWebImage.
\<close>

end
